(* ===== verification/Prelude.thy ===== *)
theory Prelude
  imports Main "HOL-Library.Word" "HOL-Library.Signed_Division"
begin

text \<open>
  Shared vocabulary of the development: the machine integer types of the C sources, facts on
  words built from two halves (the carries, borrows, products and shifts that multi-word
  arithmetic relies on), and readings of words as natural and signed numbers.
\<close>

unbundle bit_operations_syntax

type_synonym u8 = "8 word"
type_synonym u16 = "16 word"
type_synonym u32 = "32 word"
type_synonym u64 = "64 word"
type_synonym u128 = "128 word"

lemma word_cat_ring:
  "(word_cat (h :: 'a::len word) (l :: 'a word) :: 'b::len word) = ucast h * 2 ^ LENGTH('a) + ucast l"
  by (simp add: word_cat_eq push_bit_eq_mult)

lemma unat_lt2p: "unat (x :: 'a::len word) < 2 ^ LENGTH('a)"
  by (rule unsigned_less)

lemma ucast_as_of_nat: "(ucast (x :: 'a::len word) :: 'b::len word) = of_nat (unat x)"
  by simp

lemma nat_mod_wrap: "B \<le> k \<Longrightarrow> k < 2 * B \<Longrightarrow> k mod B = k - (B :: nat)"
  by (simp add: le_mod_geq)

lemma pow_nat_double: "(2::nat) ^ (2 * n) = 2 ^ n * 2 ^ n"
  by (simp add: mult_2 power_add)

lemma unat_word_cat:
  assumes "LENGTH('b::len) = 2 * LENGTH('a::len)"
  shows "unat (word_cat h l :: 'b word) = unat (h :: 'a word) * 2 ^ LENGTH('a) + unat (l :: 'a word)"
proof -
  let ?B = "(2::nat) ^ LENGTH('a)"
  have h: "unat h + 1 \<le> ?B" and l: "unat l < ?B"
    using unat_lt2p [of h, THEN Suc_leI] unat_lt2p [of l] by simp_all
  have "unat h * ?B + unat l < (unat h + 1) * ?B"
    using l by simp
  also have "\<dots> \<le> ?B * ?B"
    using h by (rule mult_le_mono1)
  finally have lt: "unat h * ?B + unat l < 2 ^ LENGTH('b)"
    by (simp add: assms pow_nat_double)
  have "(word_cat h l :: 'b word) = word_of_nat (unat h * ?B + unat l)"
    by (simp add: word_cat_ring)
  then show ?thesis using lt by (simp only: unat_of_nat mod_less)
qed

lemma double_pow_zero:
  assumes "LENGTH('b::len) = 2 * LENGTH('a::len)"
  shows "(2 :: 'b word) ^ LENGTH('a) * 2 ^ LENGTH('a) = 0"
proof -
  have "(2 :: 'b word) ^ LENGTH('a) * 2 ^ LENGTH('a) = 2 ^ LENGTH('b)"
    by (simp add: assms mult_2 power_add)
  then show ?thesis by simp
qed

lemma of_nat_hi:
  assumes "LENGTH('b::len) = 2 * LENGTH('a::len)"
  shows "(of_nat (k mod 2 ^ LENGTH('a)) :: 'b word) * 2 ^ LENGTH('a) = of_nat k * 2 ^ LENGTH('a)"
proof -
  let ?B = "(2::nat) ^ LENGTH('a)"
  have "(of_nat k :: 'b word) = of_nat (k div ?B * ?B + k mod ?B)" by (simp only: div_mult_mod_eq)
  then have "(of_nat k :: 'b word) * 2 ^ LENGTH('a)
    = of_nat (k div ?B) * (2 ^ LENGTH('a) * 2 ^ LENGTH('a)) + of_nat (k mod ?B) * 2 ^ LENGTH('a)"
    by (simp only: of_nat_add of_nat_mult of_nat_power of_nat_numeral distrib_right mult.assoc)
  then show ?thesis by (simp add: double_pow_zero [OF assms])
qed

lemma ucast_hi:
  assumes "LENGTH('b::len) = 2 * LENGTH('a::len)"
  shows ucast_add_hi: "(ucast (x + y :: 'a word) :: 'b word) * 2 ^ LENGTH('a) = (ucast x + ucast y) * 2 ^ LENGTH('a)"
    and ucast_sub_hi: "(ucast (x - y :: 'a word) :: 'b word) * 2 ^ LENGTH('a) = (ucast x - ucast y) * 2 ^ LENGTH('a)"
    and ucast_mul_hi: "(ucast (x * y :: 'a word) :: 'b word) * 2 ^ LENGTH('a) = (ucast x * ucast y) * 2 ^ LENGTH('a)"
proof -
  show add: "(ucast (x + y :: 'a word) :: 'b word) * 2 ^ LENGTH('a) = (ucast x + ucast y) * 2 ^ LENGTH('a)" for x y
    by (simp only: ucast_as_of_nat unat_word_ariths of_nat_hi [OF assms] of_nat_add of_nat_mult)
  show "(ucast (x * y :: 'a word) :: 'b word) * 2 ^ LENGTH('a) = (ucast x * ucast y) * 2 ^ LENGTH('a)"
    by (simp only: ucast_as_of_nat unat_word_ariths of_nat_hi [OF assms] of_nat_add of_nat_mult)
  show "(ucast (x - y :: 'a word) :: 'b word) * 2 ^ LENGTH('a) = (ucast x - ucast y) * 2 ^ LENGTH('a)"
    using add [of "x - y" y] by (simp add: algebra_simps)
qed

lemma ucast_add_lo:
  assumes "LENGTH('b::len) = 2 * LENGTH('a::len)"
  shows "(ucast (x + y :: 'a word) :: 'b word) = ucast x + ucast y - (if x + y < x then 2 ^ LENGTH('a) else 0)"
proof -
  let ?B = "(2::nat) ^ LENGTH('a)"
  show ?thesis
  proof (cases "unat x + unat y < ?B")
    case True
    then have "unat (x + y) = unat x + unat y" by (simp add: unat_word_ariths)
    then show ?thesis by (simp only: ucast_as_of_nat word_less_nat_alt) simp
  next
    case False
    then have ge: "?B \<le> unat x + unat y" by simp
    have "unat x + unat y < 2 * ?B"
      using unat_lt2p [of x] unat_lt2p [of y] by linarith
    with ge have wrap: "unat (x + y) + ?B = unat x + unat y"
      by (simp add: unat_word_ariths nat_mod_wrap)
    then have "(ucast x + ucast y :: 'b word) = ucast (x + y) + 2 ^ LENGTH('a)"
      unfolding ucast_as_of_nat by (metis of_nat_add of_nat_numeral of_nat_power)
    moreover have "x + y < x"
      using wrap unat_lt2p [of y] unfolding word_less_nat_alt by linarith
    ultimately show ?thesis by simp
  qed
qed

lemma ucast_sub_lo:
  assumes "LENGTH('b::len) = 2 * LENGTH('a::len)"
  shows "(ucast (x - y :: 'a word) :: 'b word) = ucast x - ucast y + (if x < x - y then 2 ^ LENGTH('a) else 0)"
proof -
  have "x - y + y < x - y \<longleftrightarrow> x < x - y" by simp
  then show ?thesis
    using ucast_add_lo [OF assms, of "x - y" y] by (simp add: algebra_simps split: if_splits)
qed

lemma word_cat_add:
  assumes "LENGTH('b::len) = 2 * LENGTH('a::len)"
  shows "(word_cat (h1 :: 'a word) l1 + word_cat (h2 :: 'a word) l2 :: 'b word)
    = word_cat (h1 + h2 + (if l1 + l2 < l1 then 1 else 0)) (l1 + l2 :: 'a word)"
  unfolding word_cat_ring
  by (simp only: ucast_add_hi [OF assms] ucast_add_lo [OF assms, of l1])
    (simp add: ucast_add_hi [OF assms] distrib_right)

lemma word_cat_sub:
  assumes "LENGTH('b::len) = 2 * LENGTH('a::len)"
  shows "(word_cat (h1 :: 'a word) l1 - word_cat (h2 :: 'a word) l2 :: 'b word)
    = word_cat (h1 - h2 - (if l1 < l1 - l2 then 1 else 0)) (l1 - l2 :: 'a word)"
  unfolding word_cat_ring
  by (simp only: ucast_sub_hi [OF assms] ucast_sub_lo [OF assms, of l1])
    (simp add: ucast_sub_hi [OF assms] left_diff_distrib)

lemma word_cat_mul:
  assumes "LENGTH('b::len) = 2 * LENGTH('a::len)"
  shows "(word_cat (h1 :: 'a word) l1 * word_cat (h2 :: 'a word) l2 :: 'b word)
    = (ucast (l1 * h2 + h1 * l2 :: 'a word)) * 2 ^ LENGTH('a) + ucast l1 * ucast l2"
  unfolding word_cat_ring
  by (simp only: ucast_add_hi [OF assms] ucast_mul_hi [OF assms] distrib_left distrib_right)
    (simp add: algebra_simps double_pow_zero [OF assms])

lemma word_cat_less_iff:
  assumes "LENGTH('b::len) = 2 * LENGTH('a::len)"
  shows "(word_cat h1 l1 < (word_cat h2 l2 :: 'b word)) \<longleftrightarrow> (h1 :: 'a word) < h2 \<or> (h1 = h2 \<and> l1 < (l2 :: 'a word))"
proof -
  let ?B = "(2::nat) ^ LENGTH('a)"
  have less: "a * ?B + unat l < b * ?B + unat l'" if "a < b" for a b and l l' :: "'a word"
  proof -
    have "a * ?B + unat l < (a + 1) * ?B" using unat_lt2p [of l] by simp
    also have "\<dots> \<le> b * ?B" using that by (intro mult_le_mono1) simp
    finally show ?thesis by simp
  qed
  show ?thesis
    using less [of "unat h1" "unat h2" l1 l2] less [of "unat h2" "unat h1" l2 l1]
    unfolding word_less_nat_alt unat_word_cat [OF assms] word_unat_eq_iff
    by (cases "unat h1" "unat h2" rule: linorder_cases) auto
qed

lemma word_cat_eq_iff:
  assumes "LENGTH('b::len) = 2 * LENGTH('a::len)"
  shows "(word_cat h1 l1 = (word_cat h2 l2 :: 'b word)) \<longleftrightarrow> (h1 :: 'a word) = h2 \<and> l1 = (l2 :: 'a word)"
  using word_cat_less_iff [OF assms, of h1 l1 h2 l2] word_cat_less_iff [OF assms, of h2 l2 h1 l1]
  by (metis less_irrefl linorder_cases)

lemma unat_ucast_double:
  assumes "LENGTH('b::len) = 2 * LENGTH('a::len)"
  shows "unat (ucast (x :: 'a word) :: 'b word) = unat x"
proof -
  have "unat x < 2 ^ LENGTH('b)"
    using unat_lt2p [of x] power_increasing [of "LENGTH('a)" "LENGTH('b)" "2::nat"] assms
    by linarith
  then show ?thesis unfolding ucast_as_of_nat by (simp only: unat_of_nat mod_less)
qed

lemma schoolbook_carry:
  fixes al bl bh r2 B :: nat
  assumes al: "al < B" and bl: "bl < B" and bh: "bh < B" and r2: "r2 < B * B"
    and r1: "r1 = al * bh + al * bl div B" and s: "s = (r1 + r2) mod (B * B)"
  shows "r1 < B * B" and "r1 + r2 = s + (if s < r2 then B * B else 0)"
proof -
  have "al * bl div B < B"
    using al bl by (simp add: less_mult_imp_div_less mult_strict_mono)
  moreover have "al * bh \<le> (B - 1) * (B - 1)" using al bh by (intro mult_le_mono) auto
  moreover have "(B - 1) * (B - 1) + B \<le> B * B" using al by (cases B) auto
  ultimately show lt: "r1 < B * B" unfolding r1 by linarith
  show "r1 + r2 = s + (if s < r2 then B * B else 0)"
  proof (cases "r1 + r2 < B * B")
    case True
    then show ?thesis unfolding s by simp
  next
    case False
    then have "s = r1 + r2 - B * B"
      unfolding s using lt r2 by (intro nat_mod_wrap) auto
    then show ?thesis using False lt by auto
  qed
qed

lemma schoolbook:
  fixes al ah bl bh r2 B :: nat
  assumes al: "al < B" and ah: "ah < B" and bl: "bl < B" and bh: "bh < B"
    and r1: "r1 = al * bh + al * bl div B" and s: "s = (r1 + ah * bl) mod (B * B)"
    and hi: "hi = ah * bh + (if s < ah * bl then B else 0) + s div B"
    and lo: "lo = (s mod B) * B + al * bl mod B"
  shows "hi * (B * B) + lo = (ah * B + al) * (bh * B + bl)" and "hi < B * B" and "lo < B * B"
proof -
  have r2: "ah * bl < B * B" using ah bl by (intro mult_strict_mono) auto
  note carry = schoolbook_carry [OF al bl bh r2 r1 s]
  have sdiv: "s div B * (B * B) + s mod B * B = s * B"
    by (metis div_mult_mod_eq distrib_right mult.assoc)
  have adiv: "al * bl div B * B + al * bl mod B = al * bl" by simp
  have "hi * (B * B) + lo = ah * bh * (B * B) + (s + (if s < ah * bl then B * B else 0)) * B + al * bl mod B"
    unfolding hi lo using sdiv by (simp add: algebra_simps)
  also have "\<dots> = ah * bh * (B * B) + (al * bh + ah * bl) * B + (al * bl div B * B + al * bl mod B)"
    unfolding carry(2) [symmetric] r1 by (simp only: distrib_right add.assoc add.commute add.left_commute)
  also have "\<dots> = (ah * B + al) * (bh * B + bl)"
    unfolding adiv by (simp add: algebra_simps)
  finally show eq: "hi * (B * B) + lo = (ah * B + al) * (bh * B + bl)" .
  have less: "h * B + l < B * B" if "h < B" "l < B" for h l
  proof -
    have "h * B + l < (h + 1) * B" using that by simp
    also have "\<dots> \<le> B * B" using that by (intro mult_le_mono1) simp
    finally show ?thesis .
  qed
  have "hi * (B * B) \<le> (ah * B + al) * (bh * B + bl)" unfolding eq [symmetric] by simp
  also have "\<dots> < (B * B) * (B * B)"
    using less [OF ah al] less [OF bh bl] al by (intro mult_strict_mono) auto
  finally show "hi < B * B" by simp
  show "lo < B * B" unfolding lo using al by (intro less) auto
qed

lemma bit_cat:
  fixes h l :: "'a::len word"
  assumes "LENGTH('b::len) = 2 * LENGTH('a)"
  shows "bit (word_cat h l :: 'b word) k \<longleftrightarrow>
    (if k < LENGTH('a) then bit l k else bit h (k - LENGTH('a)))"
  using assms by (auto simp: bit_word_cat_iff dest: bit_imp_le_length)

lemma word_cat_push_len:
  fixes h l :: "'a::len word"
  assumes "LENGTH('b::len) = 2 * LENGTH('a)"
  shows "push_bit LENGTH('a) (word_cat h l :: 'b word) = word_cat l (0 :: 'a word)"
  using assms by (intro bit_word_eqI) (auto simp: bit_push_bit_iff bit_cat [OF assms] not_le)

lemma word_cat_drop_len:
  fixes h l :: "'a::len word"
  assumes "LENGTH('b::len) = 2 * LENGTH('a)"
  shows "drop_bit LENGTH('a) (word_cat h l :: 'b word) = word_cat (0 :: 'a word) h"
  by (intro bit_word_eqI)
    (auto simp: bit_drop_bit_eq bit_cat [OF assms] bit_ucast_iff dest: bit_imp_le_length)

lemma word_cat_sdrop_len:
  fixes h l :: "'a::len word"
  assumes "LENGTH('b::len) = 2 * LENGTH('a)"
  shows "signed_drop_bit LENGTH('a) (word_cat h l :: 'b word)
    = word_cat (signed_drop_bit (LENGTH('a) - 1) h) h"
proof (rule bit_word_eqI)
  fix k assume "k < LENGTH('b)"
  then show "bit (signed_drop_bit LENGTH('a) (word_cat h l :: 'b word)) k
    \<longleftrightarrow> bit (word_cat (signed_drop_bit (LENGTH('a) - 1) h) h :: 'b word) k"
    using assms
    by (auto simp: bit_signed_drop_bit_iff bit_cat [OF assms] not_le)
qed

lemma word_cat_push_bit:
  fixes h l :: "'a::len word"
  assumes "LENGTH('b::len) = 2 * LENGTH('a)" and s: "s < LENGTH('a)"
  shows "push_bit s (word_cat h l :: 'b word)
    = word_cat (or (push_bit s h) (drop_bit (LENGTH('a) - s) l)) (push_bit s l)"
proof (rule bit_word_eqI)
  fix k assume k: "k < LENGTH('b)"
  show "bit (push_bit s (word_cat h l :: 'b word)) k \<longleftrightarrow>
    bit (word_cat (or (push_bit s h) (drop_bit (LENGTH('a) - s) l)) (push_bit s l) :: 'b word) k"
  proof (cases "k < LENGTH('a)")
    case True
    then show ?thesis using s k by (auto simp: bit_cat [OF assms(1)] bit_push_bit_iff)
  next
    case False
    then obtain j where j: "k = LENGTH('a) + j" using le_Suc_ex by (auto simp: not_less)
    with k assms(1) have "j < LENGTH('a)" by simp
    have eq: "LENGTH('a) - s + j = LENGTH('a) + j - s" using s by simp
    show ?thesis
      using s k assms(1) \<open>j < _\<close>
      by (auto simp: j bit_cat [OF assms(1)] bit_push_bit_iff bit_drop_bit_eq bit_or_iff eq not_le dest: bit_imp_le_length)
  qed
qed
lemma bit_cat_drop:
  fixes h l :: "'a::len word"
  assumes "LENGTH('b::len) = 2 * LENGTH('a)" and s: "s < LENGTH('a)" and k: "k < LENGTH('a)"
  shows "bit (word_cat h l :: 'b word) (s + k) \<longleftrightarrow> bit (or (drop_bit s l) (push_bit (LENGTH('a) - s) h)) k"
proof (cases "s + k < LENGTH('a)")
  case True
  then show ?thesis
    by (auto simp: bit_cat [OF assms(1)] bit_push_bit_iff bit_drop_bit_eq bit_or_iff)
next
  case False
  then have "s + k - LENGTH('a) = k - (LENGTH('a) - s)" using s by linarith
  with False k show ?thesis
    by (auto simp: bit_cat [OF assms(1)] bit_push_bit_iff bit_drop_bit_eq bit_or_iff dest: bit_imp_le_length)
qed

lemma word_cat_drop_bit:
  fixes h l :: "'a::len word"
  assumes "LENGTH('b::len) = 2 * LENGTH('a)" and s: "s < LENGTH('a)"
  shows "drop_bit s (word_cat h l :: 'b word)
    = word_cat (drop_bit s h) (or (drop_bit s l) (push_bit (LENGTH('a) - s) h))"
proof (rule bit_word_eqI)
  fix k assume k: "k < LENGTH('b)"
  show "bit (drop_bit s (word_cat h l :: 'b word)) k \<longleftrightarrow>
    bit (word_cat (drop_bit s h) (or (drop_bit s l) (push_bit (LENGTH('a) - s) h)) :: 'b word) k"
    using bit_cat_drop [OF assms, of k h l]
    by (cases "k < LENGTH('a)") (simp_all add: bit_cat [OF assms(1)] bit_drop_bit_eq add.commute)
qed

lemma word_cat_sdrop_bit:
  fixes h l :: "'a::len word"
  assumes "LENGTH('b::len) = 2 * LENGTH('a)" and s: "s < LENGTH('a)"
  shows "signed_drop_bit s (word_cat h l :: 'b word)
    = word_cat (signed_drop_bit s h) (or (drop_bit s l) (push_bit (LENGTH('a) - s) h))"
proof (rule bit_word_eqI)
  fix k assume k: "k < LENGTH('b)"
  show "bit (signed_drop_bit s (word_cat h l :: 'b word)) k \<longleftrightarrow>
    bit (word_cat (signed_drop_bit s h) (or (drop_bit s l) (push_bit (LENGTH('a) - s) h)) :: 'b word) k"
  proof (cases "k < LENGTH('a)")
    case True
    with s assms(1) have "\<not> LENGTH('b) - s \<le> k" by linarith
    with True show ?thesis
      using bit_cat_drop [OF assms, of k h l]
      by (simp add: bit_cat [OF assms(1), of _ "or _ _"] bit_signed_drop_bit_iff)
  next
    case False
    then have "s + k - LENGTH('a) = s + (k - LENGTH('a))" by simp
    with False s k show ?thesis
      using assms(1) by (auto simp: bit_cat [OF assms(1)] bit_signed_drop_bit_iff)
  qed
qed

lemma add_eq_or_push_drop:
  fixes x y :: "'a::len word"
  shows "s \<le> LENGTH('a) \<Longrightarrow> push_bit s x + drop_bit (LENGTH('a) - s) y = or (push_bit s x) (drop_bit (LENGTH('a) - s) y)"
  by (rule disjunctive_add) (auto simp: bit_simps dest: bit_imp_le_length)

lemma add_eq_or_drop_push:
  fixes x y :: "'a::len word"
  shows "s \<le> LENGTH('a) \<Longrightarrow> drop_bit s x + push_bit (LENGTH('a) - s) y = or (drop_bit s x) (push_bit (LENGTH('a) - s) y)"
  by (rule disjunctive_add) (auto simp: bit_simps dest: bit_imp_le_length)

lemma sint_neg_iff_bit: "sint (x :: 'a::len word) < 0 \<longleftrightarrow> bit x (LENGTH('a) - 1)"
  by (simp add: sint_uint signed_take_bit_negative_iff bit_uint_iff)

lemma sint_split: "sint (x :: 'a::len word) = uint x - (if bit x (LENGTH('a) - 1) then 2 ^ LENGTH('a) else 0)"
  by (simp add: sint_uint signed_take_bit_eq_take_bit_minus bit_uint_iff take_bit_int_eq_self)

lemma word_less_signed_cases:
  "(if sint a < 0 \<and> \<not> sint b < 0 then True
    else if \<not> sint a < 0 \<and> sint b < 0 then False else a < b) \<longleftrightarrow> sint a < sint (b :: 'a::len word)"
  by (auto simp: sint_split word_less_def split: if_splits)

lemma unat_and_mask: "unat (x AND mask n) = unat x mod 2 ^ n"
  unfolding take_bit_eq_mask [symmetric] unsigned_take_bit_eq by (rule take_bit_eq_mod)

lemma unat_shiftr: "unat (drop_bit n x) = unat x div 2 ^ n"
  unfolding unat_drop_bit_eq by (rule drop_bit_eq_div)

lemma unat_mult_lt: "unat x * unat y < 2 ^ LENGTH('a) \<Longrightarrow> unat (x * y :: 'a::len word) = unat x * unat y"
  by (simp add: unat_word_ariths)

lemma unat_add_lt: "unat x + unat y < 2 ^ LENGTH('a) \<Longrightarrow> unat (x + y :: 'a::len word) = unat x + unat y"
  by (simp add: unat_word_ariths)

lemma unat_push_half:
  assumes "LENGTH('w::len) = 2 * k"
  shows "unat (push_bit k (x :: 'w word)) = unat x mod 2 ^ k * 2 ^ k"
proof -
  have "unat (push_bit k x) = take_bit (2 * k) (push_bit k (unat x))"
    by (simp add: unsigned_push_bit_eq assms)
  then show ?thesis
    by (simp only: take_bit_eq_mod push_bit_eq_mult pow_nat_double mod_mult_mult2)
qed

lemma word_schoolbook:
  fixes r0 r1 r2 r3 s :: "'w::len word"
  assumes len: "LENGTH('w) = 2 * k"
    and b: "al < 2 ^ k" "ah < 2 ^ k" "bl < 2 ^ k" "bh < 2 ^ k"
    and r: "unat r0 = al * bl" "unat r1 = al * bh" "unat r2 = ah * bl" "unat r3 = ah * bh"
    and s: "s = r1 + drop_bit k r0 + r2"
    and hi: "hi = (if s < r2 then r3 + 2 ^ k else r3) + drop_bit k s"
    and lo: "lo = push_bit k s + (r0 AND mask k)"
  shows "unat hi * 2 ^ (2 * k) + unat lo = (ah * 2 ^ k + al) * (bh * 2 ^ k + bl)"
proof -
  let ?B = "2 ^ k :: nat"
  have B2: "2 ^ LENGTH('w) = ?B * ?B" by (simp only: len pow_nat_double)
  define t where "t = al * bh + al * bl div ?B"
  define u where "u = (t + ah * bl) mod (?B * ?B)"
  have r2: "ah * bl < ?B * ?B" using b by (intro mult_strict_mono) auto
  have "t < ?B * ?B" by (rule schoolbook_carry(1) [OF b(1,3,4) r2 t_def u_def])
  then have "unat (r1 + drop_bit k r0) = t"
    by (subst unat_add_lt) (simp_all only: B2 r unat_shiftr t_def)
  then have su: "unat s = u"
    unfolding s u_def unat_word_ariths(1) [of "r1 + drop_bit k r0"] B2 by (simp only: r)
  define h l where "h = ah * bh + (if u < ah * bl then ?B else 0) + u div ?B"
    and "l = (u mod ?B) * ?B + al * bl mod ?B"
  note sb = schoolbook [OF b(1,2,3,4) t_def u_def h_def l_def]
  have r3: "r3 = word_of_nat (ah * bh)" by (simp flip: r)
  have sh: "drop_bit k s = word_of_nat (u div ?B)" by (simp flip: su unat_shiftr)
  have "hi = word_of_nat h"
    unfolding hi h_def word_less_nat_alt su r(3) by (simp add: r3 sh)
  then have "unat hi = h" using sb(2) by (simp only: unat_of_nat B2 mod_less)
  moreover have "unat lo = l"
  proof -
    have "unat (push_bit k s) + unat (r0 AND mask k) = l"
      by (simp only: unat_push_half [OF len] unat_and_mask su r l_def)
    then show ?thesis using sb(3) unfolding lo by (subst unat_add_lt) (simp_all only: B2)
  qed
  ultimately show ?thesis using sb(1) by (simp only: pow_nat_double)
qed

lemma half_bounds: "unat (a :: 'w::len word) mod 2 ^ k < 2 ^ k" "LENGTH('w) = 2 * k \<Longrightarrow> unat a div 2 ^ k < 2 ^ k"
  using unat_lt2p [of a] by (simp_all add: pow_nat_double less_mult_imp_div_less)

lemma push_half_mask: "LENGTH('w::len) = 2 * k \<Longrightarrow> push_bit k ((x :: 'w word) AND mask k) = push_bit k x"
  unfolding word_unat_eq_iff by (simp only: unat_push_half unat_and_mask mod_mod_trivial)

lemma scast_hi: "(scast (x :: 'a::len word) :: 'b::len word) = ucast x - (if sint x < 0 then 2 ^ LENGTH('a) else 0)"
proof -
  have "(scast x :: 'b word) = word_of_int (sint x)" by simp
  also have "sint x = uint x - (if sint x < 0 then 2 ^ LENGTH('a) else 0)"
    by (simp add: sint_split sint_neg_iff_bit)
  finally show ?thesis by simp
qed

lemma signed_product:
  fixes a b :: "'a::len word"
  assumes "LENGTH('b::len) = 2 * LENGTH('a)"
  shows "(ucast a * ucast b :: 'b word)
      - ucast ((if sint a < 0 then b else 0) + (if sint b < 0 then a else 0)) * 2 ^ LENGTH('a)
    = scast a * scast b"
  unfolding scast_hi
  by (simp add: ucast_add_hi [OF assms] algebra_simps double_pow_zero [OF assms])

lemma msb_iff_ge: "bit (x :: 'a::len word) (LENGTH('a) - 1) \<longleftrightarrow> 2 ^ (LENGTH('a) - 1) \<le> unat x"
proof -
  have "unat x < 2 * 2 ^ (LENGTH('a) - 1)"
    using unat_lt2p [of x] by (simp flip: power_Suc)
  then have "unat x div 2 ^ (LENGTH('a) - 1) < 2"
    by (simp add: less_mult_imp_div_less)
  moreover have "bit x (LENGTH('a) - 1) \<longleftrightarrow> odd (unat x div 2 ^ (LENGTH('a) - 1))"
    using bit_unsigned_iff [of x "LENGTH('a) - 1", where 'a = nat] by (simp add: bit_iff_odd [of "unat x"])
  moreover have "0 < unat x div 2 ^ (LENGTH('a) - 1) \<longleftrightarrow> 2 ^ (LENGTH('a) - 1) \<le> unat x"
    by (simp add: div_greater_zero_iff)
  ultimately show ?thesis by (auto simp: less_2_cases_iff)
qed

lemma uint_abs_word: "uint (if sint a < 0 then - a else a) = \<bar>sint (a :: 'a::len word)\<bar>"
proof -
  have range: "- (2 ^ (LENGTH('a) - 1)) \<le> sint a" "sint a < 2 ^ (LENGTH('a) - 1)"
    using sint_greater_eq [of a] sint_less [of a] by simp_all
  have pow: "(2::int) ^ LENGTH('a) = 2 * 2 ^ (LENGTH('a) - 1)" by (simp flip: power_Suc)
  have "(if sint a < 0 then - a else a) = word_of_int \<bar>sint a\<bar>" by simp
  then show ?thesis
    using range pow by (simp only: uint_word_of_int) (simp add: mod_pos_pos_trivial)
qed

lemma sint_eq_zero_iff: "sint (x :: 'a::len word) = 0 \<longleftrightarrow> x = 0"
  using signed_word_eqI [of x 0] by auto

lemma word_sdiv:
  fixes a b q r :: "'a::len word"
  assumes q: "q = (if sint a < 0 then - a else a) div (if sint b < 0 then - b else b)"
    and r: "r = (if sint a < 0 then - a else a) mod (if sint b < 0 then - b else b)"
  shows "sint b \<noteq> 0 \<Longrightarrow> (if (sint a < 0) \<noteq> (sint b < 0) then - q else q) = word_of_int (sint a sdiv sint b)"
    and "(if sint a < 0 then - r else r) = word_of_int (sint a smod sint b)"
proof -
  have "uint q = \<bar>sint a\<bar> div \<bar>sint b\<bar>"
    unfolding q uint_div_distrib uint_abs_word ..
  then have qi: "q = word_of_int (\<bar>sint a\<bar> div \<bar>sint b\<bar>)" by (metis word_of_int_uint)
  have "uint r = \<bar>sint a\<bar> mod \<bar>sint b\<bar>"
    unfolding r uint_mod_distrib uint_abs_word ..
  then have ri: "r = word_of_int (\<bar>sint a\<bar> mod \<bar>sint b\<bar>)" by (metis word_of_int_uint)
  show "(if (sint a < 0) \<noteq> (sint b < 0) then - q else q) = word_of_int (sint a sdiv sint b)" if "sint b \<noteq> 0"
    using that unfolding qi signed_divide_int_def by (auto simp: sgn_if)
  show "(if sint a < 0 then - r else r) = word_of_int (sint a smod sint b)"
    unfolding ri signed_modulo_int_def by (auto simp: sgn_if)
qed

lemma unat_uminus: "v \<noteq> 0 \<Longrightarrow> unat (- v :: 'a::len word) = 2 ^ LENGTH('a) - unat v"
proof -
  assume "v \<noteq> 0"
  then have "2 ^ LENGTH('a) - unat v < 2 ^ LENGTH('a)" by (simp add: unat_gt_0)
  moreover have "- v = word_of_nat (2 ^ LENGTH('a) - unat v)"
    using unat_lt2p [of v, THEN less_imp_le] by (simp add: of_nat_diff)
  ultimately show ?thesis by (simp only: unat_of_nat mod_less)
qed

section \<open>Bytes of words\<close>

lemma byte_masks:
  "(0xff :: 'a::len word) = mask 8"
  "(0xff00 :: 'a::len word) = push_bit 8 (mask 8)"
  "(0xff0000 :: 'a::len word) = push_bit 16 (mask 8)"
  "(0xff000000 :: 'a::len word) = push_bit 24 (mask 8)"
  "(0xffff :: 'a::len word) = mask 16"
  "(0xffff0000 :: 'a::len word) = push_bit 16 (mask 16)"
  by (simp_all add: mask_eq_exp_minus_1 push_bit_eq_mult)

lemma bit_ge_length: "LENGTH('a) \<le> i \<Longrightarrow> \<not> bit (x :: 'a::len word) i"
  by (auto dest: bit_imp_le_length)

lemma swap_bytes_unat:
  assumes "16 \<le> LENGTH('a::len)"
  shows "unat (push_bit 8 (x AND 0xff) OR drop_bit 8 ((x :: 'a word) AND 0xff00)) =
    256 * (unat x mod 256) + unat x div 256 mod 256"
proof -
  have lo: "unat (push_bit 8 (x AND mask 8)) = 256 * (unat x mod 256)"
  proof -
    have "(2::nat) ^ 16 \<le> 2 ^ LENGTH('a)" by (rule power_increasing) (use assms in auto)
    then have "unat x mod 256 * 256 < 2 ^ LENGTH('a)"
      using mod_less_divisor[of 256 "unat x"] by simp
    then show ?thesis
      by (simp add: push_bit_eq_mult unat_word_ariths unat_and_mask mult.commute take_bit_eq_mod mod_mult_right_eq)
  qed
  have hi: "drop_bit 8 (x AND push_bit 8 (mask 8)) = drop_bit 8 x AND mask 8"
    by (rule bit_word_eqI) (use assms in \<open>auto simp: bit_simps add.commute bit_ge_length\<close>)
  have "push_bit 8 (x AND mask 8) OR (drop_bit 8 x AND mask 8) =
      push_bit 8 (x AND mask 8) + (drop_bit 8 x AND mask 8)"
    by (rule disjunctive_add [symmetric]) (auto simp: bit_simps)
  moreover have "unat (push_bit 8 (x AND mask 8) + (drop_bit 8 x AND mask 8)) =
      256 * (unat x mod 256) + unat x div 256 mod 256"
  proof (subst unat_add_lt)
    have "(2::nat) ^ 16 \<le> 2 ^ LENGTH('a)" by (rule power_increasing) (use assms in auto)
    then show "unat (push_bit 8 (x AND mask 8)) + unat (drop_bit 8 x AND mask 8) < 2 ^ LENGTH('a)"
      using mod_less_divisor[of 256 "unat x"] mod_less_divisor[of 256 "unat x div 256"]
      by (simp only: lo unat_and_mask) simp
  qed (simp only: lo unat_and_mask unat_shiftr, simp)
  ultimately show ?thesis by (simp only: byte_masks hi)
qed

lemma unat_ucast_up:
  "LENGTH('a::len) \<le> LENGTH('b::len) \<Longrightarrow> unat (ucast (x :: 'a word) :: 'b word) = unat x"
  unfolding unsigned_ucast_eq
  by (rule take_bit_nat_eq_self, rule less_le_trans [OF unat_lt2p]) simp

section \<open>Outcomes of the C code\<close>

text \<open>A function either returns, or one of its assertions fails, or one of its loops does not end.\<close>

datatype lwip_err = AssertFail string | Hang | NullDeref

type_synonym 'a lwip = "lwip_err + 'a"

definition lwip_assert :: "string \<Rightarrow> bool \<Rightarrow> 'a lwip \<Rightarrow> 'a lwip" where
  "lwip_assert message assertion k = (if assertion then k else Inl (AssertFail message))"

definition lwip_bind :: "'a lwip \<Rightarrow> ('a \<Rightarrow> 'b lwip) \<Rightarrow> 'b lwip" where
  "lwip_bind m k = (case m of Inl e \<Rightarrow> Inl e | Inr x \<Rightarrow> k x)"

definition lwip_loop :: "'a option \<Rightarrow> ('a \<Rightarrow> 'b lwip) \<Rightarrow> 'b lwip" where
  "lwip_loop m k = (case m of None \<Rightarrow> Inl Hang | Some x \<Rightarrow> k x)"

named_theorems lwip_outcome "evaluation of outcomes"

lemma lwip_assert_True [simp]: "assertion \<Longrightarrow> lwip_assert message assertion k = k"
  by (simp add: lwip_assert_def)

lemma lwip_bind_simps [simp]:
  "lwip_bind (Inr x) k = k x" "lwip_bind (Inl e) k = Inl e"
  by (simp_all add: lwip_bind_def)

lemma lwip_loop_simps [simp]:
  "lwip_loop (Some x) k = k x" "lwip_loop None k = Inl Hang"
  by (simp_all add: lwip_loop_def)

lemma lwip_assert_Inr [lwip_outcome]:
  "lwip_assert message assertion k = Inr x \<longleftrightarrow> assertion \<and> k = Inr x"
  by (simp add: lwip_assert_def)

lemma lwip_bind_Inr [lwip_outcome]:
  "lwip_bind m k = Inr y \<longleftrightarrow> (\<exists>x. m = Inr x \<and> k x = Inr y)"
  by (cases m) simp_all

lemma lwip_loop_Inr [lwip_outcome]:
  "lwip_loop m k = Inr y \<longleftrightarrow> (\<exists>x. m = Some x \<and> k x = Inr y)"
  by (cases m) simp_all

end
