(* ===== verification/Wideint.thy ===== *)
theory Wideint
  imports Prelude
begin

text \<open>
  The fallback high precision arithmetic of ns-3, src/core/model/cairo-wideint.c and
  cairo-wideint-private.h: 64-bit integers as pairs of 32-bit words, 128-bit integers as pairs
  of 64-bit integers, and the divisions. The C text of the 128-bit half is compiled against one
  of two 64-bit implementations; here it takes that implementation as a record of operations,
  \<open>native_uint64\<close> or \<open>struct_uint64\<close>. Signed values are kept as the bit patterns of words
  and read with \<open>sint\<close>, shift distances are natural numbers (a distance at or above the width is
  undefined in C and no property uses one).
\<close>

unbundle bit_operations_syntax

section \<open>Data: the structs of cairo-wideint-private.h\<close>

record cairo_uint64 =
  q_lo :: u32
  q_hi :: u32

record 'q cairo_uint128 =
  w_lo :: 'q
  w_hi :: 'q

record 'q cairo_quorem =
  qr_quo :: 'q
  qr_rem :: 'q

section \<open>64-bit integers as pairs of 32-bit words (the build without uint64_t)\<close>

definition cairo_uint32_to_uint64 :: "u32 \<Rightarrow> cairo_uint64" where
  "cairo_uint32_to_uint64 i = \<lparr>q_lo = i, q_hi = 0\<rparr>"

definition cairo_int32_to_int64 :: "u32 \<Rightarrow> cairo_uint64" where
  "cairo_int32_to_int64 i = \<lparr>q_lo = i, q_hi = (if sint i < 0 then - 1 else 0)\<rparr>"

definition cairo_uint32s_to_uint64 :: "u32 \<Rightarrow> u32 \<Rightarrow> cairo_uint64" where
  "cairo_uint32s_to_uint64 h l = \<lparr>q_lo = l, q_hi = h\<rparr>"

definition cairo_uint64_to_uint32 :: "cairo_uint64 \<Rightarrow> u32" where
  "cairo_uint64_to_uint32 a = q_lo a"

definition cairo_uint64_add :: "cairo_uint64 \<Rightarrow> cairo_uint64 \<Rightarrow> cairo_uint64" where
  "cairo_uint64_add a b =
     (let shi = q_hi a + q_hi b; slo = q_lo a + q_lo b
      in \<lparr>q_lo = slo, q_hi = (if slo < q_lo a then shi + 1 else shi)\<rparr>)"

definition cairo_uint64_sub :: "cairo_uint64 \<Rightarrow> cairo_uint64 \<Rightarrow> cairo_uint64" where
  "cairo_uint64_sub a b =
     (let shi = q_hi a - q_hi b; slo = q_lo a - q_lo b
      in \<lparr>q_lo = slo, q_hi = (if slo > q_lo a then shi - 1 else shi)\<rparr>)"

definition uint32_lo :: "u32 \<Rightarrow> u32" where
  "uint32_lo i = i AND 0xffff"

definition uint32_hi :: "u32 \<Rightarrow> u32" where
  "uint32_hi i = drop_bit 16 i"

definition uint32_carry16 :: u32 where
  "uint32_carry16 = push_bit 16 1"

definition cairo_uint32x32_64_mul :: "u32 \<Rightarrow> u32 \<Rightarrow> cairo_uint64" where
  "cairo_uint32x32_64_mul a b =
     (let al = ucast (uint32_lo a) :: u16; ah = ucast (uint32_hi a) :: u16;
          bl = ucast (uint32_lo b) :: u16; bh = ucast (uint32_hi b) :: u16;
          r0 = ucast al * ucast bl :: u32;
          r1 = ucast al * ucast bh :: u32;
          r2 = ucast ah * ucast bl :: u32;
          r3 = ucast ah * ucast bh :: u32;
          r1 = r1 + uint32_hi r0;
          r1 = r1 + r2;
          r3 = (if r1 < r2 then r3 + uint32_carry16 else r3)
      in \<lparr>q_lo = push_bit 16 (uint32_lo r1) + uint32_lo r0, q_hi = r3 + uint32_hi r1\<rparr>)"

definition cairo_int32x32_64_mul :: "u32 \<Rightarrow> u32 \<Rightarrow> cairo_uint64" where
  "cairo_int32x32_64_mul a b =
     (let s = cairo_uint32x32_64_mul a b;
          s = (if sint a < 0 then s\<lparr>q_hi := q_hi s - b\<rparr> else s)
      in if sint b < 0 then s\<lparr>q_hi := q_hi s - a\<rparr> else s)"

definition cairo_uint64_mul :: "cairo_uint64 \<Rightarrow> cairo_uint64 \<Rightarrow> cairo_uint64" where
  "cairo_uint64_mul a b =
     (let s = cairo_uint32x32_64_mul (q_lo a) (q_lo b)
      in s\<lparr>q_hi := q_hi s + (q_lo a * q_hi b + q_hi a * q_lo b)\<rparr>)"

definition cairo_uint64_lsl :: "cairo_uint64 \<Rightarrow> nat \<Rightarrow> cairo_uint64" where
  "cairo_uint64_lsl a shift =
     (let (a, shift) = (if shift \<ge> 32 then (\<lparr>q_lo = 0, q_hi = q_lo a\<rparr>, shift - 32) else (a, shift))
      in if shift \<noteq> 0
         then \<lparr>q_lo = push_bit shift (q_lo a),
               q_hi = push_bit shift (q_hi a) OR drop_bit (32 - shift) (q_lo a)\<rparr>
         else a)"

definition cairo_uint64_rsl :: "cairo_uint64 \<Rightarrow> nat \<Rightarrow> cairo_uint64" where
  "cairo_uint64_rsl a shift =
     (let (a, shift) = (if shift \<ge> 32 then (\<lparr>q_lo = q_hi a, q_hi = 0\<rparr>, shift - 32) else (a, shift))
      in if shift \<noteq> 0
         then \<lparr>q_lo = drop_bit shift (q_lo a) OR push_bit (32 - shift) (q_hi a),
               q_hi = drop_bit shift (q_hi a)\<rparr>
         else a)"

definition cairo_uint32_rsa :: "u32 \<Rightarrow> nat \<Rightarrow> u32" where
  "cairo_uint32_rsa a n = signed_drop_bit n a"

definition cairo_uint64_rsa :: "cairo_uint64 \<Rightarrow> nat \<Rightarrow> cairo_uint64" where
  "cairo_uint64_rsa a shift =
     (let (a, shift) =
        (if shift \<ge> 32 then (\<lparr>q_lo = q_hi a, q_hi = cairo_uint32_rsa (q_hi a) 31\<rparr>, shift - 32)
         else (a, shift))
      in if shift \<noteq> 0
         then \<lparr>q_lo = drop_bit shift (q_lo a) OR push_bit (32 - shift) (q_hi a),
               q_hi = cairo_uint32_rsa (q_hi a) shift\<rparr>
         else a)"

definition cairo_uint64_lt :: "cairo_uint64 \<Rightarrow> cairo_uint64 \<Rightarrow> bool" where
  "cairo_uint64_lt a b \<longleftrightarrow> q_hi a < q_hi b \<or> (q_hi a = q_hi b \<and> q_lo a < q_lo b)"

definition cairo_uint64_eq :: "cairo_uint64 \<Rightarrow> cairo_uint64 \<Rightarrow> bool" where
  "cairo_uint64_eq a b \<longleftrightarrow> q_hi a = q_hi b \<and> q_lo a = q_lo b"

definition cairo_int64_negative :: "cairo_uint64 \<Rightarrow> bool" where
  "cairo_int64_negative a \<longleftrightarrow> sint (q_hi a) < 0"

definition cairo_int64_lt :: "cairo_uint64 \<Rightarrow> cairo_uint64 \<Rightarrow> bool" where
  "cairo_int64_lt a b \<longleftrightarrow>
     (if cairo_int64_negative a \<and> \<not> cairo_int64_negative b then True
      else if \<not> cairo_int64_negative a \<and> cairo_int64_negative b then False
      else cairo_uint64_lt a b)"

definition cairo_uint64_not :: "cairo_uint64 \<Rightarrow> cairo_uint64" where
  "cairo_uint64_not a = \<lparr>q_lo = NOT (q_lo a), q_hi = NOT (q_hi a)\<rparr>"

definition cairo_uint64_negate :: "cairo_uint64 \<Rightarrow> cairo_uint64" where
  "cairo_uint64_negate a =
     (let l = NOT (q_lo a) + 1; h = NOT (q_hi a)
      in \<lparr>q_lo = l, q_hi = (if l = 0 then h + 1 else h)\<rparr>)"

text \<open>The two loops of \<open>_cairo_uint64_divrem\<close>. \<open>None\<close> is a loop that never ends.\<close>

partial_function (option) cairo_uint64_divrem_norm ::
  "cairo_uint64 \<Rightarrow> cairo_uint64 \<Rightarrow> cairo_uint64 \<Rightarrow> (cairo_uint64 \<times> cairo_uint64) option" where
  "cairo_uint64_divrem_norm num bt den =
     (if cairo_uint64_lt den num \<and> \<not> (q_hi den AND 0x80000000 \<noteq> 0)
      then cairo_uint64_divrem_norm num (cairo_uint64_lsl bt 1) (cairo_uint64_lsl den 1)
      else Some (bt, den))"

partial_function (option) cairo_uint64_divrem_gen ::
  "cairo_uint64 \<Rightarrow> cairo_uint64 \<Rightarrow> cairo_uint64 \<Rightarrow> cairo_uint64 \<Rightarrow> (cairo_uint64 \<times> cairo_uint64) option" where
  "cairo_uint64_divrem_gen num quo bt den =
     (if (q_hi bt OR q_lo bt) \<noteq> 0
      then (if \<not> cairo_uint64_lt num den
            then cairo_uint64_divrem_gen (cairo_uint64_sub num den) (cairo_uint64_add quo bt)
                   (cairo_uint64_rsl bt 1) (cairo_uint64_rsl den 1)
            else cairo_uint64_divrem_gen num quo (cairo_uint64_rsl bt 1) (cairo_uint64_rsl den 1))
      else Some (quo, num))"

definition cairo_uint64_divrem :: "cairo_uint64 \<Rightarrow> cairo_uint64 \<Rightarrow> cairo_uint64 cairo_quorem option" where
  "cairo_uint64_divrem num den =
     (case cairo_uint64_divrem_norm num (cairo_uint32_to_uint64 1) den of
        None \<Rightarrow> None
      | Some (bt, den) \<Rightarrow>
          (case cairo_uint64_divrem_gen num (cairo_uint32_to_uint64 0) bt den of
             None \<Rightarrow> None
           | Some (quo, num) \<Rightarrow> Some \<lparr>qr_quo = quo, qr_rem = num\<rparr>))"

section \<open>The 64-bit interface the 128-bit code is written against\<close>

text \<open>One field per function or macro that the 128-bit half of the file calls. The
  preprocessor symbol HAVE_UINT64_T selects which of the two records below is compiled in.
  The field \<open>o_mul32i\<close> is \<open>_cairo_uint32x32_64_mul\<close> applied to a second operand of type
  int32_t: the native build's macro converts that operand to uint64_t by sign extension, the
  other build's function takes it as a uint32_t. The division returns \<open>None\<close> where the C code yields no result: a division by zero traps in
  the native build and loops forever in the other.\<close>

record 'q uint64_ops =
  o_of_u32 :: "u32 \<Rightarrow> 'q"
  o_of_i32 :: "u32 \<Rightarrow> 'q"
  o_u32s :: "u32 \<Rightarrow> u32 \<Rightarrow> 'q"
  o_to_u32 :: "'q \<Rightarrow> u32"
  o_add :: "'q \<Rightarrow> 'q \<Rightarrow> 'q"
  o_sub :: "'q \<Rightarrow> 'q \<Rightarrow> 'q"
  o_mul :: "'q \<Rightarrow> 'q \<Rightarrow> 'q"
  o_mul32 :: "u32 \<Rightarrow> u32 \<Rightarrow> 'q"
  o_mul32i :: "u32 \<Rightarrow> u32 \<Rightarrow> 'q"
  o_lsl :: "'q \<Rightarrow> nat \<Rightarrow> 'q"
  o_rsl :: "'q \<Rightarrow> nat \<Rightarrow> 'q"
  o_rsa :: "'q \<Rightarrow> nat \<Rightarrow> 'q"
  o_lt :: "'q \<Rightarrow> 'q \<Rightarrow> bool"
  o_eq :: "'q \<Rightarrow> 'q \<Rightarrow> bool"
  o_not :: "'q \<Rightarrow> 'q"
  o_negate :: "'q \<Rightarrow> 'q"
  o_negative :: "'q \<Rightarrow> bool"
  o_divrem :: "'q \<Rightarrow> 'q \<Rightarrow> 'q cairo_quorem option"
  o_lo32 :: "'q \<Rightarrow> u32"
  o_hi32 :: "'q \<Rightarrow> u32"
  o_lo :: "'q \<Rightarrow> 'q"
  o_hi :: "'q \<Rightarrow> 'q"
  o_shift32 :: "'q \<Rightarrow> 'q"
  o_carry32 :: 'q
  o_msbset :: "'q \<Rightarrow> bool"

definition native_uint64_divrem :: "u64 \<Rightarrow> u64 \<Rightarrow> u64 cairo_quorem option" where
  "native_uint64_divrem num den =
     (if den = 0 then None else Some \<lparr>qr_quo = num div den, qr_rem = num mod den\<rparr>)"

definition native_uint64 :: "u64 uint64_ops" where
  "native_uint64 =
     \<lparr>o_of_u32 = ucast, o_of_i32 = scast, o_u32s = (\<lambda>h l. push_bit 32 (ucast h) OR ucast l),
      o_to_u32 = ucast, o_add = (+), o_sub = (-), o_mul = (*),
      o_mul32 = (\<lambda>a b. ucast a * ucast b), o_mul32i = (\<lambda>a b. ucast a * scast b),
      o_lsl = (\<lambda>a s. push_bit s a), o_rsl = (\<lambda>a s. drop_bit s a), o_rsa = (\<lambda>a s. signed_drop_bit s a),
      o_lt = (<), o_eq = (=), o_not = NOT, o_negate = uminus, o_negative = (\<lambda>a. sint a < 0),
      o_divrem = native_uint64_divrem,
      o_lo32 = (\<lambda>i. ucast (i AND 0xffffffff)), o_hi32 = (\<lambda>i. ucast (drop_bit 32 i)),
      o_lo = (\<lambda>i. i AND 0xffffffff), o_hi = (\<lambda>i. drop_bit 32 i), o_shift32 = (\<lambda>i. push_bit 32 i),
      o_carry32 = push_bit 32 1, o_msbset = (\<lambda>q. q AND push_bit 63 1 \<noteq> 0)\<rparr>"

definition uint64_lo :: "cairo_uint64 \<Rightarrow> cairo_uint64" where
  "uint64_lo i = \<lparr>q_lo = q_lo i, q_hi = 0\<rparr>"

definition uint64_hi :: "cairo_uint64 \<Rightarrow> cairo_uint64" where
  "uint64_hi i = \<lparr>q_lo = q_hi i, q_hi = 0\<rparr>"

definition uint64_shift32 :: "cairo_uint64 \<Rightarrow> cairo_uint64" where
  "uint64_shift32 i = \<lparr>q_lo = 0, q_hi = q_lo i\<rparr>"

definition uint64_carry32 :: cairo_uint64 where
  "uint64_carry32 = \<lparr>q_lo = 0, q_hi = 1\<rparr>"

definition struct_uint64 :: "cairo_uint64 uint64_ops" where
  "struct_uint64 =
     \<lparr>o_of_u32 = cairo_uint32_to_uint64, o_of_i32 = cairo_int32_to_int64,
      o_u32s = cairo_uint32s_to_uint64, o_to_u32 = cairo_uint64_to_uint32,
      o_add = cairo_uint64_add, o_sub = cairo_uint64_sub, o_mul = cairo_uint64_mul,
      o_mul32 = cairo_uint32x32_64_mul, o_mul32i = cairo_uint32x32_64_mul,
      o_lsl = cairo_uint64_lsl, o_rsl = cairo_uint64_rsl, o_rsa = cairo_uint64_rsa,
      o_lt = cairo_uint64_lt, o_eq = cairo_uint64_eq, o_not = cairo_uint64_not,
      o_negate = cairo_uint64_negate, o_negative = cairo_int64_negative,
      o_divrem = cairo_uint64_divrem,
      o_lo32 = q_lo, o_hi32 = q_hi, o_lo = uint64_lo, o_hi = uint64_hi,
      o_shift32 = uint64_shift32, o_carry32 = uint64_carry32,
      o_msbset = (\<lambda>q. q_hi q AND push_bit 31 1 \<noteq> 0)\<rparr>"

section \<open>Signed 64-bit division\<close>

definition cairo_int64_divrem :: "'q uint64_ops \<Rightarrow> 'q \<Rightarrow> 'q \<Rightarrow> 'q cairo_quorem option" where
  "cairo_int64_divrem ops num den =
     (let num_neg = o_negative ops num; den_neg = o_negative ops den;
          num = (if num_neg then o_negate ops num else num);
          den = (if den_neg then o_negate ops den else den)
      in case o_divrem ops num den of
           None \<Rightarrow> None
         | Some uqr \<Rightarrow> Some
             \<lparr>qr_quo = (if num_neg \<noteq> den_neg then o_negate ops (qr_quo uqr) else qr_quo uqr),
              qr_rem = (if num_neg then o_negate ops (qr_rem uqr) else qr_rem uqr)\<rparr>)"

section \<open>128-bit integers as pairs of 64-bit integers\<close>

definition cairo_uint32_to_uint128 :: "'q uint64_ops \<Rightarrow> u32 \<Rightarrow> 'q cairo_uint128" where
  "cairo_uint32_to_uint128 ops i = \<lparr>w_lo = o_of_u32 ops i, w_hi = o_of_u32 ops 0\<rparr>"

definition cairo_int32_to_int128 :: "'q uint64_ops \<Rightarrow> u32 \<Rightarrow> 'q cairo_uint128" where
  "cairo_int32_to_int128 ops i =
     \<lparr>w_lo = o_of_i32 ops i, w_hi = o_of_i32 ops (if sint i < 0 then - 1 else 0)\<rparr>"

definition cairo_uint64_to_uint128 :: "'q uint64_ops \<Rightarrow> 'q \<Rightarrow> 'q cairo_uint128" where
  "cairo_uint64_to_uint128 ops i = \<lparr>w_lo = i, w_hi = o_of_u32 ops 0\<rparr>"

definition cairo_int64_to_int128 :: "'q uint64_ops \<Rightarrow> 'q \<Rightarrow> 'q cairo_uint128" where
  "cairo_int64_to_int128 ops i =
     \<lparr>w_lo = i, w_hi = o_of_i32 ops (if o_negative ops i then - 1 else 0)\<rparr>"

definition cairo_uint128_add :: "'q uint64_ops \<Rightarrow> 'q cairo_uint128 \<Rightarrow> 'q cairo_uint128 \<Rightarrow> 'q cairo_uint128" where
  "cairo_uint128_add ops a b =
     (let shi = o_add ops (w_hi a) (w_hi b); slo = o_add ops (w_lo a) (w_lo b)
      in \<lparr>w_lo = slo,
          w_hi = (if o_lt ops slo (w_lo a) then o_add ops shi (o_of_u32 ops 1) else shi)\<rparr>)"

definition cairo_uint128_sub :: "'q uint64_ops \<Rightarrow> 'q cairo_uint128 \<Rightarrow> 'q cairo_uint128 \<Rightarrow> 'q cairo_uint128" where
  "cairo_uint128_sub ops a b =
     (let shi = o_sub ops (w_hi a) (w_hi b); slo = o_sub ops (w_lo a) (w_lo b)
      in \<lparr>w_lo = slo,
          w_hi = (if o_lt ops (w_lo a) slo then o_sub ops shi (o_of_u32 ops 1) else shi)\<rparr>)"

definition cairo_uint64x64_128_mul :: "'q uint64_ops \<Rightarrow> 'q \<Rightarrow> 'q \<Rightarrow> 'q cairo_uint128" where
  "cairo_uint64x64_128_mul ops a b =
     (let al = o_lo32 ops a; ah = o_hi32 ops a;
          bl = o_lo32 ops b; bh = o_hi32 ops b;
          r0 = o_mul32 ops al bl;
          r1 = o_mul32 ops al bh;
          r2 = o_mul32 ops ah bl;
          r3 = o_mul32 ops ah bh;
          r1 = o_add ops r1 (o_hi ops r0);
          r1 = o_add ops r1 r2;
          r3 = (if o_lt ops r1 r2 then o_add ops r3 (o_carry32 ops) else r3)
      in \<lparr>w_lo = o_add ops (o_shift32 ops r1) (o_lo ops r0), w_hi = o_add ops r3 (o_hi ops r1)\<rparr>)"

definition cairo_int64x64_128_mul :: "'q uint64_ops \<Rightarrow> 'q \<Rightarrow> 'q \<Rightarrow> 'q cairo_uint128" where
  "cairo_int64x64_128_mul ops a b =
     (let s = cairo_uint64x64_128_mul ops a b;
          s = (if o_negative ops a then s\<lparr>w_hi := o_sub ops (w_hi s) b\<rparr> else s)
      in if o_negative ops b then s\<lparr>w_hi := o_sub ops (w_hi s) a\<rparr> else s)"

definition cairo_uint128_mul :: "'q uint64_ops \<Rightarrow> 'q cairo_uint128 \<Rightarrow> 'q cairo_uint128 \<Rightarrow> 'q cairo_uint128" where
  "cairo_uint128_mul ops a b =
     (let s = cairo_uint64x64_128_mul ops (w_lo a) (w_lo b);
          s = s\<lparr>w_hi := o_add ops (w_hi s) (o_mul ops (w_lo a) (w_hi b))\<rparr>
      in s\<lparr>w_hi := o_add ops (w_hi s) (o_mul ops (w_hi a) (w_lo b))\<rparr>)"

definition cairo_uint128_lsl :: "'q uint64_ops \<Rightarrow> 'q cairo_uint128 \<Rightarrow> nat \<Rightarrow> 'q cairo_uint128" where
  "cairo_uint128_lsl ops a shift =
     (let (a, shift) =
        (if shift \<ge> 64 then (\<lparr>w_lo = o_of_u32 ops 0, w_hi = w_lo a\<rparr>, shift - 64) else (a, shift))
      in if shift \<noteq> 0
         then \<lparr>w_lo = o_lsl ops (w_lo a) shift,
               w_hi = o_add ops (o_lsl ops (w_hi a) shift) (o_rsl ops (w_lo a) (64 - shift))\<rparr>
         else a)"

definition cairo_uint128_rsl :: "'q uint64_ops \<Rightarrow> 'q cairo_uint128 \<Rightarrow> nat \<Rightarrow> 'q cairo_uint128" where
  "cairo_uint128_rsl ops a shift =
     (let (a, shift) =
        (if shift \<ge> 64 then (\<lparr>w_lo = w_hi a, w_hi = o_of_u32 ops 0\<rparr>, shift - 64) else (a, shift))
      in if shift \<noteq> 0
         then \<lparr>w_lo = o_add ops (o_rsl ops (w_lo a) shift) (o_lsl ops (w_hi a) (64 - shift)),
               w_hi = o_rsl ops (w_hi a) shift\<rparr>
         else a)"

definition cairo_uint128_rsa :: "'q uint64_ops \<Rightarrow> 'q cairo_uint128 \<Rightarrow> nat \<Rightarrow> 'q cairo_uint128" where
  "cairo_uint128_rsa ops a shift =
     (let (a, shift) =
        (if shift \<ge> 64 then (\<lparr>w_lo = w_hi a, w_hi = o_rsa ops (w_hi a) 63\<rparr>, shift - 64) else (a, shift))
      in if shift \<noteq> 0
         then \<lparr>w_lo = o_add ops (o_rsl ops (w_lo a) shift) (o_lsl ops (w_hi a) (64 - shift)),
               w_hi = o_rsa ops (w_hi a) shift\<rparr>
         else a)"

definition cairo_uint128_lt :: "'q uint64_ops \<Rightarrow> 'q cairo_uint128 \<Rightarrow> 'q cairo_uint128 \<Rightarrow> bool" where
  "cairo_uint128_lt ops a b \<longleftrightarrow>
     o_lt ops (w_hi a) (w_hi b) \<or> (o_eq ops (w_hi a) (w_hi b) \<and> o_lt ops (w_lo a) (w_lo b))"

definition cairo_int128_negative :: "'q uint64_ops \<Rightarrow> 'q cairo_uint128 \<Rightarrow> bool" where
  "cairo_int128_negative ops a \<longleftrightarrow> o_negative ops (w_hi a)"

definition cairo_int128_lt :: "'q uint64_ops \<Rightarrow> 'q cairo_uint128 \<Rightarrow> 'q cairo_uint128 \<Rightarrow> bool" where
  "cairo_int128_lt ops a b \<longleftrightarrow>
     (if cairo_int128_negative ops a \<and> \<not> cairo_int128_negative ops b then True
      else if \<not> cairo_int128_negative ops a \<and> cairo_int128_negative ops b then False
      else cairo_uint128_lt ops a b)"

definition cairo_uint128_eq :: "'q uint64_ops \<Rightarrow> 'q cairo_uint128 \<Rightarrow> 'q cairo_uint128 \<Rightarrow> bool" where
  "cairo_uint128_eq ops a b \<longleftrightarrow> o_eq ops (w_hi a) (w_hi b) \<and> o_eq ops (w_lo a) (w_lo b)"

partial_function (option) cairo_uint128_divrem_norm ::
  "'q uint64_ops \<Rightarrow> 'q cairo_uint128 \<Rightarrow> 'q cairo_uint128 \<Rightarrow> 'q cairo_uint128
    \<Rightarrow> ('q cairo_uint128 \<times> 'q cairo_uint128) option" where
  "cairo_uint128_divrem_norm ops num bt den =
     (if cairo_uint128_lt ops den num \<and> \<not> o_msbset ops (w_hi den)
      then cairo_uint128_divrem_norm ops num (cairo_uint128_lsl ops bt 1) (cairo_uint128_lsl ops den 1)
      else Some (bt, den))"

partial_function (option) cairo_uint128_divrem_gen ::
  "'q uint64_ops \<Rightarrow> 'q cairo_uint128 \<Rightarrow> 'q cairo_uint128 \<Rightarrow> 'q cairo_uint128 \<Rightarrow> 'q cairo_uint128
    \<Rightarrow> ('q cairo_uint128 \<times> 'q cairo_uint128) option" where
  "cairo_uint128_divrem_gen ops num quo bt den =
     (if \<not> cairo_uint128_eq ops bt (cairo_uint32_to_uint128 ops 0)
      then (if \<not> cairo_uint128_lt ops num den
            then cairo_uint128_divrem_gen ops (cairo_uint128_sub ops num den)
                   (cairo_uint128_add ops quo bt) (cairo_uint128_rsl ops bt 1) (cairo_uint128_rsl ops den 1)
            else cairo_uint128_divrem_gen ops num quo (cairo_uint128_rsl ops bt 1) (cairo_uint128_rsl ops den 1))
      else Some (quo, num))"

definition cairo_uint128_divrem ::
  "'q uint64_ops \<Rightarrow> 'q cairo_uint128 \<Rightarrow> 'q cairo_uint128 \<Rightarrow> 'q cairo_uint128 cairo_quorem option" where
  "cairo_uint128_divrem ops num den =
     (case cairo_uint128_divrem_norm ops num (cairo_uint32_to_uint128 ops 1) den of
        None \<Rightarrow> None
      | Some (bt, den) \<Rightarrow>
          (case cairo_uint128_divrem_gen ops num (cairo_uint32_to_uint128 ops 0) bt den of
             None \<Rightarrow> None
           | Some (quo, num) \<Rightarrow> Some \<lparr>qr_quo = quo, qr_rem = num\<rparr>))"

definition cairo_uint128_not :: "'q uint64_ops \<Rightarrow> 'q cairo_uint128 \<Rightarrow> 'q cairo_uint128" where
  "cairo_uint128_not ops a = \<lparr>w_lo = o_not ops (w_lo a), w_hi = o_not ops (w_hi a)\<rparr>"

definition cairo_uint128_negate :: "'q uint64_ops \<Rightarrow> 'q cairo_uint128 \<Rightarrow> 'q cairo_uint128" where
  "cairo_uint128_negate ops a =
     cairo_uint128_add ops \<lparr>w_lo = o_not ops (w_lo a), w_hi = o_not ops (w_hi a)\<rparr>
       (cairo_uint32_to_uint128 ops 1)"

definition cairo_int128_divrem ::
  "'q uint64_ops \<Rightarrow> 'q cairo_uint128 \<Rightarrow> 'q cairo_uint128 \<Rightarrow> 'q cairo_uint128 cairo_quorem option" where
  "cairo_int128_divrem ops num den =
     (let num_neg = cairo_int128_negative ops num; den_neg = cairo_int128_negative ops den;
          num = (if num_neg then cairo_uint128_negate ops num else num);
          den = (if den_neg then cairo_uint128_negate ops den else den)
      in case cairo_uint128_divrem ops num den of
           None \<Rightarrow> None
         | Some uqr \<Rightarrow> Some
             \<lparr>qr_quo = (if num_neg \<noteq> den_neg then cairo_uint128_negate ops (qr_quo uqr) else qr_quo uqr),
              qr_rem = (if num_neg then cairo_uint128_negate ops (qr_rem uqr) else qr_rem uqr)\<rparr>)"

section \<open>96 by 64 bit division\<close>

definition cairo_uint_96by64_32x64_divrem ::
  "'q uint64_ops \<Rightarrow> 'q cairo_uint128 \<Rightarrow> 'q \<Rightarrow> 'q cairo_quorem option" where
  "cairo_uint_96by64_32x64_divrem ops num den =
     (let B = o_u32s ops 1 0;
          x = w_lo (cairo_uint128_rsl ops num 32)
      in if \<not> o_lt ops x den
         then Some \<lparr>qr_quo = o_u32s ops 0xffffffff 0xffffffff, qr_rem = den\<rparr>
         else if o_lt ops x B then o_divrem ops (w_lo num) den
         else
           (let y = o_to_u32 ops (w_lo num);
                u = o_hi32 ops den;
                v = o_to_u32 ops den
            in case (if u + 1 \<noteq> 0
                     then (case o_divrem ops x (o_of_u32 ops (u + 1)) of
                             None \<Rightarrow> None
                           | Some quorem \<Rightarrow>
                               Some (o_to_u32 ops (qr_quo quorem), o_to_u32 ops (qr_rem quorem)))
                     else Some (o_hi32 ops x, o_to_u32 ops x)) of
                 None \<Rightarrow> None
               | Some (q, r) \<Rightarrow>
                   (case (if v \<noteq> 0 then o_divrem ops (o_mul32i ops q (- v)) den
                          else o_divrem ops (o_u32s ops q 0) den) of
                      None \<Rightarrow> None
                    | Some quorem \<Rightarrow>
                        (let quotient = q + o_to_u32 ops (qr_quo quorem);
                             remainder = o_u32s ops r y;
                             (remainder, quotient) =
                               (if \<not> o_lt ops remainder den
                                then (o_sub ops remainder den, quotient + 1)
                                else (remainder, quotient));
                             remainder = o_add ops remainder (qr_rem quorem);
                             (remainder, quotient) =
                               (if \<not> o_lt ops remainder den \<or> o_lt ops remainder (qr_rem quorem)
                                then (o_sub ops remainder den, quotient + 1)
                                else (remainder, quotient))
                         in Some \<lparr>qr_quo = o_of_u32 ops quotient, qr_rem = remainder\<rparr>))))"

definition cairo_int_96by64_32x64_divrem ::
  "'q uint64_ops \<Rightarrow> 'q cairo_uint128 \<Rightarrow> 'q \<Rightarrow> 'q cairo_quorem option" where
  "cairo_int_96by64_32x64_divrem ops num den =
     (let num_neg = cairo_int128_negative ops num; den_neg = o_negative ops den;
          num = (if num_neg then cairo_uint128_negate ops num else num);
          nonneg_den = (if den_neg then o_negate ops den else den)
      in case cairo_uint_96by64_32x64_divrem ops num nonneg_den of
           None \<Rightarrow> None
         | Some uqr \<Rightarrow>
             if o_eq ops (qr_rem uqr) nonneg_den
             then Some \<lparr>qr_quo = o_u32s ops 0x7fffffff 0xffffffff, qr_rem = den\<rparr>
             else Some
               \<lparr>qr_quo = (if num_neg \<noteq> den_neg then o_negate ops (qr_quo uqr) else qr_quo uqr),
                qr_rem = (if num_neg then o_negate ops (qr_rem uqr) else qr_rem uqr)\<rparr>)"

end
