(* ===== verification/Wideint_Correct.thy ===== *)
theory Wideint_Correct
  imports Wideint
begin

text \<open>
  Correctness of the wide integers. The locale \<open>bit_divider\<close> proves the shift and subtract
  division once, for any word representation; \<open>uint64_impl\<close> is the contract of the 64-bit layer
  that the 128-bit layer relies on, interpreted on both implementations; the 128-bit lemmas are
  proved once inside it.
\<close>

unbundle bit_operations_syntax

section \<open>Values\<close>

definition abs64 :: "cairo_uint64 \<Rightarrow> u64" where
  "abs64 a = word_cat (q_hi a) (q_lo a)"

definition abs128 :: "('q \<Rightarrow> u64) \<Rightarrow> 'q cairo_uint128 \<Rightarrow> u128" where
  "abs128 val a = word_cat (val (w_hi a)) (val (w_lo a))"

lemma len64: "LENGTH(64) = 2 * LENGTH(32)" by simp
lemma len128: "LENGTH(128) = 2 * LENGTH(64)" by simp

lemma abs64_add: "abs64 (cairo_uint64_add a b) = abs64 a + abs64 b"
  by (simp add: abs64_def cairo_uint64_add_def Let_def word_cat_add [OF len64])

lemma abs64_sub: "abs64 (cairo_uint64_sub a b) = abs64 a - abs64 b"
  by (simp add: abs64_def cairo_uint64_sub_def Let_def word_cat_sub [OF len64])

lemma abs64_lt: "cairo_uint64_lt a b \<longleftrightarrow> abs64 a < abs64 b"
  by (simp add: abs64_def cairo_uint64_lt_def word_cat_less_iff [OF len64])

lemma abs64_eq: "cairo_uint64_eq a b \<longleftrightarrow> abs64 a = abs64 b"
  by (simp add: abs64_def cairo_uint64_eq_def word_cat_eq_iff [OF len64])

lemma abs64_lsl: "s < 64 \<Longrightarrow> abs64 (cairo_uint64_lsl a s) = push_bit s (abs64 a)"
proof (cases "s < 32")
  case True
  then show ?thesis
    by (auto simp: abs64_def cairo_uint64_lsl_def word_cat_push_bit [OF len64])
next
  case False
  assume "s < 64"
  from False have "push_bit s (abs64 a) = push_bit (s - 32) (push_bit 32 (abs64 a))"
    by (simp add: push_bit_push_bit)
  also have "\<dots> = push_bit (s - 32) (word_cat (q_lo a) (0 :: u32))"
    using word_cat_push_len [OF len64, of "q_hi a" "q_lo a"] by (simp add: abs64_def)
  finally show ?thesis
    using False \<open>s < 64\<close>
    by (auto simp: abs64_def cairo_uint64_lsl_def word_cat_push_bit [OF len64])
qed

lemma abs64_rsl: "s < 64 \<Longrightarrow> abs64 (cairo_uint64_rsl a s) = drop_bit s (abs64 a)"
proof (cases "s < 32")
  case True
  then show ?thesis
    by (auto simp: abs64_def cairo_uint64_rsl_def word_cat_drop_bit [OF len64])
next
  case False
  assume "s < 64"
  from False have "drop_bit s (abs64 a) = drop_bit (s - 32) (drop_bit 32 (abs64 a))"
    by (simp add: drop_bit_drop_bit)
  also have "\<dots> = drop_bit (s - 32) (word_cat (0 :: u32) (q_hi a))"
    using word_cat_drop_len [OF len64, of "q_hi a" "q_lo a"] by (simp add: abs64_def)
  finally show ?thesis
    using False \<open>s < 64\<close>
    by (auto simp: abs64_def cairo_uint64_rsl_def word_cat_drop_bit [OF len64] ucast_drop_bit_eq)
qed

lemma abs64_rsa: "s < 64 \<Longrightarrow> abs64 (cairo_uint64_rsa a s) = signed_drop_bit s (abs64 a)"
proof (cases "s < 32")
  case True
  then show ?thesis
    by (auto simp: abs64_def cairo_uint64_rsa_def cairo_uint32_rsa_def word_cat_sdrop_bit [OF len64])
next
  case False
  assume "s < 64"
  from False have "signed_drop_bit s (abs64 a) = signed_drop_bit (s - 32) (signed_drop_bit 32 (abs64 a))"
    by (simp add: signed_drop_bit_signed_drop_bit)
  also have "\<dots> = signed_drop_bit (s - 32) (word_cat (signed_drop_bit 31 (q_hi a)) (q_hi a))"
    using word_cat_sdrop_len [OF len64, of "q_hi a" "q_lo a"] by (simp add: abs64_def)
  finally show ?thesis
    using False \<open>s < 64\<close>
    by (auto simp: abs64_def cairo_uint64_rsa_def cairo_uint32_rsa_def word_cat_sdrop_bit [OF len64])
qed

lemma abs64_of_u32: "abs64 (cairo_uint32_to_uint64 i) = ucast i"
  by (simp add: abs64_def cairo_uint32_to_uint64_def)

lemma abs64_u32s: "abs64 (cairo_uint32s_to_uint64 h l) = push_bit 32 (ucast h) OR ucast l"
  by (simp add: abs64_def cairo_uint32s_to_uint64_def word_cat_eq_push_bit_or)

lemma abs64_to_u32: "cairo_uint64_to_uint32 a = ucast (abs64 a)"
  by (rule bit_word_eqI) (auto simp: abs64_def cairo_uint64_to_uint32_def bit_ucast_iff bit_word_cat_iff)

lemma abs64_of_i32: "abs64 (cairo_int32_to_int64 i) = scast i"
  by (rule bit_word_eqI)
    (auto simp: abs64_def cairo_int32_to_int64_def sint_neg_iff_bit bit_word_cat_iff bit_signed_iff
      not_less dest: bit_imp_le_length)

lemma abs64_negative: "cairo_int64_negative a \<longleftrightarrow> sint (abs64 a) < 0"
  by (simp add: abs64_def cairo_int64_negative_def sint_neg_iff_bit bit_word_cat_iff)

lemma abs64_not: "abs64 (cairo_uint64_not a) = NOT (abs64 a)"
  by (rule bit_word_eqI) (auto simp: abs64_def cairo_uint64_not_def bit_word_cat_iff bit_not_iff)

lemma abs64_negate: "abs64 (cairo_uint64_negate a) = - abs64 a"
proof -
  have "- abs64 a = abs64 (cairo_uint64_not a) + abs64 (cairo_uint32_to_uint64 1)"
    by (simp add: abs64_not abs64_of_u32 minus_eq_not_plus_1)
  also have "\<dots> = abs64 (cairo_uint64_add (cairo_uint64_not a) (cairo_uint32_to_uint64 1))"
    by (simp add: abs64_add)
  also have "cairo_uint64_add (cairo_uint64_not a) (cairo_uint32_to_uint64 1) = cairo_uint64_negate a"
  proof -
    have "x + 1 < x \<longleftrightarrow> x + 1 = 0" for x :: u32
      by (simp add: word_less_nat_alt word_unat_eq_iff unat_word_ariths) (use unsigned_less [of x, where 'a = nat] in \<open>auto simp: mod_Suc\<close>)
    then show ?thesis
      by (simp add: cairo_uint64_add_def cairo_uint64_not_def cairo_uint32_to_uint64_def cairo_uint64_negate_def Let_def)
  qed
  finally show ?thesis by simp
qed

lemma abs64_int_lt: "cairo_int64_lt a b \<longleftrightarrow> sint (abs64 a) < sint (abs64 b)"
  unfolding cairo_int64_lt_def abs64_negative abs64_lt by (rule word_less_signed_cases)

lemma mask16: "(0xffff :: u32) = mask 16" by (simp add: mask_eq_exp_minus_1)

lemma unat_uint32_lo: "unat (uint32_lo a) = unat a mod 2 ^ 16"
  unfolding uint32_lo_def mask16 by (rule unat_and_mask)

lemma unat_uint32_hi: "unat (uint32_hi a) = unat a div 2 ^ 16"
  by (simp only: uint32_hi_def unat_shiftr)

lemma unat_half32: "unat x < 2 ^ 16 \<Longrightarrow> unat (ucast (ucast (x :: u32) :: u16) :: u32) = unat x"
  by (simp add: unsigned_ucast_eq unsigned_take_bit_eq take_bit_nat_eq_self)

lemma abs64_mul32: "abs64 (cairo_uint32x32_64_mul a b) = ucast a * ucast b"
proof -
  have len: "LENGTH(32) = 2 * 16" by simp
  have lt: "x * y < 2 ^ LENGTH(32)" if "x < 2 ^ 16" "y < 2 ^ 16" for x y :: nat
    using mult_strict_mono [OF that] by simp
  have half: "unat (ucast (ucast x :: u16) * ucast (ucast y :: u16) :: u32) = unat x * unat y"
    if "unat x < 2 ^ 16" "unat y < 2 ^ 16" for x y :: u32
    using that lt by (simp only: unat_mult_lt unat_half32)
  note bnd = half_bounds(1) [of a 16] half_bounds(2) [OF len, of a]
    half_bounds(1) [of b 16] half_bounds(2) [OF len, of b]
  note halves = half [of "uint32_lo a" "uint32_lo b", unfolded unat_uint32_lo unat_uint32_hi, OF bnd(1,3)]
    half [of "uint32_lo a" "uint32_hi b", unfolded unat_uint32_lo unat_uint32_hi, OF bnd(1,4)]
    half [of "uint32_hi a" "uint32_lo b", unfolded unat_uint32_lo unat_uint32_hi, OF bnd(2,3)]
    half [of "uint32_hi a" "uint32_hi b", unfolded unat_uint32_lo unat_uint32_hi, OF bnd(2,4)]
  note sb = word_schoolbook [OF len bnd halves refl refl refl]
  have carry: "uint32_carry16 = 2 ^ 16" by (simp add: uint32_carry16_def)
  let ?m = "cairo_uint32x32_64_mul a b"
  have "unat (q_hi ?m) * 2 ^ LENGTH(32) + unat (q_lo ?m) = unat a * unat b"
    using sb unfolding cairo_uint32x32_64_mul_def Let_def carry uint32_lo_def [of "_ + _"] mask16
      push_half_mask [OF len] uint32_hi_def [of "_ * _"] uint32_hi_def [of "_ + _"] uint32_lo_def [of "_ * _"]
    by (simp only: div_mult_mod_eq len cairo_uint64.simps)
  moreover have "unat (ucast a * ucast b :: u64) = unat a * unat b"
    using mult_strict_mono [OF unat_lt2p [of a] unat_lt2p [of b]]
    by (subst unat_mult_lt) (simp_all only: unat_ucast_double [OF len64] len64 pow_nat_double, simp_all)
  ultimately show ?thesis
    unfolding word_unat_eq_iff abs64_def by (simp only: unat_word_cat [OF len64])
qed

locale bit_divider =
  fixes val :: "'q \<Rightarrow> 'w::len word"
    and lt :: "'q \<Rightarrow> 'q \<Rightarrow> bool"
    and msb :: "'q \<Rightarrow> bool"
    and nonzero :: "'q \<Rightarrow> bool"
    and lsl1 :: "'q \<Rightarrow> 'q"
    and rsl1 :: "'q \<Rightarrow> 'q"
    and add :: "'q \<Rightarrow> 'q \<Rightarrow> 'q"
    and sub :: "'q \<Rightarrow> 'q \<Rightarrow> 'q"
    and norm :: "'q \<Rightarrow> 'q \<Rightarrow> 'q \<Rightarrow> ('q \<times> 'q) option"
    and gen :: "'q \<Rightarrow> 'q \<Rightarrow> 'q \<Rightarrow> 'q \<Rightarrow> ('q \<times> 'q) option"
  assumes lt: "lt a b \<longleftrightarrow> val a < val b"
    and msb: "msb a \<longleftrightarrow> 2 ^ (LENGTH('w) - 1) \<le> unat (val a)"
    and nonzero: "nonzero a \<longleftrightarrow> val a \<noteq> 0"
    and lsl1: "val (lsl1 a) = push_bit 1 (val a)"
    and rsl1: "val (rsl1 a) = drop_bit 1 (val a)"
    and add: "val (add a b) = val a + val b"
    and sub: "val (sub a b) = val a - val b"
    and norm: "norm num bt den =
      (if lt den num \<and> \<not> msb den then norm num (lsl1 bt) (lsl1 den) else Some (bt, den))"
    and gen: "gen num quo bt den =
      (if nonzero bt
       then (if \<not> lt num den then gen (sub num den) (add quo bt) (rsl1 bt) (rsl1 den)
             else gen num quo (rsl1 bt) (rsl1 den))
       else Some (quo, num))"
begin

lemma unat_lsl1: "2 * unat (val a) < 2 ^ LENGTH('w) \<Longrightarrow> unat (val (lsl1 a)) = 2 * unat (val a)"
  by (simp only: lsl1 push_bit_eq_mult power_one_right mult_2_right unat_word_ariths(1)) simp

lemma unat_rsl1: "unat (val (rsl1 a)) = unat (val a) div 2"
  unfolding rsl1 unat_drop_bit_eq by (simp add: drop_bit_eq_div)

lemma pow_len: "(2::nat) ^ LENGTH('w) = 2 * 2 ^ (LENGTH('w) - 1)"
  by (simp flip: power_Suc)

lemma norm_ok:
  assumes "unat (val bt) = 2 ^ k" and "unat (val den) = d * 2 ^ k" and "0 < d"
  shows "\<exists>k' b e. norm num bt den = Some (b, e) \<and> unat (val b) = 2 ^ k'
    \<and> unat (val e) = d * 2 ^ k' \<and> unat (val num) < 2 * unat (val e)"
  using assms
proof (induction "2 ^ LENGTH('w) - unat (val den)" arbitrary: bt den k rule: less_induct)
  case less
  have lim: "unat (val x) < 2 * 2 ^ (LENGTH('w) - 1)" for x
    using unat_lt2p [of "val x"] pow_len by simp
  show ?case
  proof (cases "lt den num \<and> \<not> msb den")
    case True
    then have small: "2 * unat (val den) < 2 ^ LENGTH('w)"
      unfolding pow_len by (simp add: msb)
    have pos: "0 < unat (val den)" using less.prems by simp
    have "unat (val bt) \<le> unat (val den)" using less.prems by simp
    with small have bt: "unat (val (lsl1 bt)) = 2 ^ Suc k"
      using less.prems(1) by (simp add: unat_lsl1)
    have den: "unat (val (lsl1 den)) = d * 2 ^ Suc k"
      using small less.prems(2) by (simp add: unat_lsl1)
    have "2 ^ LENGTH('w) - unat (val (lsl1 den)) < 2 ^ LENGTH('w) - unat (val den)"
      using small pos unat_lsl1 [OF small] by linarith
    from less.hyps [OF this bt den less.prems(3)] True show ?thesis
      by (subst norm) simp
  next
    case False
    have "0 < unat (val den)" using less.prems by simp
    with False have "unat (val num) < 2 * unat (val den)"
      using lim [of num] unfolding lt msb word_less_nat_alt by linarith
    moreover have "norm num bt den = Some (bt, den)" using False by (subst norm) (simp only: if_False)
    ultimately show ?thesis using less.prems by blast
  qed
qed

lemma gen_step:
  assumes "nonzero bt" and "0 < d" and "unat (val den) = d * unat (val bt)"
    and "unat (val num) < 2 * unat (val den)"
    and "unat (val quo) * d + unat (val num) = N" and "N < 2 ^ LENGTH('w)"
  obtains num' quo' where "gen num quo bt den = gen num' quo' (rsl1 bt) (rsl1 den)"
    and "unat (val num') < unat (val den)" and "unat (val quo') * d + unat (val num') = N"
proof (cases "lt num den")
  case True
  show thesis
  proof (rule that [of num quo])
    show "gen num quo bt den = gen num quo (rsl1 bt) (rsl1 den)"
      using True assms(1) by (subst gen) simp
    show "unat (val num) < unat (val den)"
      using True by (simp add: lt word_less_nat_alt)
  qed (rule assms(5))
next
  case False
  then have le: "val den \<le> val num" by (simp add: lt not_less)
  then have sub': "unat (val (sub num den)) = unat (val num) - unat (val den)"
    by (simp add: sub unat_sub)
  have le': "unat (val den) \<le> unat (val num)" using le by (simp add: word_le_nat_alt)
  have eq: "(unat (val quo) + unat (val bt)) * d + (unat (val num) - unat (val den)) = N"
    using assms le' by (simp add: algebra_simps)
  have "unat (val quo) + unat (val bt) \<le> (unat (val quo) + unat (val bt)) * d"
    using assms(2) by simp
  also have "\<dots> \<le> N" using eq by linarith
  finally have "unat (val quo) + unat (val bt) < 2 ^ LENGTH('w)" using assms(6) by linarith
  then have add': "unat (val (add quo bt)) = unat (val quo) + unat (val bt)"
    by (simp add: add unat_word_ariths)
  show thesis
  proof (rule that [of "sub num den" "add quo bt"])
    show "gen num quo bt den = gen (sub num den) (add quo bt) (rsl1 bt) (rsl1 den)"
      using False assms(1) by (subst gen) simp
    show "unat (val (sub num den)) < unat (val den)"
      using sub' le' assms(4) by linarith
    show "unat (val (add quo bt)) * d + unat (val (sub num den)) = N"
      using add' sub' eq by simp
  qed
qed

lemma gen_ok:
  assumes "unat (val bt) = 2 ^ j" and "unat (val den) = d * 2 ^ j" and "0 < d"
    and "unat (val num) < 2 * unat (val den)"
    and "unat (val quo) * d + unat (val num) = N" and "N < 2 ^ LENGTH('w)"
  shows "\<exists>q r. gen num quo bt den = Some (q, r) \<and> unat (val q) = N div d \<and> unat (val r) = N mod d"
  using assms
proof (induction j arbitrary: bt den num quo)
  case (0 bt den num quo)
  have "nonzero bt" using "0.prems"(1) by (auto simp: nonzero)
  moreover have "unat (val den) = d * unat (val bt)" using "0.prems" by simp
  ultimately obtain num' quo' where step: "gen num quo bt den = gen num' quo' (rsl1 bt) (rsl1 den)"
    and r: "unat (val num') < d" and N: "unat (val quo') * d + unat (val num') = N"
    using gen_step "0.prems" by (metis mult.right_neutral power_0)
  have "unat (val (rsl1 bt)) = 0" using "0.prems"(1) by (simp add: unat_rsl1)
  then have "gen num' quo' (rsl1 bt) (rsl1 den) = Some (quo', num')"
    by (subst gen) (simp add: nonzero unat_eq_0)
  moreover have "N div d = unat (val quo')" "N mod d = unat (val num')"
    using r N "0.prems"(3) by (auto simp flip: N)
  ultimately show ?case using step by simp
next
  case (Suc j)
  have "nonzero bt" using Suc.prems(1) by (auto simp: nonzero)
  moreover have "unat (val den) = d * unat (val bt)" using Suc.prems by simp
  ultimately obtain num' quo' where step: "gen num quo bt den = gen num' quo' (rsl1 bt) (rsl1 den)"
    and r: "unat (val num') < unat (val den)" and N: "unat (val quo') * d + unat (val num') = N"
    using gen_step Suc.prems by metis
  have b: "unat (val (rsl1 bt)) = 2 ^ j" and e: "unat (val (rsl1 den)) = d * 2 ^ j"
    using Suc.prems by (simp_all add: unat_rsl1)
  have "unat (val num') < 2 * unat (val (rsl1 den))" using r Suc.prems(2) e by simp
  from Suc.IH [OF b e Suc.prems(3) this N Suc.prems(6)] show ?case using step by simp
qed

theorem divide:
  assumes "val den \<noteq> 0" and "val one = 1" and "val zero = 0"
  shows "\<exists>b e q r. norm num one den = Some (b, e) \<and> gen num zero b e = Some (q, r)
    \<and> val q = val num div val den \<and> val r = val num mod val den"
proof -
  have pos: "0 < unat (val den)" using assms(1) by (simp add: unat_gt_0)
  from norm_ok [of one 0 den "unat (val den)" num] assms(2) pos
  obtain k b e where n: "norm num one den = Some (b, e)" and b: "unat (val b) = 2 ^ k"
    and e: "unat (val e) = unat (val den) * 2 ^ k" and lt: "unat (val num) < 2 * unat (val e)"
    by auto
  from gen_ok [OF b e pos lt, of zero] assms(3) unat_lt2p [of "val num"]
  obtain q r where g: "gen num zero b e = Some (q, r)"
    and "unat (val q) = unat (val num) div unat (val den)"
    and "unat (val r) = unat (val num) mod unat (val den)"
    by auto
  then have "val q = val num div val den" "val r = val num mod val den"
    by (simp_all add: word_unat_eq_iff unat_div_distrib unat_mod_distrib)
  with n g show ?thesis by blast
qed

end

lemma abs64_hi_add: "abs64 (s\<lparr>q_hi := q_hi s + x\<rparr>) = abs64 s + ucast x * 2 ^ LENGTH(32)"
  and abs64_hi_sub: "abs64 (s\<lparr>q_hi := q_hi s - x\<rparr>) = abs64 s - ucast x * 2 ^ LENGTH(32)"
proof -
  have upd: "abs64 (s\<lparr>q_hi := h\<rparr>) = ucast h * 2 ^ LENGTH(32) + ucast (q_lo s)" for h
    unfolding word_cat_ring [symmetric] by (simp add: abs64_def)
  have self: "abs64 s = ucast (q_hi s) * 2 ^ LENGTH(32) + ucast (q_lo s)"
    unfolding word_cat_ring [symmetric] by (simp add: abs64_def)
  show "abs64 (s\<lparr>q_hi := q_hi s + x\<rparr>) = abs64 s + ucast x * 2 ^ LENGTH(32)"
    unfolding upd self ucast_add_hi [OF len64] by (simp only: distrib_right add_ac)
  show "abs64 (s\<lparr>q_hi := q_hi s - x\<rparr>) = abs64 s - ucast x * 2 ^ LENGTH(32)"
    unfolding upd self ucast_sub_hi [OF len64] left_diff_distrib
    by (simp only: diff_conv_add_uminus add_ac)
qed

lemma abs64_mul: "abs64 (cairo_uint64_mul a b) = abs64 a * abs64 b"
proof -
  have "abs64 (cairo_uint64_mul a b) = abs64 (cairo_uint32x32_64_mul (q_lo a) (q_lo b))
      + ucast (q_lo a * q_hi b + q_hi a * q_lo b) * 2 ^ LENGTH(32)"
    by (simp only: cairo_uint64_mul_def Let_def abs64_hi_add)
  then show ?thesis
    unfolding abs64_mul32 by (simp only: abs64_def word_cat_mul [OF len64] add.commute)
qed

lemma abs64_imul32: "abs64 (cairo_int32x32_64_mul a b) = scast a * scast b"
proof -
  have "abs64 (cairo_int32x32_64_mul a b) = ucast a * ucast b
      - ((if sint a < 0 then ucast b else 0) + (if sint b < 0 then ucast a else 0)) * 2 ^ LENGTH(32)"
    by (simp only: cairo_int32x32_64_mul_def Let_def abs64_hi_sub abs64_mul32 split: if_split)
      (simp add: algebra_simps)
  then show ?thesis
    unfolding signed_product [OF len64, symmetric] ucast_add_hi [OF len64] by (simp split: if_split)
qed

lemma abs64_msb: "q_hi a AND 0x80000000 \<noteq> 0 \<longleftrightarrow> 2 ^ (LENGTH(64) - 1) \<le> unat (abs64 a)"
  unfolding msb_iff_ge [symmetric]
  using and_exp_eq_0_iff_not_bit [of "q_hi a" 31] by (simp add: abs64_def bit_word_cat_iff)

lemma abs64_nonzero: "(q_hi a OR q_lo a) \<noteq> 0 \<longleftrightarrow> abs64 a \<noteq> 0"
  using word_cat_eq_iff [OF len64, of "q_hi a" "q_lo a" 0 0] by (simp add: abs64_def or_eq_0_iff)

interpretation div64: bit_divider abs64 cairo_uint64_lt "\<lambda>a. q_hi a AND 0x80000000 \<noteq> 0"
  "\<lambda>a. (q_hi a OR q_lo a) \<noteq> 0" "\<lambda>a. cairo_uint64_lsl a 1" "\<lambda>a. cairo_uint64_rsl a 1"
  cairo_uint64_add cairo_uint64_sub cairo_uint64_divrem_norm cairo_uint64_divrem_gen
  by unfold_locales
    (rule abs64_lt abs64_msb abs64_nonzero abs64_lsl abs64_rsl abs64_add abs64_sub
      cairo_uint64_divrem_norm.simps cairo_uint64_divrem_gen.simps; simp)+

lemma abs64_divrem:
  assumes "abs64 den \<noteq> 0"
  shows "\<exists>qr. cairo_uint64_divrem num den = Some qr
    \<and> abs64 (qr_quo qr) = abs64 num div abs64 den \<and> abs64 (qr_rem qr) = abs64 num mod abs64 den"
  using div64.divide [of den "cairo_uint32_to_uint64 1" "cairo_uint32_to_uint64 0" num] assms
  by (auto simp: abs64_of_u32 cairo_uint64_divrem_def)

locale uint64_impl =
  fixes ops :: "'q uint64_ops" and val :: "'q \<Rightarrow> u64"
  assumes of_u32: "val (o_of_u32 ops i) = ucast i"
    and of_i32: "val (o_of_i32 ops i) = scast i"
    and u32s: "val (o_u32s ops h l) = word_cat h l"
    and to_u32: "o_to_u32 ops a = ucast (val a)"
    and add: "val (o_add ops a b) = val a + val b"
    and sub: "val (o_sub ops a b) = val a - val b"
    and mul: "val (o_mul ops a b) = val a * val b"
    and mul32: "val (o_mul32 ops i j) = ucast i * ucast j"
    and lsl: "s < 64 \<Longrightarrow> val (o_lsl ops a s) = push_bit s (val a)"
    and rsl: "s < 64 \<Longrightarrow> val (o_rsl ops a s) = drop_bit s (val a)"
    and rsa: "s < 64 \<Longrightarrow> val (o_rsa ops a s) = signed_drop_bit s (val a)"
    and lt: "o_lt ops a b \<longleftrightarrow> val a < val b"
    and eq: "o_eq ops a b \<longleftrightarrow> val a = val b"
    and lnot: "val (o_not ops a) = NOT (val a)"
    and negate: "val (o_negate ops a) = - val a"
    and negative: "o_negative ops a \<longleftrightarrow> sint (val a) < 0"
    and divrem: "val den \<noteq> 0 \<Longrightarrow> \<exists>qr. o_divrem ops num den = Some qr
          \<and> val (qr_quo qr) = val num div val den \<and> val (qr_rem qr) = val num mod val den"
    and lo32: "o_lo32 ops a = ucast (val a)"
    and hi32: "o_hi32 ops a = ucast (drop_bit 32 (val a))"
    and lo: "val (o_lo ops a) = val a AND mask 32"
    and hi: "val (o_hi ops a) = drop_bit 32 (val a)"
    and shift32: "val (o_shift32 ops a) = push_bit 32 (val a)"
    and carry32: "val (o_carry32 ops) = 2 ^ 32"
    and msbset: "o_msbset ops a \<longleftrightarrow> bit (val a) 63"
begin

lemma abs_of_u32: "abs128 val (cairo_uint32_to_uint128 ops i) = ucast i"
  by (rule bit_word_eqI) (auto simp: abs128_def cairo_uint32_to_uint128_def of_u32 bit_word_cat_iff bit_ucast_iff
    dest: bit_imp_le_length)

lemma abs_of_u64: "abs128 val (cairo_uint64_to_uint128 ops i) = ucast (val i)"
  by (simp add: abs128_def cairo_uint64_to_uint128_def of_u32)

lemma abs_of_i64: "abs128 val (cairo_int64_to_int128 ops i) = scast (val i)"
  by (rule bit_word_eqI)
    (auto simp: abs128_def cairo_int64_to_int128_def of_i32 negative sint_neg_iff_bit
      bit_word_cat_iff bit_signed_iff not_less dest: bit_imp_le_length)

lemma abs_of_i32: "abs128 val (cairo_int32_to_int128 ops i) = scast i"
  by (rule bit_word_eqI)
    (auto simp: abs128_def cairo_int32_to_int128_def of_i32 sint_neg_iff_bit
      bit_word_cat_iff bit_signed_iff not_less min_def dest: bit_imp_le_length split: if_splits)

lemma abs_add: "abs128 val (cairo_uint128_add ops a b) = abs128 val a + abs128 val b"
  by (simp add: abs128_def cairo_uint128_add_def Let_def word_cat_add [OF len128] add lt of_u32)

lemma abs_sub: "abs128 val (cairo_uint128_sub ops a b) = abs128 val a - abs128 val b"
  by (simp add: abs128_def cairo_uint128_sub_def Let_def word_cat_sub [OF len128] sub lt of_u32)

lemma abs_lt: "cairo_uint128_lt ops a b \<longleftrightarrow> abs128 val a < abs128 val b"
  by (simp add: abs128_def cairo_uint128_lt_def word_cat_less_iff [OF len128] lt eq)

lemma abs_eq: "cairo_uint128_eq ops a b \<longleftrightarrow> abs128 val a = abs128 val b"
  by (simp add: abs128_def cairo_uint128_eq_def word_cat_eq_iff [OF len128] eq)

lemma abs_not: "abs128 val (cairo_uint128_not ops a) = NOT (abs128 val a)"
  by (rule bit_word_eqI) (auto simp: abs128_def cairo_uint128_not_def lnot bit_word_cat_iff bit_not_iff)

lemma abs_negate: "abs128 val (cairo_uint128_negate ops a) = - abs128 val a"
  using abs_not [of a]
  by (simp add: cairo_uint128_negate_def abs_add abs_of_u32 cairo_uint128_not_def minus_eq_not_plus_1)

lemma abs_negative: "cairo_int128_negative ops a \<longleftrightarrow> sint (abs128 val a) < 0"
  by (simp add: abs128_def cairo_int128_negative_def negative sint_neg_iff_bit bit_word_cat_iff)

lemma abs_int_lt: "cairo_int128_lt ops a b \<longleftrightarrow> sint (abs128 val a) < sint (abs128 val b)"
  unfolding cairo_int128_lt_def abs_negative abs_lt by (rule word_less_signed_cases)

lemma abs_lsl: "s < 128 \<Longrightarrow> abs128 val (cairo_uint128_lsl ops a s) = push_bit s (abs128 val a)"
proof (cases "s < 64")
  case True
  then show ?thesis
    using add_eq_or_push_drop [where 'a = 64, of s]
    by (auto simp: abs128_def cairo_uint128_lsl_def word_cat_push_bit [OF len128] lsl rsl add)
next
  case False
  assume "s < 128"
  from False have "push_bit s (abs128 val a) = push_bit (s - 64) (push_bit 64 (abs128 val a))"
    by (simp add: push_bit_push_bit)
  also have "\<dots> = push_bit (s - 64) (word_cat (val (w_lo a)) (0 :: u64))"
    using word_cat_push_len [OF len128, of "val (w_hi a)" "val (w_lo a)"] by (simp add: abs128_def)
  finally show ?thesis
    using False \<open>s < 128\<close> add_eq_or_push_drop [where 'a = 64, of "s - 64"]
    by (auto simp: abs128_def cairo_uint128_lsl_def word_cat_push_bit [OF len128] lsl rsl add of_u32)
qed

lemma abs_rsl: "s < 128 \<Longrightarrow> abs128 val (cairo_uint128_rsl ops a s) = drop_bit s (abs128 val a)"
proof (cases "s < 64")
  case True
  then show ?thesis
    using add_eq_or_drop_push [where 'a = 64, of s]
    by (auto simp: abs128_def cairo_uint128_rsl_def word_cat_drop_bit [OF len128] lsl rsl add)
next
  case False
  assume "s < 128"
  from False have "drop_bit s (abs128 val a) = drop_bit (s - 64) (drop_bit 64 (abs128 val a))"
    by (simp add: drop_bit_drop_bit)
  also have "\<dots> = drop_bit (s - 64) (word_cat (0 :: u64) (val (w_hi a)))"
    using word_cat_drop_len [OF len128, of "val (w_hi a)" "val (w_lo a)"] by (simp add: abs128_def)
  finally show ?thesis
    using False \<open>s < 128\<close> add_eq_or_drop_push [where 'a = 64, of "s - 64"]
    by (auto simp: abs128_def cairo_uint128_rsl_def word_cat_drop_bit [OF len128] lsl rsl add of_u32
      ucast_drop_bit_eq)
qed

lemma abs_rsa: "s < 128 \<Longrightarrow> abs128 val (cairo_uint128_rsa ops a s) = signed_drop_bit s (abs128 val a)"
proof (cases "s < 64")
  case True
  then show ?thesis
    using add_eq_or_drop_push [where 'a = 64, of s]
    by (auto simp: abs128_def cairo_uint128_rsa_def word_cat_sdrop_bit [OF len128] lsl rsl rsa add)
next
  case False
  assume "s < 128"
  from False have "signed_drop_bit s (abs128 val a) = signed_drop_bit (s - 64) (signed_drop_bit 64 (abs128 val a))"
    by (simp add: signed_drop_bit_signed_drop_bit)
  also have "\<dots> = signed_drop_bit (s - 64) (word_cat (signed_drop_bit 63 (val (w_hi a))) (val (w_hi a)))"
    using word_cat_sdrop_len [OF len128, of "val (w_hi a)" "val (w_lo a)"] by (simp add: abs128_def)
  finally show ?thesis
    using False \<open>s < 128\<close> add_eq_or_drop_push [where 'a = 64, of "s - 64"]
    by (auto simp: abs128_def cairo_uint128_rsa_def word_cat_sdrop_bit [OF len128] lsl rsl rsa add)
qed

lemma half64: "unat (ucast (x :: u64) :: u32) = unat x mod 2 ^ 32"
  "unat (ucast (drop_bit 32 x) :: u32) = unat x div 2 ^ 32"
proof -
  show lo: "unat (ucast (x :: u64) :: u32) = unat x mod 2 ^ 32" for x
    by (simp add: unsigned_ucast_eq unsigned_take_bit_eq take_bit_eq_mod)
  have "unat x div 2 ^ 32 < 2 ^ 32" by (rule half_bounds(2)) simp
  then show "unat (ucast (drop_bit 32 x) :: u32) = unat x div 2 ^ 32"
    unfolding lo unat_shiftr by (rule mod_less)
qed

lemma unat_mul32: "unat (val (o_mul32 ops i j)) = unat i * unat j"
proof -
  have "unat i * unat j < 2 ^ LENGTH(32) * 2 ^ LENGTH(32)"
    by (intro mult_strict_mono unat_lt2p) auto
  then show ?thesis
    unfolding mul32 by (subst unat_mult_lt) (simp_all only: unat_ucast_double [OF len64] len64 pow_nat_double)
qed

lemma abs_mul64: "abs128 val (cairo_uint64x64_128_mul ops a b) = ucast (val a) * ucast (val b)"
proof -
  have len: "LENGTH(64) = 2 * 32" by simp
  let ?a = "unat (val a)" and ?b = "unat (val b)"
  note bnd = half_bounds(1) [of "val a" 32] half_bounds(2) [OF len, of "val a"]
    half_bounds(1) [of "val b" 32] half_bounds(2) [OF len, of "val b"]
  have r: "unat (val (o_mul32 ops (o_lo32 ops a) (o_lo32 ops b))) = (?a mod 2 ^ 32) * (?b mod 2 ^ 32)"
    "unat (val (o_mul32 ops (o_lo32 ops a) (o_hi32 ops b))) = (?a mod 2 ^ 32) * (?b div 2 ^ 32)"
    "unat (val (o_mul32 ops (o_hi32 ops a) (o_lo32 ops b))) = (?a div 2 ^ 32) * (?b mod 2 ^ 32)"
    "unat (val (o_mul32 ops (o_hi32 ops a) (o_hi32 ops b))) = (?a div 2 ^ 32) * (?b div 2 ^ 32)"
    by (simp_all only: unat_mul32 lo32 hi32 half64(2)) (simp_all only: half64(1))
  note sb = word_schoolbook [OF len bnd r refl refl refl]
  let ?m = "cairo_uint64x64_128_mul ops a b"
  have "unat (val (w_hi ?m)) * 2 ^ LENGTH(64) + unat (val (w_lo ?m)) = ?a * ?b"
    using sb unfolding cairo_uint64x64_128_mul_def Let_def
    by (simp only: div_mult_mod_eq len cairo_uint128.simps add lt lo hi shift32 carry32 if_distrib [of val] if_distrib [of "\<lambda>x. x + _"])
  moreover have "unat (ucast (val a) * ucast (val b) :: u128) = ?a * ?b"
    using mult_strict_mono [OF unat_lt2p [of "val a"] unat_lt2p [of "val b"]]
    by (subst unat_mult_lt) (simp_all only: unat_ucast_double [OF len128] len128 pow_nat_double, simp_all)
  ultimately show ?thesis
    unfolding word_unat_eq_iff abs128_def by (simp only: unat_word_cat [OF len128])
qed

lemma abs_hi: "val h = val (w_hi s) + x \<Longrightarrow> abs128 val (s\<lparr>w_hi := h\<rparr>) = abs128 val s + ucast x * 2 ^ LENGTH(64)"
  "val h = val (w_hi s) - x \<Longrightarrow> abs128 val (s\<lparr>w_hi := h\<rparr>) = abs128 val s - ucast x * 2 ^ LENGTH(64)"
proof -
  have upd: "abs128 val (s\<lparr>w_hi := h\<rparr>) = ucast (val h) * 2 ^ LENGTH(64) + ucast (val (w_lo s))"
    unfolding word_cat_ring [symmetric] by (simp add: abs128_def)
  have self: "abs128 val s = ucast (val (w_hi s)) * 2 ^ LENGTH(64) + ucast (val (w_lo s))"
    unfolding word_cat_ring [symmetric] by (simp add: abs128_def)
  show "val h = val (w_hi s) + x \<Longrightarrow> abs128 val (s\<lparr>w_hi := h\<rparr>) = abs128 val s + ucast x * 2 ^ LENGTH(64)"
    unfolding upd self by (simp only: ucast_add_hi [OF len128] distrib_right add_ac)
  show "val h = val (w_hi s) - x \<Longrightarrow> abs128 val (s\<lparr>w_hi := h\<rparr>) = abs128 val s - ucast x * 2 ^ LENGTH(64)"
    unfolding upd self
    by (simp only: ucast_sub_hi [OF len128] left_diff_distrib) (simp only: diff_conv_add_uminus add_ac)
qed

lemma abs_mul: "abs128 val (cairo_uint128_mul ops a b) = abs128 val a * abs128 val b"
proof -
  have "abs128 val (cairo_uint128_mul ops a b) = ucast (val (w_lo a)) * ucast (val (w_lo b))
      + ucast (val (w_lo a) * val (w_hi b)) * 2 ^ LENGTH(64) + ucast (val (w_hi a) * val (w_lo b)) * 2 ^ LENGTH(64)"
    unfolding cairo_uint128_mul_def Let_def abs_mul64 [symmetric]
    by (simp only: abs_hi(1) [OF add] mul)
  then show ?thesis
    by (simp only: abs128_def word_cat_mul [OF len128] ucast_add_hi [OF len128] distrib_right add_ac)
qed

lemma abs_imul64: "abs128 val (cairo_int64x64_128_mul ops a b) = scast (val a) * scast (val b)"
proof -
  have "abs128 val (cairo_int64x64_128_mul ops a b) = ucast (val a) * ucast (val b)
      - ((if sint (val a) < 0 then ucast (val b) else 0) + (if sint (val b) < 0 then ucast (val a) else 0)) * 2 ^ LENGTH(64)"
    by (simp only: cairo_int64x64_128_mul_def Let_def abs_hi(2) [OF sub] abs_mul64 negative split: if_split)
      (simp add: algebra_simps)
  then show ?thesis
    unfolding signed_product [OF len128, symmetric] ucast_add_hi [OF len128] by (simp split: if_split)
qed

lemma abs_msbset: "o_msbset ops (w_hi a) \<longleftrightarrow> 2 ^ (LENGTH(128) - 1) \<le> unat (abs128 val a)"
  unfolding msb_iff_ge [symmetric] by (simp add: msbset abs128_def bit_word_cat_iff)

lemma abs_nonzero: "\<not> cairo_uint128_eq ops a (cairo_uint32_to_uint128 ops 0) \<longleftrightarrow> abs128 val a \<noteq> 0"
  by (simp add: abs_eq abs_of_u32)

end

sublocale uint64_impl \<subseteq> div128: bit_divider "abs128 val" "cairo_uint128_lt ops" "\<lambda>a. o_msbset ops (w_hi a)"
  "\<lambda>a. \<not> cairo_uint128_eq ops a (cairo_uint32_to_uint128 ops 0)"
  "\<lambda>a. cairo_uint128_lsl ops a 1" "\<lambda>a. cairo_uint128_rsl ops a 1"
  "cairo_uint128_add ops" "cairo_uint128_sub ops"
  "cairo_uint128_divrem_norm ops" "cairo_uint128_divrem_gen ops"
  by unfold_locales
    (rule abs_lt abs_msbset abs_nonzero abs_lsl abs_rsl abs_add abs_sub
      cairo_uint128_divrem_norm.simps cairo_uint128_divrem_gen.simps; simp)+

context uint64_impl
begin

lemma abs_divrem:
  assumes "abs128 val den \<noteq> 0"
  shows "\<exists>qr. cairo_uint128_divrem ops num den = Some qr
    \<and> abs128 val (qr_quo qr) = abs128 val num div abs128 val den
    \<and> abs128 val (qr_rem qr) = abs128 val num mod abs128 val den"
  using div128.divide [of den "cairo_uint32_to_uint128 ops 1" "cairo_uint32_to_uint128 ops 0" num] assms
  by (auto simp: abs_of_u32 cairo_uint128_divrem_def)

end

lemma div96:
  fixes B D N M :: nat
  assumes D: "D = u * B + v" and v: "v < B" and xD: "x < D"
    and N: "N = x * B + y" and y: "y < B" and x: "x = q * (u + 1) + r" and r: "r \<le> u"
    and T: "T = r * B + y" and u: "0 < u"
    and c1: "c1 = (if D \<le> T then 1 else 0)" and R1: "R1 = T - c1 * D"
    and c2: "c2 = (if D \<le> R1 + M mod D then 1 else 0)" and R: "R = R1 + M mod D - c2 * D"
  shows "q < B" and "T < 2 * D" and "R1 < D" and "R < D"
    and "(q + M div D + c1 + c2) * D + R + q * (B - v) = N + M"
proof -
  have Dp: "0 < D" using xD by simp
  have "q * (u + 1) < (u + 1) * B" using x xD D v by simp
  then show q: "q < B" by (metis mult.commute mult_less_cancel2)
  have "r * B \<le> u * B" using r by simp
  moreover have "B \<le> u * B" using u by simp
  ultimately have "T < u * B + u * B" unfolding T using y by linarith
  then show T2: "T < 2 * D" unfolding D by simp
  then have T1: "T = c1 * D + R1" and R1D: "R1 < D"
    unfolding c1 R1 by (auto split: if_splits)
  from R1D show "R1 < D" .
  have "M mod D < D" using Dp by simp
  with R1D have "R1 + M mod D < 2 * D" by linarith
  then have R2: "R1 + M mod D = c2 * D + R" and RD: "R < D"
    unfolding c2 R by (auto split: if_splits)
  show "R < D" by (rule RD)
  have "q * v + q * (B - v) = q * B" using v by (simp flip: distrib_left)
  then have "N = q * D + q * (B - v) + T"
    unfolding N x T D by (simp add: algebra_simps)
  then have "N + M = q * (B - v) + (q * D + (M div D * D + M mod D) + (c1 * D + R1))"
    by (simp only: T1 div_mult_mod_eq)
  also have "\<dots> = q * (B - v) + ((q + M div D + c1) * D + (R1 + M mod D))"
    by (simp only: distrib_right add_ac)
  also have "\<dots> = q * (B - v) + ((q + M div D + c1 + c2) * D + R)"
    unfolding R2 by (simp only: distrib_right add_ac)
  finally show "(q + M div D + c1 + c2) * D + R + q * (B - v) = N + M" by simp
qed

context uint64_impl
begin

lemma abs_int_divrem:
  assumes "abs128 val den \<noteq> 0"
  shows "\<exists>qr. cairo_int128_divrem ops num den = Some qr
    \<and> abs128 val (qr_quo qr) = word_of_int (sint (abs128 val num) sdiv sint (abs128 val den))
    \<and> abs128 val (qr_rem qr) = word_of_int (sint (abs128 val num) smod sint (abs128 val den))"
proof -
  let ?n = "abs128 val num" and ?d = "abs128 val den"
  let ?num = "if cairo_int128_negative ops num then cairo_uint128_negate ops num else num"
  let ?den = "if cairo_int128_negative ops den then cairo_uint128_negate ops den else den"
  have n: "abs128 val ?num = (if sint ?n < 0 then - ?n else ?n)"
    and d: "abs128 val ?den = (if sint ?d < 0 then - ?d else ?d)"
    by (simp_all add: abs_negative abs_negate)
  then have "abs128 val ?den \<noteq> 0" using assms by simp
  from abs_divrem [OF this, of ?num] obtain qr where qr: "cairo_uint128_divrem ops ?num ?den = Some qr"
    and q: "abs128 val (qr_quo qr) = (if sint ?n < 0 then - ?n else ?n) div (if sint ?d < 0 then - ?d else ?d)"
    and r: "abs128 val (qr_rem qr) = (if sint ?n < 0 then - ?n else ?n) mod (if sint ?d < 0 then - ?d else ?d)"
    unfolding n d by blast
  have "sint ?d \<noteq> 0" using assms by (simp add: sint_eq_zero_iff)
  note sd = word_sdiv(1) [OF q r this] word_sdiv(2) [OF q r]
  show ?thesis
    unfolding cairo_int128_divrem_def Let_def qr
    using sd by (auto simp: abs_negative abs_negate split: if_splits)
qed

lemma abs_int64_divrem:
  assumes "val den \<noteq> 0"
  shows "\<exists>qr. cairo_int64_divrem ops num den = Some qr
    \<and> val (qr_quo qr) = word_of_int (sint (val num) sdiv sint (val den))
    \<and> val (qr_rem qr) = word_of_int (sint (val num) smod sint (val den))"
proof -
  let ?n = "val num" and ?d = "val den"
  let ?num = "if o_negative ops num then o_negate ops num else num"
  let ?den = "if o_negative ops den then o_negate ops den else den"
  have n: "val ?num = (if sint ?n < 0 then - ?n else ?n)"
    and d: "val ?den = (if sint ?d < 0 then - ?d else ?d)"
    by (simp_all add: negative negate)
  then have "val ?den \<noteq> 0" using assms by simp
  from divrem [OF this, of ?num] obtain qr where qr: "o_divrem ops ?num ?den = Some qr"
    and q: "val (qr_quo qr) = (if sint ?n < 0 then - ?n else ?n) div (if sint ?d < 0 then - ?d else ?d)"
    and r: "val (qr_rem qr) = (if sint ?n < 0 then - ?n else ?n) mod (if sint ?d < 0 then - ?d else ?d)"
    unfolding n d by blast
  have "sint ?d \<noteq> 0" using assms by (simp add: sint_eq_zero_iff)
  note sd = word_sdiv(1) [OF q r this] word_sdiv(2) [OF q r]
  show ?thesis
    unfolding cairo_int64_divrem_def Let_def qr
    using sd by (auto simp: negative negate split: if_splits)
qed

end

lemma mask32: "(0xffffffff :: u64) = mask 32" by (simp add: mask_eq_exp_minus_1)

interpretation native: uint64_impl native_uint64 "\<lambda>x. x"
proof
  show "\<exists>qr. o_divrem native_uint64 num den = Some qr \<and> qr_quo qr = num div den \<and> qr_rem qr = num mod den"
    if "den \<noteq> 0" for num den
    using that by (simp add: native_uint64_def native_uint64_divrem_def)
  show "o_lo32 native_uint64 a = ucast a" for a
    by (rule bit_word_eqI) (simp add: native_uint64_def mask32 bit_ucast_iff bit_and_iff bit_mask_iff)
  show "o_msbset native_uint64 a \<longleftrightarrow> bit a 63" for a
    using and_exp_eq_0_iff_not_bit [of a 63] by (simp add: native_uint64_def)
qed (simp_all add: native_uint64_def word_cat_eq_push_bit_or mask32)

interpretation struct: uint64_impl struct_uint64 abs64
proof
  show "o_hi32 struct_uint64 a = ucast (drop_bit 32 (abs64 a))" for a
    by (rule bit_word_eqI) (auto simp: struct_uint64_def abs64_def bit_ucast_iff bit_drop_bit_eq bit_word_cat_iff)
  show "o_lo32 struct_uint64 a = ucast (abs64 a)" for a
    using abs64_to_u32 [of a] by (simp add: struct_uint64_def cairo_uint64_to_uint32_def)
  show "abs64 (o_lo struct_uint64 a) = abs64 a AND mask 32" for a
    by (rule bit_word_eqI) (auto simp: struct_uint64_def abs64_def uint64_lo_def bit_word_cat_iff bit_and_iff bit_mask_iff bit_ucast_iff dest: bit_imp_le_length)
  show "abs64 (o_hi struct_uint64 a) = drop_bit 32 (abs64 a)" for a
    by (rule bit_word_eqI) (auto simp: struct_uint64_def abs64_def uint64_hi_def bit_word_cat_iff bit_drop_bit_eq bit_ucast_iff dest: bit_imp_le_length)
  show "abs64 (o_shift32 struct_uint64 a) = push_bit 32 (abs64 a)" for a
    using word_cat_push_len [OF len64, of "q_hi a" "q_lo a"]
    by (simp add: struct_uint64_def abs64_def uint64_shift32_def)
  show "o_msbset struct_uint64 a \<longleftrightarrow> bit (abs64 a) 63" for a
    using and_exp_eq_0_iff_not_bit [of "q_hi a" 31]
    by (simp add: struct_uint64_def abs64_def bit_word_cat_iff)
  show "abs64 (o_u32s struct_uint64 h l) = word_cat h l" for h l
    by (simp add: struct_uint64_def abs64_def cairo_uint32s_to_uint64_def)
qed (simp_all add: struct_uint64_def abs64_of_u32 abs64_of_i32 abs64_to_u32 abs64_add abs64_sub
  abs64_mul abs64_mul32 abs64_lsl abs64_rsl abs64_rsa abs64_lt abs64_eq abs64_not abs64_negate
  abs64_negative abs64_divrem uint64_carry32_def, simp_all add: abs64_def word_cat_ring)

context uint64_impl
begin

lemma unat_abs: "unat (abs128 val a) = unat (val (w_hi a)) * 2 ^ 64 + unat (val (w_lo a))"
  using unat_word_cat [OF len128, of "val (w_hi a)" "val (w_lo a)"] by (simp add: abs128_def)

lemma unat_lo: "unat (val (w_lo a)) = unat (abs128 val a) mod 2 ^ 64"
  using unat_lt2p [of "val (w_lo a)"] by (simp add: unat_abs)

lemma unat_x:
  assumes "unat (val (w_hi num)) < 2 ^ 32"
  shows "unat (val (w_lo (cairo_uint128_rsl ops num 32))) = unat (abs128 val num) div 2 ^ 32"
proof -
  have "unat (abs128 val num) < (unat (val (w_hi num)) + 1) * 2 ^ 64"
    using unat_lt2p [of "val (w_lo num)"] by (simp add: unat_abs)
  also have "\<dots> \<le> 2 ^ 32 * 2 ^ 64" using assms by (intro mult_le_mono1) simp
  finally have "unat (abs128 val num) div 2 ^ 32 < 2 ^ 64"
    by (simp add: less_mult_imp_div_less)
  moreover have "unat (abs128 val (cairo_uint128_rsl ops num 32)) = unat (abs128 val num) div 2 ^ 32"
    unfolding abs_rsl [of 32, simplified] by (rule unat_shiftr)
  ultimately show ?thesis by (simp add: unat_lo)
qed

lemma unat_to_u32: "unat (o_to_u32 ops a) = unat (val a) mod 2 ^ 32"
  unfolding to_u32 by (rule half64)

lemma unat_hi32: "unat (o_hi32 ops a) = unat (val a) div 2 ^ 32"
  unfolding hi32 by (rule half64)

lemma unat_u32s: "unat (val (o_u32s ops h l)) = unat h * 2 ^ 32 + unat l"
  unfolding u32s using unat_word_cat [OF len64, of h l] by simp

lemma unat_of_u32: "unat (val (o_of_u32 ops i)) = unat i"
  unfolding of_u32 by (rule unat_ucast_double [OF len64])

lemma first_quotient:
  assumes "unat (val x) < unat (val den)" and u: "u = o_hi32 ops den"
  shows "\<exists>q r. (if u + 1 \<noteq> 0
       then (case o_divrem ops x (o_of_u32 ops (u + 1)) of None \<Rightarrow> None
             | Some quorem \<Rightarrow> Some (o_to_u32 ops (qr_quo quorem), o_to_u32 ops (qr_rem quorem)))
       else Some (o_hi32 ops x, o_to_u32 ops x)) = Some (q, r)
     \<and> unat q = unat (val x) div (unat u + 1) \<and> unat r = unat (val x) mod (unat u + 1)"
proof (cases "u + 1 = 0")
  case True
  then have "unat (u + 1) = 0" by (simp only: unsigned_0)
  then have "unat u + 1 = 2 ^ 32"
    using unat_lt2p [of u] unfolding unat_word_ariths(1) by (auto simp: mod_Suc split: if_splits)
  then show ?thesis using True by (simp add: unat_hi32 unat_to_u32)
next
  case False
  have u32: "unat u + 1 \<le> 2 ^ 32" using unat_lt2p [of u] by simp
  have "unat (u + 1) \<noteq> 0" using False by (simp add: unat_eq_0)
  then have u1: "unat (u + 1) = unat u + 1"
    using unat_lt2p [of u] unfolding unat_word_ariths(1) by (auto simp: mod_Suc split: if_splits)
  have nz: "val (o_of_u32 ops (u + 1)) \<noteq> 0"
    using unat_of_u32 [of "u + 1"] u1 by auto
  obtain qr where qr: "o_divrem ops x (o_of_u32 ops (u + 1)) = Some qr"
    and "val (qr_quo qr) = val x div val (o_of_u32 ops (u + 1))"
    and "val (qr_rem qr) = val x mod val (o_of_u32 ops (u + 1))"
    using divrem [OF nz] by blast
  then have q: "unat (val (qr_quo qr)) = unat (val x) div (unat u + 1)"
    and r: "unat (val (qr_rem qr)) = unat (val x) mod (unat u + 1)"
    by (simp_all only: unat_div_distrib unat_mod_distrib unat_of_u32 u1)
  have "unat (val den) < (unat u + 1) * 2 ^ 32"
    unfolding u unat_hi32 using dividend_less_div_times [of "2 ^ 32" "unat (val den)"] by simp
  then have "unat (val x) div (unat u + 1) < 2 ^ 32"
    using assms(1) by (intro less_mult_imp_div_less) (simp add: mult.commute)
  moreover have "unat (val x) mod (unat u + 1) < 2 ^ 32"
    using mod_less_divisor [of "unat u + 1" "unat (val x)"] u32 by linarith
  ultimately show ?thesis using False qr q r by (simp add: unat_to_u32)
qed

lemma final_step:
  assumes R: "unat (val rm) < unat (val den)" and R2: "unat (val rm2) < unat (val den)"
    and s: "s = o_add ops rm rm2"
  shows "(\<not> o_lt ops s den \<or> o_lt ops s rm2) \<longleftrightarrow> unat (val den) \<le> unat (val rm) + unat (val rm2)"
    and "unat (val den) \<le> unat (val rm) + unat (val rm2) \<Longrightarrow>
      unat (val (o_sub ops s den)) = unat (val rm) + unat (val rm2) - unat (val den)"
    and "unat (val rm) + unat (val rm2) < unat (val den) \<Longrightarrow> unat (val s) = unat (val rm) + unat (val rm2)"
proof -
  let ?W = "2 ^ LENGTH(64) :: nat"
  have sv: "unat (val s) = (unat (val rm) + unat (val rm2)) mod ?W"
    unfolding s add by (rule unat_word_ariths)
  have D: "unat (val den) < ?W" by (rule unat_lt2p)
  show "unat (val rm) + unat (val rm2) < unat (val den) \<Longrightarrow> unat (val s) = unat (val rm) + unat (val rm2)"
    using D unfolding sv by simp
  show "(\<not> o_lt ops s den \<or> o_lt ops s rm2) \<longleftrightarrow> unat (val den) \<le> unat (val rm) + unat (val rm2)"
  proof (cases "unat (val rm) + unat (val rm2) < ?W")
    case True
    then show ?thesis unfolding lt word_less_nat_alt sv by auto
  next
    case False
    then have "unat (val s) = unat (val rm) + unat (val rm2) - ?W"
      unfolding sv using R R2 D by (intro nat_mod_wrap) linarith+
    then show ?thesis using False R R2 D unfolding lt word_less_nat_alt by linarith
  qed
  have "val (o_sub ops s den) = word_of_nat (unat (val rm) + unat (val rm2) - unat (val den))"
    if "unat (val den) \<le> unat (val rm) + unat (val rm2)"
    using that by (simp add: s add sub)
  then show "unat (val (o_sub ops s den)) = unat (val rm) + unat (val rm2) - unat (val den)"
    if "unat (val den) \<le> unat (val rm) + unat (val rm2)"
    using that R R2 D by (simp only: unat_of_nat) (simp add: mod_less)
qed

text \<open>
  What the division computes, whatever the product \<open>q * -(int32_t) v\<close> comes out as: with \<open>P\<close> for that product, the quotient and
  the remainder are off by the difference of \<open>P\<close> and the term \<open>q (B - v)\<close> that the comments of the code derive.
\<close>

definition product_96by64 :: "u32 \<Rightarrow> u32 \<Rightarrow> nat" where
  "product_96by64 q v = (if v \<noteq> 0 then unat (val (o_mul32i ops q (- v))) else unat q * 2 ^ 32)"

lemma second_quotient:
  assumes den: "val den \<noteq> 0"
  shows "\<exists>qr. (if v \<noteq> 0 then o_divrem ops (o_mul32i ops q (- v)) den
          else o_divrem ops (o_u32s ops q 0) den) = Some qr
     \<and> unat (val (qr_quo qr)) = product_96by64 q v div unat (val den)
     \<and> unat (val (qr_rem qr)) = product_96by64 q v mod unat (val den)"
proof -
  have run: "\<exists>qr. o_divrem ops m den = Some qr \<and> unat (val (qr_quo qr)) = M div unat (val den)
      \<and> unat (val (qr_rem qr)) = M mod unat (val den)" if "unat (val m) = M" for m M
    using divrem [OF den, of m] that by (auto simp: unat_div_distrib unat_mod_distrib)
  show ?thesis
    using run [of "o_u32s ops q 0" "unat q * 2 ^ 32"] run [of "o_mul32i ops q (- v)"]
    by (cases "v = 0") (simp_all add: unat_u32s product_96by64_def)
qed

lemma divrem_96by64_run:
  assumes hi: "unat (val (w_hi num)) < 2 ^ 32"
    and x: "x = w_lo (cairo_uint128_rsl ops num 32)"
    and xden: "o_lt ops x den" and big: "\<not> o_lt ops x (o_u32s ops 1 0)"
  obtains qr q Q R where "cairo_uint_96by64_32x64_divrem ops num den = Some qr"
    "unat (val (qr_quo qr)) = Q mod 2 ^ 32" "unat (val (qr_rem qr)) = R" "R < unat (val den)" "0 < unat q"
    "Q * unat (val den) + R + unat q * (2 ^ 32 - unat (o_to_u32 ops den)) = unat (abs128 val num) + product_96by64 q (o_to_u32 ops den)"
proof -
  let ?B = "2 ^ 32 :: nat" and ?N = "unat (abs128 val num)" and ?D = "unat (val den)"
  define u v y where "u = o_hi32 ops den" and "v = o_to_u32 ops den" and "y = o_to_u32 ops (w_lo num)"
  have X: "unat (val x) = ?N div ?B" unfolding x by (rule unat_x [OF hi])
  have xD: "unat (val x) < ?D" using xden unfolding lt word_less_nat_alt .
  then have den: "val den \<noteq> 0" by auto
  have "unat (val (o_u32s ops 1 0)) = ?B" by (simp add: unat_u32s)
  then have xB: "?B \<le> unat (val x)" using big unfolding lt word_less_nat_alt by simp
  then have "?B \<le> ?D" using xD by simp
  then have upos: "0 < unat u" by (simp add: u_def unat_hi32 div_greater_zero_iff)
  have D: "?D = unat u * ?B + unat v" and v: "unat v < ?B"
    by (simp_all add: u_def v_def unat_hi32 unat_to_u32)
  have "unat y = ?N mod ?B"
    unfolding y_def unat_to_u32 unat_lo by (simp add: mod_mod_cancel)
  then have N: "?N = unat (val x) * ?B + unat y" and y: "unat y < ?B"
    unfolding X by simp_all
  obtain q r where qr1: "(if u + 1 \<noteq> 0
       then (case o_divrem ops x (o_of_u32 ops (u + 1)) of None \<Rightarrow> None
             | Some quorem \<Rightarrow> Some (o_to_u32 ops (qr_quo quorem), o_to_u32 ops (qr_rem quorem)))
       else Some (o_hi32 ops x, o_to_u32 ops x)) = Some (q, r)"
    and q: "unat q = unat (val x) div (unat u + 1)" and r: "unat r = unat (val x) mod (unat u + 1)"
    using first_quotient [OF xD u_def] by blast
  have "unat u + 1 \<le> unat (val x)" using unat_lt2p [of u] xB by simp
  then have qpos: "0 < unat q" unfolding q by (simp add: div_greater_zero_iff)
  define M where "M = product_96by64 q v"
  obtain qr2 where qr2: "(if v \<noteq> 0 then o_divrem ops (o_mul32i ops q (- v)) den
          else o_divrem ops (o_u32s ops q 0) den) = Some qr2"
    and Q2: "unat (val (qr_quo qr2)) = M div ?D" and R2: "unat (val (qr_rem qr2)) = M mod ?D"
    using second_quotient [OF den] unfolding M_def by blast
  have qx: "unat (val x) = unat q * (unat u + 1) + unat r" unfolding q r by (rule div_mult_mod_eq [symmetric])
  have ru: "unat r \<le> unat u" unfolding r using mod_less_divisor [of "unat u + 1"] by simp
  define T where "T = unat r * ?B + unat y"
  define c1 where "c1 = (if ?D \<le> T then 1 else 0 :: nat)"
  define R1 where "R1 = T - c1 * ?D"
  define c2 where "c2 = (if ?D \<le> R1 + M mod ?D then 1 else 0 :: nat)"
  define R where "R = R1 + M mod ?D - c2 * ?D"
  note d = div96 [OF D v xD N y qx ru T_def upos c1_def R1_def c2_def R_def]
  define rm0 where "rm0 = o_u32s ops r y"
  define rm1 where "rm1 = (if \<not> o_lt ops rm0 den then o_sub ops rm0 den else rm0)"
  define s where "s = o_add ops rm1 (qr_rem qr2)"
  have T: "unat (val rm0) = T" unfolding rm0_def unat_u32s T_def ..
  have lt0: "\<not> o_lt ops rm0 den \<longleftrightarrow> ?D \<le> T" unfolding lt word_less_nat_alt T by auto
  have rm1: "unat (val rm1) = R1"
    unfolding rm1_def lt0 R1_def c1_def
    by (simp add: T sub unat_sub word_le_nat_alt)
  have R1D: "unat (val rm1) < ?D" and R2D: "unat (val (qr_rem qr2)) < ?D"
    unfolding rm1 R2 using d(3) xD by simp_all
  note fin = final_step [OF R1D R2D s_def, unfolded rm1 R2]
  let ?quotient = "q + o_to_u32 ops (qr_quo qr2) + of_nat c1 + of_nat c2"
  let ?rem = "if ?D \<le> R1 + M mod ?D then o_sub ops s den else s"
  have run: "cairo_uint_96by64_32x64_divrem ops num den = Some \<lparr>qr_quo = o_of_u32 ops ?quotient, qr_rem = ?rem\<rparr>"
    using fin(1) lt0
    by (simp only: cairo_uint_96by64_32x64_divrem_def Let_def x [symmetric] u_def [symmetric]
        v_def [symmetric] y_def [symmetric] xden big not_True_eq_False if_False qr1 option.case
        prod.case qr2 rm0_def [symmetric])
      (auto simp: s_def rm1_def c1_def c2_def)
  have rem: "unat (val ?rem) = R"
    unfolding R_def c2_def using fin(2,3) by simp
  have "o_to_u32 ops (qr_quo qr2) = of_nat (M div ?D)"
    unfolding to_u32 Q2 [symmetric] by simp
  then have "?quotient = of_nat (unat q + M div ?D + c1 + c2)" by simp
  then have "unat ?quotient = (unat q + M div ?D + c1 + c2) mod 2 ^ 32" by (simp only: unat_of_nat) simp
  then show thesis
    using that [OF run, of "unat q + M div ?D + c1 + c2" R q] rem d(4,5) qpos by (simp add: unat_of_u32 M_def v_def)
qed

text \<open>The result is exact if and only if the product is.\<close>

lemma divrem_96by64_iff:
  assumes hi: "unat (val (w_hi num)) < 2 ^ 32"
    and x: "x = w_lo (cairo_uint128_rsl ops num 32)"
    and xden: "o_lt ops x den" and big: "\<not> o_lt ops x (o_u32s ops 1 0)"
    and P: "\<And>q. 0 < unat q \<Longrightarrow> product_96by64 q (o_to_u32 ops den) = unat q * (2 ^ 32 - unat (o_to_u32 ops den)) + E q * 2 ^ 32"
      "\<And>q. 0 < unat q \<Longrightarrow> E q < 2 ^ 32" "\<And>q. 0 < unat q \<Longrightarrow> (E q = 0) = ok"
  obtains qr where "cairo_uint_96by64_32x64_divrem ops num den = Some qr"
    "(unat (val (qr_quo qr)) = unat (abs128 val num) div unat (val den) \<and>
      unat (val (qr_rem qr)) = unat (abs128 val num) mod unat (val den)) = ok"
proof -
  let ?B = "2 ^ 32 :: nat" and ?N = "unat (abs128 val num)" and ?D = "unat (val den)"
  obtain qr q Q R where run: "cairo_uint_96by64_32x64_divrem ops num den = Some qr"
      "unat (val (qr_quo qr)) = Q mod ?B" "unat (val (qr_rem qr)) = R" "R < ?D" "0 < unat q"
      "Q * ?D + R + unat q * (?B - unat (o_to_u32 ops den)) = ?N + product_96by64 q (o_to_u32 ops den)"
    using divrem_96by64_run [OF hi x xden big] .
  have eq: "Q * ?D + R = ?N + E q * ?B" using run(6) P(1) [OF run(5)] by simp
  have xD: "?N div ?B < ?D" using xden unfolding lt word_less_nat_alt x unat_x [OF hi] .
  have "?B \<le> ?N div ?B"
    using big unfolding lt word_less_nat_alt x unat_x [OF hi] by (simp add: unat_u32s)
  then have BD: "?B \<le> ?D" using xD by linarith
  have "?N < ?D * ?B" using xD by (simp add: div_less_iff_less_mult mult.commute)
  then have small: "?N div ?D < ?B" by (simp add: less_mult_imp_div_less mult.commute)
  have "(Q mod ?B = ?N div ?D \<and> R = ?N mod ?D) = (E q = 0)"
  proof
    assume e: "Q mod ?B = ?N div ?D \<and> R = ?N mod ?D"
    have "Q * ?D + R = (Q div ?B * ?B + Q mod ?B) * ?D + R" by (simp only: div_mult_mod_eq)
    also have "\<dots> = Q div ?B * ?B * ?D + ?N" using e by (simp add: distrib_right)
    finally have "Q div ?B * ?D * ?B = E q * ?B" using eq by (simp add: ac_simps)
    then have t: "Q div ?B * ?D = E q" by simp
    show "E q = 0"
    proof (rule ccontr)
      assume "E q \<noteq> 0"
      then have "?D \<le> E q" using t by (cases "Q div ?B") auto
      then show False using P(2) [OF run(5)] BD by linarith
    qed
  next
    assume "E q = 0"
    then have "?N = Q * ?D + R" using eq by simp
    then have "?N div ?D = Q" "?N mod ?D = R" using run(4) by simp_all
    then show "Q mod ?B = ?N div ?D \<and> R = ?N mod ?D" using small by simp
  qed
  then show thesis using that [OF run(1)] run(2,3) P(3) [OF run(5)] by simp
qed

end

locale uint64_impl_exact = uint64_impl +
  assumes mul32i: "val (o_mul32i ops i j) = ucast i * ucast j"
begin

lemma product_exact: "product_96by64 q v = unat q * (2 ^ 32 - unat v)"
proof (cases "v = 0")
  case True
  then show ?thesis by (simp add: product_96by64_def)
next
  case False
  then have neg: "unat (- v) = 2 ^ 32 - unat v" using unat_uminus [of v] by simp
  have "unat (val (o_mul32i ops q (- v))) = unat q * unat (- v)"
    using unat_mul32 [of q "- v"] by (simp only: mul32 mul32i)
  then show ?thesis using False by (simp add: neg product_96by64_def)
qed

lemma divrem_96by64_big:
  assumes "unat (val (w_hi num)) < 2 ^ 32" "x = w_lo (cairo_uint128_rsl ops num 32)"
    "o_lt ops x den" "\<not> o_lt ops x (o_u32s ops 1 0)"
  shows "\<exists>qr. cairo_uint_96by64_32x64_divrem ops num den = Some qr
    \<and> unat (val (qr_quo qr)) = unat (abs128 val num) div unat (val den)
    \<and> unat (val (qr_rem qr)) = unat (abs128 val num) mod unat (val den)"
  using divrem_96by64_iff [OF assms, of "\<lambda>_. 0" True] by (auto simp: product_exact)

lemma divrem_96by64:
  assumes hi: "unat (val (w_hi num)) < 2 ^ 32"
  shows "\<exists>qr. cairo_uint_96by64_32x64_divrem ops num den = Some qr
    \<and> (if unat (abs128 val num) div 2 ^ 32 < unat (val den)
       then unat (val (qr_quo qr)) = unat (abs128 val num) div unat (val den)
          \<and> unat (val (qr_rem qr)) = unat (abs128 val num) mod unat (val den)
       else unat (val (qr_quo qr)) = 2 ^ 64 - 1 \<and> val (qr_rem qr) = val den)"
proof -
  let ?N = "unat (abs128 val num)" and ?D = "unat (val den)"
  let ?x = "w_lo (cairo_uint128_rsl ops num 32)"
  note x = unat_x [OF hi]
  have B: "val (o_u32s ops 1 0) = 2 ^ 32"
    unfolding word_unat_eq_iff unat_u32s by simp
  show ?thesis
  proof (cases "o_lt ops ?x den")
    case False
    then have "\<not> ?N div 2 ^ 32 < ?D" unfolding lt word_less_nat_alt x .
    with False show ?thesis
      by (simp add: cairo_uint_96by64_32x64_divrem_def unat_u32s)
  next
    case True
    then have xD: "?N div 2 ^ 32 < ?D" unfolding lt word_less_nat_alt x .
    then have den: "val den \<noteq> 0" by auto
    show ?thesis
    proof (cases "o_lt ops ?x (o_u32s ops 1 0)")
      case small: True
      then have "?N div 2 ^ 32 < 2 ^ 32" unfolding lt B word_less_nat_alt x by simp
      then have "?N < 2 ^ 64" by (simp add: div_less_iff_less_mult)
      then have "unat (val (w_lo num)) = ?N" by (simp add: unat_lo)
      then show ?thesis
        using divrem [OF den, of "w_lo num"] True small xD
        by (auto simp: cairo_uint_96by64_32x64_divrem_def unat_div_distrib unat_mod_distrib)
    next
      case big: False
      from divrem_96by64_big [OF hi refl True big] xD show ?thesis by simp
    qed
  qed
qed
end

interpretation struct: uint64_impl_exact struct_uint64 abs64
  by unfold_locales (simp add: struct_uint64_def abs64_mul32)

context uint64_impl
begin

lemma norm_diverges:
  assumes "abs128 val den = 0" and "abs128 val num \<noteq> 0"
  shows "cairo_uint128_divrem_norm ops num bt den = None"
proof (rule ccontr)
  assume "\<not> ?thesis"
  then obtain r where ret: "cairo_uint128_divrem_norm ops num bt den = Some r" by blast
  have "ops = ops \<longrightarrow> abs128 val den = 0 \<longrightarrow> abs128 val num \<noteq> 0 \<longrightarrow> False"
  proof (rule cairo_uint128_divrem_norm.raw_induct
      [where P = "\<lambda>p num bt den r. p = ops \<longrightarrow> abs128 val den = 0 \<longrightarrow> abs128 val num \<noteq> 0 \<longrightarrow> False", OF _ ret])
    fix f p num bt den r
    assume IH: "\<And>p num bt den r. f p num bt den = Some r \<Longrightarrow> p = ops \<longrightarrow> abs128 val den = 0 \<longrightarrow> abs128 val num \<noteq> 0 \<longrightarrow> False"
      and eq: "(if cairo_uint128_lt p den num \<and> \<not> o_msbset p (w_hi den)
        then f p num (cairo_uint128_lsl p bt 1) (cairo_uint128_lsl p den 1) else Some (bt, den)) = Some r"
    show "p = ops \<longrightarrow> abs128 val den = 0 \<longrightarrow> abs128 val num \<noteq> 0 \<longrightarrow> False"
    proof (intro impI)
      assume p: "p = ops" and z: "abs128 val den = 0" and n: "abs128 val num \<noteq> 0"
      have "cairo_uint128_lt ops den num" using z n by (simp add: abs_lt word_gt_0)
      moreover have "\<not> o_msbset ops (w_hi den)" using z by (simp add: abs_msbset)
      ultimately have "f ops num (cairo_uint128_lsl ops bt 1) (cairo_uint128_lsl ops den 1) = Some r"
        using eq p by simp
      moreover have "abs128 val (cairo_uint128_lsl ops den 1) = 0" using z by (simp add: abs_lsl)
      ultimately show False using IH n by blast
    qed
  qed
  with assms show False by blast
qed

lemma divrem_zero: "abs128 val den = 0 \<Longrightarrow> abs128 val num \<noteq> 0 \<Longrightarrow> cairo_uint128_divrem ops num den = None"
  by (simp add: cairo_uint128_divrem_def norm_diverges)

end

section \<open>Properties\<close>

abbreviation nval :: "u64 cairo_uint128 \<Rightarrow> u128" where
  "nval \<equiv> abs128 (\<lambda>x. x)"

abbreviation sval :: "cairo_uint64 cairo_uint128 \<Rightarrow> u128" where
  "sval \<equiv> abs128 abs64"

text \<open>Claim C28. In both builds (native 64-bit integers, or pairs of 32-bit words) the 128-bit
  addition, subtraction, multiplication and negation of cairo-wideint.c compute exactly the
  ring operations of 128-bit machine words: every carry and borrow between the halves is right.\<close>

theorem uint128_ring_operations:
  shows "nval (cairo_uint128_add native_uint64 a b) = nval a + nval b
      \<and> nval (cairo_uint128_sub native_uint64 a b) = nval a - nval b
      \<and> nval (cairo_uint128_mul native_uint64 a b) = nval a * nval b
      \<and> nval (cairo_uint128_negate native_uint64 a) = - nval a
      \<and> sval (cairo_uint128_add struct_uint64 c d) = sval c + sval d
      \<and> sval (cairo_uint128_sub struct_uint64 c d) = sval c - sval d
      \<and> sval (cairo_uint128_mul struct_uint64 c d) = sval c * sval d
      \<and> sval (cairo_uint128_negate struct_uint64 c) = - sval c"
  by (intro conjI native.abs_add native.abs_sub native.abs_mul native.abs_negate
    struct.abs_add struct.abs_sub struct.abs_mul struct.abs_negate)

text \<open>For every shift distance below 128 the 128-bit left shift, logical right shift and
  arithmetic right shift agree with the shifts of 128-bit machine words, in both builds; the
  distance may cross the boundary between the halves.\<close>

theorem uint128_shifts:
  assumes "s < 128"
  shows "nval (cairo_uint128_lsl native_uint64 a s) = push_bit s (nval a)
      \<and> nval (cairo_uint128_rsl native_uint64 a s) = drop_bit s (nval a)
      \<and> nval (cairo_uint128_rsa native_uint64 a s) = signed_drop_bit s (nval a)
      \<and> sval (cairo_uint128_lsl struct_uint64 c s) = push_bit s (sval c)
      \<and> sval (cairo_uint128_rsl struct_uint64 c s) = drop_bit s (sval c)
      \<and> sval (cairo_uint128_rsa struct_uint64 c s) = signed_drop_bit s (sval c)"
  using assms
  by (intro conjI native.abs_lsl native.abs_rsl native.abs_rsa struct.abs_lsl struct.abs_rsl struct.abs_rsa)

theorem uint128_shifts_witness:
  "nval (cairo_uint128_rsl native_uint64 \<lparr>w_lo = 0, w_hi = 1\<rparr> 65) = drop_bit 65 (nval \<lparr>w_lo = 0, w_hi = 1\<rparr>)"
  using uint128_shifts [of 65 "\<lparr>w_lo = 0, w_hi = 1\<rparr>"] by simp

text \<open>The product of two 64-bit integers is computed in full: the unsigned 64 by 64
  multiplication yields the exact 128-bit product of the two values, and the signed one the
  exact product of the two's complement values.\<close>

theorem mul64_full_product:
  shows "unat (nval (cairo_uint64x64_128_mul native_uint64 a b)) = unat a * unat b
      \<and> unat (sval (cairo_uint64x64_128_mul struct_uint64 c d)) = unat (abs64 c) * unat (abs64 d)
      \<and> nval (cairo_int64x64_128_mul native_uint64 a b) = word_of_int (sint a * sint b)
      \<and> sval (cairo_int64x64_128_mul struct_uint64 c d) = word_of_int (sint (abs64 c) * sint (abs64 d))"
proof -
  have u: "unat (ucast x * ucast y :: u128) = unat x * unat y" for x y :: u64
    using mult_strict_mono [OF unat_lt2p [of x] unat_lt2p [of y]]
    by (subst unat_mult_lt) (simp_all only: unat_ucast_double [OF len128] len128 pow_nat_double, simp_all)
  have s: "(scast x * scast y :: u128) = word_of_int (sint x * sint y)" for x y :: u64
    by simp
  show ?thesis
    unfolding native.abs_mul64 struct.abs_mul64 native.abs_imul64 struct.abs_imul64 by (simp only: u s)
qed

text \<open>Claim C11. The bit-at-a-time division loop terminates for every non-zero divisor and returns
  the quotient and the remainder of the unsigned 128-bit division, in both builds.\<close>

theorem uint128_divrem_correct:
  assumes "nval den \<noteq> 0" and "sval den' \<noteq> 0"
  shows "(\<exists>qr. cairo_uint128_divrem native_uint64 num den = Some qr
        \<and> nval (qr_quo qr) = nval num div nval den \<and> nval (qr_rem qr) = nval num mod nval den)
      \<and> (\<exists>qr. cairo_uint128_divrem struct_uint64 num' den' = Some qr
        \<and> sval (qr_quo qr) = sval num' div sval den' \<and> sval (qr_rem qr) = sval num' mod sval den')"
  using assms by (intro conjI native.abs_divrem struct.abs_divrem)

theorem uint128_divrem_correct_witness:
  "\<exists>qr. cairo_uint128_divrem native_uint64 \<lparr>w_lo = 7, w_hi = 0\<rparr> \<lparr>w_lo = 2, w_hi = 0\<rparr> = Some qr
     \<and> nval (qr_quo qr) = 3 \<and> nval (qr_rem qr) = 1"
  using uint128_divrem_correct [of "\<lparr>w_lo = 2, w_hi = 0\<rparr>" "\<lparr>w_lo = \<lparr>q_lo = 2, q_hi = 0\<rparr>, w_hi = \<lparr>q_lo = 0, q_hi = 0\<rparr>\<rparr>"
    "\<lparr>w_lo = 7, w_hi = 0\<rparr>"]
  by (simp add: abs128_def abs64_def)

text \<open>A zero divisor is not detected: unless the numerator is zero too, the normalising
  loop of the 128-bit division never ends, in either build.\<close>

theorem uint128_divrem_zero_diverges:
  assumes "nval den = 0" and "nval num \<noteq> 0" and "sval den' = 0" and "sval num' \<noteq> 0"
  shows "cairo_uint128_divrem native_uint64 num den = None
      \<and> cairo_uint128_divrem struct_uint64 num' den' = None"
  using assms by (intro conjI native.divrem_zero struct.divrem_zero)

theorem uint128_divrem_zero_diverges_witness:
  "cairo_uint128_divrem native_uint64 \<lparr>w_lo = 5, w_hi = 0\<rparr> \<lparr>w_lo = 0, w_hi = 0\<rparr> = None"
  using uint128_divrem_zero_diverges [of "\<lparr>w_lo = 0, w_hi = 0\<rparr>" "\<lparr>w_lo = 5, w_hi = 0\<rparr>"
    "\<lparr>w_lo = \<lparr>q_lo = 0, q_hi = 0\<rparr>, w_hi = \<lparr>q_lo = 0, q_hi = 0\<rparr>\<rparr>"
    "\<lparr>w_lo = \<lparr>q_lo = 5, q_hi = 0\<rparr>, w_hi = \<lparr>q_lo = 0, q_hi = 0\<rparr>\<rparr>"]
  by (simp add: abs128_def abs64_def)

text \<open>Claim C29. The signed 128-bit division truncates towards zero, and the remainder takes the sign
  of the numerator, as C's operators do; the quotient of the least integer by minus one wraps.\<close>

theorem int128_divrem_truncates:
  assumes "nval den \<noteq> 0" and "sval den' \<noteq> 0"
  shows "(\<exists>qr. cairo_int128_divrem native_uint64 num den = Some qr
        \<and> nval (qr_quo qr) = word_of_int (sint (nval num) sdiv sint (nval den))
        \<and> nval (qr_rem qr) = word_of_int (sint (nval num) smod sint (nval den)))
      \<and> (\<exists>qr. cairo_int128_divrem struct_uint64 num' den' = Some qr
        \<and> sval (qr_quo qr) = word_of_int (sint (sval num') sdiv sint (sval den'))
        \<and> sval (qr_rem qr) = word_of_int (sint (sval num') smod sint (sval den')))"
  using assms by (intro conjI native.abs_int_divrem struct.abs_int_divrem)

theorem int128_divrem_truncates_witness:
  "\<exists>qr. cairo_int128_divrem native_uint64 \<lparr>w_lo = - 7, w_hi = - 1\<rparr> \<lparr>w_lo = 2, w_hi = 0\<rparr> = Some qr
     \<and> nval (qr_quo qr) = - 3 \<and> nval (qr_rem qr) = - 1"
proof -
  have n: "sint (nval \<lparr>w_lo = - 7, w_hi = - 1\<rparr>) = - 7" and d: "nval \<lparr>w_lo = 2, w_hi = 0\<rparr> = 2"
    by code_simp+
  have "sval \<lparr>w_lo = \<lparr>q_lo = 2, q_hi = 0\<rparr>, w_hi = \<lparr>q_lo = 0, q_hi = 0\<rparr>\<rparr> \<noteq> 0"
    by (simp add: abs128_def abs64_def)
  from int128_divrem_truncates [OF _ this, of "\<lparr>w_lo = 2, w_hi = 0\<rparr>" "\<lparr>w_lo = - 7, w_hi = - 1\<rparr>"]
  show ?thesis
    unfolding n d by (simp add: signed_divide_int_def signed_modulo_int_def)
qed

text \<open>In the build whose 64-bit integers are pairs of 32-bit words, dividing a 96-bit
  numerator by a 64-bit divisor returns the exact quotient and remainder whenever the quotient
  fits into 32 bits, and otherwise the documented overflow mark: the largest 64-bit quotient and
  a remainder equal to the divisor. It returns for a zero divisor as well.\<close>

theorem struct_96by64_correct:
  assumes "unat (abs64 (w_hi num)) < 2 ^ 32"
  shows "\<exists>qr. cairo_uint_96by64_32x64_divrem struct_uint64 num den = Some qr
    \<and> (if unat (sval num) div 2 ^ 32 < unat (abs64 den)
       then unat (abs64 (qr_quo qr)) = unat (sval num) div unat (abs64 den)
          \<and> unat (abs64 (qr_rem qr)) = unat (sval num) mod unat (abs64 den)
       else unat (abs64 (qr_quo qr)) = 2 ^ 64 - 1 \<and> abs64 (qr_rem qr) = abs64 den)"
  using assms by (rule struct.divrem_96by64)

theorem struct_96by64_correct_witness:
  "\<exists>qr. cairo_uint_96by64_32x64_divrem struct_uint64
      \<lparr>w_lo = \<lparr>q_lo = 0, q_hi = 0\<rparr>, w_hi = \<lparr>q_lo = 1, q_hi = 0\<rparr>\<rparr> \<lparr>q_lo = 1, q_hi = 1\<rparr> = Some qr
    \<and> unat (abs64 (qr_quo qr)) = 4294967295 \<and> unat (abs64 (qr_rem qr)) = 1"
  using struct_96by64_correct [of "\<lparr>w_lo = \<lparr>q_lo = 0, q_hi = 0\<rparr>, w_hi = \<lparr>q_lo = 1, q_hi = 0\<rparr>\<rparr>" "\<lparr>q_lo = 1, q_hi = 1\<rparr>"]
  by (simp add: abs128_def abs64_def word_cat_ring)

text \<open>With native 64-bit integers the macro multiplies by the sign extension of \<open>-(int32_t) v\<close>: for a \<open>v\<close> that is not 0 and at
  most \<open>2 ^ 31\<close> the product is too large by \<open>2 ^ 32 (2 ^ 32 - q)\<close>.\<close>

lemma native_product:
  assumes "0 < unat q"
  shows "native.product_96by64 q v =
    unat q * (2 ^ 32 - unat v) + (if v = 0 \<or> 2 ^ 31 < unat v then 0 else 2 ^ 32 - unat q) * 2 ^ 32"
proof -
  have q: "unat q < 2 ^ 32" "unat v < 2 ^ 32" using unat_lt2p [of q] unat_lt2p [of v] by simp_all
  have P: "native.product_96by64 q v = unat ((ucast q :: u64) * scast (- v))" if "v \<noteq> 0"
  proof -
    have "o_mul32i native_uint64 q (- v) = ucast q * scast (- v)" by (simp add: native_uint64_def)
    then show ?thesis using that by (simp add: native.product_96by64_def)
  qed
  have neg: "unat (- v) = 2 ^ 32 - unat v" if "v \<noteq> 0" using unat_uminus [of v] that by simp
  have sgn: "sint (- v) = (if 2 ^ 31 < unat v then int (2 ^ 32 - unat v) else - int (unat v))" if "v \<noteq> 0"
  proof -
    have "sint (- v) = int (unat (- v)) - (if 2 ^ 31 \<le> unat (- v) then 2 ^ 32 else 0)"
      using sint_split [of "- v"] msb_iff_ge [of "- v"] by simp
    then show ?thesis using q that neg by (auto simp: of_nat_diff)
  qed
  consider "v = 0" | "v \<noteq> 0" "2 ^ 31 < unat v" | "v \<noteq> 0" "unat v \<le> 2 ^ 31" by linarith
  then show ?thesis
  proof cases
    case 1
    then show ?thesis by (simp add: native.product_96by64_def)
  next
    case 2
    have "(scast (- v) :: u64) = of_int (sint (- v))" by simp
    also have "\<dots> = of_nat (unat (- v))" using sgn neg 2 by simp
    also have "\<dots> = ucast (- v)" by simp
    finally show ?thesis using P native.unat_mul32 [of q "- v"] neg 2 by (simp add: native_uint64_def)
  next
    case 3
    have "(scast (- v) :: u64) = of_int (sint (- v))" by simp
    also have "\<dots> = - of_nat (unat v)" using sgn 3 by simp
    finally have pr: "native.product_96by64 q v = unat (- (of_nat (unat q * unat v) :: u64))" using P 3(1) by simp
    have pos: "0 < unat q * unat v" using assms 3(1) by (simp add: unat_gt_0)
    have le: "unat q * unat v \<le> unat q * 2 ^ 32" using q by simp
    have "unat q * 2 ^ 32 < 2 ^ 64" using q by simp
    then have lt: "unat q * unat v < 2 ^ 64" using le by linarith
    have "unat (- w) = 2 ^ 64 - unat q * unat v" if w: "unat w = unat q * unat v" for w :: u64
    proof -
      have "w \<noteq> 0" using w pos by auto
      then show ?thesis using unat_uminus [of w] w by simp
    qed
    moreover have "unat (of_nat (unat q * unat v) :: u64) = unat q * unat v" using lt by (simp only: unat_of_nat) simp
    ultimately have "native.product_96by64 q v = 2 ^ 64 - unat q * unat v" unfolding pr by blast
    moreover have "unat q * (2 ^ 32 - unat v) + (2 ^ 32 - unat q) * 2 ^ 32 = 2 ^ 64 - unat q * unat v"
      using q le by (simp add: diff_mult_distrib diff_mult_distrib2)
    ultimately show ?thesis using 3 by simp
  qed
qed

text \<open>Claim C40. In the build with native 64-bit integers, which is the one ns-3 selects, the division of a 96-bit numerator whose
  quotient fits into 32 bits, of at least \<open>2 ^ 64\<close>, is wrong for half of all divisors: the quotient and the remainder are exact if
  and only if the low 32 bits \<open>v\<close> of the divisor are 0 or more than \<open>2 ^ 31\<close>.  The cast \<open>-(int32_t) v\<close> makes the macro
  multiply by a sign extension.  The value \<open>2 ^ 31\<close> is left out, for C does not define its negation; nor does the result
  carry the overflow mark.\<close>

theorem native_96by64_exact_iff:
  assumes "unat (w_hi num) < 2 ^ 32" "2 ^ 64 \<le> unat (nval num)" "unat (nval num) div 2 ^ 32 < unat den" "unat den mod 2 ^ 32 \<noteq> 2 ^ 31"
  shows "\<exists>qr. cairo_uint_96by64_32x64_divrem native_uint64 num den = Some qr \<and> qr_rem qr \<noteq> den \<and>
    ((unat (qr_quo qr) = unat (nval num) div unat den \<and> unat (qr_rem qr) = unat (nval num) mod unat den) \<longleftrightarrow>
      unat den mod 2 ^ 32 = 0 \<or> 2 ^ 31 < unat den mod 2 ^ 32)"
proof -
  let ?x = "w_lo (cairo_uint128_rsl native_uint64 num 32)"
  have x: "unat ?x = unat (nval num) div 2 ^ 32" using native.unat_x [OF assms(1)] .
  have xden: "o_lt native_uint64 ?x den" unfolding native.lt word_less_nat_alt x by (rule assms(3))
  have "2 ^ 64 div 2 ^ 32 \<le> unat (nval num) div 2 ^ 32" using assms(2) by (rule div_le_mono)
  then have big: "\<not> o_lt native_uint64 ?x (o_u32s native_uint64 1 0)" unfolding native.lt word_less_nat_alt x native.unat_u32s by simp
  define v where "v = o_to_u32 native_uint64 den"
  have v: "unat v = unat den mod 2 ^ 32" unfolding v_def by (rule native.unat_to_u32)
  define ok where "ok \<longleftrightarrow> v = 0 \<or> 2 ^ 31 < unat v"
  define E where "E q = (if ok then 0 else 2 ^ 32 - unat q)" for q :: u32
  have E: "0 < unat q \<Longrightarrow> native.product_96by64 q v = unat q * (2 ^ 32 - unat v) + E q * 2 ^ 32"
      "0 < unat q \<Longrightarrow> E q < 2 ^ 32" "0 < unat q \<Longrightarrow> (E q = 0) = ok" for q
    using native_product [of q v] unat_lt2p [of q] by (auto simp: E_def ok_def)
  obtain qr where qr: "cairo_uint_96by64_32x64_divrem native_uint64 num den = Some qr"
      "(unat (qr_quo qr) = unat (nval num) div unat den \<and> unat (qr_rem qr) = unat (nval num) mod unat den) = ok"
    using native.divrem_96by64_iff [OF assms(1) refl xden big, folded v_def, OF E] by blast
  have "v = 0 \<longleftrightarrow> unat den mod 2 ^ 32 = 0" using v by (simp add: unat_eq_0 [symmetric])
  moreover have "qr_rem qr \<noteq> den"
    using native.divrem_96by64_run [OF assms(1) refl xden big] qr(1) by (metis less_irrefl option.inject)
  ultimately show ?thesis using qr v by (auto simp: ok_def)
qed

text \<open>\<open>2 ^ 64\<close> divided by \<open>2 ^ 32 + 1\<close>, the quotient and remainder of which are 4294967295 and 1.\<close>

theorem native_96by64_exact_iff_witness:
  "\<exists>qr. cairo_uint_96by64_32x64_divrem native_uint64 \<lparr>w_lo = 0, w_hi = 1\<rparr> 0x100000001 = Some qr \<and>
    \<not> (unat (qr_quo qr) = 4294967295 \<and> unat (qr_rem qr) = 1)"
proof -
  have n: "unat (nval \<lparr>w_lo = 0, w_hi = 1\<rparr>) = 2 ^ 64" by (simp add: abs128_def word_cat_ring)
  have d: "unat (0x100000001 :: u64) = 4294967297" by simp
  show ?thesis using native_96by64_exact_iff [of "\<lparr>w_lo = 0, w_hi = 1\<rparr>" "0x100000001"] unfolding n d by auto
qed

end
