(* ===== verification/Lwip_Inet.thy ===== *)
theory Lwip_Inet
  imports Prelude
begin

text \<open>
  Byte order and textual addresses: \<open>nsc/lwip-1.3.0/src/core/ipv4/inet.c\<close>, for the little-endian
  build without a platform byte swap that the network simulation cradle uses.

  A C string is a \<open>string\<close> without its terminating NUL; \<open>aton_peek\<close> reads the
  character under the cursor (0 at the end), and advancing the cursor drops one character.  The
  file's own \<open>isdigit\<close>, \<open>isxdigit\<close>, \<open>islower\<close>, \<open>isprint\<close> and
  \<open>isspace\<close> macros are used, not the C library's.  \<open>inet_aton\<close> returns 0 or stores
  an address and returns 1: an option.
\<close>

section \<open>Byte order\<close>

definition htons :: "u16 \<Rightarrow> u16" where
  "htons n = (push_bit 8 (n AND 0xff)) OR (drop_bit 8 (n AND 0xff00))"

definition ntohs :: "u16 \<Rightarrow> u16" where
  "ntohs n = htons n"

definition htonl :: "u32 \<Rightarrow> u32" where
  "htonl n = (push_bit 24 (n AND 0xff)) OR (push_bit 8 (n AND 0xff00))
     OR (drop_bit 8 (n AND 0xff0000)) OR (drop_bit 24 (n AND 0xff000000))"

definition ntohl :: "u32 \<Rightarrow> u32" where
  "ntohl n = htonl n"

section \<open>Character classes\<close>

definition char_val :: "char \<Rightarrow> nat" where
  "char_val c = of_char c"

definition in_range :: "nat \<Rightarrow> nat \<Rightarrow> nat \<Rightarrow> bool" where
  "in_range c lo up \<longleftrightarrow> c \<ge> lo \<and> c \<le> up"

definition lwip_isprint :: "nat \<Rightarrow> bool" where "lwip_isprint c = in_range c 0x20 0x7f"
definition lwip_isdigit :: "nat \<Rightarrow> bool" where "lwip_isdigit c = in_range c 48 57"
definition lwip_isxdigit :: "nat \<Rightarrow> bool" where
  "lwip_isxdigit c = (lwip_isdigit c \<or> in_range c 97 102 \<or> in_range c 65 70)"
definition lwip_islower :: "nat \<Rightarrow> bool" where "lwip_islower c = in_range c 97 122"
definition lwip_isspace :: "nat \<Rightarrow> bool" where
  "lwip_isspace c = (c = 32 \<or> c = 12 \<or> c = 10 \<or> c = 13 \<or> c = 9 \<or> c = 11)"

section \<open>Parsing dotted addresses\<close>

definition aton_peek :: "string \<Rightarrow> nat" where
  "aton_peek cp = (case cp of [] \<Rightarrow> 0 | c # _ \<Rightarrow> char_val c)"

text \<open>The inner digit loop, then one number with its base prefix.\<close>

fun aton_digits :: "u32 \<Rightarrow> u32 \<Rightarrow> string \<Rightarrow> u32 \<times> string" where
  "aton_digits base val [] = (val, [])"
| "aton_digits base val (ch # cp) = (let c = char_val ch in
     if lwip_isdigit c then aton_digits base (val * base + of_nat (c - 48)) cp
     else if base = 16 \<and> lwip_isxdigit c then
       aton_digits base (push_bit 4 val OR of_nat (c + 10 - (if lwip_islower c then 97 else 65))) cp
     else (val, ch # cp))"

definition aton_number :: "string \<Rightarrow> u32 \<times> string" where
  "aton_number cp =
    (if aton_peek cp = 48 then
       (let cp = tl cp in
        if aton_peek cp = 120 \<or> aton_peek cp = 88 then aton_digits 16 0 (tl cp)
        else aton_digits 8 0 cp)
     else aton_digits 10 0 cp)"

lemma aton_digits_length: "length (snd (aton_digits base val cp)) \<le> length cp"
  by (induction base val cp rule: aton_digits.induct) (auto simp: Let_def)

text \<open>The outer loop collects up to three dotted parts before the last value.\<close>

function aton_parts :: "u32 list \<Rightarrow> string \<Rightarrow> (u32 list \<times> u32 \<times> string) option" where
  "aton_parts parts cp =
    (if \<not> lwip_isdigit (aton_peek cp) then None
     else
       let (val, rest) = aton_number cp in
       if aton_peek rest = 46 then
         (if length parts \<ge> 3 then None else aton_parts (parts @ [val]) (tl rest))
       else Some (parts, val, rest))"
  by auto

lemma aton_number_length: "length (snd (aton_number cp)) \<le> length cp"
  using aton_digits_length[of 16 0 "tl (tl cp)"] aton_digits_length[of 8 0 "tl cp"]
    aton_digits_length[of 10 0 cp]
  by (auto simp: aton_number_def Let_def)

termination aton_parts
proof (relation "measure (\<lambda>(parts, cp). length cp)", goal_cases)
  case (2 parts cp n val rest)
  then have "length rest \<le> length cp"
    using aton_number_length[of cp] by (metis snd_conv)
  moreover have "rest \<noteq> []" using 2 by (auto simp: aton_peek_def)
  ultimately show ?case by (cases rest) auto
qed auto

declare aton_parts.simps [simp del]

definition inet_aton :: "string \<Rightarrow> u32 option" where
  "inet_aton cp = (case aton_parts [] cp of
     None \<Rightarrow> None
   | Some (parts, val, rest) \<Rightarrow>
       let c = aton_peek rest in
       if c \<noteq> 0 \<and> (\<not> lwip_isprint c \<or> \<not> lwip_isspace c) then None
       else
         (let n = length parts + 1 in
              if n = 0 then None
              else if n = 1 then Some (htonl val)
              else if n = 2 then
                (if val > 0xffffff then None
                 else Some (htonl (val OR push_bit 24 (parts ! 0))))
              else if n = 3 then
                (if val > 0xffff then None
                 else Some (htonl (val OR (push_bit 24 (parts ! 0) OR push_bit 16 (parts ! 1)))))
              else if n = 4 then
                (if val > 0xff then None
                 else Some (htonl (val OR (push_bit 24 (parts ! 0) OR push_bit 16 (parts ! 1)
                   OR push_bit 8 (parts ! 2)))))
              else Some (htonl val)))"

definition INADDR_NONE :: u32 where "INADDR_NONE = 0xffffffff"

definition inet_addr :: "string \<Rightarrow> u32" where
  "inet_addr cp = (case inet_aton cp of Some s_addr \<Rightarrow> s_addr | None \<Rightarrow> INADDR_NONE)"

section \<open>Printing dotted addresses\<close>

text \<open>The do-while loop fills \<open>inv\<close> with the digits, lowest first; the inner while copies them back
  reversed.  \<open>ap\<close> walks over the four bytes of the address in memory order.\<close>

function ntoa_inv :: "u8 \<Rightarrow> string" where
  "ntoa_inv ap = (let rem = ap mod 10; ap = ap div 10; d = char_of (48 + unat rem) in
     if ap \<noteq> 0 then d # ntoa_inv ap else [d])"
  by auto

termination ntoa_inv
proof (relation "measure unat", goal_cases)
  case (2 ap rem ap' d)
  then have "unat ap \<noteq> 0" by (auto simp: unat_eq_0)
  then show ?case using 2 by (simp add: unat_div)
qed simp

declare ntoa_inv.simps [simp del]

definition mem_bytes32 :: "u32 \<Rightarrow> u8 list" where
  "mem_bytes32 w = [ucast w, ucast (drop_bit 8 w), ucast (drop_bit 16 w), ucast (drop_bit 24 w)]"

definition inet_ntoa :: "u32 \<Rightarrow> string" where
  "inet_ntoa s_addr = butlast (concat (map (\<lambda>ap. rev (ntoa_inv ap) @ ''.'') (mem_bytes32 s_addr)))"

section \<open>Facts\<close>

lemma bit_htons: "bit (htons n) i \<longleftrightarrow> (if i < 8 then bit n (i + 8) else i < 16 \<and> bit n (i - 8))"
  unfolding htons_def byte_masks by (auto simp: bit_simps algebra_simps)

lemma htons_htons [simp]: "htons (htons n) = n"
  by (rule bit_word_eqI) (auto simp: bit_htons)

lemma bit_htonl: "bit (htonl n) i \<longleftrightarrow>
   (if i < 8 then bit n (i + 24) else if i < 16 then bit n (i + 8)
    else if i < 24 then bit n (i - 8) else i < 32 \<and> bit n (i - 24))"
  unfolding htonl_def byte_masks by (auto simp: bit_simps algebra_simps)

lemma htonl_htonl [simp]: "htonl (htonl n) = n"
  by (rule bit_word_eqI) (auto simp: bit_htonl)

lemma unat_htons: "unat (htons n) = 256 * (unat n mod 256) + unat n div 256"
  unfolding htons_def using unat_lt2p[of n] by (subst swap_bytes_unat) auto

lemma ntoa_inv_small: "unat b < 10 \<Longrightarrow> ntoa_inv b = [char_of (48 + unat b)]"
  by (subst ntoa_inv.simps) (simp add: Let_def word_unat_eq_iff unat_div unat_mod)

lemma ntoa_inv_big:
  "10 \<le> unat b \<Longrightarrow> ntoa_inv b = char_of (48 + unat b mod 10) # ntoa_inv (b div 10)"
  by (subst ntoa_inv.simps) (simp add: Let_def word_unat_eq_iff unat_div unat_mod div_eq_0_iff)

lemma dec_digits:
  fixes b :: u8
  shows "rev (ntoa_inv b) =
    (if unat b < 10 then [char_of (48 + unat b)]
     else if unat b < 100 then [char_of (48 + unat b div 10), char_of (48 + unat b mod 10)]
     else [char_of (48 + unat b div 100), char_of (48 + unat b div 10 mod 10), char_of (48 + unat b mod 10)])"
proof -
  consider "unat b < 10" | "10 \<le> unat b" "unat b < 100" | "100 \<le> unat b" by linarith
  then show ?thesis
  proof cases
    case 2
    then have "unat (b div 10) < 10" by (simp add: unat_div)
    with 2 show ?thesis by (simp add: ntoa_inv_big ntoa_inv_small unat_div)
  next
    case 3
    have "unat (b div 10 div 10) < 10" "10 \<le> unat (b div 10)"
      using 3 unat_lt2p[of b] by (simp_all add: unat_div div_mult2_eq [symmetric])
    with 3 show ?thesis
      by (simp add: ntoa_inv_big ntoa_inv_small unat_div div_mult2_eq [symmetric])
  qed (simp add: ntoa_inv_small)
qed

lemma ntoa_inv_fits: "length (ntoa_inv b) \<le> 3"
  using arg_cong[OF dec_digits[of b], of length] by (auto split: if_splits)

lemma char_val_digit: "n < 10 \<Longrightarrow> char_val (char_of (48 + n)) = 48 + n"
  by (simp add: char_val_def)

lemma aton_digits_step:
  assumes "n < 10"
  shows "aton_digits base val (char_of (48 + n) # cp) = aton_digits base (val * base + of_nat n) cp"
  using assms by (simp add: char_val_digit lwip_isdigit_def in_range_def)

definition digits_end :: "string \<Rightarrow> bool" where
  "digits_end cp \<longleftrightarrow> cp = [] \<or> hd cp = CHR ''.''"

lemma aton_digits_end: "digits_end cp \<Longrightarrow> aton_digits base val cp = (val, cp)"
  by (cases cp) (auto simp: digits_end_def char_val_def lwip_isdigit_def lwip_isxdigit_def in_range_def)

lemma aton_number_dec:
  assumes "digits_end rest"
  shows "aton_number (rev (ntoa_inv b) @ rest) = (ucast b, rest)"
proof -
  have lt: "unat b < 256" using unat_lt2p[of b] by simp
  have p: "aton_peek (char_of (48 + n) # cp) = 48 + n" if "n < 10" for n cp
    using that by (simp add: aton_peek_def char_val_digit)
  have q: "aton_peek rest \<noteq> 120" "aton_peek rest \<noteq> 88"
    using assms by (auto simp: aton_peek_def digits_end_def char_val_def split: list.splits)
  have zero: "aton_number (char_of (48 + 0 :: nat) # rest) = (0, rest)"
    using assms q p[of 0 rest] by (simp add: aton_number_def Let_def aton_digits_end)
  have pos: "aton_number (char_of (48 + n) # cp) = aton_digits 10 (of_nat n) cp" if "0 < n" "n < 10" for n cp
    using that p[of n cp] by (simp add: aton_number_def aton_digits_step del: aton_digits.simps)
  have ten: "of_nat (n div 10) * 10 + of_nat (n mod 10) = (of_nat n :: u32)" for n
    using arg_cong[OF div_mult_mod_eq[of n 10], of "of_nat :: nat \<Rightarrow> u32"]
    by (simp only: of_nat_add of_nat_mult of_nat_numeral)
  consider "unat b = 0" | "0 < unat b" "unat b < 10" | "10 \<le> unat b" "unat b < 100" | "100 \<le> unat b"
    by linarith
  then show ?thesis
  proof cases
    case 1 then show ?thesis using zero by (simp add: dec_digits ucast_as_of_nat)
  next
    case 2 then show ?thesis by (simp add: dec_digits pos aton_digits_end assms)
  next
    case 3
    then have "aton_number (rev (ntoa_inv b) @ rest) =
       (of_nat (unat b div 10) * 10 + of_nat (unat b mod 10), rest)"
      by (simp add: dec_digits pos aton_digits_step aton_digits_end assms del: aton_digits.simps)
    then show ?thesis by (simp only: ten ucast_as_of_nat)
  next
    case 4
    then have "aton_number (rev (ntoa_inv b) @ rest) =
       ((of_nat (unat b div 10 div 10) * 10 + of_nat (unat b div 10 mod 10)) * 10 + of_nat (unat b mod 10), rest)"
      using lt by (simp add: dec_digits pos aton_digits_step aton_digits_end assms div_mult2_eq [symmetric]
          del: aton_digits.simps)
    then show ?thesis by (simp only: ten ucast_as_of_nat)
  qed
qed

lemma aton_peek_dec: "lwip_isdigit (aton_peek (rev (ntoa_inv b) @ rest))"
  using unat_lt2p[of b]
  by (auto simp: dec_digits aton_peek_def char_val_digit lwip_isdigit_def in_range_def)

lemma aton_parts_dec:
  "aton_parts ps (rev (ntoa_inv b) @ CHR ''.'' # rest) =
     (if length ps \<ge> 3 then None else aton_parts (ps @ [ucast b]) rest)"
  "aton_parts ps (rev (ntoa_inv b)) = Some (ps, ucast b, [])"
  using aton_number_dec[of "CHR ''.'' # rest" b] aton_number_dec[of "[]" b]
    aton_peek_dec[of b "CHR ''.'' # rest"] aton_peek_dec[of b "[]"]
  by (subst aton_parts.simps; simp add: digits_end_def aton_peek_def char_val_def)+

lemma htonl_mem_bytes:
  "htonl (ucast (b3::u8) OR (push_bit 24 (ucast (b0::u8)) OR push_bit 16 (ucast (b1::u8)) OR push_bit 8 (ucast (b2::u8)))) =
    ucast b0 OR push_bit 8 (ucast b1) OR push_bit 16 (ucast b2) OR push_bit 24 (ucast b3)"
  by (rule bit_word_eqI) (auto simp: bit_htonl bit_simps bit_ge_length)

lemma mem_bytes32_join:
  "ucast (ucast w :: u8) OR push_bit 8 (ucast (ucast (drop_bit 8 w) :: u8)) OR
   push_bit 16 (ucast (ucast (drop_bit 16 w) :: u8)) OR push_bit 24 (ucast (ucast (drop_bit 24 w) :: u8)) = (w::u32)"
  (is "?l = w")
proof (rule bit_word_eqI)
  fix n assume "n < LENGTH(32)"
  then consider "n < 8" | "8 \<le> n" "n < 16" | "16 \<le> n" "n < 24" | "24 \<le> n" "n < 32" by force
  then show "bit ?l n = bit w n" by cases (auto simp: bit_simps)
qed

lemma inet_ntoa_unfold:
  "inet_ntoa a = rev (ntoa_inv (ucast a)) @ CHR ''.'' # rev (ntoa_inv (ucast (drop_bit 8 a))) @
     CHR ''.'' # rev (ntoa_inv (ucast (drop_bit 16 a))) @ CHR ''.'' # rev (ntoa_inv (ucast (drop_bit 24 a)))"
  by (simp add: inet_ntoa_def mem_bytes32_def butlast_append)

lemma inet_aton_ntoa: "inet_aton (inet_ntoa a) = Some a"
proof -
  have "aton_parts [] (inet_ntoa a) =
    Some ([ucast (ucast a :: u8), ucast (ucast (drop_bit 8 a) :: u8), ucast (ucast (drop_bit 16 a) :: u8)],
      ucast (ucast (drop_bit 24 a) :: u8), [])"
    by (simp add: inet_ntoa_unfold aton_parts_dec)
  moreover have "\<not> ucast (b :: u8) > (0xff :: u32)" for b
    using unat_lt2p[of b] by (simp add: word_less_nat_alt unat_ucast_up)
  ultimately show ?thesis
    by (simp add: inet_aton_def aton_peek_def htonl_mem_bytes mem_bytes32_join)
qed

lemma inet_ntoa_fits: "length (inet_ntoa a) + 1 \<le> 16"
  using ntoa_inv_fits[of "ucast a"] ntoa_inv_fits[of "ucast (drop_bit 8 a)"]
    ntoa_inv_fits[of "ucast (drop_bit 16 a)"] ntoa_inv_fits[of "ucast (drop_bit 24 a)"]
  by (simp add: inet_ntoa_unfold)

text \<open>The leading parts of a dotted address are not checked against 255: they are shifted into
  place and their high bits are lost.\<close>

lemma inet_aton_part_unchecked: "inet_aton ''257.0.0.1'' = inet_aton ''1.0.0.1''"
  by (simp add: inet_aton_def aton_parts.simps aton_number_def aton_peek_def char_val_def
      lwip_isdigit_def in_range_def htonl_def)

text \<open>Claim C32. Printing an address and reading it back is the identity, for all \<open>2^32\<close>
  addresses: \<open>inet_aton\<close> accepts the text \<open>inet_ntoa\<close> produces and returns the same
  network-order word, so does \<open>inet_addr\<close>; and the text with its NUL never overruns the static
  buffer of 16 characters, nor the digits of one byte the scratch buffer of 3.\<close>

theorem inet_text_roundtrip:
  "inet_aton (inet_ntoa a) = Some a \<and> inet_addr (inet_ntoa a) = a \<and>
   length (inet_ntoa a) + 1 \<le> 16 \<and> length (ntoa_inv b) \<le> 3"
  using inet_ntoa_fits[of a] ntoa_inv_fits[of b] by (simp add: inet_aton_ntoa inet_addr_def)

end
