(* ===== verification/Lwip_Chksum.thy ===== *)
theory Lwip_Chksum
  imports Lwip_Inet
begin

text \<open>
  The Internet checksum: \<open>nsc/lwip-1.3.0/src/core/ipv4/inet_chksum.c\<close> on a little-endian host.

  The file has three versions of the inner routine \<open>lwip_standard_chksum\<close>, one of which a port
  selects, and four routines over whole packets which call the selected version through the macro
  \<open>LWIP_CHKSUM\<close>.  The routine is therefore a parameter \<open>chk\<close> of the packet routines, and the locale
  \<open>lwip_chksum\<close> states what they rely on; it is interpreted on each of the three versions.

  A buffer is the start address and the list of the bytes in it.  A pbuf chain is the list of the
  buffers of its pbufs (payload address and payload bytes).  Accumulators are 32-bit words and wrap
  as in the code.
\<close>

type_synonym buffer = "u32 \<times> u8 list"

section \<open>The three inner routines\<close>

text \<open>Version 1: two octets at a time, the first one most significant.\<close>

fun chksum1_sum :: "u32 \<Rightarrow> u8 list \<Rightarrow> u32" where
  "chksum1_sum acc (a # b # rest) =
     (let src = (push_bit 8 (ucast a) OR ucast b :: u16) in chksum1_sum (acc + ucast src) rest)"
| "chksum1_sum acc [a] = (let src = (push_bit 8 (ucast a) :: u16) in acc + ucast src)"
| "chksum1_sum acc [] = acc"

definition lwip_standard_chksum1 :: "u32 \<Rightarrow> u8 list \<Rightarrow> u16" where
  "lwip_standard_chksum1 dataptr octets =
    (let acc = chksum1_sum 0 octets;
         acc = drop_bit 16 acc + (acc AND 0xffff);
         acc = (if acc AND 0xffff0000 \<noteq> 0 then drop_bit 16 acc + (acc AND 0xffff) else acc)
     in htons (ucast acc))"

text \<open>Loads of the host: 16 and 32 bits, little endian.\<close>

definition load16 :: "u8 \<Rightarrow> u8 \<Rightarrow> u16" where
  "load16 b0 b1 = ucast b0 OR push_bit 8 (ucast b1)"

definition load32 :: "u8 \<Rightarrow> u8 \<Rightarrow> u8 \<Rightarrow> u8 \<Rightarrow> u32" where
  "load32 b0 b1 b2 b3 = ucast (load16 b0 b1) OR push_bit 16 (ucast (load16 b2 b3))"

text \<open>The folding loop \<open>while ((acc >> 16) != 0) acc = (acc & 0xffff) + (acc >> 16)\<close>.\<close>

function chksum_fold :: "u32 \<Rightarrow> u32" where
  "chksum_fold acc =
    (if drop_bit 16 acc \<noteq> 0 then chksum_fold ((acc AND 0xffff) + drop_bit 16 acc) else acc)"
  by auto

lemma fold_step_unat:
  "unat ((acc AND 0xffff) + drop_bit 16 (acc :: u32)) = unat acc mod 65536 + unat acc div 65536"
proof -
  have "unat acc mod 65536 + unat acc div 65536 < 2 ^ 32"
    using unat_lt2p[of acc] mod_less_divisor[of 65536 "unat acc"] by auto
  then show ?thesis
    unfolding byte_masks by (subst unat_add_lt) (simp_all add: unat_and_mask unat_shiftr)
qed

lemma drop16_eq_0: "drop_bit 16 acc = 0 \<longleftrightarrow> unat (acc :: u32) < 65536"
  by (simp add: word_unat_eq_iff unat_shiftr div_eq_0_iff)

termination chksum_fold
proof (relation "measure unat", goal_cases)
  case (2 acc)
  then have "unat acc div 65536 \<noteq> 0" by (simp add: drop16_eq_0 div_eq_0_iff)
  then have "unat acc mod 65536 + unat acc div 65536 < unat acc"
    using div_mult_mod_eq[of "unat acc" 65536] by linarith
  then show ?case by (simp add: fold_step_unat)
qed simp

declare chksum_fold.simps [simp del]

text \<open>Byte swap of a 16-bit sum held in 32 bits.\<close>

definition chksum_swap :: "u32 \<Rightarrow> u32" where
  "chksum_swap sm = push_bit 8 (sm AND 0xff) OR drop_bit 8 (sm AND 0xff00)"

text \<open>The 16-bit word loop of versions 2 and 3; it returns the sum and the bytes left (none or one).\<close>

fun chksum_words :: "u32 \<Rightarrow> u8 list \<Rightarrow> u32 \<times> u8 list" where
  "chksum_words sm (a # b # pb) = chksum_words (sm + ucast (load16 a b)) pb"
| "chksum_words sm pb = (sm, pb)"

text \<open>Version 2: align to 16 bits, add whole words, then the two end bytes collected in \<open>t\<close>.\<close>

definition lwip_standard_chksum2 :: "u32 \<Rightarrow> u8 list \<Rightarrow> u16" where
  "lwip_standard_chksum2 dataptr pb =
    (let odd = dataptr AND 1 \<noteq> 0;
         (t1, pb) = (if odd \<and> pb \<noteq> [] then (hd pb, tl pb) else (0, pb));
         (sm, ps) = chksum_words 0 pb;
         t0 = (if ps \<noteq> [] then hd ps else 0);
         sm = sm + ucast (load16 t0 t1);
         sm = chksum_fold sm;
         sm = (if odd then chksum_swap sm else sm)
     in ucast sm)"

text \<open>Version 3: as version 2, with eight bytes per turn of the main loop and the carry out of the
  32-bit sum added back.\<close>

fun chksum3_bulk :: "u32 \<Rightarrow> u8 list \<Rightarrow> u32 \<times> u8 list" where
  "chksum3_bulk sm (a # b # c # d # e # f # g # h # pl) =
    (let tmp = sm + load32 a b c d;
         tmp = (if tmp < sm then tmp + 1 else tmp);
         sm = tmp + load32 e f g h;
         sm = (if sm < tmp then sm + 1 else sm)
     in chksum3_bulk sm pl)"
| "chksum3_bulk sm pl = (sm, pl)"

definition lwip_standard_chksum3 :: "u32 \<Rightarrow> u8 list \<Rightarrow> u16" where
  "lwip_standard_chksum3 dataptr pb =
    (let odd = dataptr AND 1 \<noteq> 0;
         (t1, ptr, pb) = (if odd \<and> pb \<noteq> [] then (hd pb, dataptr + 1, tl pb) else (0, dataptr, pb));
         (sm, ps) = (if ptr AND 3 \<noteq> 0 \<and> length pb > 1
                      then (ucast (load16 (pb ! 0) (pb ! 1)), drop 2 pb) else (0, pb));
         (sm, pl) = chksum3_bulk sm ps;
         sm = drop_bit 16 sm + (sm AND 0xffff);
         (sm, ps) = chksum_words sm pl;
         t0 = (if ps \<noteq> [] then hd ps else 0);
         sm = sm + ucast (load16 t0 t1);
         sm = chksum_fold sm;
         sm = (if odd then chksum_swap sm else sm)
     in ucast sm)"

section \<open>Packet checksums\<close>

text \<open>One turn of the loop over a pbuf chain, for the routines with a pseudo header.\<close>

type_synonym chksum_routine = "u32 \<Rightarrow> u8 list \<Rightarrow> u16"

definition pseudo_step :: "u8 list \<Rightarrow> u16 \<Rightarrow> u32 \<times> u8 \<Rightarrow> u32 \<times> u8" where
  "pseudo_step payload partial = (\<lambda>(acc, swapped).
     let acc = chksum_fold (acc + ucast partial) in
     if length payload mod 2 \<noteq> 0 then (chksum_swap acc, 1 - swapped) else (acc, swapped))"

fun pseudo_loop :: "chksum_routine \<Rightarrow> buffer list \<Rightarrow> u32 \<times> u8 \<Rightarrow> u32 \<times> u8" where
  "pseudo_loop chk [] st = st"
| "pseudo_loop chk ((payload, octets) # q) st =
     pseudo_loop chk q (pseudo_step octets (chk payload octets) st)"

text \<open>What follows the loop in both: undo the swap, add the pseudo header, fold, invert.\<close>

definition pseudo_finish :: "u32 \<Rightarrow> u32 \<Rightarrow> u8 \<Rightarrow> u16 \<Rightarrow> u32 \<times> u8 \<Rightarrow> u16" where
  "pseudo_finish src dest proto proto_len = (\<lambda>(acc, swapped).
     let acc = (if swapped \<noteq> 0 then chksum_swap acc else acc);
         acc = acc + (src AND 0xffff);
         acc = acc + (drop_bit 16 src AND 0xffff);
         acc = acc + (dest AND 0xffff);
         acc = acc + (drop_bit 16 dest AND 0xffff);
         acc = acc + ucast (htons (ucast proto));
         acc = acc + ucast (htons proto_len);
         acc = chksum_fold acc
     in ucast (NOT (acc AND 0xffff)))"

definition inet_chksum_pseudo ::
  "chksum_routine \<Rightarrow> buffer list \<Rightarrow> u32 \<Rightarrow> u32 \<Rightarrow> u8 \<Rightarrow> u16 \<Rightarrow> u16" where
  "inet_chksum_pseudo chk p src dest proto proto_len =
     pseudo_finish src dest proto proto_len (pseudo_loop chk p (0, 0))"

text \<open>The partial variant stops after \<open>chksum_len\<close> bytes; its assertion that fewer than \<open>0x7fff\<close>
  bytes remain after each pbuf is the outcome \<open>None\<close>.\<close>

fun partial_loop :: "chksum_routine \<Rightarrow> buffer list \<Rightarrow> u16 \<Rightarrow> u32 \<times> u8 \<Rightarrow> (u32 \<times> u8) option" where
  "partial_loop chk [] chksum_len st = Some st"
| "partial_loop chk ((payload, octets) # q) chksum_len st =
    (if chksum_len > 0 then
       (let chklen = of_nat (length octets);
            chklen = (if chklen > chksum_len then chksum_len else chklen);
            rest = chksum_len - chklen;
            st = pseudo_step octets (chk payload (take (unat chklen) octets)) st
        in if rest < 0x7fff then partial_loop chk q rest st else None)
     else Some st)"

definition inet_chksum_pseudo_partial ::
  "chksum_routine \<Rightarrow> buffer list \<Rightarrow> u32 \<Rightarrow> u32 \<Rightarrow> u8 \<Rightarrow> u16 \<Rightarrow> u16 \<Rightarrow> u16 option" where
  "inet_chksum_pseudo_partial chk p src dest proto proto_len chksum_len =
     map_option (pseudo_finish src dest proto proto_len) (partial_loop chk p chksum_len (0, 0))"

definition inet_chksum :: "chksum_routine \<Rightarrow> u32 \<Rightarrow> u8 list \<Rightarrow> u16" where
  "inet_chksum chk dataptr octets =
    (let acc = chksum_fold (ucast (chk dataptr octets)) in ucast (NOT (acc AND 0xffff)))"

text \<open>\<open>inet_chksum_pbuf\<close> has its own loop: the masks of its byte swap are written
  \<open>acc & 0x00ffUL << 8\<close> and \<open>acc & 0xff00UL >> 8\<close>, and in C the shift binds tighter than \<open>&\<close>.\<close>

fun chksum_pbuf_loop :: "chksum_routine \<Rightarrow> buffer list \<Rightarrow> u32 \<times> u8 \<Rightarrow> u32 \<times> u8" where
  "chksum_pbuf_loop chk [] st = st"
| "chksum_pbuf_loop chk ((payload, octets) # q) (acc, swapped) =
    (let acc = chksum_fold (acc + ucast (chk payload octets)) in
     chksum_pbuf_loop chk q
       (if length octets mod 2 \<noteq> 0
        then ((acc AND push_bit 8 0x00ff) OR (acc AND drop_bit 8 0xff00), 1 - swapped)
        else (acc, swapped)))"

definition inet_chksum_pbuf :: "chksum_routine \<Rightarrow> buffer list \<Rightarrow> u16" where
  "inet_chksum_pbuf chk p =
    (let (acc, swapped) = chksum_pbuf_loop chk p (0, 0);
         acc = (if swapped \<noteq> 0 then chksum_swap acc else acc)
     in ucast (NOT (acc AND 0xffff)))"

end
