(* ===== verification/Lwip_Chksum_Correct.thy ===== *)
theory Lwip_Chksum_Correct
  imports Lwip_Chksum
begin

text \<open>
  Correctness of the checksum routines of \<open>inet_chksum.c\<close>.  The reference is RFC 1071's one's
  complement sum: \<open>wsum\<close> adds the 16-bit words of the data (little endian, a missing last byte
  counts as zero) as a natural number, and \<open>ones\<close> reduces it to 16 bits with end-around carry.
  \<open>ones_eq\<close> is the congruence the proofs work with: equal modulo \<open>65535\<close>, and
  zero together.
\<close>

section \<open>One's complement arithmetic\<close>

fun wsum :: "u8 list \<Rightarrow> nat" where
  "wsum [] = 0"
| "wsum [a] = unat a"
| "wsum (a # b # rest) = unat a + 256 * unat b + wsum rest"

definition ones :: "nat \<Rightarrow> nat" where
  "ones S = (if S = 0 then 0 else (S - 1) mod 65535 + 1)"

definition ones_eq :: "nat \<Rightarrow> nat \<Rightarrow> bool" where
  "ones_eq x y \<longleftrightarrow> x mod 65535 = y mod 65535 \<and> (x = 0 \<longleftrightarrow> y = 0)"

lemma ones_eq_refl [simp]: "ones_eq x x"
  by (simp add: ones_eq_def)

lemma ones_eq_sym: "ones_eq x y \<Longrightarrow> ones_eq y x"
  by (auto simp: ones_eq_def)

lemma ones_eq_trans [trans]: "ones_eq x y \<Longrightarrow> ones_eq y z \<Longrightarrow> ones_eq x z"
  by (auto simp: ones_eq_def)

lemma ones_eq_eq_trans [trans]: "ones_eq x y \<Longrightarrow> y = z \<Longrightarrow> ones_eq x z" "x = y \<Longrightarrow> ones_eq y z \<Longrightarrow> ones_eq x z"
  by simp_all

lemma ones_eq_add: "ones_eq x S \<Longrightarrow> ones_eq y T \<Longrightarrow> ones_eq (x + y) (S + T)"
  unfolding ones_eq_def by (metis add_is_0 mod_add_cong)

lemma ones_eq_mult: "ones_eq x S \<Longrightarrow> ones_eq (256 * x) (256 * S)"
  unfolding ones_eq_def by (metis mod_mult_right_eq mult_is_0)

lemma ones_eqI: "x = y + 65535 * k \<Longrightarrow> (y = 0 \<Longrightarrow> k = 0) \<Longrightarrow> ones_eq x y"
  unfolding ones_eq_def by auto

lemma ones_eq_65536: "ones_eq (65536 * x) x"
  by (rule ones_eqI[where k = x]) auto

lemma ones_eq_fold: "ones_eq (x mod 65536 + x div 65536) x"
  by (rule ones_eq_sym, rule ones_eqI[where k = "x div 65536"])
    (use div_mult_mod_eq[of x 65536] in auto)

lemma ones_eq_ones: "ones_eq (ones S) S"
  unfolding ones_eq_def ones_def
  by (auto simp: mod_Suc_eq)

lemma ones_le: "ones S < 65536"
  by (simp add: ones_def less_Suc_eq_le mod_less_divisor[THEN less_imp_le_nat, of 65535, simplified]) 

lemma ones_unique:
  assumes "ones_eq x S" "x < 65536" shows "x = ones S"
proof -
  have "ones_eq x (ones S)" using assms(1) ones_eq_ones ones_eq_sym ones_eq_trans by blast
  then have m: "x mod 65535 = ones S mod 65535" "x = 0 \<longleftrightarrow> ones S = 0" by (auto simp: ones_eq_def)
  consider "x = 65535" | "x < 65535" using assms(2) by linarith
  then show ?thesis
  proof cases
    case 1 
    with m have "ones S mod 65535 = 0" "ones S \<noteq> 0" by auto
    with ones_le[of S] show ?thesis using 1 by (auto simp: mod_eq_0_iff_dvd elim!: dvdE)
  next
    case 2
    consider "ones S = 65535" | "ones S < 65535" using ones_le[of S] by linarith
    then show ?thesis using m 2 by cases auto
  qed
qed

lemma wsum_Cons: "ones_eq (wsum (a # xs)) (unat a + 256 * wsum xs)"
proof (induction xs arbitrary: a rule: wsum.induct)
  case (3 b c ys)
  have "ones_eq (unat a + 256 * unat b + wsum (c # ys)) (unat a + 256 * unat b + (65536 * unat c + 256 * wsum ys))"
    by (intro ones_eq_add ones_eq_refl ones_eq_trans[OF 3] ones_eq_sym[OF ones_eq_65536])
  then show ?case by (simp add: algebra_simps)
qed auto

lemma wsum_append_even: "even (length xs) \<Longrightarrow> wsum (xs @ ys) = wsum xs + wsum ys"
  by (induction xs rule: wsum.induct) auto

lemma wsum_append_odd: "odd (length xs) \<Longrightarrow> ones_eq (wsum (xs @ ys)) (wsum xs + 256 * wsum ys)"
proof (induction xs rule: wsum.induct)
  case (3 a b rest)
  then show ?case by (simp add: add.assoc ones_eq_add)
qed (auto simp: wsum_Cons)

lemma wsum_swap: "ones_eq (256 * (256 * x)) x"
  using ones_eq_65536[of x] by simp

section \<open>Words\<close>

lemma unat_load16: "unat (load16 a b) = unat a + 256 * unat b"
proof -
  have "load16 a b = ucast a + push_bit 8 (ucast b)"
    unfolding load16_def by (rule disjunctive_add [symmetric]) (auto simp: bit_simps bit_ge_length)
  moreover have "unat (push_bit 8 (ucast b :: u16)) = 256 * unat b"
    using unat_lt2p[of b] by (simp add: push_bit_eq_mult unat_word_ariths unat_ucast_up)
  ultimately show ?thesis
    using unat_lt2p[of b] unat_lt2p[of a] by (simp add: unat_add_lt unat_ucast_up)
qed

lemma unat_load32: "unat (load32 a b c d) = unat (load16 a b) + 65536 * unat (load16 c d)"
proof -
  have "load32 a b c d = ucast (load16 a b) + push_bit 16 (ucast (load16 c d))"
    unfolding load32_def by (rule disjunctive_add [symmetric]) (auto simp: bit_simps bit_ge_length)
  moreover have "unat (push_bit 16 (ucast (load16 c d) :: u32)) = 65536 * unat (load16 c d)"
    using unat_lt2p[of "load16 c d"] by (simp add: push_bit_eq_mult unat_word_ariths unat_ucast_up)
  ultimately show ?thesis
    using unat_lt2p[of "load16 a b"] unat_lt2p[of "load16 c d"] by (simp add: unat_add_lt unat_ucast_up)
qed

lemma chksum_fold_ok: "unat (chksum_fold acc) < 65536 \<and> ones_eq (unat (chksum_fold acc)) (unat acc)"
proof (induction acc rule: chksum_fold.induct)
  case (1 acc)
  show ?case
  proof (cases "drop_bit 16 acc = 0")
    case True then show ?thesis by (subst (1 2) chksum_fold.simps) (simp add: drop16_eq_0)
  next
    case False
    then show ?thesis
      using 1 [OF False] ones_eq_fold[of "unat acc"]
      by (subst (1 2) chksum_fold.simps) (auto simp: fold_step_unat intro: ones_eq_trans)
  qed
qed

lemma unat_chksum_fold: "unat (chksum_fold acc) = ones (unat acc)"
  using chksum_fold_ok ones_unique by blast

lemma unat_chksum_swap: "unat s < 65536 \<Longrightarrow> unat (chksum_swap s) = 256 * (unat s mod 256) + unat s div 256"
  unfolding chksum_swap_def by (subst swap_bytes_unat) auto

lemma swap_lt: "x < 65536 \<Longrightarrow> 256 * (x mod 256) + x div 256 < (65536::nat)"
  using mod_less_divisor[of 256 x] by auto

lemma swap_ones: "ones_eq (256 * (x mod 256) + x div 256) (256 * x)"
  by (rule ones_eq_sym, rule ones_eqI[where k = "x div 256"])
    (use div_mult_mod_eq[of x 256] in linarith, simp)

section \<open>Version 1\<close>

fun besum :: "u8 list \<Rightarrow> nat" where
  "besum [] = 0"
| "besum [a] = 256 * unat a"
| "besum (a # b # rest) = 256 * unat a + unat b + besum rest"

lemma besum_wsum: "ones_eq (256 * wsum d) (besum d)"
proof (induction d rule: wsum.induct)
  case (3 a b rest)
  have "ones_eq (256 * unat a + 65536 * unat b + 256 * wsum rest) (256 * unat a + unat b + besum rest)"
    by (intro ones_eq_add ones_eq_refl ones_eq_65536 3)
  then show ?case by (simp add: algebra_simps)
qed auto

lemma besum_bound: "besum d \<le> 65535 * ((length d + 1) div 2)"
proof (induction d rule: wsum.induct)
  case (2 a) then show ?case using unat_lt2p[of a] by simp
next
  case (3 a b rest) then show ?case using unat_lt2p[of a] unat_lt2p[of b] by simp
qed simp

lemma chksum1_src: "push_bit 8 (ucast a) OR ucast (b :: u8) = load16 b a"
  by (simp add: load16_def or.commute)

lemma unat_chksum1_sum:
  "unat acc + besum d < 2 ^ 32 \<Longrightarrow> unat (chksum1_sum acc d) = unat acc + besum d"
proof (induction acc d rule: chksum1_sum.induct)
  case (1 acc a b rest)
  have eq: "unat (acc + ucast (load16 b a)) = unat acc + (256 * unat a + unat b)"
    using 1(2) by (subst unat_add_lt) (simp_all add: unat_ucast_up unat_load16)
  show ?case
    using 1(1)[OF refl] 1(2) eq by (simp add: chksum1_src)
next
  case (2 acc a)
  then show ?case
    using chksum1_src[of a 0] by (simp add: unat_add_lt unat_ucast_up unat_load16)
qed simp

lemma hi_mask_zero: "(acc AND 0xffff0000 = 0) \<longleftrightarrow> drop_bit 16 acc = (0 :: u32)"
proof -
  have "acc AND 0xffff0000 = push_bit 16 (drop_bit 16 acc)"
    unfolding byte_masks by (rule bit_word_eqI) (auto simp: bit_simps)
  moreover have "drop_bit 16 (push_bit 16 (drop_bit 16 acc)) = drop_bit 16 acc"
    by (rule bit_word_eqI) (auto simp: bit_simps dest: bit_imp_le_length)
  ultimately show ?thesis by (metis drop_bit_of_0 push_bit_of_0)
qed

lemma fold_once: "unat (drop_bit 16 acc + (acc AND 0xffff)) = unat (acc :: u32) mod 65536 + unat acc div 65536"
  using fold_step_unat[of acc] by (simp add: add.commute)

lemma chksum1_ok:
  assumes "length d \<le> 65535"
  shows "unat (lwip_standard_chksum1 ptr d) = ones (wsum d)"
proof -
  define x where "x = chksum1_sum 0 d"
  define y where "y = drop_bit 16 x + (x AND 0xffff)"
  define z where "z = (if y AND 0xffff0000 \<noteq> 0 then drop_bit 16 y + (y AND 0xffff) else y)"
  have "(length d + 1) div 2 \<le> 32768" using assms by simp
  then have x: "unat x = besum d"
    using besum_bound[of d] unat_chksum1_sum[of 0 d] by (simp add: x_def)
  have uy: "unat y = unat x mod 65536 + unat x div 65536" by (simp add: y_def fold_once)
  then have y: "unat y \<le> 131070" "ones_eq (unat y) (unat x)"
    using unat_lt2p[of x] mod_less_divisor[of 65536 "unat x"] ones_eq_fold[of "unat x"] by auto
  have "unat z < 65536 \<and> ones_eq (unat z) (unat y)"
  proof (cases "unat y < 65536")
    case False
    then have "unat y div 65536 = 1" "unat y mod 65536 = unat y - 65536" using y(1) by (auto simp: nat_mod_wrap)
    then show ?thesis
      using False y(1) ones_eq_fold[of "unat y"] by (simp add: z_def hi_mask_zero drop16_eq_0 fold_once)
  qed (simp add: z_def hi_mask_zero drop16_eq_0)
  then have z: "unat z < 65536" "ones_eq (unat z) (256 * wsum d)"
    using y x besum_wsum ones_eq_sym ones_eq_trans by metis+
  have r: "lwip_standard_chksum1 ptr d = htons (ucast z)"
    by (simp add: lwip_standard_chksum1_def Let_def x_def y_def z_def)
  have "unat (ucast z :: u16) = unat z"
    using z(1) by (simp add: unsigned_ucast_eq take_bit_nat_eq_self)
  then have u: "unat (lwip_standard_chksum1 ptr d) = 256 * (unat z mod 256) + unat z div 256"
    by (simp add: r unat_htons)
  also have "ones_eq \<dots> (256 * unat z)" by (rule swap_ones)
  also have "ones_eq \<dots> (256 * (256 * wsum d))" by (rule ones_eq_mult [OF z(2)])
  also have "ones_eq \<dots> (wsum d)" by (rule wsum_swap)
  finally show ?thesis
    by (rule ones_unique) (use unat_lt2p[of "lwip_standard_chksum1 ptr d"] in simp)
qed

section \<open>Versions 2 and 3\<close>

lemma chksum_words_ok:
  "unat acc + wsum d < 2 ^ 32 \<Longrightarrow>
   (case chksum_words acc d of (r, ps) \<Rightarrow>
     unat r + wsum ps = unat acc + wsum d \<and> length ps \<le> 1)"
proof (induction acc d rule: chksum_words.induct)
  case (1 acc a b pb)
  have "unat (acc + ucast (load16 a b)) = unat acc + (unat a + 256 * unat b)"
    using 1(2) by (subst unat_add_lt) (simp_all add: unat_ucast_up unat_load16)
  then show ?case using 1 by (auto split: prod.splits)
qed auto

lemma carry_add:
  fixes a w :: u32
  shows "ones_eq (unat (if a + w < a then a + w + 1 else a + w)) (unat a + unat w)"
proof (cases "unat a + unat w < 2 ^ 32")
  case True
  then have "unat (a + w) = unat a + unat w" by (simp add: unat_add_lt)
  then show ?thesis by (simp add: word_less_nat_alt)
next
  case False
  then have o: "unat (a + w) = unat a + unat w - 2 ^ 32"
    using unat_lt2p[of a] unat_lt2p[of w] by (simp add: unat_word_ariths nat_mod_wrap)
  then have "a + w < a" using unat_lt2p[of w] False by (simp add: word_less_nat_alt)
  moreover have "unat (a + w + 1) = unat a + unat w - 2 ^ 32 + 1"
    using o unat_lt2p[of a] unat_lt2p[of w] by (subst unat_add_lt) auto
  ultimately show ?thesis
    by (intro ones_eq_sym[OF ones_eqI[where k = 65537]]) (use False in auto)
qed

lemma wsum8: "ones_eq (unat (load32 a b c d) + unat (load32 e f g h) + wsum rest) (wsum (a # b # c # d # e # f # g # h # rest))"
proof -
  have "ones_eq (unat (load16 a b) + 65536 * unat (load16 c d) + (unat (load16 e f) + 65536 * unat (load16 g h)) + wsum rest)
    (unat (load16 a b) + unat (load16 c d) + (unat (load16 e f) + unat (load16 g h)) + wsum rest)"
    by (intro ones_eq_add ones_eq_refl ones_eq_65536)
  then show ?thesis by (simp add: unat_load32 unat_load16 algebra_simps)
qed

lemma chksum3_bulk_ok:
  "case chksum3_bulk acc d of (r, pl) \<Rightarrow>
     ones_eq (unat r + wsum pl) (unat acc + wsum d) \<and> length pl \<le> 7"
proof (induction acc d rule: chksum3_bulk.induct)
  case (1 acc a b c d e f g h pl)
  define t where "t = (if acc + load32 a b c d < acc then acc + load32 a b c d + 1 else acc + load32 a b c d)"
  define s where "s = (if t + load32 e f g h < t then t + load32 e f g h + 1 else t + load32 e f g h)"
  have "ones_eq (unat s + wsum pl) (unat acc + unat (load32 a b c d) + unat (load32 e f g h) + wsum pl)"
    unfolding s_def by (intro ones_eq_add ones_eq_refl ones_eq_trans[OF carry_add]) (simp add: t_def carry_add)
  then have "ones_eq (unat s + wsum pl) (unat acc + (unat (load32 a b c d) + unat (load32 e f g h) + wsum pl))"
    by (simp add: add.assoc)
  also have "ones_eq \<dots> (unat acc + wsum (a # b # c # d # e # f # g # h # pl))"
    by (intro ones_eq_add ones_eq_refl wsum8)
  finally have *: "ones_eq (unat s + wsum pl) (unat acc + wsum (a # b # c # d # e # f # g # h # pl))" .
  have eq: "chksum3_bulk acc (a # b # c # d # e # f # g # h # pl) = chksum3_bulk s pl"
    by (simp only: chksum3_bulk.simps Let_def t_def s_def)
  have ih: "case chksum3_bulk s pl of (r, pl') \<Rightarrow>
     ones_eq (unat r + wsum pl') (unat s + wsum pl) \<and> length pl' \<le> 7"
    using 1 [OF refl refl refl refl] by (simp only: t_def s_def)
  show ?case
    unfolding eq using ih ones_eq_trans[OF _ *] by (auto split: prod.splits)
qed auto

text \<open>Both versions end alike: add the end bytes, fold, swap for an odd start.\<close>

definition chksum_tail :: "bool \<Rightarrow> u8 \<Rightarrow> u32 \<times> u8 list \<Rightarrow> u16" where
  "chksum_tail od t1 = (\<lambda>(sm, ps). ucast
     (if od then chksum_swap (chksum_fold (sm + ucast (load16 (if ps \<noteq> [] then hd ps else 0) t1)))
      else chksum_fold (sm + ucast (load16 (if ps \<noteq> [] then hd ps else 0) t1))))"

lemma chksum_tail_ok:
  assumes "length ps \<le> 1" "unat r + 65535 < 2 ^ 32"
    and "ones_eq (unat r + wsum ps) (wsum pb)" "\<not> od \<Longrightarrow> t1 = 0"
  shows "unat (chksum_tail od t1 (r, ps)) = ones (if od then wsum (t1 # pb) else wsum pb)"
proof -
  define t where "t = load16 (if ps \<noteq> [] then hd ps else 0) t1"
  define f where "f = chksum_fold (r + ucast t)"
  have t: "unat t = wsum ps + 256 * unat t1"
    using assms(1) by (cases ps) (auto simp: t_def unat_load16)
  have "unat (r + ucast t) = unat r + unat t"
    using assms(2) unat_lt2p[of t] by (subst unat_add_lt) (auto simp: unat_ucast_up)
  then have "ones_eq (unat f) (unat r + wsum ps + 256 * unat t1)"
    using chksum_fold_ok[of "r + ucast t"] by (simp add: f_def t add.assoc)
  also have "ones_eq \<dots> (wsum pb + 256 * unat t1)" by (intro ones_eq_add assms(3)) simp
  finally have f: "ones_eq (unat f) (wsum pb + 256 * unat t1)" .
  have flt: "unat f < 65536" using chksum_fold_ok by (simp add: f_def)
  have tl: "chksum_tail od t1 (r, ps) = ucast (if od then chksum_swap f else f)"
    by (simp add: chksum_tail_def f_def t_def)
  have small: "unat (ucast x :: u16) = unat x" if "unat (x :: u32) < 65536" for x
    using that by (simp add: unsigned_ucast_eq take_bit_nat_eq_self)
  show ?thesis
  proof (cases od)
    case False
    then show ?thesis using f flt assms(4) tl small[OF flt] by (simp add: ones_unique)
  next
    case True
    have sw: "unat (chksum_swap f) = 256 * (unat f mod 256) + unat f div 256"
      by (rule unat_chksum_swap [OF flt])
    also have "ones_eq \<dots> (256 * unat f)" by (rule swap_ones)
    also have "ones_eq \<dots> (256 * (wsum pb + 256 * unat t1))" by (rule ones_eq_mult [OF f])
    also have "\<dots> = 65536 * unat t1 + 256 * wsum pb" by simp
    also have "ones_eq \<dots> (unat t1 + 256 * wsum pb)" by (intro ones_eq_add ones_eq_65536 ones_eq_refl)
    also have "ones_eq \<dots> (wsum (t1 # pb))" by (rule ones_eq_sym [OF wsum_Cons])
    finally have "ones_eq (unat (chksum_swap f)) (wsum (t1 # pb))" .
    moreover have "unat (chksum_swap f) < 65536" using sw swap_lt [OF flt] by simp
    ultimately show ?thesis using True tl small[of "chksum_swap f"] by (simp add: ones_unique)
  qed
qed

lemma wsum_bound: "wsum d \<le> 65535 * ((length d + 1) div 2)"
proof (induction d rule: wsum.induct)
  case (2 a) then show ?case using unat_lt2p[of a] by simp
next
  case (3 a b rest) then show ?case using unat_lt2p[of a] unat_lt2p[of b] by simp
qed simp

lemma chksum2_tail:
  "lwip_standard_chksum2 ptr d =
    (let od = ptr AND 1 \<noteq> 0;
         (t1, pb) = (if od \<and> d \<noteq> [] then (hd d, tl d) else (0, d))
     in chksum_tail od t1 (chksum_words 0 pb))"
  by (simp add: lwip_standard_chksum2_def chksum_tail_def Let_def split: prod.splits)

lemma head_byte_wsum:
  assumes "(t1, pb) = (if od \<and> d \<noteq> [] then (hd d, tl d) else (0, d))"
  shows "ones (if od then wsum (t1 # pb) else wsum pb) = ones (wsum d)" "\<not> od \<Longrightarrow> t1 = 0"
    "length pb \<le> length d"
  using assms by (auto split: if_splits)

lemma chksum2_ok:
  assumes "length d \<le> 0x20000"
  shows "unat (lwip_standard_chksum2 ptr d) = ones (wsum d)"
proof -
  define od where "od = (ptr AND 1 \<noteq> 0)"
  obtain t1 pb where tp: "(t1, pb) = (if od \<and> d \<noteq> [] then (hd d, tl d) else (0, d))"
    by (metis surj_pair)
  note h = head_byte_wsum [OF tp]
  have "(length pb + 1) div 2 \<le> 65536" using h(3) assms by simp
  then have b: "wsum pb \<le> 65535 * 65536" using wsum_bound[of pb] by linarith
  obtain r ps where rp: "chksum_words 0 pb = (r, ps)" by (metis surj_pair)
  have "unat r + wsum ps = wsum pb" "length ps \<le> 1"
    using chksum_words_ok[of 0 pb] b rp by auto
  then have "unat (chksum_tail od t1 (r, ps)) = ones (wsum d)"
    using chksum_tail_ok[of ps r pb od t1] h(1,2) b by simp
  then show ?thesis
    by (simp only: chksum2_tail Let_def od_def [symmetric] tp [symmetric] prod.case rp)
qed

lemma chksum3_tail:
  "lwip_standard_chksum3 ptr d =
    (let od = ptr AND 1 \<noteq> 0;
         (t1, ptr', pb) = (if od \<and> d \<noteq> [] then (hd d, ptr + 1, tl d) else (0, ptr, d));
         (sm, ps) = (if ptr' AND 3 \<noteq> 0 \<and> length pb > 1
                      then (ucast (load16 (pb ! 0) (pb ! 1)), drop 2 pb) else (0, pb));
         (sm, pl) = chksum3_bulk sm ps
     in chksum_tail od t1 (chksum_words (drop_bit 16 sm + (sm AND 0xffff)) pl))"
  by (simp add: lwip_standard_chksum3_def chksum_tail_def Let_def split: prod.splits)

lemma align4_wsum:
  assumes "(s0, ps) = (if c \<and> length pb > 1
     then (ucast (load16 (pb ! 0) (pb ! 1)), drop 2 pb) else (0 :: u32, pb))"
  shows "unat s0 + wsum ps = wsum pb"
proof (cases "c \<and> length pb > 1")
  case True
  then obtain a b rest where "pb = a # b # rest" by (cases pb rule: wsum.cases) auto
  then show ?thesis using assms True by (simp add: unat_ucast_up unat_load16)
qed (use assms in auto)

lemma chksum3_ok: "unat (lwip_standard_chksum3 ptr d) = ones (wsum d)"
proof -
  define od where "od = (ptr AND 1 \<noteq> 0)"
  obtain t1 ptr' pb where tp: "(t1, ptr', pb) = (if od \<and> d \<noteq> [] then (hd d, ptr + 1, tl d) else (0, ptr, d))"
    by (metis prod_cases3)
  then have "(t1, pb) = (if od \<and> d \<noteq> [] then (hd d, tl d) else (0, d))" by (auto split: if_splits)
  note h = head_byte_wsum [OF this]
  obtain s0 ps where sp: "(s0, ps) = (if ptr' AND 3 \<noteq> 0 \<and> length pb > 1
      then (ucast (load16 (pb ! 0) (pb ! 1)), drop 2 pb) else (0 :: u32, pb))"
    by (metis surj_pair)
  obtain s1 pl where bp: "chksum3_bulk s0 ps = (s1, pl)" by (metis surj_pair)
  define s2 where "s2 = drop_bit 16 s1 + (s1 AND 0xffff)"
  obtain s3 pe where wp: "chksum_words s2 pl = (s3, pe)" by (metis surj_pair)
  have b: "ones_eq (unat s1 + wsum pl) (wsum pb)" "length pl \<le> 7"
    using chksum3_bulk_ok[of s0 ps] align4_wsum[OF sp] by (simp_all add: bp)
  have s2: "unat s2 = unat s1 mod 65536 + unat s1 div 65536" by (simp add: s2_def fold_once)
  then have s2': "unat s2 \<le> 131070"
    using unat_lt2p[of s1] mod_less_divisor[of 65536 "unat s1"] by auto
  have "(length pl + 1) div 2 \<le> 4" using b(2) by simp
  then have pl: "wsum pl \<le> 65535 * 4" using wsum_bound[of pl] by linarith
  have w: "unat s3 + wsum pe = unat s2 + wsum pl" "length pe \<le> 1"
    using chksum_words_ok[of s2 pl] s2' pl by (simp_all add: wp)
  have "ones_eq (unat s3 + wsum pe) (wsum pb)"
    using ones_eq_trans[OF ones_eq_add[OF ones_eq_fold ones_eq_refl] b(1)] by (simp add: w s2)
  moreover have "unat s3 + 65535 < 2 ^ 32" using w(1) s2' pl by simp
  ultimately have "unat (chksum_tail od t1 (s3, pe)) = ones (wsum d)"
    using chksum_tail_ok[of pe s3 pb od t1] w(2) h by simp
  then show ?thesis
    by (simp only: chksum3_tail Let_def od_def [symmetric] tp [symmetric] sp [symmetric] bp
        s2_def [symmetric] wp prod.case)
qed

section \<open>Packet checksums over any inner routine\<close>

text \<open>The checksum of RFC 1071, and the pseudo header of TCP and UDP as bytes.\<close>

definition rfc1071 :: "u8 list \<Rightarrow> u16" where
  "rfc1071 d = NOT (of_nat (ones (wsum d)))"

definition pseudo_header :: "u32 \<Rightarrow> u32 \<Rightarrow> u8 \<Rightarrow> u16 \<Rightarrow> u8 list" where
  "pseudo_header src dest proto proto_len =
     mem_bytes32 src @ mem_bytes32 dest @ [0, proto, ucast (drop_bit 8 proto_len), ucast proto_len]"

definition chain_bytes :: "buffer list \<Rightarrow> u8 list" where
  "chain_bytes p = concat (map snd p)"

definition chain_ok :: "buffer list \<Rightarrow> bool" where
  "chain_ok p = list_all (\<lambda>b. length (snd b) \<le> 65535) p"

text \<open>The loop invariant: the accumulator is the folded sum of the bytes so far, byte-swapped while an odd
  number of them has been read.\<close>

definition pseudo_inv :: "u8 list \<Rightarrow> u32 \<times> u8 \<Rightarrow> bool" where
  "pseudo_inv d = (\<lambda>(acc, swapped). unat acc < 65536 \<and> swapped = (if odd (length d) then 1 else 0) \<and>
     ones_eq (unat acc) (if odd (length d) then 256 * wsum d else wsum d))"

text \<open>What the code after the loop needs of it: the flag says whether the sum is swapped.\<close>

definition pseudo_done :: "u8 list \<Rightarrow> u32 \<times> u8 \<Rightarrow> bool" where
  "pseudo_done d = (\<lambda>(acc, swapped). unat acc < 65536 \<and>
     ones_eq (unat acc) (if swapped \<noteq> 0 then 256 * wsum d else wsum d))"

lemma pseudo_inv_done: "pseudo_inv d st \<Longrightarrow> pseudo_done d st"
  by (auto simp: pseudo_inv_def pseudo_done_def split: if_splits)

lemma wsum_append_rot:
  "ones_eq ((if odd (length d) then 256 * wsum d else wsum d) + wsum e)
     (if odd (length d) then 256 * wsum (d @ e) else wsum (d @ e))"
proof (cases "odd (length d)")
  case True
  have "ones_eq (256 * wsum d + wsum e) (256 * wsum d + 65536 * wsum e)"
    by (intro ones_eq_add ones_eq_refl ones_eq_sym[OF ones_eq_65536])
  also have "\<dots> = 256 * (wsum d + 256 * wsum e)" by simp
  also have "ones_eq \<dots> (256 * wsum (d @ e))"
    by (rule ones_eq_mult [OF ones_eq_sym [OF wsum_append_odd [OF True]]])
  finally show ?thesis using True by simp
qed (simp add: wsum_append_even)

lemma chksum_swap_ok:
  assumes "unat acc < 65536" "ones_eq (unat acc) S"
  shows "unat (chksum_swap acc) < 65536" "ones_eq (unat (chksum_swap acc)) (256 * S)"
  using assms swap_lt[of "unat acc"] ones_eq_trans[OF swap_ones ones_eq_mult[OF assms(2)]]
  by (simp_all add: unat_chksum_swap)

lemma fold_add_ok:
  assumes "unat acc < 65536" "ones_eq (unat acc) S" "unat (c :: u16) = ones T"
  shows "unat (chksum_fold (acc + ucast c)) < 65536" "ones_eq (unat (chksum_fold (acc + ucast c))) (S + T)"
proof -
  have "unat (acc + ucast c) = unat acc + ones T"
    using assms unat_lt2p[of c] by (subst unat_add_lt) (auto simp: unat_ucast_up)
  then have "ones_eq (unat (acc + ucast c)) (S + T)" using assms ones_eq_add ones_eq_ones by simp
  then show "ones_eq (unat (chksum_fold (acc + ucast c))) (S + T)"
    using chksum_fold_ok ones_eq_trans by blast
qed (simp add: chksum_fold_ok)

lemma pseudo_step_ok:
  assumes inv: "pseudo_inv d st" and c: "unat c = ones (wsum e)"
  shows pseudo_step_done: "pseudo_done (d @ e) (pseudo_step octets c st)"
    and pseudo_step_inv: "length e = length octets \<Longrightarrow> pseudo_inv (d @ e) (pseudo_step octets c st)"
proof -
  obtain acc sw where st: "st = (acc, sw)" by force
  define f where "f = chksum_fold (acc + ucast c)"
  have "ones_eq (unat f) ((if odd (length d) then 256 * wsum d else wsum d) + wsum e)"
    using inv c fold_add_ok(2)[of acc _ c] by (simp add: pseudo_inv_def st f_def)
  then have f: "unat f < 65536" "ones_eq (unat f) (if odd (length d) then 256 * wsum (d @ e) else wsum (d @ e))"
    using wsum_append_rot ones_eq_trans chksum_fold_ok by (simp add: f_def, blast)
  note g = chksum_swap_ok [OF f]
  have g': "ones_eq (unat (chksum_swap f)) (if odd (length d) then wsum (d @ e) else 256 * wsum (d @ e))"
    using g(2) wsum_swap[of "wsum (d @ e)"] ones_eq_trans by (auto split: if_splits)
  have sw: "sw = (if odd (length d) then 1 else 0)" using inv by (simp add: pseudo_inv_def st)
  have step: "pseudo_step octets c st = (if odd (length octets) then (chksum_swap f, 1 - sw) else (f, sw))"
    by (simp add: pseudo_step_def st f_def odd_iff_mod_2_eq_one)
  show "pseudo_done (d @ e) (pseudo_step octets c st)"
    using f g(1) g' sw by (auto simp: pseudo_done_def step split: if_splits)
  show "pseudo_inv (d @ e) (pseudo_step octets c st)" if "length e = length octets"
    using that f g(1) g' sw by (auto simp: pseudo_inv_def step split: if_splits)
qed

lemma not_low16:
  assumes "unat (acc :: u32) = ones S"
  shows "(ucast (NOT (acc AND 0xffff)) :: u16) = NOT (of_nat (ones S))"
proof -
  have "(ucast (NOT (acc AND 0xffff)) :: u16) = NOT (ucast acc)"
    unfolding byte_masks by (rule bit_word_eqI) (auto simp: bit_simps)
  then show ?thesis by (simp only: ucast_as_of_nat assms)
qed

lemma unat_low_byte: "unat (ucast (w :: 'a::len word) :: u8) = unat w mod 256"
  by (simp add: unsigned_ucast_eq take_bit_eq_mod)

lemma two_bytes: "x mod 256 + 256 * (x div 256 mod 256) = x mod (65536 :: nat)"
  using mod_mult2_eq[of x 256 256] by simp

lemma mem_bytes32_wsum:
  "wsum (mem_bytes32 w) = unat (w AND 0xffff) + unat (drop_bit 16 w AND 0xffff)"
proof -
  have "unat w div 16777216 = unat w div 65536 div 256" by (simp add: div_mult2_eq [symmetric])
  then show ?thesis
    unfolding byte_masks
    by (simp add: mem_bytes32_def unat_low_byte unat_and_mask unat_shiftr two_bytes)
qed

lemma length_mem_bytes32 [simp]: "length (mem_bytes32 w) = 4"
  by (simp add: mem_bytes32_def)

lemma pseudo_header_wsum:
  "wsum (pseudo_header src dest proto proto_len) =
     unat (src AND 0xffff) + unat (drop_bit 16 src AND 0xffff) + unat (dest AND 0xffff) +
     unat (drop_bit 16 dest AND 0xffff) + unat (htons (ucast proto)) + unat (htons proto_len)"
  using unat_lt2p[of proto] unat_lt2p[of proto_len]
  by (simp add: pseudo_header_def wsum_append_even mem_bytes32_wsum unat_htons unat_low_byte
      unat_ucast_up unat_shiftr)

lemma pseudo_finish_ok:
  assumes "pseudo_done d st"
  shows "pseudo_finish src dest proto proto_len st = rfc1071 (pseudo_header src dest proto proto_len @ d)"
proof -
  obtain acc sw where st: "st = (acc, sw)" by force
  define a where "a = (if sw \<noteq> 0 then chksum_swap acc else acc)"
  define t where "t = a + (src AND 0xffff) + (drop_bit 16 src AND 0xffff) + (dest AND 0xffff) +
    (drop_bit 16 dest AND 0xffff) + ucast (htons (ucast proto)) + ucast (htons proto_len)"
  have inv: "unat acc < 65536" "ones_eq (unat acc) (if sw \<noteq> 0 then 256 * wsum d else wsum d)"
    using assms by (auto simp: pseudo_done_def st)
  have a: "unat a < 65536 \<and> ones_eq (unat a) (wsum d)"
  proof (cases "sw \<noteq> 0")
    case True
    then have i: "ones_eq (unat acc) (256 * wsum d)" using inv(2) by simp
    show ?thesis
      using True chksum_swap_ok[OF inv(1) i] ones_eq_trans[OF chksum_swap_ok(2)[OF inv(1) i] wsum_swap]
      by (simp add: a_def)
  qed (use inv in \<open>simp add: a_def\<close>)
  have half: "unat (x AND 0xffff) < 65536" for x :: u32
    unfolding byte_masks by (simp add: unat_and_mask)
  have "unat t = unat a + wsum (pseudo_header src dest proto proto_len)"
    using a half[of src] half[of "drop_bit 16 src"] half[of dest] half[of "drop_bit 16 dest"]
      unat_lt2p[of "htons (ucast proto)"] unat_lt2p[of "htons proto_len"]
    unfolding t_def pseudo_header_wsum by (simp add: unat_add_lt unat_ucast_up)
  then have "ones_eq (unat t) (wsum (pseudo_header src dest proto proto_len) + wsum d)"
    using a by (simp add: ones_eq_add add.commute)
  then have "unat (chksum_fold t) = ones (wsum (pseudo_header src dest proto proto_len) + wsum d)"
    using chksum_fold_ok[of t] ones_eq_trans ones_unique by blast
  also have "wsum (pseudo_header src dest proto proto_len) + wsum d = wsum (pseudo_header src dest proto proto_len @ d)"
    by (simp add: wsum_append_even pseudo_header_def mem_bytes32_def)
  finally show ?thesis
    unfolding pseudo_finish_def st prod.case Let_def rfc1071_def a_def [symmetric] t_def [symmetric]
    by (rule not_low16)
qed

lemma pseudo_inv_init: "pseudo_inv [] (0, 0)"
  by (simp add: pseudo_inv_def)

locale lwip_chksum =
  fixes chk :: chksum_routine
  assumes chk_ok: "length d \<le> 65535 \<Longrightarrow> unat (chk ptr d) = ones (wsum d)"
begin

lemma pseudo_loop_ok:
  "chain_ok p \<Longrightarrow> pseudo_inv d st \<Longrightarrow> pseudo_inv (d @ chain_bytes p) (pseudo_loop chk p st)"
proof (induction p arbitrary: d st)
  case (Cons b q)
  obtain payload octets where b: "b = (payload, octets)" by force
  have "pseudo_inv (d @ octets) (pseudo_step octets (chk payload octets) st)"
    using Cons.prems by (intro pseudo_step_inv chk_ok) (auto simp: b chain_ok_def)
  from Cons.IH [OF _ this] show ?case using Cons.prems by (simp add: b chain_ok_def chain_bytes_def)
qed (simp add: chain_bytes_def)

lemma pseudo_ok:
  "chain_ok p \<Longrightarrow> inet_chksum_pseudo chk p src dest proto proto_len =
     rfc1071 (pseudo_header src dest proto proto_len @ chain_bytes p)"
  unfolding inet_chksum_pseudo_def
  by (rule pseudo_finish_ok, rule pseudo_inv_done) (use pseudo_loop_ok[OF _ pseudo_inv_init] in simp)

lemma partial_loop_ok:
  assumes "chain_ok p" "pseudo_inv d st"
  shows "if p \<noteq> [] \<and> 0x7fff \<le> unat n - length (snd (hd p)) then partial_loop chk p n st = None
    else \<exists>st'. partial_loop chk p n st = Some st' \<and> pseudo_done (d @ take (unat n) (chain_bytes p)) st'"
  using assms
proof (induction p arbitrary: d st n)
  case Nil
  then show ?case by (simp add: chain_bytes_def pseudo_inv_done)
next
  case (Cons b q)
  obtain payload octets where b: "b = (payload, octets)" by force
  have len: "length octets \<le> 65535" using Cons.prems by (simp add: b chain_ok_def)
  then have ul: "unat (of_nat (length octets) :: u16) = length octets"
    by (simp add: unsigned_of_nat take_bit_nat_eq_self)
  define chklen where "chklen = (if of_nat (length octets) > n then n else of_nat (length octets))"
  have cl: "unat chklen = min (unat n) (length octets)"
    using ul by (auto simp: chklen_def word_less_nat_alt)
  have rest: "unat (n - chklen) = unat n - length octets"
    using cl by (subst unat_sub) (auto simp: word_le_nat_alt)
  then have lt: "n - chklen < 0x7fff \<longleftrightarrow> unat n - length octets < 0x7fff"
    by (simp add: word_less_nat_alt)
  define st' where "st' = pseudo_step octets (chk payload (take (unat chklen) octets)) st"
  have c: "unat (chk payload (take (unat chklen) octets)) = ones (wsum (take (unat chklen) octets))"
    using len by (intro chk_ok) simp
  note step = pseudo_step_ok [OF Cons.prems(2) c, of octets, folded st'_def]
  have loop: "partial_loop chk (b # q) n st = (if n > 0 then
      if unat n - length octets < 0x7fff then partial_loop chk q (n - chklen) st' else None else Some st)"
    by (simp only: b partial_loop.simps Let_def chklen_def [symmetric] st'_def [symmetric] lt)
  show ?case
  proof (cases "n = 0 \<or> 0x7fff \<le> unat n - length octets")
    case True
    then consider "n = 0" | "0 < n" "0x7fff \<le> unat n - length octets" by (auto simp: word_less_nat_alt)
    then show ?thesis
    proof cases
      case 1
      then show ?thesis using pseudo_inv_done [OF Cons.prems(2)] loop by (cases st) (simp add: b)
    next
      case 2
      then show ?thesis using loop by (simp add: b del: partial_loop.simps)
    qed
  next
    case False
    then have l: "partial_loop chk (b # q) n st = partial_loop chk q (n - chklen) st'"
      by (auto simp: loop word_less_nat_alt unat_eq_0)
    show ?thesis
    proof (cases "length octets \<le> unat n")
      case whole: True
      then have "pseudo_inv (d @ octets) st'" using step(2) cl by simp
      then have "\<exists>st''. partial_loop chk q (n - chklen) st' = Some st'' \<and>
          pseudo_done ((d @ octets) @ take (unat (n - chklen)) (chain_bytes q)) st''"
        using Cons.IH[of "d @ octets" st' "n - chklen"] Cons.prems(1) False rest
        by (auto simp: chain_ok_def split: if_splits)
      then show ?thesis using False whole l rest by (simp add: b chain_bytes_def)
    next
      case False
      then have "n - chklen = 0" using rest by (simp add: word_unat_eq_iff)
      then have "partial_loop chk q (n - chklen) st' = Some st'" by (cases q) auto
      then show ?thesis using False step(1) cl l by (simp add: b chain_bytes_def min_def)
    qed
  qed
qed

lemma partial_ok:
  assumes "chain_ok p"
  shows "inet_chksum_pseudo_partial chk p src dest proto proto_len n =
    (if p \<noteq> [] \<and> 0x7fff \<le> unat n - length (snd (hd p)) then None
     else Some (rfc1071 (pseudo_header src dest proto proto_len @ take (unat n) (chain_bytes p))))"
  using partial_loop_ok[OF assms pseudo_inv_init, of n]
  by (auto simp: inet_chksum_pseudo_partial_def pseudo_finish_ok split: if_splits)

lemma chksum_ok: "length d \<le> 65535 \<Longrightarrow> inet_chksum chk ptr d = rfc1071 d"
proof -
  assume "length d \<le> 65535"
  then have "ones_eq (unat (chksum_fold (ucast (chk ptr d)))) (ones (wsum d))"
    using chksum_fold_ok[of "ucast (chk ptr d)"] by (simp add: unat_ucast_up chk_ok)
  then have "unat (chksum_fold (ucast (chk ptr d))) = ones (wsum d)"
    by (rule ones_unique [OF ones_eq_trans [OF _ ones_eq_ones]]) (simp add: chksum_fold_ok)
  then show ?thesis unfolding inet_chksum_def Let_def rfc1071_def by (rule not_low16)
qed

end

context lwip_chksum
begin

lemma pbuf_loop_even:
  "list_all (\<lambda>b. even (length (snd b))) p \<Longrightarrow> chksum_pbuf_loop chk p st = pseudo_loop chk p st"
proof (induction p arbitrary: st)
  case (Cons b q)
  then show ?case
    by (cases b; cases st) (simp add: pseudo_step_def Let_def even_iff_mod_2_eq_zero)
qed simp

lemma chain_bytes_even: "list_all (\<lambda>b. even (length (snd b))) p \<Longrightarrow> even (length (chain_bytes p))"
  by (induction p) (auto simp: chain_bytes_def)

lemma pbuf_even_ok:
  assumes "chain_ok p" "list_all (\<lambda>b. even (length (snd b))) p"
  shows "inet_chksum_pbuf chk p = rfc1071 (chain_bytes p)"
proof -
  obtain acc sw where l: "pseudo_loop chk p (0, 0) = (acc, sw)" by force
  then have "unat acc < 65536 \<and> sw = 0 \<and> ones_eq (unat acc) (wsum (chain_bytes p))"
    using pseudo_loop_ok[OF assms(1) pseudo_inv_init] chain_bytes_even[OF assms(2)]
    by (simp add: pseudo_inv_def)
  then have "unat acc = ones (wsum (chain_bytes p))" "sw = 0" using ones_unique by auto
  then show ?thesis
    using not_low16[of acc "wsum (chain_bytes p)"]
    by (simp only: inet_chksum_pbuf_def pbuf_loop_even[OF assms(2)] l prod.case Let_def rfc1071_def) simp
qed

end

interpretation v1: lwip_chksum lwip_standard_chksum1
  by unfold_locales (rule chksum1_ok)

interpretation v2: lwip_chksum lwip_standard_chksum2
  by unfold_locales (rule chksum2_ok, simp)

interpretation v3: lwip_chksum lwip_standard_chksum3
  by unfold_locales (rule chksum3_ok)

section \<open>What the checksum protects\<close>

lemma unat_not: "unat (NOT (x :: u16)) = 65535 - unat x"
proof -
  have "NOT x = -1 - x" by (simp add: not_eq_complement)
  moreover have "unat (-1 - x) = unat (-1 :: u16) - unat x" by (rule unat_sub) simp
  ultimately show ?thesis by (simp add: unat_uminus)
qed

lemma unat_rfc1071: "unat (rfc1071 d) = 65535 - ones (wsum d)"
  using ones_le[of "wsum d"] by (simp add: rfc1071_def unat_not unsigned_of_nat take_bit_nat_eq_self)

lemma ones_full: "ones S = 65535 \<longleftrightarrow> S \<noteq> 0 \<and> 65535 dvd S"
proof -
  have "ones_eq 65535 S \<longleftrightarrow> S \<noteq> 0 \<and> 65535 dvd S" by (auto simp: ones_eq_def mod_eq_0_iff_dvd)
  then show ?thesis using ones_unique[of 65535 S] ones_eq_ones[of S] by auto
qed

lemma rfc1071_zero: "rfc1071 d = 0 \<longleftrightarrow> wsum d \<noteq> 0 \<and> 65535 dvd wsum d"
  using ones_full[of "wsum d"] ones_le[of "wsum d"] by (auto simp: word_unat_eq_iff unat_rfc1071)

lemma rfc1071_insert:
  assumes "even (length xs)" and c: "c = rfc1071 (xs @ [0, 0] @ ys)"
  shows "rfc1071 (xs @ [ucast c, ucast (drop_bit 8 c)] @ ys) = 0"
proof -
  define S where "S = wsum xs + wsum ys"
  have "unat c = 65535 - ones S" using assms by (simp add: unat_rfc1071 wsum_append_even S_def)
  moreover have "wsum (xs @ [ucast c, ucast (drop_bit 8 c)] @ ys) = S + unat c"
    using assms(1) unat_lt2p[of c] two_bytes[of "unat c"]
    by (simp add: wsum_append_even S_def unat_low_byte unat_shiftr)
  ultimately have w: "wsum (xs @ [ucast c, ucast (drop_bit 8 c)] @ ys) = S + (65535 - ones S)" by simp
  have "S mod 65535 = ones S mod 65535" using ones_eq_ones[of S] by (simp add: ones_eq_def)
  then have "(S + (65535 - ones S)) mod 65535 = (ones S + (65535 - ones S)) mod 65535"
    by (metis mod_add_left_eq)
  then have "65535 dvd S + (65535 - ones S)" using ones_le[of S] by (simp add: mod_eq_0_iff_dvd)
  moreover have "S + (65535 - ones S) \<noteq> 0" using ones_eq_ones[of S] by (auto simp: ones_eq_def)
  ultimately show ?thesis unfolding rfc1071_zero w by blast
qed

lemma wsum_update:
  "i < length d \<Longrightarrow> wsum (d[i := b]) + (if even i then 1 else 256) * unat (d ! i) =
     wsum d + (if even i then 1 else 256) * unat b"
proof (induction d arbitrary: i rule: wsum.induct)
  case (3 a a' rest)
  consider "i = 0" | "i = 1" | j where "i = Suc (Suc j)" by (metis One_nat_def not0_implies_Suc)
  then show ?case using 3 by cases (auto simp: algebra_simps)
qed (auto simp: less_Suc_eq)

lemma byte_diff:
  fixes x y w S T :: nat
  assumes "S + w * x = T + w * y" "65535 dvd S" "65535 dvd T" "x < 256" "y < 256" "w = 1 \<or> w = 256"
  shows "x = y"
proof -
  obtain j k where jk: "S = 65535 * j" "T = 65535 * k" using assms(2,3) by (auto elim!: dvdE)
  consider "j = k" | "j \<ge> k + 1" | "k \<ge> j + 1" by linarith
  then show ?thesis using assms(1,4,5,6) unfolding jk by cases auto
qed

lemma rfc1071_corrupt:
  assumes "rfc1071 d = 0" "i < length d" "b \<noteq> d ! i"
  shows "rfc1071 (d[i := b]) \<noteq> 0"
proof
  assume "rfc1071 (d[i := b]) = 0"
  then have "unat (d ! i) = unat b"
    using byte_diff[OF wsum_update[OF assms(2), of b]] assms(1) unat_lt2p[of b] unat_lt2p[of "d ! i"]
    by (simp add: rfc1071_zero)
  then show False using assms(3) by (simp add: word_unat_eq_iff)
qed

section \<open>Properties\<close>

text \<open>Claim C12. The three versions of \<open>lwip_standard_chksum\<close> compute the same value, the folded one's
  complement sum of the data in host order, at every start address: version 1 for every \<open>u16_t\<close>
  length, version 2 up to the \<open>0x20000\<close> bytes its comment promises, version 3 for any length.\<close>

theorem lwip_chksum_versions_agree:
  "(length d \<le> 65535 \<longrightarrow> unat (lwip_standard_chksum1 ptr1 d) = ones (wsum d)) \<and>
   (length d \<le> 0x20000 \<longrightarrow> unat (lwip_standard_chksum2 ptr2 d) = ones (wsum d)) \<and>
   unat (lwip_standard_chksum3 ptr3 d) = ones (wsum d)"
  using chksum1_ok chksum2_ok chksum3_ok by blast

theorem lwip_chksum_versions_agree_witness:
  "unat (lwip_standard_chksum1 1 [1, 2, 255]) = 768 \<and> unat (lwip_standard_chksum2 7 [1, 2, 255]) = 768
   \<and> unat (lwip_standard_chksum3 6 [1, 2, 255]) = 768"
  using lwip_chksum_versions_agree[of "[1, 2, 255]" 1 7 6] by (simp add: ones_def)

text \<open>Claim C13. The TCP and UDP checksum of a pbuf chain is the RFC 1071 checksum of the pseudo header
  followed by the bytes of the chain, however they are split over pbufs, odd lengths included, and
  whichever inner routine is compiled in.  The partial variant is the same over the first
  \<open>chksum_len\<close> bytes, unless at least \<open>0x7fff\<close> of them lie behind the first
  pbuf: then its assertion fires.\<close>

theorem inet_chksum_pseudo_correct:
  assumes "chk \<in> {lwip_standard_chksum1, lwip_standard_chksum2, lwip_standard_chksum3}" "chain_ok p"
  shows "inet_chksum_pseudo chk p src dest proto proto_len =
      rfc1071 (pseudo_header src dest proto proto_len @ chain_bytes p) \<and>
    inet_chksum_pseudo_partial chk p src dest proto proto_len n =
      (if p \<noteq> [] \<and> 0x7fff \<le> unat n - length (snd (hd p)) then None
       else Some (rfc1071 (pseudo_header src dest proto proto_len @ take (unat n) (chain_bytes p))))"
  using assms v1.pseudo_ok v2.pseudo_ok v3.pseudo_ok v1.partial_ok v2.partial_ok v3.partial_ok by auto

theorem inet_chksum_pseudo_correct_witness:
  "inet_chksum_pseudo lwip_standard_chksum3 [(0, [1]), (5, [2, 3])] 0x01020304 0x0a0b0c0d 17 3 =
     rfc1071 (pseudo_header 0x01020304 0x0a0b0c0d 17 3 @ [1, 2, 3]) \<and>
   inet_chksum_pseudo_partial lwip_standard_chksum1 [(0, [1]), (5, [2, 3])] 0x01020304 0x0a0b0c0d 17 3 2 =
     Some (rfc1071 (pseudo_header 0x01020304 0x0a0b0c0d 17 3 @ [1, 2]))"
  using inet_chksum_pseudo_correct[of lwip_standard_chksum3 "[(0, [1]), (5, [2, 3])]"]
    inet_chksum_pseudo_correct[of lwip_standard_chksum1 "[(0, [1]), (5, [2, 3])]" _ _ _ _ 2]
  by (simp add: chain_ok_def chain_bytes_def)

text \<open>Claim C4. A packet whose checksum field was zero when \<open>inet_chksum\<close> ran, and then received the
  result, checks to 0; and a packet that checks to 0 no longer does when any one byte of it
  changes.\<close>

theorem inet_chksum_protects:
  assumes "chk \<in> {lwip_standard_chksum1, lwip_standard_chksum2, lwip_standard_chksum3}"
    and "even (length xs)" "length xs + length ys + 2 \<le> 65535"
    and "c = inet_chksum chk ptr (xs @ [0, 0] @ ys)"
    and "i < length xs + length ys + 2" "b \<noteq> (xs @ [ucast c, ucast (drop_bit 8 c)] @ ys) ! i"
  shows "inet_chksum chk ptr' (xs @ [ucast c, ucast (drop_bit 8 c)] @ ys) = 0 \<and>
    inet_chksum chk ptr' ((xs @ [ucast c, ucast (drop_bit 8 c)] @ ys)[i := b]) \<noteq> 0"
proof -
  have ok: "inet_chksum chk q d = rfc1071 d" if "length d \<le> 65535" for q d
    using assms(1) that v1.chksum_ok v2.chksum_ok v3.chksum_ok by auto
  have "rfc1071 (xs @ [ucast c, ucast (drop_bit 8 c)] @ ys) = 0"
    using assms by (intro rfc1071_insert) (simp_all add: ok)
  moreover from this have "rfc1071 ((xs @ [ucast c, ucast (drop_bit 8 c)] @ ys)[i := b]) \<noteq> 0"
    using assms(5,6) by (intro rfc1071_corrupt) simp_all
  moreover have "length (xs @ [ucast c, ucast (drop_bit 8 c)] @ ys) \<le> 65535" using assms(3) by simp
  ultimately show ?thesis by (simp only: ok length_list_update simp_thms)
qed

theorem inet_chksum_protects_witness:
  "let c = inet_chksum lwip_standard_chksum1 0 ([69, 0] @ [0, 0] @ [7]) in
   inet_chksum lwip_standard_chksum1 3 ([69, 0] @ [ucast c, ucast (drop_bit 8 c)] @ [7]) = 0 \<and>
   inet_chksum lwip_standard_chksum1 3 (([69, 0] @ [ucast c, ucast (drop_bit 8 c)] @ [7])[4 := 8]) \<noteq> 0"
  using inet_chksum_protects[of lwip_standard_chksum1 "[69, 0]" "[7]" _ 0 4 8 3]
  by (simp only: Let_def) simp

text \<open>\<open>inet_chksum_pbuf\<close> is the RFC 1071 checksum of the chain when every pbuf has an even
  length.\<close>

theorem inet_chksum_pbuf_even:
  assumes "chk \<in> {lwip_standard_chksum1, lwip_standard_chksum2, lwip_standard_chksum3}" "chain_ok p"
    and "list_all (\<lambda>b. even (length (snd b))) p"
  shows "inet_chksum_pbuf chk p = rfc1071 (chain_bytes p)"
  using assms v1.pbuf_even_ok v2.pbuf_even_ok v3.pbuf_even_ok by auto

theorem inet_chksum_pbuf_even_witness:
  "inet_chksum_pbuf lwip_standard_chksum2 [(0, [1, 2]), (9, [3, 4])] = rfc1071 [1, 2, 3, 4]"
  using inet_chksum_pbuf_even[of lwip_standard_chksum2 "[(0, [1, 2]), (9, [3, 4])]"]
  by (simp add: chain_ok_def chain_bytes_def)

text \<open>With an odd length it is not: the misplaced parentheses of its byte swap make it the identity, and
  the swap after the loop then reverses a sum that was never swapped.\<close>

lemma inet_chksum_pbuf_odd_wrong:
  "inet_chksum_pbuf lwip_standard_chksum1 [(0, [1])] = 0xfeff \<and> rfc1071 (chain_bytes [(0, [1])]) = 0xfffe"
proof -
  have "lwip_standard_chksum1 0 [1] = 1"
    using chksum1_ok[of "[1]" 0] by (simp add: ones_def word_unat_eq_iff)
  moreover have "chksum_fold 1 = 1" by (simp add: chksum_fold.simps)
  ultimately show ?thesis
    by (simp add: inet_chksum_pbuf_def chksum_swap_def rfc1071_def chain_bytes_def ones_def)
qed

end
