(* ===== verification/Lwip_Mem.thy ===== *)
theory Lwip_Mem
  imports Prelude
begin

text \<open>
  The heap allocator: \<open>nsc/lwip-1.3.0/src/core/mem.c\<close>, the branch without pools, and the size macros
  of \<open>include/lwip/mem.h\<close>.

  \<open>ram\<close> is the aligned address of the heap.  The \<open>struct mem\<close> headers that live inside the
  heap are kept by their byte offset from \<open>ram\<close> (\<open>&ram[i]\<close> in the code); a
  \<open>struct mem *\<close> is such an offset, and a user pointer is an address, \<open>NULL\<close> being
  \<open>None\<close>.  \<open>mem_size_t\<close> is \<open>u16_t\<close>, the type for heaps up to 64000 bytes:
  every assignment to it truncates (\<open>mst\<close>); differences that involve a \<open>sizeof\<close> are
  computed in \<open>size_t\<close> and wrap (\<open>szt\<close>).  The semaphore around the heap is not
  modelled: the cradle builds lwIP without an operating system (\<open>NO_SYS\<close>), where it is empty.
  \<open>MEM_STATS\<close> is on, as by default.  A failing \<open>LWIP_ASSERT\<close> is an outcome of its
  own.
\<close>

section \<open>Configuration\<close>

record mem_conf =
  MEM_ALIGNMENT :: int
  MEM_SIZE :: int
  MIN_SIZE :: int

definition mst :: "int \<Rightarrow> int" where "mst x = x mod 2 ^ 16"

definition szt :: "int \<Rightarrow> int" where "szt x = x mod 2 ^ 64"

definition LWIP_MEM_ALIGN_SIZE :: "mem_conf \<Rightarrow> int \<Rightarrow> int" where
  "LWIP_MEM_ALIGN_SIZE cf sz = (sz + MEM_ALIGNMENT cf - 1) AND NOT (MEM_ALIGNMENT cf - 1)"

definition LWIP_MEM_ALIGN :: "mem_conf \<Rightarrow> int \<Rightarrow> int" where
  "LWIP_MEM_ALIGN cf addr = (addr + MEM_ALIGNMENT cf - 1) AND NOT (MEM_ALIGNMENT cf - 1)"

definition MIN_SIZE_ALIGNED :: "mem_conf \<Rightarrow> int" where
  "MIN_SIZE_ALIGNED cf = LWIP_MEM_ALIGN_SIZE cf (MIN_SIZE cf)"

text \<open>\<open>struct mem\<close> has two \<open>u16_t\<close> and one \<open>u8_t\<close>: 6 bytes with padding.\<close>

definition SIZEOF_STRUCT_MEM :: "mem_conf \<Rightarrow> int" where
  "SIZEOF_STRUCT_MEM cf = LWIP_MEM_ALIGN_SIZE cf 6"

definition MEM_SIZE_ALIGNED :: "mem_conf \<Rightarrow> int" where
  "MEM_SIZE_ALIGNED cf = LWIP_MEM_ALIGN_SIZE cf (MEM_SIZE cf)"

section \<open>State\<close>

record mem =
  mem_next :: int
  mem_prev :: int
  mem_used :: bool

record stats_mem =
  st_avail :: int
  st_used :: int
  st_max :: int
  st_err :: int

record heap =
  ram :: int
  blk :: "int \<Rightarrow> mem"
  lfree :: int
  mem_stats :: stats_mem

definition set_next :: "int \<Rightarrow> int \<Rightarrow> heap \<Rightarrow> heap" where
  "set_next i v h = h\<lparr>blk := (blk h)(i := (blk h i)\<lparr>mem_next := mst v\<rparr>)\<rparr>"

definition set_prev :: "int \<Rightarrow> int \<Rightarrow> heap \<Rightarrow> heap" where
  "set_prev i v h = h\<lparr>blk := (blk h)(i := (blk h i)\<lparr>mem_prev := mst v\<rparr>)\<rparr>"

definition set_used :: "int \<Rightarrow> bool \<Rightarrow> heap \<Rightarrow> heap" where
  "set_used i v h = h\<lparr>blk := (blk h)(i := (blk h i)\<lparr>mem_used := v\<rparr>)\<rparr>"

definition stat_used_add :: "int \<Rightarrow> heap \<Rightarrow> heap" where
  "stat_used_add n h = h\<lparr>mem_stats := (mem_stats h)\<lparr>st_used := mst (st_used (mem_stats h) + n)\<rparr>\<rparr>"

definition stat_max_update :: "heap \<Rightarrow> heap" where
  "stat_max_update h = (if st_max (mem_stats h) < st_used (mem_stats h)
     then h\<lparr>mem_stats := (mem_stats h)\<lparr>st_max := st_used (mem_stats h)\<rparr>\<rparr> else h)"

definition stat_err_inc :: "heap \<Rightarrow> heap" where
  "stat_err_inc h = h\<lparr>mem_stats := (mem_stats h)\<lparr>st_err := mst (st_err (mem_stats h) + 1)\<rparr>\<rparr>"

section \<open>Operations\<close>

definition plug_holes :: "mem_conf \<Rightarrow> int \<Rightarrow> heap \<Rightarrow> heap lwip" where
  "plug_holes cf mem h =
    lwip_assert ''plug_holes: mem >= ram'' (mem \<ge> 0) (
    lwip_assert ''plug_holes: mem < ram_end'' (mem < MEM_SIZE_ALIGNED cf) (
    lwip_assert ''plug_holes: mem->used == 0'' (\<not> mem_used (blk h mem)) (
    lwip_assert ''plug_holes: mem->next <= MEM_SIZE_ALIGNED'' (mem_next (blk h mem) \<le> MEM_SIZE_ALIGNED cf) (
    let nmem = mem_next (blk h mem);
        h = (if mem \<noteq> nmem \<and> \<not> mem_used (blk h nmem) \<and> nmem \<noteq> MEM_SIZE_ALIGNED cf then
               (let h = (if lfree h = nmem then h\<lparr>lfree := mem\<rparr> else h);
                    h = set_next mem (mem_next (blk h nmem)) h
                in set_prev (mem_next (blk h nmem)) mem h)
             else h);
        pmem = mem_prev (blk h mem);
        h = (if pmem \<noteq> mem \<and> \<not> mem_used (blk h pmem) then
               (let h = (if lfree h = mem then h\<lparr>lfree := pmem\<rparr> else h);
                    h = set_next pmem (mem_next (blk h mem)) h
                in set_prev (mem_next (blk h mem)) pmem h)
             else h)
    in Inr h))))"

text \<open>\<open>ram_heap\<close> is the address of the static array.\<close>

definition mem_init :: "mem_conf \<Rightarrow> int \<Rightarrow> heap \<Rightarrow> heap lwip" where
  "mem_init cf ram_heap h =
    lwip_assert ''Sanity check alignment'' (SIZEOF_STRUCT_MEM cf AND (MEM_ALIGNMENT cf - 1) = 0) (
    let h = h\<lparr>ram := LWIP_MEM_ALIGN cf ram_heap\<rparr>;
        h = set_next 0 (MEM_SIZE_ALIGNED cf) h;
        h = set_prev 0 0 h;
        h = set_used 0 False h;
        ram_end = MEM_SIZE_ALIGNED cf;
        h = set_used ram_end True h;
        h = set_next ram_end (MEM_SIZE_ALIGNED cf) h;
        h = set_prev ram_end (MEM_SIZE_ALIGNED cf) h;
        h = h\<lparr>lfree := 0\<rparr>;
        h = h\<lparr>mem_stats := (mem_stats h)\<lparr>st_avail := mst (MEM_SIZE_ALIGNED cf)\<rparr>\<rparr>
    in Inr h)"

definition mem_free :: "mem_conf \<Rightarrow> int option \<Rightarrow> heap \<Rightarrow> heap lwip" where
  "mem_free cf rmem h = (case rmem of None \<Rightarrow> Inr h | Some rmem \<Rightarrow>
    lwip_assert ''mem_free: sanity check alignment'' (rmem AND (MEM_ALIGNMENT cf - 1) = 0) (
    lwip_assert ''mem_free: legal memory'' (rmem \<ge> ram h \<and> rmem < ram h + MEM_SIZE_ALIGNED cf) (
    if rmem < ram h \<or> rmem \<ge> ram h + MEM_SIZE_ALIGNED cf then Inr (stat_err_inc h)
    else
      let mem = rmem - SIZEOF_STRUCT_MEM cf - ram h in
      lwip_assert ''mem_free: mem->used'' (mem_used (blk h mem)) (
      let h = set_used mem False h;
          h = (if mem < lfree h then h\<lparr>lfree := mem\<rparr> else h);
          h = stat_used_add (- (mem_next (blk h mem) - mem)) h
      in plug_holes cf mem h))))"

text \<open>The assignments that create a free block \<open>ptr2\<close> behind \<open>mem\<close>, the same in both branches of
  \<open>mem_realloc\<close>.\<close>

definition mem_insert :: "mem_conf \<Rightarrow> int \<Rightarrow> int \<Rightarrow> int \<Rightarrow> int \<Rightarrow> heap \<Rightarrow> heap" where
  "mem_insert cf mem ptr ptr2 nxt h =
    (let h = set_used ptr2 False h;
         h = set_next ptr2 nxt h;
         h = set_prev ptr2 ptr h;
         h = set_next mem ptr2 h
     in if mem_next (blk h ptr2) \<noteq> MEM_SIZE_ALIGNED cf
        then set_prev (mem_next (blk h ptr2)) ptr2 h else h)"

text \<open>The part of \<open>mem_realloc\<close> that changes the heap, for a block \<open>mem\<close> of \<open>sz\<close> user bytes.\<close>

definition mem_shrink :: "mem_conf \<Rightarrow> int \<Rightarrow> int \<Rightarrow> int \<Rightarrow> int \<Rightarrow> heap \<Rightarrow> heap" where
  "mem_shrink cf mem ptr sz newsize h =
    (let h = stat_used_add (- (sz - newsize)) h;
         mem2 = mem_next (blk h mem)
     in
     if \<not> mem_used (blk h mem2) then
       (let nxt = mem_next (blk h mem2);
            ptr2 = mst (ptr + SIZEOF_STRUCT_MEM cf + newsize);
            h = (if lfree h = mem2 then h\<lparr>lfree := ptr2\<rparr> else h)
        in mem_insert cf mem ptr ptr2 nxt h)
     else if newsize + SIZEOF_STRUCT_MEM cf + MIN_SIZE_ALIGNED cf \<le> sz then
       (let ptr2 = mst (ptr + SIZEOF_STRUCT_MEM cf + newsize);
            h = (if ptr2 < lfree h then h\<lparr>lfree := ptr2\<rparr> else h)
        in mem_insert cf mem ptr ptr2 (mem_next (blk h mem)) h)
     else h)"

definition mem_realloc :: "mem_conf \<Rightarrow> int \<Rightarrow> int \<Rightarrow> heap \<Rightarrow> (heap \<times> int option) lwip" where
  "mem_realloc cf rmem newsize h =
    (let newsize = mst (LWIP_MEM_ALIGN_SIZE cf newsize);
         newsize = (if newsize < MIN_SIZE_ALIGNED cf then mst (MIN_SIZE_ALIGNED cf) else newsize)
     in
     if newsize > MEM_SIZE_ALIGNED cf then Inr (h, None)
     else
     lwip_assert ''mem_realloc: legal memory'' (rmem \<ge> ram h \<and> rmem < ram h + MEM_SIZE_ALIGNED cf) (
     if rmem < ram h \<or> rmem \<ge> ram h + MEM_SIZE_ALIGNED cf then Inr (h, Some rmem)
     else
       let mem = rmem - SIZEOF_STRUCT_MEM cf - ram h;
           ptr = mst mem;
           sz = mst (mem_next (blk h mem) - ptr - SIZEOF_STRUCT_MEM cf)
       in
       lwip_assert ''mem_realloc can only shrink memory'' (newsize \<le> sz) (
       if newsize > sz then Inr (h, None)
       else if newsize = sz then Inr (h, Some rmem)
       else Inr (mem_shrink cf mem ptr sz newsize h, Some rmem))))"

text \<open>The search loop of \<open>mem_malloc\<close>: the offset of the first free block from \<open>ptr\<close> on that is big
  enough, if any.\<close>

partial_function (option) mem_search :: "mem_conf \<Rightarrow> heap \<Rightarrow> int \<Rightarrow> int \<Rightarrow> int option option" where
  "mem_search cf h sz ptr =
    (if ptr < MEM_SIZE_ALIGNED cf - sz then
       if \<not> mem_used (blk h ptr) \<and> szt (mem_next (blk h ptr) - (ptr + SIZEOF_STRUCT_MEM cf)) \<ge> sz
       then Some (Some ptr)
       else mem_search cf h sz (mem_next (blk h ptr))
     else Some None)"

text \<open>The loop that moves \<open>lfree\<close> to the next free block.\<close>

partial_function (option) lfree_advance :: "mem_conf \<Rightarrow> heap \<Rightarrow> int \<Rightarrow> int option" where
  "lfree_advance cf h lf =
    (if mem_used (blk h lf) \<and> lf \<noteq> MEM_SIZE_ALIGNED cf
     then lfree_advance cf h (mem_next (blk h lf)) else Some lf)"

definition mem_take :: "mem_conf \<Rightarrow> int \<Rightarrow> int \<Rightarrow> heap \<Rightarrow> heap" where
  "mem_take cf sz ptr h =
    (if szt (mem_next (blk h ptr) - (ptr + SIZEOF_STRUCT_MEM cf))
          \<ge> sz + SIZEOF_STRUCT_MEM cf + MIN_SIZE_ALIGNED cf then
       (let ptr2 = mst (ptr + SIZEOF_STRUCT_MEM cf + sz);
            h = set_used ptr2 False h;
            h = set_next ptr2 (mem_next (blk h ptr)) h;
            h = set_prev ptr2 ptr h;
            h = set_next ptr ptr2 h;
            h = set_used ptr True h;
            h = (if mem_next (blk h ptr2) \<noteq> MEM_SIZE_ALIGNED cf
                 then set_prev (mem_next (blk h ptr2)) ptr2 h else h);
            h = stat_used_add (sz + SIZEOF_STRUCT_MEM cf) h
        in stat_max_update h)
     else
       (let h = set_used ptr True h;
            h = stat_used_add (mem_next (blk h ptr) - ptr) h
        in stat_max_update h))"

definition mem_malloc :: "mem_conf \<Rightarrow> int \<Rightarrow> heap \<Rightarrow> (heap \<times> int option) lwip" where
  "mem_malloc cf sz h =
    (if sz = 0 then Inr (h, None)
     else
     let sz = mst (LWIP_MEM_ALIGN_SIZE cf sz);
         sz = (if sz < MIN_SIZE_ALIGNED cf then mst (MIN_SIZE_ALIGNED cf) else sz)
     in
     if sz > MEM_SIZE_ALIGNED cf then Inr (h, None)
     else
       lwip_loop (mem_search cf h sz (mst (lfree h))) (\<lambda>found. case found of
         None \<Rightarrow> Inr (stat_err_inc h, None)
       | Some ptr \<Rightarrow>
           let h = mem_take cf sz ptr h in
           lwip_loop (if ptr = lfree h then lfree_advance cf h (lfree h) else Some (lfree h)) (\<lambda>lf.
           let h' = h\<lparr>lfree := lf\<rparr> in
           lwip_assert ''mem_malloc: !lfree->used''
             (ptr = lfree h \<longrightarrow> lf = MEM_SIZE_ALIGNED cf \<or> \<not> mem_used (blk h' lf)) (
           lwip_assert ''mem_malloc: allocated memory not above ram_end.''
             (ptr + SIZEOF_STRUCT_MEM cf + sz \<le> MEM_SIZE_ALIGNED cf) (
           lwip_assert ''mem_malloc: allocated memory properly aligned.''
             ((ram h + ptr + SIZEOF_STRUCT_MEM cf) mod MEM_ALIGNMENT cf = 0) (
           lwip_assert ''mem_malloc: sanity check alignment''
             ((ram h + ptr) AND (MEM_ALIGNMENT cf - 1) = 0) (
           Inr (h', Some (ram h + ptr + SIZEOF_STRUCT_MEM cf)))))))))"

text \<open>\<open>mem_calloc\<close> multiplies in \<open>int\<close> and passes the product as a \<open>mem_size_t\<close>; the bytes it clears
  are returned as the range given to \<open>memset\<close>.\<close>

definition mem_calloc :: "mem_conf \<Rightarrow> int \<Rightarrow> int \<Rightarrow> heap \<Rightarrow> (heap \<times> (int \<times> int) option) lwip" where
  "mem_calloc cf count sz h =
     lwip_bind (mem_malloc cf (mst (count * sz)) h) (\<lambda>(h, p).
       Inr (h, map_option (\<lambda>a. (a, count * sz)) p))"

end
