(* ===== verification/Allocator.thy ===== *)
theory Allocator
  imports Prelude
begin

text \<open>
  The contract between lwIP's allocators and their clients: what \<open>mem_malloc\<close> and \<open>mem_free\<close>, or
  \<open>memp_malloc\<close> and \<open>memp_free\<close>, promise about the memory areas (address and length) they hand out.
  Clients are sequences of requests; the locale proves once that a client that only frees what it
  was given never runs into an assertion or an endless loop, that the areas it was given never overlap, and that
  the allocator has exactly these on its account.
\<close>

definition separate :: "(int \<times> int) set \<Rightarrow> bool" where
  "separate S \<longleftrightarrow> (\<forall>(p, n) \<in> S. \<forall>(q, m) \<in> S. (p, n) \<noteq> (q, m) \<longrightarrow> p + n \<le> q \<or> q + m \<le> p)"

text \<open>
  A client keeps a list of what it was given: the pointers that were returned, each with what it had asked for (a size, or a
  pool). It may ask for more, or give back the \<open>i\<close>-th of the areas it holds, by the pointer it was given for it.
\<close>

datatype 'r request = Alloc 'r | Release nat

type_synonym 'r held = "(int \<times> 'r) list"

fun run_requests :: "('r \<Rightarrow> 's \<Rightarrow> ('s \<times> int option) lwip) \<Rightarrow> ('r \<Rightarrow> int \<Rightarrow> 's \<Rightarrow> 's lwip) \<Rightarrow> 'r request list \<Rightarrow> 'r held \<Rightarrow> 's \<Rightarrow>
  ('r held \<times> 's) lwip"
where
  "run_requests alloc release [] held s = Inr (held, s)"
| "run_requests alloc release (Alloc n # rs) held s =
     lwip_bind (alloc n s) (\<lambda>(s, r).
       run_requests alloc release rs (case r of None \<Rightarrow> held | Some p \<Rightarrow> (p, n) # held) s)"
| "run_requests alloc release (Release i # rs) held s =
     (if i < length held
      then lwip_bind (release (snd (held ! i)) (fst (held ! i)) s) (run_requests alloc release rs (take i held @ drop (Suc i) held))
      else run_requests alloc release rs held s)"

text \<open>What is asked for.\<close>

fun asked :: "'r request list \<Rightarrow> 'r list" where
  "asked [] = []"
| "asked (Alloc n # rs) = n # asked rs"
| "asked (Release i # rs) = asked rs"

text \<open>Two areas that share no byte.\<close>

definition no_overlap :: "int \<times> int \<Rightarrow> int \<times> int \<Rightarrow> bool" where
  "no_overlap a b \<longleftrightarrow> fst a + snd a \<le> fst b \<or> fst b + snd b \<le> fst a"

text \<open>What the client was given is what the allocator has on its account: the same pointers, each once, with areas that
  serve what was asked for.\<close>

definition accounted :: "('r \<Rightarrow> int \<times> int \<Rightarrow> bool) \<Rightarrow> (int \<times> int) set \<Rightarrow> 'r held \<Rightarrow> bool" where
  "accounted serves S held \<longleftrightarrow> distinct (map fst held) \<and> fst ` S = fst ` set held \<and> (\<forall>(p, n) \<in> set held. \<exists>m. serves n (p, m) \<and> (p, m) \<in> S)"

lemma accounted_served:
  assumes "accounted serves S held" "(p, n) \<in> set held"
  obtains m where "serves n (p, m)" "(p, m) \<in> S"
  using assms by (auto simp: accounted_def)

lemma take_drop_nth: "i < length xs \<Longrightarrow> xs = take i xs @ xs ! i # drop (Suc i) xs"
  by (simp add: id_take_nth_drop)

locale allocator =
  fixes inv :: "'s \<Rightarrow> bool"
    and areas :: "'s \<Rightarrow> (int \<times> int) set"
    and alloc :: "'r \<Rightarrow> 's \<Rightarrow> ('s \<times> int option) lwip"
    and release :: "'r \<Rightarrow> int \<Rightarrow> 's \<Rightarrow> 's lwip"
    and legal :: "'r \<Rightarrow> bool"
    and size_of :: "'r \<Rightarrow> int"
    and serves :: "'r \<Rightarrow> int \<times> int \<Rightarrow> bool"
  assumes areas_separate: "inv s \<Longrightarrow> separate (areas s)"
    and areas_fst: "inv s \<Longrightarrow> (p, m) \<in> areas s \<Longrightarrow> (p, k) \<in> areas s \<Longrightarrow> m = k"
    and alloc_total: "inv s \<Longrightarrow> legal n \<Longrightarrow> \<exists>s' r. alloc n s = Inr (s', r)"
    and alloc_none: "inv s \<Longrightarrow> legal n \<Longrightarrow> alloc n s = Inr (s', None) \<Longrightarrow> inv s' \<and> areas s' = areas s"
    and alloc_some: "inv s \<Longrightarrow> legal n \<Longrightarrow> alloc n s = Inr (s', Some p) \<Longrightarrow>
      inv s' \<and> p \<notin> fst ` areas s \<and> (\<exists>m. serves n (p, m) \<and> areas s' = insert (p, m) (areas s))"
    and serves_size: "serves n (p, m) \<Longrightarrow> size_of n \<le> m"
    and release_ok: "inv s \<Longrightarrow> serves n (p, m) \<Longrightarrow> (p, m) \<in> areas s \<Longrightarrow>
      \<exists>s'. release n p s = Inr s' \<and> inv s' \<and> areas s' = areas s - {(p, m)}"
begin

lemma alloc_inv: "inv s \<Longrightarrow> legal n \<Longrightarrow> alloc n s = Inr (s', r) \<Longrightarrow> inv s'"
  using alloc_none alloc_some by (cases r) blast+

lemma alloc_release:
  assumes "inv s" "legal n" "alloc n s = Inr (s', Some p)"
  shows "\<exists>s''. release n p s' = Inr s'' \<and> inv s'' \<and> areas s'' = areas s"
proof -
  obtain m where m: "inv s'" "p \<notin> fst ` areas s" "areas s' = insert (p, m) (areas s)" "serves n (p, m)"
    using alloc_some[OF assms] by blast
  then obtain s'' where "release n p s' = Inr s''" "inv s''" "areas s'' = areas s' - {(p, m)}"
    using release_ok[of s' n p m] by blast
  moreover have "areas s' - {(p, m)} = areas s" using m by force
  ultimately show ?thesis by auto
qed

lemma accounted_alloc:
  assumes "inv s" "accounted serves (areas s) held" "legal n" "alloc n s = Inr (s', r)"
  shows "inv s' \<and> accounted serves (areas s') (case r of None \<Rightarrow> held | Some p \<Rightarrow> (p, n) # held)"
proof (cases r)
  case None
  then show ?thesis using assms alloc_none [of s n s'] by (auto simp: accounted_def)
next
  case (Some p)
  then obtain m where m: "inv s'" "p \<notin> fst ` areas s" "serves n (p, m)" "areas s' = insert (p, m) (areas s)"
    using assms alloc_some [of s n s' p] by (auto simp: accounted_def)
  have h: "distinct (map fst held)" "fst ` areas s = fst ` set held" "\<forall>(p, n) \<in> set held. \<exists>m. serves n (p, m) \<and> (p, m) \<in> areas s"
    using assms(2) by (simp_all add: accounted_def)
  have "distinct (map fst ((p, n) # held))" using h(1,2) m(2) by simp
  moreover have "fst ` areas s' = fst ` set ((p, n) # held)" using h(2) m(4) by simp
  moreover have "\<forall>(p, n) \<in> set ((p, n) # held). \<exists>m. serves n (p, m) \<and> (p, m) \<in> areas s'" using h(3) m(3,4) by fastforce
  ultimately show ?thesis using m(1) Some by (simp add: accounted_def)
qed

lemma areas_fun: "inv s \<Longrightarrow> (p, m) \<in> areas s \<Longrightarrow> (p, k) \<in> areas s \<Longrightarrow> m = k"
  using areas_fst by blast

lemma accounted_release:
  assumes inv: "inv s" and a: "accounted serves (areas s) held" and i: "i < length held"
  obtains s' where "release (snd (held ! i)) (fst (held ! i)) s = Inr s'" "inv s'" "accounted serves (areas s') (take i held @ drop (Suc i) held)"
proof -
  obtain p n where pn: "held ! i = (p, n)" by fastforce
  define us vs where "us = take i held" and "vs = drop (Suc i) held"
  have held: "held = us @ (p, n) # vs" using take_drop_nth [OF i] pn by (simp add: us_def vs_def)
  have h: "inv s" "distinct (map fst held)" "fst ` areas s = fst ` set held" "\<forall>(p, n) \<in> set held. \<exists>m. serves n (p, m) \<and> (p, m) \<in> areas s"
    using inv a by (simp_all add: accounted_def)
  from h(4) obtain m where m: "serves n (p, m)" "(p, m) \<in> areas s" unfolding held by auto
  from release_ok [OF h(1) m] obtain s' where s': "release n p s = Inr s'" "inv s'" "areas s' = areas s - {(p, m)}" by blast
  have new: "p \<notin> fst ` set (us @ vs)" using h(2) unfolding held by auto
  have "fst ` areas s' = fst ` areas s - {p}"
    unfolding s'(3) using areas_fun [OF h(1) m(2)] by force
  also have "\<dots> = fst ` set (us @ vs)" using new unfolding h(3) held by auto
  finally have "fst ` areas s' = fst ` set (us @ vs)" .
  moreover have "\<forall>(q, k) \<in> set (us @ vs). \<exists>m. serves k (q, m) \<and> (q, m) \<in> areas s'"
  proof (rule ballI, rule case_prodI2)
    fix x q k assume "x \<in> set (us @ vs)" "x = (q, k)"
    then have q: "(q, k) \<in> set held" "q \<noteq> p" using new by (force simp: held)+
    then obtain m' where "serves k (q, m')" "(q, m') \<in> areas s" using h(4) by blast
    then show "\<exists>m. serves k (q, m) \<and> (q, m) \<in> areas s'" using q(2) unfolding s'(3) by blast
  qed
  moreover have "distinct (map fst (us @ vs))" using h(2) unfolding held by auto
  ultimately have "accounted serves (areas s') (us @ vs)" by (simp add: accounted_def)
  then show thesis using that s'(1,2) pn by (simp add: us_def vs_def)
qed

lemma run_accounted:
  "inv s \<Longrightarrow> accounted serves (areas s) held \<Longrightarrow> list_all legal (asked rs) \<Longrightarrow>
    \<exists>held' s'. run_requests alloc release rs held s = Inr (held', s') \<and> inv s' \<and> accounted serves (areas s') held'"
proof (induction rs arbitrary: held s)
  case (Cons r rs)
  show ?case
  proof (cases r)
    case (Alloc n)
    then have n: "legal n" using Cons.prems by simp
    from alloc_total [OF Cons.prems(1) n] obtain s' q where "alloc n s = Inr (s', q)" by blast
    with accounted_alloc [OF Cons.prems(1,2) n this] Cons Alloc show ?thesis by simp
  next
    case (Release i)
    then show ?thesis using Cons by (cases "i < length held") (auto elim: accounted_release)
  qed
qed simp

text \<open>The areas that were asked for are separate, in the order of the list.\<close>

lemma accounted_disjoint:
  assumes inv: "inv s" and a: "accounted serves (areas s) held"
  shows "sorted_wrt no_overlap (map (\<lambda>(p, n). (p, size_of n)) held)"
proof -
  have ap: "no_overlap (p, size_of n) (q, size_of k)" if pq: "p \<noteq> q" "(p, n) \<in> set held" "(q, k) \<in> set held" for p n q k
  proof -
    obtain m where m: "serves n (p, m)" "(p, m) \<in> areas s" using accounted_served [OF a pq(2)] .
    obtain l where l: "serves k (q, l)" "(q, l) \<in> areas s" using accounted_served [OF a pq(3)] .
    have "separate (areas s)" using areas_separate [OF inv] .
    then have "p + m \<le> q \<or> q + l \<le> p" using m(2) l(2) pq(1) unfolding separate_def by blast
    then show ?thesis using serves_size [OF m(1)] serves_size [OF l(1)] by (auto simp: no_overlap_def)
  qed
  have "distinct (map fst held)" using a by (simp add: accounted_def)
  then show ?thesis using ap
  proof (induction held)
    case (Cons x held)
    then show ?case by (cases x) (force simp: image_iff)
  qed simp
qed

lemma run_safe:
  assumes "inv s" "areas s = {}" "list_all legal (asked rs)"
  obtains held s' where "run_requests alloc release rs [] s = Inr (held, s')" "inv s'" "accounted serves (areas s') held" "sorted_wrt no_overlap (map (\<lambda>(p, n). (p, size_of n)) held)"
proof -
  have "accounted serves (areas s) []" using assms by (simp add: accounted_def)
  from run_accounted [OF assms(1) this assms(3)] accounted_disjoint that show thesis by blast
qed

end

end
