(* ===== verification/Lwip_Mem_Correct.thy ===== *)
theory Lwip_Mem_Correct
  imports Lwip_Mem Allocator
begin

text \<open>
  Correctness of the heap allocator.  A heap is described by the list \<open>os\<close> of the offsets of its
  blocks, from 0 to the end marker: \<open>links\<close> says that the \<open>next\<close> and \<open>prev\<close> fields
  connect exactly these blocks, each large enough and aligned; \<open>packed\<close> that no two free
  blocks are neighbours; \<open>lfree_ok\<close> that \<open>lfree\<close> is the lowest free one.
  \<open>live\<close> is the abstract state: the user areas (address and length) that are allocated.
\<close>

section \<open>Alignment\<close>

definition conf_ok :: "mem_conf \<Rightarrow> bool" where
  "conf_ok cf \<longleftrightarrow> MEM_ALIGNMENT cf \<in> {1, 2, 4, 8} \<and> 0 < MIN_SIZE cf \<and> MEM_SIZE cf \<le> 64000 \<and>
     SIZEOF_STRUCT_MEM cf + MIN_SIZE_ALIGNED cf \<le> MEM_SIZE_ALIGNED cf"

lemma and_not_mask_int: "x AND NOT (2 ^ k - 1) = x div 2 ^ k * (2 ^ k :: int)"
proof -
  have "x AND NOT (mask k) = push_bit k (drop_bit k x)"
    by (rule bit_eqI) (auto simp: bit_simps)
  then show ?thesis by (simp add: mask_eq_exp_minus_1 push_bit_eq_mult drop_bit_eq_div)
qed

lemma and_mask_int: "x AND (2 ^ k - 1) = x mod (2 ^ k :: int)"
  by (simp add: take_bit_eq_mod [symmetric] take_bit_eq_mask mask_eq_exp_minus_1)

lemma alignment_power: "conf_ok cf \<Longrightarrow> \<exists>k \<le> 3. MEM_ALIGNMENT cf = 2 ^ k"
  unfolding conf_ok_def
  by (auto intro: exI[of _ 0] exI[of _ 1] exI[of _ 2] exI[of _ 3])

lemma align_size:
  assumes "conf_ok cf"
  shows "LWIP_MEM_ALIGN_SIZE cf x = (x + MEM_ALIGNMENT cf - 1) div MEM_ALIGNMENT cf * MEM_ALIGNMENT cf"
    and "y AND (MEM_ALIGNMENT cf - 1) = y mod MEM_ALIGNMENT cf"
    and "LWIP_MEM_ALIGN cf x = LWIP_MEM_ALIGN_SIZE cf x"
  using alignment_power [OF assms] unfolding LWIP_MEM_ALIGN_SIZE_def LWIP_MEM_ALIGN_def
  by (auto simp: and_not_mask_int and_mask_int)

lemma align_dvd: "conf_ok cf \<Longrightarrow> MEM_ALIGNMENT cf dvd LWIP_MEM_ALIGN_SIZE cf x"
  by (simp add: align_size)

lemma align_bounds:
  assumes "conf_ok cf"
  shows "x \<le> LWIP_MEM_ALIGN_SIZE cf x" "LWIP_MEM_ALIGN_SIZE cf x < x + MEM_ALIGNMENT cf"
proof -
  have "MEM_ALIGNMENT cf \<in> {1, 2, 4, 8}" using assms by (simp add: conf_ok_def)
  then show "x \<le> LWIP_MEM_ALIGN_SIZE cf x" "LWIP_MEM_ALIGN_SIZE cf x < x + MEM_ALIGNMENT cf"
    unfolding align_size [OF assms] by auto
qed

lemma conf_facts:
  assumes "conf_ok cf"
  shows "0 < MEM_ALIGNMENT cf" "MEM_ALIGNMENT cf \<le> 8" "0 < MIN_SIZE_ALIGNED cf" "6 \<le> SIZEOF_STRUCT_MEM cf"
    "SIZEOF_STRUCT_MEM cf \<le> 13" "MEM_SIZE_ALIGNED cf < 64008"
    "MIN_SIZE_ALIGNED cf + SIZEOF_STRUCT_MEM cf \<le> MEM_SIZE_ALIGNED cf"
    "MEM_ALIGNMENT cf dvd SIZEOF_STRUCT_MEM cf" "MEM_ALIGNMENT cf dvd MIN_SIZE_ALIGNED cf"
    "MEM_ALIGNMENT cf dvd MEM_SIZE_ALIGNED cf"
proof -
  note * = assms [unfolded conf_ok_def]
  show "0 < MEM_ALIGNMENT cf" "MEM_ALIGNMENT cf \<le> 8" using * by auto
  show "0 < MIN_SIZE_ALIGNED cf"
    using align_bounds(1)[OF assms, of "MIN_SIZE cf"] * by (simp add: MIN_SIZE_ALIGNED_def)
  show "6 \<le> SIZEOF_STRUCT_MEM cf" "SIZEOF_STRUCT_MEM cf \<le> 13"
    using align_bounds[OF assms, of 6] \<open>MEM_ALIGNMENT cf \<le> 8\<close> by (simp_all add: SIZEOF_STRUCT_MEM_def)
  show "MEM_SIZE_ALIGNED cf < 64008"
    using align_bounds(2)[OF assms, of "MEM_SIZE cf"] * \<open>MEM_ALIGNMENT cf \<le> 8\<close> by (simp add: MEM_SIZE_ALIGNED_def)
  show "MIN_SIZE_ALIGNED cf + SIZEOF_STRUCT_MEM cf \<le> MEM_SIZE_ALIGNED cf" using * by simp
qed (simp_all add: SIZEOF_STRUCT_MEM_def MIN_SIZE_ALIGNED_def MEM_SIZE_ALIGNED_def align_dvd assms)

section \<open>The block list\<close>

abbreviation HEND :: "mem_conf \<Rightarrow> int" where "HEND cf \<equiv> MEM_SIZE_ALIGNED cf"
abbreviation HDR :: "mem_conf \<Rightarrow> int" where "HDR cf \<equiv> SIZEOF_STRUCT_MEM cf"
abbreviation MINB :: "mem_conf \<Rightarrow> int" where "MINB cf \<equiv> MIN_SIZE_ALIGNED cf"

definition step :: "mem_conf \<Rightarrow> (int \<Rightarrow> mem) \<Rightarrow> int \<Rightarrow> int \<Rightarrow> bool" where
  "step cf r a b \<longleftrightarrow> mem_next (r a) = b \<and> a + HDR cf + MINB cf \<le> b \<and> MEM_ALIGNMENT cf dvd a \<and>
     (b \<noteq> HEND cf \<longrightarrow> mem_prev (r b) = a)"

definition links :: "mem_conf \<Rightarrow> (int \<Rightarrow> mem) \<Rightarrow> int list \<Rightarrow> bool" where
  "links cf r os \<longleftrightarrow> os \<noteq> [] \<and> hd os = 0 \<and> last os = HEND cf \<and> successively (step cf r) os \<and>
     mem_used (r (HEND cf)) \<and> mem_prev (r 0) = 0"

definition packed :: "(int \<Rightarrow> mem) \<Rightarrow> int list \<Rightarrow> bool" where
  "packed r os = successively (\<lambda>a b. mem_used (r a) \<or> mem_used (r b)) os"

definition lfree_ok :: "mem_conf \<Rightarrow> (int \<Rightarrow> mem) \<Rightarrow> int list \<Rightarrow> int \<Rightarrow> bool" where
  "lfree_ok cf r os lf \<longleftrightarrow> lf \<in> set os \<and> (\<forall>a \<in> set os. a < lf \<longrightarrow> mem_used (r a)) \<and>
     (lf = HEND cf \<or> \<not> mem_used (r lf))"

definition heap_pre :: "mem_conf \<Rightarrow> heap \<Rightarrow> int list \<Rightarrow> bool" where
  "heap_pre cf h os \<longleftrightarrow> links cf (blk h) os \<and> lfree_ok cf (blk h) os (lfree h) \<and> MEM_ALIGNMENT cf dvd ram h"

definition heap_ok :: "mem_conf \<Rightarrow> heap \<Rightarrow> int list \<Rightarrow> bool" where
  "heap_ok cf h os \<longleftrightarrow> heap_pre cf h os \<and> packed (blk h) os"

definition live :: "mem_conf \<Rightarrow> heap \<Rightarrow> int list \<Rightarrow> (int \<times> int) set" where
  "live cf h os = (\<lambda>a. (ram h + a + HDR cf, mem_next (blk h a) - a - HDR cf)) `
     {a \<in> set os. a \<noteq> HEND cf \<and> mem_used (blk h a)}"

lemma links_sorted:
  assumes "conf_ok cf" "links cf r os" shows "sorted_wrt (<) os"
proof -
  have "successively (<) os"
    using assms(2) conf_facts[OF assms(1)]
    by (auto simp: links_def step_def intro: successively_mono[of "step cf r"])
  then show ?thesis by (simp add: successively_conv_sorted_wrt)
qed

lemma links_bounds:
  assumes "conf_ok cf" "links cf r os" "a \<in> set os"
  shows "0 \<le> a" "a \<le> HEND cf" "MEM_ALIGNMENT cf dvd a"
proof -
  have s: "sorted_wrt (<) os" using links_sorted assms by blast
  obtain o' where o': "os = 0 # o'" using assms(2) by (cases os) (auto simp: links_def)
  then show "0 \<le> a" using s assms(3) by auto
  obtain bs where "os = bs @ [HEND cf]" using assms(2) by (metis append_butlast_last_id links_def)
  then show "a \<le> HEND cf" using s assms(3) by (auto simp: sorted_wrt_append)
  show "MEM_ALIGNMENT cf dvd a"
  proof (cases "a = HEND cf")
    case False
    obtain xs ys where os: "os = xs @ a # ys" using assms(3) by (meson split_list)
    moreover from this have "ys \<noteq> []" using False assms(2) by (auto simp: links_def)
    ultimately have "step cf r a (hd ys)"
      using assms(2) by (auto simp: links_def successively_append_iff successively_Cons)
    then show ?thesis by (simp add: step_def)
  qed (simp add: conf_facts assms(1))
qed

lemma succ_split3:
  "successively P (xs @ a # ms @ b # ys) \<longleftrightarrow>
    successively P xs \<and> (xs = [] \<or> P (last xs) a) \<and> successively P (a # ms @ [b]) \<and>
    (ys = [] \<or> P b (hd ys)) \<and> successively P ys"
proof -
  have "xs @ a # ms @ b # ys = xs @ (a # ms @ [b]) @ ys" by simp
  then show ?thesis by (simp only: successively_append_iff) (auto simp: hd_append)
qed

text \<open>Replacing the blocks between \<open>a\<close> and \<open>b\<close>.\<close>

lemma links_replace:
  assumes l: "links cf r (xs @ a # ms @ b # ys)"
    and m: "successively (step cf r') (a # ms' @ [b])"
    and fr: "\<And>x. x \<in> set xs \<union> set ys \<Longrightarrow> mem_next (r' x) = mem_next (r x) \<and> mem_prev (r' x) = mem_prev (r x)"
    and ab: "mem_prev (r' a) = mem_prev (r a)" "mem_next (r' b) = mem_next (r b)" "mem_used (r' (HEND cf))"
  shows "links cf r' (xs @ a # ms' @ b # ys)"
proof -
  have s: "successively (step cf r) xs" "xs = [] \<or> step cf r (last xs) a"
      "ys = [] \<or> step cf r b (hd ys)" "successively (step cf r) ys"
    using l by (simp_all only: links_def succ_split3)
  have eq: "step cf r' x y = step cf r x y" if "x \<in> set xs \<and> y \<in> set xs \<or> x \<in> set ys \<and> y \<in> set ys" for x y
    using that fr by (auto simp: step_def)
  have "successively (step cf r') xs" "successively (step cf r') ys"
    using s(1,4) eq by (simp_all cong: successively_cong)
  moreover have "xs = [] \<or> step cf r' (last xs) a" "ys = [] \<or> step cf r' b (hd ys)"
    using s(2,3) fr ab by (auto simp: step_def)
  moreover have "mem_prev (r' 0) = 0"
    using l ab(1) fr by (cases xs) (auto simp: links_def)
  ultimately show ?thesis
    using l m ab(3) by (simp only: links_def succ_split3) (auto simp: hd_append)
qed

lemma links_step:
  assumes "links cf r (xs @ a # b # ys)" shows "step cf r a b"
  using assms by (simp add: links_def successively_append_iff)

lemma mst_id: "0 \<le> x \<Longrightarrow> x < 65536 \<Longrightarrow> mst x = x"
  by (simp add: mst_def)

lemma blk_simps [simp]:
  "blk (set_next i v h) = (blk h)(i := (blk h i)\<lparr>mem_next := mst v\<rparr>)"
  "blk (set_prev i v h) = (blk h)(i := (blk h i)\<lparr>mem_prev := mst v\<rparr>)"
  "blk (set_used i u h) = (blk h)(i := (blk h i)\<lparr>mem_used := u\<rparr>)"
  "lfree (set_next i v h) = lfree h" "lfree (set_prev i v h) = lfree h" "lfree (set_used i u h) = lfree h"
  "ram (set_next i v h) = ram h" "ram (set_prev i v h) = ram h" "ram (set_used i u h) = ram h"
  "mem_stats (set_next i v h) = mem_stats h" "mem_stats (set_prev i v h) = mem_stats h"
  "mem_stats (set_used i u h) = mem_stats h"
  "blk (stat_used_add n h) = blk h" "lfree (stat_used_add n h) = lfree h" "ram (stat_used_add n h) = ram h"
  "blk (stat_max_update h) = blk h" "lfree (stat_max_update h) = lfree h" "ram (stat_max_update h) = ram h"
  "blk (stat_err_inc h) = blk h" "lfree (stat_err_inc h) = lfree h" "ram (stat_err_inc h) = ram h"
  by (simp_all add: set_next_def set_prev_def set_used_def stat_used_add_def stat_max_update_def stat_err_inc_def)

text \<open>Uniqueness of the elements of a sorted split.\<close>

lemma sorted_split:
  assumes "sorted_wrt (<) (xs @ a # ys :: int list)"
  shows "x \<in> set xs \<Longrightarrow> x < a" "y \<in> set ys \<Longrightarrow> a < y"
  using assms by (auto simp: sorted_wrt_append)

text \<open>The two links that are rewritten when the block \<open>b\<close> is merged into \<open>a\<close>.\<close>

definition merge :: "int \<Rightarrow> int \<Rightarrow> heap \<Rightarrow> heap" where
  "merge a b h =
    (let h = (if lfree h = b then h\<lparr>lfree := a\<rparr> else h);
         h = set_next a (mem_next (blk h b)) h
     in set_prev (mem_next (blk h b)) a h)"

lemma merge_links:
  assumes cf: "conf_ok cf" and l: "links cf (blk h) (xs @ a # b # c # ys)"
  shows "links cf (blk (merge a b h)) (xs @ a # c # ys)"
    and "\<And>x. mem_used (blk (merge a b h) x) = mem_used (blk h x)"
    and "\<And>x. x \<noteq> a \<Longrightarrow> mem_next (blk (merge a b h) x) = mem_next (blk h x)"
    and "ram (merge a b h) = ram h"
    and "lfree (merge a b h) = (if lfree h = b then a else lfree h)"
proof -
  have ab: "step cf (blk h) a b" using l links_step by blast
  have bc: "step cf (blk h) b c" using l links_step[of cf "blk h" "xs @ [a]" b c ys] by simp
  have s: "sorted_wrt (<) (xs @ a # b # c # ys)" by (rule links_sorted [OF cf l])
  then have o: "a < b" "b < c" "\<And>x. x \<in> set xs \<Longrightarrow> x < a" "\<And>y. y \<in> set ys \<Longrightarrow> c < y"
    by (auto simp: sorted_wrt_append)
  then have nin: "c \<notin> set xs" "a \<notin> set ys" by force+
  have bd: "0 \<le> a" "c \<le> HEND cf" using links_bounds[OF cf l] by auto
  note cfs = conf_facts[OF cf]
  have id: "mst a = a" "mst c = c" using bd o cfs by (auto intro!: mst_id)
  have n: "mem_next (blk h b) = c" using bc by (simp add: step_def)
  have r: "blk (merge a b h) = (blk h)(a := (blk h a)\<lparr>mem_next := c\<rparr>,
      c := (blk h c)\<lparr>mem_prev := a\<rparr>)"
    using o by (simp add: merge_def n id Let_def)
  have "links cf (blk (merge a b h)) (xs @ a # [] @ c # ys)"
  proof (rule links_replace[where r = "blk h" and ms = "[b]"])
    show "links cf (blk h) (xs @ a # [b] @ c # ys)" using l by simp
    show "successively (step cf (blk (merge a b h))) (a # [] @ [c])"
      using ab bc o(1,2) cfs by (auto simp: r step_def)
    show "mem_used (blk (merge a b h) (HEND cf))" using l by (auto simp: r links_def)
  qed (use o nin in \<open>auto simp: r\<close>)
  then show "links cf (blk (merge a b h)) (xs @ a # c # ys)" by simp
qed (use l in \<open>auto simp: merge_def Let_def\<close>)

lemma merge_pre:
  assumes cf: "conf_ok cf" and h: "heap_pre cf h (xs @ a # b # c # ys)"
    and free: "\<not> mem_used (blk h a)" "\<not> mem_used (blk h b)"
  shows "heap_pre cf (merge a b h) (xs @ a # c # ys)"
    and "live cf (merge a b h) (xs @ a # c # ys) = live cf h (xs @ a # b # c # ys)"
    and "mem_used (blk (merge a b h) x) = mem_used (blk h x)"
proof -
  have l: "links cf (blk h) (xs @ a # b # c # ys)" using h by (simp add: heap_pre_def)
  note m = merge_links[OF cf l]
  have s: "sorted_wrt (<) (xs @ a # b # c # ys)" by (rule links_sorted [OF cf l])
  then have "a < b" by (auto simp: sorted_wrt_append)
  then have "lfree h \<noteq> b" using h free by (auto simp: heap_pre_def lfree_ok_def)
  then show "heap_pre cf (merge a b h) (xs @ a # c # ys)"
    using h m by (auto simp: heap_pre_def lfree_ok_def)
  have "{x \<in> set (xs @ a # c # ys). x \<noteq> HEND cf \<and> mem_used (blk (merge a b h) x)} =
        {x \<in> set (xs @ a # b # c # ys). x \<noteq> HEND cf \<and> mem_used (blk h x)}"
    using free m(2) by auto
  moreover have "mem_next (blk (merge a b h) x) = mem_next (blk h x)" if "mem_used (blk h x)" for x
    using m(3)[of x] free that by (cases "x = a") auto
  ultimately show "live cf (merge a b h) (xs @ a # c # ys) = live cf h (xs @ a # b # c # ys)"
    unfolding live_def m(4) by (intro image_cong) auto
  show "mem_used (blk (merge a b h) x) = mem_used (blk h x)" by (rule m)
qed

text \<open>\<open>plug_holes\<close> is a merge with the next block, then one with the previous block.\<close>

definition plug_next :: "mem_conf \<Rightarrow> int \<Rightarrow> heap \<Rightarrow> heap" where
  "plug_next cf mem h = (let n = mem_next (blk h mem) in
     if mem \<noteq> n \<and> \<not> mem_used (blk h n) \<and> n \<noteq> HEND cf then merge mem n h else h)"

definition plug_prev :: "int \<Rightarrow> heap \<Rightarrow> heap" where
  "plug_prev mem h = (let p = mem_prev (blk h mem) in
     if p \<noteq> mem \<and> \<not> mem_used (blk h p) then merge p mem h else h)"

lemma plug_holes_eq:
  assumes "0 \<le> mem" "mem < HEND cf" "\<not> mem_used (blk h mem)" "mem_next (blk h mem) \<le> HEND cf"
  shows "plug_holes cf mem h = Inr (plug_prev mem (plug_next cf mem h))"
  by (simp only: plug_holes_def plug_prev_def plug_next_def merge_def Let_def lwip_assert_True assms
      not_False_eq_True)

lemma packed_split3:
  "packed r (xs @ a # ms @ b # ys) \<longleftrightarrow>
    packed r xs \<and> (xs = [] \<or> mem_used (r (last xs)) \<or> mem_used (r a)) \<and> packed r (a # ms @ [b]) \<and>
    (ys = [] \<or> mem_used (r b) \<or> mem_used (r (hd ys))) \<and> packed r ys"
  by (simp only: packed_def succ_split3)

lemma packed_mono:
  "packed r xs \<Longrightarrow> (\<And>x. x \<in> set xs \<Longrightarrow> mem_used (r x) \<Longrightarrow> mem_used (r' x)) \<Longrightarrow> packed r' xs"
  unfolding packed_def by (erule successively_mono) blast

lemma packed_app: "packed r (xs @ ys) \<longleftrightarrow> packed r xs \<and> packed r ys \<and>
    (xs = [] \<or> ys = [] \<or> mem_used (r (last xs)) \<or> mem_used (r (hd ys)))"
  by (simp add: packed_def successively_append_iff)

lemma packed_Cons: "packed r (x # ys) \<longleftrightarrow> ys = [] \<or> (mem_used (r x) \<or> mem_used (r (hd ys))) \<and> packed r ys"
  by (simp add: packed_def successively_Cons)

lemma packed_cong: "(\<And>x. x \<in> set xs \<Longrightarrow> mem_used (r x) = mem_used (r' x)) \<Longrightarrow> packed r xs = packed r' xs"
  unfolding packed_def by (rule successively_cong) auto

lemma plug_next_ok:
  assumes cf: "conf_ok cf" and h: "heap_pre cf h (xs @ a # ys)" and free: "\<not> mem_used (blk h a)"
    and p: "packed (blk h) xs" "packed (blk h) ys" and ys: "ys \<noteq> []"
  shows "\<exists>zs. heap_pre cf (plug_next cf a h) (xs @ a # zs) \<and> zs \<noteq> [] \<and> packed (blk (plug_next cf a h)) xs \<and>
    packed (blk (plug_next cf a h)) (a # zs) \<and>
    live cf (plug_next cf a h) (xs @ a # zs) = live cf h (xs @ a # ys) \<and>
    (\<forall>x. mem_used (blk (plug_next cf a h) x) = mem_used (blk h x))"
proof -
  obtain n zs where n: "ys = n # zs" using ys by (cases ys) auto
  have l: "links cf (blk h) (xs @ a # n # zs)" using h by (simp add: heap_pre_def n)
  have next_n: "mem_next (blk h a) = n" using links_step[OF l] by (simp add: step_def)
  have an: "a \<noteq> n" using links_sorted[OF cf l] by (auto simp: sorted_wrt_append)
  show ?thesis
  proof (cases "mem_used (blk h n)")
    case True
    then have "plug_next cf a h = h" by (simp add: plug_next_def next_n Let_def)
    then show ?thesis
      using h p n True by (intro exI[of _ ys]) (simp add: packed_Cons[of _ a])
  next
    case False
    then have "n \<noteq> HEND cf" using l by (auto simp: links_def)
    then obtain c zs' where c: "zs = c # zs'" using l by (cases zs) (auto simp: links_def)
    have pn: "plug_next cf a h = merge a n h"
      using False an \<open>n \<noteq> HEND cf\<close> by (simp add: plug_next_def next_n Let_def)
    have "mem_used (blk h c)" "packed (blk h) (c # zs')"
      using p(2) False by (simp_all add: n c packed_Cons[of _ n])
    then show ?thesis
      using merge_pre[OF cf _ free False, of xs c zs'] h p
      by (intro exI[of _ "c # zs'"])
        (simp add: n c pn packed_Cons[of _ a] cong: packed_cong)
  qed
qed

lemma plug_prev_ok:
  assumes cf: "conf_ok cf" and h: "heap_pre cf h (xs @ a # zs)" and free: "\<not> mem_used (blk h a)"
    and p: "packed (blk h) xs" "packed (blk h) (a # zs)" and zs: "zs \<noteq> []"
  shows "\<exists>os. heap_ok cf (plug_prev a h) os \<and> live cf (plug_prev a h) os = live cf h (xs @ a # zs)"
proof (cases xs rule: rev_cases)
  case Nil
  have l: "links cf (blk h) (xs @ a # zs)" using h by (simp add: heap_pre_def)
  then have "plug_prev a h = h" using Nil by (auto simp: plug_prev_def links_def Let_def)
  then show ?thesis using h p Nil by (auto simp: heap_ok_def)
next
  case (snoc xs' q)
  obtain c zs' where c: "zs = c # zs'" using zs by (cases zs) auto
  have l: "links cf (blk h) (xs' @ q # a # c # zs')" using h by (simp add: heap_pre_def snoc c)
  have st: "step cf (blk h) q a" "q < a" "a < c"
    using links_step[OF l] links_sorted[OF cf l] by (auto simp: sorted_wrt_append)
  have "a \<noteq> HEND cf" using st(3) links_bounds(2)[OF cf l, of c] by auto
  then have prev: "mem_prev (blk h a) = q" using st by (simp add: step_def)
  have used_c: "mem_used (blk h c)" "packed (blk h) (c # zs')"
    using p(2) free by (simp_all add: c packed_Cons[of _ a])
  show ?thesis
  proof (cases "mem_used (blk h q)")
    case True
    then have "plug_prev a h = h" by (simp add: plug_prev_def prev Let_def)
    moreover have "packed (blk h) (xs @ a # zs)" using p True by (simp add: packed_app snoc packed_Cons[of _ q])
    ultimately show ?thesis using h by (auto simp: heap_ok_def)
  next
    case False
    then have pp: "plug_prev a h = merge q a h" using st(2) by (simp add: plug_prev_def prev Let_def)
    have hp: "heap_pre cf h (xs' @ q # a # c # zs')" using h by (simp add: snoc c)
    note m = merge_pre[OF cf hp False free]
    have "packed (blk h) (xs' @ q # c # zs')"
      using p(1) used_c by (simp add: snoc packed_app packed_Cons[of _ q])
    then have "packed (blk (merge q a h)) (xs' @ q # c # zs')"
      using packed_cong[of _ "blk (merge q a h)" "blk h"] m(3) by blast
    then show ?thesis using m(1,2) by (auto simp: heap_ok_def pp snoc c)
  qed
qed

lemma plug_holes_ok:
  assumes cf: "conf_ok cf" and h: "heap_pre cf h (xs @ a # ys)" and free: "\<not> mem_used (blk h a)"
    and p: "packed (blk h) xs" "packed (blk h) ys" and ys: "ys \<noteq> []"
  shows "\<exists>h' os. plug_holes cf a h = Inr h' \<and> heap_ok cf h' os \<and> live cf h' os = live cf h (xs @ a # ys)"
proof -
  have l: "links cf (blk h) (xs @ a # ys)" using h by (simp add: heap_pre_def)
  obtain n ys' where n: "ys = n # ys'" using ys by (cases ys) auto
  have "0 \<le> a" "n \<le> HEND cf" "a < n" "mem_next (blk h a) = n"
    using links_bounds[OF cf l] links_sorted[OF cf l] links_step[of cf "blk h" xs a n ys'] l
    by (auto simp: n sorted_wrt_append step_def)
  then have e: "plug_holes cf a h = Inr (plug_prev a (plug_next cf a h))"
    using free by (intro plug_holes_eq) auto
  obtain zs where z: "heap_pre cf (plug_next cf a h) (xs @ a # zs)" "zs \<noteq> []"
      "packed (blk (plug_next cf a h)) xs" "packed (blk (plug_next cf a h)) (a # zs)"
      "live cf (plug_next cf a h) (xs @ a # zs) = live cf h (xs @ a # ys)"
      "\<forall>x. mem_used (blk (plug_next cf a h) x) = mem_used (blk h x)"
    using plug_next_ok[OF cf h free p ys] by blast
  show ?thesis
    using plug_prev_ok[OF cf z(1) _ z(3,4,2)] z(5,6) free by (auto simp: e)
qed

lemma links_used_cong:
  assumes "links cf r os" "\<And>x. mem_next (r' x) = mem_next (r x)" "\<And>x. mem_prev (r' x) = mem_prev (r x)"
    "mem_used (r' (HEND cf))"
  shows "links cf r' os"
  using assms by (simp add: links_def step_def [abs_def])

lemma live_cases:
  assumes cf: "conf_ok cf" and h: "heap_ok cf h os" and "(p, n) \<in> live cf h os"
  obtains xs a b ys where "os = xs @ a # b # ys" "p = ram h + a + HDR cf" "n = b - a - HDR cf"
    "mem_used (blk h a)" "0 \<le> a" "b \<le> HEND cf" "a + HDR cf + MINB cf \<le> b" "mem_next (blk h a) = b"
    "MEM_ALIGNMENT cf dvd a"
proof -
  obtain a where a: "a \<in> set os" "a \<noteq> HEND cf" "mem_used (blk h a)" "p = ram h + a + HDR cf"
      "n = mem_next (blk h a) - a - HDR cf"
    using assms(3) by (auto simp: live_def)
  have l: "links cf (blk h) os" using h by (simp add: heap_ok_def heap_pre_def)
  obtain xs zs where z: "os = xs @ a # zs" using a(1) by (meson split_list)
  then obtain b ys where y: "zs = b # ys" using l a(2) by (cases zs) (auto simp: links_def)
  show ?thesis
    using that[of xs a b ys] links_step[of cf "blk h" xs a b ys] links_bounds[OF cf l] l a z y
    by (auto simp: step_def)
qed

lemma mem_free_ok:
  assumes cf: "conf_ok cf" and h: "heap_ok cf h os" and u: "(p, n) \<in> live cf h os"
  shows "\<exists>h' os'. mem_free cf (Some p) h = Inr h' \<and> heap_ok cf h' os' \<and>
    live cf h' os' = live cf h os - {(p, n)}"
proof -
  note cfs = conf_facts[OF cf]
  obtain xs a b ys where d: "os = xs @ a # b # ys" "p = ram h + a + HDR cf" "n = b - a - HDR cf"
      "mem_used (blk h a)" "0 \<le> a" "b \<le> HEND cf" "a + HDR cf + MINB cf \<le> b" "mem_next (blk h a) = b"
      "MEM_ALIGNMENT cf dvd a"
    using live_cases[OF cf h u] by blast
  have l: "links cf (blk h) os" and lf: "lfree_ok cf (blk h) os (lfree h)" and ra: "MEM_ALIGNMENT cf dvd ram h"
    and pk: "packed (blk h) os"
    using h by (simp_all add: heap_ok_def heap_pre_def)
  define h1 where "h1 = (let h = set_used a False h;
      h = (if a < lfree h then h\<lparr>lfree := a\<rparr> else h) in stat_used_add (- (mem_next (blk h a) - a)) h)"
  have r: "blk h1 = (blk h)(a := (blk h a)\<lparr>mem_used := False\<rparr>)"
    "lfree h1 = (if a < lfree h then a else lfree h)" "ram h1 = ram h"
    by (simp_all add: h1_def Let_def)
  have al: "p AND (MEM_ALIGNMENT cf - 1) = 0"
    unfolding align_size(2)[OF cf] using d(2,9) ra cfs(8) by (simp add: dvd_eq_mod_eq_0 [symmetric])
  have e: "mem_free cf (Some p) h = plug_holes cf a h1"
    using d cfs al by (simp add: mem_free_def h1_def Let_def)
  have aE: "a \<noteq> HEND cf" using d cfs by auto
  have s: "sorted_wrt (<) os" by (rule links_sorted[OF cf l])
  then have nin: "a \<notin> set xs" "a \<notin> set (b # ys)" by (auto simp: d(1) sorted_wrt_append)
  have "links cf (blk h1) os"
    using l aE by (intro links_used_cong[OF l]) (auto simp: r links_def)
  moreover have "lfree_ok cf (blk h1) os (lfree h1)"
    using lf d aE links_bounds[OF cf l] by (auto simp: lfree_ok_def r)
  ultimately have pre: "heap_pre cf h1 (xs @ a # b # ys)" using ra by (simp add: heap_pre_def r d(1))
  have "packed (blk h) xs" "packed (blk h) (b # ys)"
    using pk by (simp_all add: d(1) packed_app packed_Cons[of _ a])
  then have "packed (blk h1) xs" "packed (blk h1) (b # ys)"
    using nin by (auto simp: r elim!: packed_mono)
  moreover have "\<not> mem_used (blk h1 a)" by (simp add: r)
  ultimately obtain h' os' where ok: "plug_holes cf a h1 = Inr h'" "heap_ok cf h' os'" 
      "live cf h' os' = live cf h1 (xs @ a # b # ys)"
    using plug_holes_ok[OF cf pre] by blast
  have "live cf h1 os = live cf h os - {(p, n)}"
    using d by (auto simp: live_def r image_iff)
  then show ?thesis using ok e d(1) by auto
qed

section \<open>Allocation\<close>

text \<open>The user bytes of a block, and the free blocks.\<close>

definition room :: "mem_conf \<Rightarrow> heap \<Rightarrow> int \<Rightarrow> int" where
  "room cf h a = mem_next (blk h a) - a - HDR cf"

definition free_blk :: "mem_conf \<Rightarrow> heap \<Rightarrow> int list \<Rightarrow> int \<Rightarrow> bool" where
  "free_blk cf h os a \<longleftrightarrow> a \<in> set os \<and> a \<noteq> HEND cf \<and> \<not> mem_used (blk h a)"

lemma block_bounds:
  assumes cf: "conf_ok cf" and l: "links cf (blk h) os" and a: "a \<in> set os" "a \<noteq> HEND cf"
  obtains xs b ys where "os = xs @ a # b # ys" "step cf (blk h) a b" "mem_next (blk h a) = b"
    "0 \<le> a" "b \<le> HEND cf" "a + HDR cf + MINB cf \<le> b"
proof -
  obtain xs zs where z: "os = xs @ a # zs" using a(1) by (meson split_list)
  then obtain b ys where y: "zs = b # ys" using l a(2) by (cases zs) (auto simp: links_def)
  show ?thesis
    using that[of xs b ys] links_step[of cf "blk h" xs a b ys] links_bounds[OF cf l] l z y
    by (auto simp: step_def)
qed

lemma block_next:
  assumes "conf_ok cf" "links cf (blk h) os" "a \<in> set os" "a \<noteq> HEND cf"
  shows "0 \<le> a" "mem_next (blk h a) \<le> HEND cf"
  by (rule block_bounds[OF assms]; simp)+

lemma mem_search_ok:
  assumes cf: "conf_ok cf" and l: "links cf (blk h) (xs @ ptr # ys)" and sz: "0 < sz" "sz \<le> HEND cf"
  shows "\<exists>res. mem_search cf h sz ptr = Some res \<and> (case res of
      Some q \<Rightarrow> free_blk cf h (xs @ ptr # ys) q \<and> ptr \<le> q \<and> sz \<le> room cf h q
    | None \<Rightarrow> (\<forall>q. free_blk cf h (xs @ ptr # ys) q \<and> ptr \<le> q \<longrightarrow> room cf h q < sz))"
  using l
proof (induction ys arbitrary: xs ptr)
  case Nil
  then have "ptr = HEND cf" by (simp add: links_def)
  moreover have "q \<le> HEND cf" if "q \<in> set (xs @ [ptr])" for q using links_bounds(2)[OF cf Nil that] .
  ultimately show ?case using sz by (subst mem_search.simps) (force simp: free_blk_def)
next
  case (Cons b ys)
  note cfs = conf_facts[OF cf]
  have st: "step cf (blk h) ptr b" using Cons.prems links_step by blast
  have srt: "sorted_wrt (<) (xs @ ptr # b # ys)" by (rule links_sorted [OF cf Cons.prems])
  have bd: "0 \<le> ptr" "b \<le> HEND cf" "ptr < b" and nb: "mem_next (blk h ptr) = b"
    using links_bounds[OF cf Cons.prems] st srt by (auto simp: step_def sorted_wrt_append)
  have r: "szt (mem_next (blk h ptr) - (ptr + HDR cf)) = room cf h ptr"
    using st bd cfs by (simp add: szt_def room_def nb step_def)
  have between: "q = ptr \<or> b \<le> q" if "q \<in> set (xs @ ptr # b # ys)" "ptr \<le> q" for q
    using srt that by (auto simp: sorted_wrt_append)
  show ?case
  proof (cases "ptr < HEND cf - sz \<and> (mem_used (blk h ptr) \<or> room cf h ptr < sz)")
    case True
    then have e: "mem_search cf h sz ptr = mem_search cf h sz b"
      by (subst mem_search.simps) (auto simp: nb r [unfolded nb])
    have "links cf (blk h) ((xs @ [ptr]) @ b # ys)" using Cons.prems by simp
    from Cons.IH[OF this] show ?thesis
      unfolding e using True between bd(3) by (force simp: free_blk_def split: option.splits)
  next
    case False
    have small: "room cf h q < sz" if "free_blk cf h (xs @ ptr # b # ys) q" "ptr \<le> q" "\<not> ptr < HEND cf - sz" for q
    proof -
      have "q \<in> set (xs @ ptr # b # ys)" "q \<noteq> HEND cf" using that(1) by (auto simp: free_blk_def)
      then have "mem_next (blk h q) \<le> HEND cf" using block_next[OF cf Cons.prems] by blast
      then show ?thesis using that cfs by (simp add: room_def)
    qed
    have "ptr \<noteq> HEND cf" using bd by simp
    then show ?thesis
      using False small by (subst mem_search.simps) (auto simp: r free_blk_def)
  qed
qed

lemma lfree_advance_ok:
  assumes cf: "conf_ok cf" and l: "links cf (blk h) (xs @ lf # ys)"
  shows "\<exists>lf'. lfree_advance cf h lf = Some lf' \<and> lf \<le> lf' \<and> lf' \<in> set (xs @ lf # ys) \<and>
    (lf' = HEND cf \<or> \<not> mem_used (blk h lf')) \<and>
    (\<forall>a \<in> set (xs @ lf # ys). lf \<le> a \<and> a < lf' \<longrightarrow> mem_used (blk h a))"
  using l
proof (induction ys arbitrary: xs lf)
  case Nil
  then have "lf = HEND cf" by (simp add: links_def)
  then show ?case by (subst lfree_advance.simps) auto
next
  case (Cons b ys)
  have st: "step cf (blk h) lf b" using Cons.prems links_step by blast
  have srt: "sorted_wrt (<) (xs @ lf # b # ys)" by (rule links_sorted [OF cf Cons.prems])
  have bd: "b \<le> HEND cf" "lf < b" and nb: "mem_next (blk h lf) = b"
    using links_bounds[OF cf Cons.prems] st srt by (auto simp: step_def sorted_wrt_append)
  have between: "q = lf \<or> b \<le> q" if "q \<in> set (xs @ lf # b # ys)" "lf \<le> q" for q
    using srt that by (auto simp: sorted_wrt_append)
  show ?case
  proof (cases "mem_used (blk h lf)")
    case True
    then have e: "lfree_advance cf h lf = lfree_advance cf h b"
      using bd by (subst lfree_advance.simps) (simp add: nb)
    have "links cf (blk h) ((xs @ [lf]) @ b # ys)" using Cons.prems by simp
    from Cons.IH[OF this] obtain lf' where "lfree_advance cf h b = Some lf'" "b \<le> lf'"
      "lf' \<in> set (xs @ lf # b # ys)" "lf' = HEND cf \<or> \<not> mem_used (blk h lf')"
      "\<forall>a \<in> set (xs @ lf # b # ys). b \<le> a \<and> a < lf' \<longrightarrow> mem_used (blk h a)" by auto
    then show ?thesis
      unfolding e using True between bd by (intro exI[of _ lf']) fastforce
  next
    case False
    then show ?thesis by (subst lfree_advance.simps) auto
  qed
qed

lemma mem_literal:
  "m\<lparr>mem_used := u, mem_next := x, mem_prev := y\<rparr> = \<lparr>mem_next = x, mem_prev = y, mem_used = u\<rparr>" for m :: mem
  by (cases m) simp

text \<open>Cutting a new free block \<open>c\<close> out of the end of block \<open>a\<close>, the links of a split.\<close>

lemma links_split:
  assumes cf: "conf_ok cf" and l: "links cf r (xs @ a # b # ys)"
    and c: "a + HDR cf + MINB cf \<le> c" "c + HDR cf + MINB cf \<le> b" "MEM_ALIGNMENT cf dvd c"
    and r': "mem_next (r' a) = c" "mem_prev (r' a) = mem_prev (r a)" "mem_next (r' c) = b" "mem_prev (r' c) = a"
      "b \<noteq> HEND cf \<Longrightarrow> mem_prev (r' b) = c" "mem_next (r' b) = mem_next (r b)" "mem_used (r' (HEND cf))"
      "\<And>x. x \<notin> {a, b, c} \<Longrightarrow> r' x = r x"
  shows "links cf r' (xs @ a # c # b # ys)"
proof -
  have srt: "sorted_wrt (<) (xs @ a # b # ys)" by (rule links_sorted [OF cf l])
  note cfs = conf_facts[OF cf]
  have "a < c" "c < b" using c cfs by auto
  then have out: "x \<notin> {a, b, c}" if "x \<in> set xs \<union> set ys" for x
    using that srt by (fastforce simp: sorted_wrt_append)
  have ab: "step cf r a b" using l links_step by blast
  have cE: "c \<noteq> HEND cf" using links_bounds(2)[OF cf l, of b] c cfs by auto
  have "links cf r' (xs @ a # [c] @ b # ys)"
  proof (rule links_replace[where r = r and ms = "[]"])
    show "links cf r (xs @ a # [] @ b # ys)" using l by simp
    show "successively (step cf r') (a # [c] @ [b])"
      using ab c r'(1,3,4,5) cE by (simp add: step_def)
    show "mem_next (r' x) = mem_next (r x) \<and> mem_prev (r' x) = mem_prev (r x)" if "x \<in> set xs \<union> set ys" for x
      using r'(8)[OF out[OF that]] by simp
  qed (use r' in simp_all)
  then show ?thesis by simp
qed

lemma mem_take_ok:
  assumes cf: "conf_ok cf" and h: "heap_ok cf h os" and q: "free_blk cf h os q"
    and sz: "sz \<le> room cf h q" "MINB cf \<le> sz" "MEM_ALIGNMENT cf dvd sz"
  defines "h' \<equiv> mem_take cf sz q h"
  shows "\<exists>os' n. links cf (blk h') os' \<and> packed (blk h') os' \<and> set os \<subseteq> set os' \<and> sz \<le> n \<and>
    (\<forall>x \<in> set os'. x < q \<longrightarrow> x \<in> set os) \<and>
    (\<forall>x \<in> set os. mem_used (blk h' x) = (x = q \<or> mem_used (blk h x))) \<and>
    live cf h' os' = insert (ram h + q + HDR cf, n) (live cf h os) \<and> lfree h' = lfree h \<and> ram h' = ram h"
proof -
  note cfs = conf_facts[OF cf]
  have l: "links cf (blk h) os" and pk: "packed (blk h) os" using h by (simp_all add: heap_ok_def heap_pre_def)
  have fq: "q \<in> set os" "q \<noteq> HEND cf" "\<not> mem_used (blk h q)" using q by (auto simp: free_blk_def)
  obtain xs b ys where d: "os = xs @ q # b # ys" "step cf (blk h) q b" "mem_next (blk h q) = b"
      "0 \<le> q" "b \<le> HEND cf" "q + HDR cf + MINB cf \<le> b"
    using block_bounds[OF cf l fq(1,2)] by blast
  have ub: "mem_used (blk h b)" using pk fq(3) by (simp add: d(1) packed_app packed_Cons[of _ q])
  have srt: "sorted_wrt (<) os" by (rule links_sorted [OF cf l])
  have nin: "q \<notin> set xs" "q \<notin> set (b # ys)" using srt by (auto simp: d(1) sorted_wrt_append)
  have r: "szt (b - (q + HDR cf)) = room cf h q"
    using d cfs by (simp add: szt_def room_def)
  show ?thesis
  proof (cases "room cf h q \<ge> sz + HDR cf + MINB cf")
    case False
    have e: "blk h' = (blk h)(q := (blk h q)\<lparr>mem_used := True\<rparr>)" "lfree h' = lfree h" "ram h' = ram h"
      using False by (simp_all add: h'_def mem_take_def r d(3) Let_def)
    have "links cf (blk h') os" using fq l by (intro links_used_cong[OF l]) (auto simp: e links_def)
    moreover have "packed (blk h') os" using pk by (auto simp: e elim!: packed_mono)
    moreover have "live cf h' os = insert (ram h + q + HDR cf, room cf h q) (live cf h os)"
      using fq by (auto simp: live_def e room_def image_iff)
    ultimately show ?thesis using sz(1) e fq by (intro exI[of _ os] exI[of _ "room cf h q"]) auto
  next
    case True
    define c where "c = q + HDR cf + sz"
    have c: "q < c" "c < b" "q + HDR cf + MINB cf \<le> c" "c + HDR cf + MINB cf \<le> b" "MEM_ALIGNMENT cf dvd c"
      using True d sz cfs by (auto simp: c_def room_def step_def)
    have id: "mst c = c" "mst b = b" "mst q = q" "mst (HEND cf) = HEND cf" using c d cfs by (auto intro!: mst_id)
    have e: "blk h' = (let r = (blk h)(c := \<lparr>mem_next = b, mem_prev = q, mem_used = False\<rparr>,
          q := (blk h q)\<lparr>mem_next := c, mem_used := True\<rparr>)
        in if b \<noteq> HEND cf then r(b := (r b)\<lparr>mem_prev := c\<rparr>) else r)" "lfree h' = lfree h" "ram h' = ram h"
    proof -
      have ne: "q \<noteq> c" "c \<noteq> q" "c \<noteq> b" "b \<noteq> c" using c by auto
      show "lfree h' = lfree h" "ram h' = ram h"
        using True by (simp_all add: h'_def mem_take_def r d(3) Let_def)
      show "blk h' = (let r = (blk h)(c := \<lparr>mem_next = b, mem_prev = q, mem_used = False\<rparr>,
          q := (blk h q)\<lparr>mem_next := c, mem_used := True\<rparr>)
        in if b \<noteq> HEND cf then r(b := (r b)\<lparr>mem_prev := c\<rparr>) else r)"
        using True ne
        by (intro ext) (simp add: h'_def mem_take_def r d(3) Let_def c_def [symmetric] id mem_literal)
    qed
    have cos: "c \<notin> set os" using srt c by (fastforce simp: d(1) sorted_wrt_append)
    have links': "links cf (blk h') (xs @ q # c # b # ys)"
    proof (rule links_split[OF cf l[unfolded d(1)] c(3,4,5)])
      show "mem_used (blk h' (HEND cf))" using l c(2) d(5) by (auto simp: e Let_def links_def)
    qed (use c(1,2) in \<open>simp_all add: e Let_def\<close>)
    have used: "mem_used (blk h' x) = (x \<noteq> c \<and> (x = q \<or> mem_used (blk h x)))" for x
      using c(1,2) by (simp add: e Let_def)
    have nx: "mem_next (blk h' x) = mem_next (blk h x)"
      if "x \<in> set os" "mem_used (blk h x)" for x
    proof -
      have "x \<noteq> c" "x \<noteq> q" using that cos fq(3) by auto
      then show ?thesis by (simp add: e(1) Let_def)
    qed
    have "packed (blk h) xs" "packed (blk h) (b # ys)"
      using pk by (simp_all add: d(1) packed_app packed_Cons[of _ q])
    then have "packed (blk h') xs" "packed (blk h') (b # ys)"
      using cos by (auto simp: d(1) used elim!: packed_mono)
    then have packed': "packed (blk h') (xs @ q # c # b # ys)"
      using used ub c by (simp add: packed_app packed_Cons[of _ q] packed_Cons[of _ c])
    let ?U = "{a \<in> set os. a \<noteq> HEND cf \<and> mem_used (blk h a)}"
    have U: "{a \<in> set (xs @ q # c # b # ys). a \<noteq> HEND cf \<and> mem_used (blk h' a)} = insert q ?U"
      using fq cos by (auto simp: d(1) used)
    have img: "(\<lambda>a. (ram h + a + HDR cf, mem_next (blk h' a) - a - HDR cf)) ` ?U = live cf h os"
      unfolding live_def by (rule image_cong[OF refl]) (use nx in auto)
    have "mem_next (blk h' q) = c" using c(1,2) by (simp add: e(1) Let_def)
    then have "live cf h' (xs @ q # c # b # ys) = insert (ram h + q + HDR cf, sz) (live cf h os)"
      unfolding live_def [of cf h'] e(3) U image_insert img by (simp add: c_def)
    then show ?thesis
      using links' packed' used cos e(2,3) c(1) by (intro exI[of _ "xs @ q # c # b # ys"] exI[of _ sz]) (auto simp: d(1))
  qed
qed

text \<open>The size a request is rounded to.\<close>

definition request :: "mem_conf \<Rightarrow> int \<Rightarrow> int" where
  "request cf sz = max (LWIP_MEM_ALIGN_SIZE cf sz) (MINB cf)"

lemma request_facts:
  assumes cf: "conf_ok cf" and "0 < sz" "sz + MEM_ALIGNMENT cf \<le> 65536"
  shows "(let sz = mst (LWIP_MEM_ALIGN_SIZE cf sz) in if sz < MINB cf then mst (MINB cf) else sz) = request cf sz"
    and "sz \<le> request cf sz" "MINB cf \<le> request cf sz" "MEM_ALIGNMENT cf dvd request cf sz"
proof -
  note cfs = conf_facts[OF cf] and b = align_bounds[OF cf, of sz]
  have "mst (LWIP_MEM_ALIGN_SIZE cf sz) = LWIP_MEM_ALIGN_SIZE cf sz" "mst (MINB cf) = MINB cf"
    using b assms cfs by (auto intro!: mst_id)
  then show "(let sz = mst (LWIP_MEM_ALIGN_SIZE cf sz) in if sz < MINB cf then mst (MINB cf) else sz) = request cf sz"
    by (simp add: request_def max_def Let_def)
  show "sz \<le> request cf sz" "MINB cf \<le> request cf sz" using b by (auto simp: request_def)
  show "MEM_ALIGNMENT cf dvd request cf sz" using align_dvd[OF cf] cfs(9) by (simp add: request_def max_def)
qed

lemma mem_malloc_ok:
  assumes cf: "conf_ok cf" and h: "heap_ok cf h os" and sz: "0 < sz" "sz + MEM_ALIGNMENT cf \<le> 65536"
  shows "\<exists>h' os'. heap_ok cf h' os' \<and>
    ((\<exists>p n. mem_malloc cf sz h = Inr (h', Some p) \<and> sz \<le> n \<and> MEM_ALIGNMENT cf dvd p \<and>
        p \<notin> fst ` live cf h os \<and> live cf h' os' = insert (p, n) (live cf h os)) \<or>
     (mem_malloc cf sz h = Inr (h', None) \<and> live cf h' os' = live cf h os \<and>
        (\<forall>q. free_blk cf h os q \<longrightarrow> room cf h q < request cf sz)))"
proof -
  note cfs = conf_facts[OF cf] and rq = request_facts[OF cf sz]
  have l: "links cf (blk h) os" and lf: "lfree_ok cf (blk h) os (lfree h)" and ra: "MEM_ALIGNMENT cf dvd ram h"
    using h by (simp_all add: heap_ok_def heap_pre_def)
  have start: "mst (lfree h) = lfree h"
    using lf links_bounds(1,2)[OF cf l, of "lfree h"] cfs(6) by (intro mst_id) (auto simp: lfree_ok_def)
  have low: "lfree h \<le> q" if "free_blk cf h os q" for q
    using that lf by (force simp: free_blk_def lfree_ok_def)
  show ?thesis
  proof (cases "request cf sz > HEND cf")
    case True
    have "room cf h q < request cf sz" if "free_blk cf h os q" for q
    proof -
      have "mem_next (blk h q) \<le> HEND cf" "0 \<le> q"
        using that block_next[OF cf l, of q] by (simp_all add: free_blk_def)
      then show ?thesis using True cfs by (simp add: room_def)
    qed
    moreover have "mem_malloc cf sz h = Inr (h, None)"
      using True sz(1) rq(1) by (simp add: mem_malloc_def Let_def)
    ultimately show ?thesis using h by blast
  next
    case False
    obtain xs ys where os: "os = xs @ lfree h # ys" using lf by (meson lfree_ok_def split_list)
    have rs: "0 < request cf sz" "request cf sz \<le> HEND cf" using False rq(2) sz(1) by auto
    obtain res where res: "mem_search cf h (request cf sz) (lfree h) = Some res"
       "case res of Some q \<Rightarrow> free_blk cf h os q \<and> lfree h \<le> q \<and> request cf sz \<le> room cf h q
          | None \<Rightarrow> (\<forall>q. free_blk cf h os q \<and> lfree h \<le> q \<longrightarrow> room cf h q < request cf sz)"
      using mem_search_ok[OF cf l[unfolded os] rs, folded os] by blast
    show ?thesis
    proof (cases res)
      case None
      then have "mem_malloc cf sz h = Inr (stat_err_inc h, None)"
        using False sz(1) rq(1) res(1) by (simp add: mem_malloc_def start Let_def)
      moreover have "heap_ok cf (stat_err_inc h) os" "live cf (stat_err_inc h) os = live cf h os"
        using h by (simp_all add: heap_ok_def heap_pre_def live_def)
      ultimately show ?thesis using res(2) None low by (intro exI[of _ "stat_err_inc h"] exI[of _ os]) simp
    next
      case (Some q)
      then have q: "free_blk cf h os q" "request cf sz \<le> room cf h q" "lfree h \<le> q" using res(2) by auto
      define h1 where "h1 = mem_take cf (request cf sz) q h"
      obtain os' n where t: "links cf (blk h1) os'" "packed (blk h1) os'" "set os \<subseteq> set os'" "request cf sz \<le> n"
          "\<forall>x \<in> set os'. x < q \<longrightarrow> x \<in> set os"
          "\<forall>x \<in> set os. mem_used (blk h1 x) = (x = q \<or> mem_used (blk h x))"
          "live cf h1 os' = insert (ram h + q + HDR cf, n) (live cf h os)" "lfree h1 = lfree h" "ram h1 = ram h"
        using mem_take_ok[OF cf h q(1,2) rq(3,4)] unfolding h1_def by blast
      have "q \<in> set os" using q by (simp add: free_blk_def)
      then have qos: "q \<in> set os'" using t by blast
      obtain lf' where lf': "(if q = lfree h1 then lfree_advance cf h1 (lfree h1) else Some (lfree h1)) = Some lf'"
          "lfree_ok cf (blk h1) os' lf'"
      proof (cases "q = lfree h1")
        case True
        obtain xs' ys' where "os' = xs' @ q # ys'" using qos by (meson split_list)
        from lfree_advance_ok[OF cf t(1)[unfolded this]] this obtain lf' where
          a: "lfree_advance cf h1 q = Some lf'" "q \<le> lf'" "lf' \<in> set os'"
             "lf' = HEND cf \<or> \<not> mem_used (blk h1 lf')" "\<forall>a \<in> set os'. q \<le> a \<and> a < lf' \<longrightarrow> mem_used (blk h1 a)"
          by metis
        have "mem_used (blk h1 a)" if "a \<in> set os'" "a < q" for a
          using that t(5,6,8) lf True by (auto simp: lfree_ok_def)
        then have "lfree_ok cf (blk h1) os' lf'" using a by (metis lfree_ok_def not_le)
        then show ?thesis using that a(1) True by simp
      next
        case False
        have "lfree_ok cf (blk h1) os' (lfree h1)"
          using lf t(3,5,6,8) False q(3) by (force simp: lfree_ok_def)
        then show ?thesis using that False by simp
      qed
      define h2 where "h2 = h1\<lparr>lfree := lf'\<rparr>"
      have b: "mem_next (blk h q) \<le> HEND cf"
        using block_next[OF cf l, of q] q(1) by (simp add: free_blk_def)
      have al: "MEM_ALIGNMENT cf dvd q" using links_bounds(3)[OF cf l \<open>q \<in> set os\<close>] .
      have e: "mem_malloc cf sz h = Inr (h2, Some (ram h + q + HDR cf))"
      proof -
        have as: "q + HDR cf + request cf sz \<le> HEND cf" "(ram h + q + HDR cf) mod MEM_ALIGNMENT cf = 0"
            "(ram h + q) AND (MEM_ALIGNMENT cf - 1) = 0" "lf' = HEND cf \<or> \<not> mem_used (blk h1 lf')"
          using q(2) b al ra cfs(8) lf'(2)
          by (simp_all add: room_def align_size(2)[OF cf] dvd_eq_mod_eq_0 [symmetric] lfree_ok_def)
        note base = False sz(1) rq(1) res(1) as
        show ?thesis
        proof (cases "q = lfree h1")
          case True
          then have lq: "lfree h = q" "lfree_advance cf h1 q = Some lf'" using t(8) lf'(1) by simp_all
          show ?thesis
            using base unfolding lq(1)
            by (simp add: mem_malloc_def start [unfolded lq(1)] Let_def Some h1_def [symmetric] h2_def t(9) lq
                t(8) [unfolded lq(1)])
        next
          case False
          then have lq: "q \<noteq> lfree h" "lf' = lfree h" using t(8) lf'(1) by simp_all
          show ?thesis
            using base by (simp add: mem_malloc_def start Let_def Some h1_def [symmetric] h2_def t(8,9) lq)
        qed
      qed
      have "heap_ok cf h2 os'"
        using t(1,2,9) lf'(2) ra by (simp add: heap_ok_def heap_pre_def h2_def)
      moreover have lv: "live cf h2 os' = insert (ram h + q + HDR cf, n) (live cf h os)"
        using t(7) by (simp add: live_def h2_def)
      moreover have fr: "ram h + q + HDR cf \<notin> fst ` live cf h os"
        using q(1) by (auto simp: live_def free_blk_def)
      moreover have ad: "MEM_ALIGNMENT cf dvd ram h + q + HDR cf" using al ra cfs(8) by simp
      moreover have "sz \<le> n" using t(4) rq(2) by simp
      ultimately show ?thesis using e by blast
    qed
  qed
qed

section \<open>Initialisation\<close>

lemma mem_init_ok:
  assumes cf: "conf_ok cf"
  shows "\<exists>h'. mem_init cf addr h = Inr h' \<and> heap_ok cf h' [0, HEND cf] \<and> live cf h' [0, HEND cf] = {} \<and>
    room cf h' 0 = HEND cf - HDR cf \<and> ram h' = LWIP_MEM_ALIGN cf addr"
proof -
  note cfs = conf_facts[OF cf]
  have as: "HDR cf AND (MEM_ALIGNMENT cf - 1) = 0"
    using cfs(8) by (simp add: align_size(2)[OF cf])
  have id: "mst (HEND cf) = HEND cf" "mst 0 = 0" and z: "HEND cf \<noteq> 0" using cfs by (auto intro!: mst_id)
  have "MEM_ALIGNMENT cf dvd LWIP_MEM_ALIGN cf addr" using align_dvd[OF cf] by (simp add: align_size(3)[OF cf])
  then show ?thesis
    using as z cfs(7)
    by (simp add: mem_init_def Let_def id heap_ok_def heap_pre_def links_def packed_def lfree_ok_def step_def
        live_def room_def add.commute)
qed

section \<open>Shrinking\<close>

lemma live_frame:
  assumes U: "{x \<in> set os'. x \<noteq> HEND cf \<and> mem_used (blk h' x)} = {x \<in> set os. x \<noteq> HEND cf \<and> mem_used (blk h x)}"
    and a: "a \<in> set os" "a \<noteq> HEND cf" "mem_used (blk h a)"
    and nx: "\<And>x. x \<in> set os \<Longrightarrow> x \<noteq> a \<Longrightarrow> mem_used (blk h x) \<Longrightarrow> mem_next (blk h' x) = mem_next (blk h x)"
    and ram: "ram h' = ram h"
  shows "live cf h' os' = insert (ram h + a + HDR cf, room cf h' a)
    (live cf h os - {(ram h + a + HDR cf, room cf h a)})"
proof -
  let ?U = "{x \<in> set os. x \<noteq> HEND cf \<and> mem_used (blk h x)}"
  let ?f = "\<lambda>h a. (ram h + a + HDR cf, mem_next (blk h a) - a - HDR cf)"
  have "?U = insert a (?U - {a})" using a by auto
  then have "live cf h' os' = insert (?f h' a) (?f h' ` (?U - {a}))"
    unfolding live_def U by (metis (no_types, lifting) image_insert)
  also have "?f h' ` (?U - {a}) = ?f h ` (?U - {a})" by (rule image_cong[OF refl]) (use nx ram in auto)
  also have "\<dots> = live cf h os - {?f h a}" unfolding live_def by auto
  finally show ?thesis by (simp add: room_def ram)
qed

lemma mem_insert_simps:
  assumes "a \<noteq> c" "c \<noteq> nx" "a \<noteq> nx" "mst c = c" "mst a = a" "mst nx = nx" "mst (HEND cf) = HEND cf"
  shows "blk (mem_insert cf a a c nx h) = (let r = (blk h)(c := \<lparr>mem_next = nx, mem_prev = a, mem_used = False\<rparr>,
      a := (blk h a)\<lparr>mem_next := c\<rparr>) in if nx \<noteq> HEND cf then r(nx := (r nx)\<lparr>mem_prev := c\<rparr>) else r)"
    and "lfree (mem_insert cf a a c nx h) = lfree h" "ram (mem_insert cf a a c nx h) = ram h"
  using assms by (intro ext) (simp_all add: mem_insert_def Let_def mem_literal)

lemma mem_realloc_eq:
  assumes cf: "conf_ok cf" and sz: "0 < sz" "sz + MEM_ALIGNMENT cf \<le> 65536"
    and a: "0 \<le> a" "a + HDR cf + MINB cf \<le> b" "b \<le> HEND cf" "mem_next (blk h a) = b"
    and fits: "request cf sz \<le> b - a - HDR cf"
  defines "p \<equiv> ram h + a + HDR cf"
  shows "mem_realloc cf p sz h = Inr (if request cf sz = b - a - HDR cf then h
    else mem_shrink cf a a (b - a - HDR cf) (request cf sz) h, Some p)"
proof -
  note cfs = conf_facts[OF cf] and rq = request_facts[OF cf sz]
  have id: "mst a = a" "mst (b - a - HDR cf) = b - a - HDR cf"
    using a fits cfs rq(2) sz(1) by (auto intro!: mst_id)
  have rng: "\<not> request cf sz > HEND cf" "ram h \<le> p" "p < ram h + HEND cf" "p - HDR cf - ram h = a"
    using a fits cfs by (auto simp: p_def)
  show ?thesis
    using rng(1,2,3) fits rq(1) by (simp add: mem_realloc_def Let_def rng(4) id a(4))
qed

lemma mem_shrink_eq:
  fixes sz :: int
  assumes c: "mst c = c" "c = a + HDR cf + n" and b: "mem_next (blk h a) = b"
  defines "h1 \<equiv> stat_used_add (- (sz - n)) h"
  shows "\<not> mem_used (blk h b) \<Longrightarrow> mem_shrink cf a a sz n h =
      mem_insert cf a a c (mem_next (blk h b)) (h1\<lparr>lfree := if lfree h = b then c else lfree h\<rparr>)"
    and "mem_used (blk h b) \<Longrightarrow> n + HDR cf + MINB cf \<le> sz \<Longrightarrow> mem_shrink cf a a sz n h =
      mem_insert cf a a c b (h1\<lparr>lfree := if c < lfree h then c else lfree h\<rparr>)"
    and "mem_used (blk h b) \<Longrightarrow> \<not> n + HDR cf + MINB cf \<le> sz \<Longrightarrow> mem_shrink cf a a sz n h = h1"
proof -
  have lf: "h1\<lparr>lfree := lfree h\<rparr> = h1" by (simp add: h1_def stat_used_add_def)
  show "\<not> mem_used (blk h b) \<Longrightarrow> mem_shrink cf a a sz n h =
      mem_insert cf a a c (mem_next (blk h b)) (h1\<lparr>lfree := if lfree h = b then c else lfree h\<rparr>)"
    using lf by (simp add: mem_shrink_def Let_def c(2) [symmetric] c(1) b h1_def [symmetric]) (simp add: h1_def)
  show "mem_used (blk h b) \<Longrightarrow> n + HDR cf + MINB cf \<le> sz \<Longrightarrow> mem_shrink cf a a sz n h =
      mem_insert cf a a c b (h1\<lparr>lfree := if c < lfree h then c else lfree h\<rparr>)"
    using lf by (simp add: mem_shrink_def Let_def c(2) [symmetric] c(1) b h1_def [symmetric]) (simp add: h1_def b)
qed (simp add: mem_shrink_def h1_def b Let_def)

lemma shrink_before_free:
  assumes cf: "conf_ok cf" and h: "heap_ok cf h (xs @ a # b # d # ys)" and u: "mem_used (blk h a)" "\<not> mem_used (blk h b)"
    and c: "a + HDR cf + MINB cf \<le> c" "c < b" "MEM_ALIGNMENT cf dvd c"
    and g: "blk g = blk h" "ram g = ram h" "lfree g = (if lfree h = b then c else lfree h)"
  defines "h' \<equiv> mem_insert cf a a c d g"
  shows "heap_ok cf h' (xs @ a # c # d # ys) \<and> room cf h' a = c - a - HDR cf \<and>
    live cf h' (xs @ a # c # d # ys) = insert (ram h + a + HDR cf, c - a - HDR cf)
      (live cf h (xs @ a # b # d # ys) - {(ram h + a + HDR cf, b - a - HDR cf)})"
proof -
  note cfs = conf_facts[OF cf]
  define os where "os = xs @ a # b # d # ys"
  have l: "links cf (blk h) os" and lf: "lfree_ok cf (blk h) os (lfree h)" and ra: "MEM_ALIGNMENT cf dvd ram h"
    and pk: "packed (blk h) os"
    using h by (simp_all add: heap_ok_def heap_pre_def os_def)
  have st: "step cf (blk h) a b" "step cf (blk h) b d"
    using links_step[of cf "blk h" xs a b "d # ys"] links_step[of cf "blk h" "xs @ [a]" b d ys] l by (simp_all add: os_def)
  have srt: "sorted_wrt (<) os" by (rule links_sorted [OF cf l])
  have bd: "0 \<le> a" "a < b" "b < d" "d \<le> HEND cf" "a < c"
    using links_bounds[OF cf l] srt c cfs by (auto simp: os_def sorted_wrt_append)
  have out: "x \<noteq> a" "x \<noteq> b" "x \<noteq> c" "x \<noteq> d" if "x \<in> set xs \<union> set ys" for x
    using that srt bd c(2) by (auto simp: os_def sorted_wrt_append)
  then have nin: "a \<notin> set xs" "a \<notin> set ys" "b \<notin> set xs" "b \<notin> set ys" "c \<notin> set xs" "c \<notin> set ys"
      "d \<notin> set xs" "d \<notin> set ys" by blast+
  have id: "mst c = c" "mst a = a" "mst d = d" "mst (HEND cf) = HEND cf" using bd c(2) cfs by (auto intro!: mst_id)
  have ne: "a \<noteq> c" "c \<noteq> d" "a \<noteq> d" using bd c(2) by auto
  note e = mem_insert_simps[OF ne id, of g, folded h'_def, unfolded g]
  have ud: "mem_used (blk h d)" using pk u by (simp add: os_def packed_app packed_Cons[of _ a] packed_Cons[of _ b])
  have used: "mem_used (blk h' x) = (x \<noteq> c \<and> mem_used (blk h x))" for x using ne by (simp add: e Let_def)
  have "links cf (blk h') (xs @ a # [c] @ d # ys)"
  proof (rule links_replace[where r = "blk h" and ms = "[b]"])
    show "links cf (blk h) (xs @ a # [b] @ d # ys)" using l by (simp add: os_def)
    show "successively (step cf (blk h')) (a # [c] @ [d])"
      using st c ne bd cfs by (auto simp: step_def e Let_def)
    show "mem_next (blk h' x) = mem_next (blk h x) \<and> mem_prev (blk h' x) = mem_prev (blk h x)"
      if "x \<in> set xs \<union> set ys" for x
      using out[OF that] by (simp add: e Let_def)
    show "mem_used (blk h' (HEND cf))" using l bd c(2) by (simp add: used links_def)
  qed (use ne in \<open>simp_all add: e Let_def\<close>)
  then have links': "links cf (blk h') (xs @ a # c # d # ys)" by simp
  have "packed (blk h) xs" "packed (blk h) (d # ys)"
    using pk by (simp_all add: os_def packed_app packed_Cons[of _ a] packed_Cons[of _ b])
  then have "packed (blk h') xs" "packed (blk h') (d # ys)"
    using nin ne by (auto simp: used elim!: packed_mono)
  then have packed': "packed (blk h') (xs @ a # c # d # ys)"
    using ud u(1) ne by (simp add: used packed_app packed_Cons[of _ a] packed_Cons[of _ c])
  have lfree': "lfree_ok cf (blk h') (xs @ a # c # d # ys) (lfree h')"
  proof (cases "lfree h = b")
    case True
    then show ?thesis
      using lf nin bd c(2) u srt by (auto simp: lfree_ok_def os_def used e(2) sorted_wrt_append)
  next
    case False
    then have "lfree h \<noteq> c" "lfree h \<le> b"
      using lf u(2) bd c(2) srt nin by (auto simp: lfree_ok_def os_def sorted_wrt_append)
    then have "lfree h < b" "lfree h \<noteq> a" using False lf u(1) bd by (auto simp: lfree_ok_def os_def)
    then have "lfree h \<in> set xs" "lfree h < a"
      using lf srt bd False by (auto simp: lfree_ok_def os_def sorted_wrt_append)
    then show ?thesis using lf False bd nin by (auto simp: lfree_ok_def os_def used e(2))
  qed
  have "live cf h' (xs @ a # c # d # ys) = insert (ram h + a + HDR cf, room cf h' a)
      (live cf h os - {(ram h + a + HDR cf, room cf h a)})"
  proof (rule live_frame)
    show "{x \<in> set (xs @ a # c # d # ys). x \<noteq> HEND cf \<and> mem_used (blk h' x)} =
        {x \<in> set os. x \<noteq> HEND cf \<and> mem_used (blk h x)}"
      using u ne nin by (auto simp: os_def used)
    show "mem_next (blk h' x) = mem_next (blk h x)" if "x \<in> set os" "x \<noteq> a" "mem_used (blk h x)" for x
    proof -
      have "x \<noteq> c" using that u nin ne by (auto simp: os_def)
      then show ?thesis using that by (simp add: e Let_def)
    qed
  qed (use bd u in \<open>auto simp: os_def e(3)\<close>)
  moreover have "room cf h' a = c - a - HDR cf" "room cf h a = b - a - HDR cf"
    using ne st by (simp_all add: room_def e Let_def step_def)
  ultimately show ?thesis
    using links' packed' lfree' ra by (simp add: heap_ok_def heap_pre_def e(3) os_def)
qed

lemma shrink_before_used:
  assumes cf: "conf_ok cf" and h: "heap_ok cf h (xs @ a # b # ys)" and u: "mem_used (blk h a)" "mem_used (blk h b)"
    and c: "a + HDR cf + MINB cf \<le> c" "c + HDR cf + MINB cf \<le> b" "MEM_ALIGNMENT cf dvd c"
    and g: "blk g = blk h" "ram g = ram h" "lfree g = (if c < lfree h then c else lfree h)"
  defines "h' \<equiv> mem_insert cf a a c b g"
  shows "heap_ok cf h' (xs @ a # c # b # ys) \<and> room cf h' a = c - a - HDR cf \<and>
    live cf h' (xs @ a # c # b # ys) = insert (ram h + a + HDR cf, c - a - HDR cf)
      (live cf h (xs @ a # b # ys) - {(ram h + a + HDR cf, b - a - HDR cf)})"
proof -
  note cfs = conf_facts[OF cf]
  define os where "os = xs @ a # b # ys"
  have l: "links cf (blk h) os" and lf: "lfree_ok cf (blk h) os (lfree h)" and ra: "MEM_ALIGNMENT cf dvd ram h"
    and pk: "packed (blk h) os"
    using h by (simp_all add: heap_ok_def heap_pre_def os_def)
  have st: "step cf (blk h) a b" using links_step[of cf "blk h" xs a b ys] l by (simp add: os_def)
  have srt: "sorted_wrt (<) os" by (rule links_sorted [OF cf l])
  have bd: "0 \<le> a" "a < c" "c < b" "b \<le> HEND cf"
    using links_bounds[OF cf l] c cfs by (auto simp: os_def)
  then have nin: "a \<notin> set xs" "a \<notin> set ys" "b \<notin> set xs" "b \<notin> set ys" "c \<notin> set xs" "c \<notin> set ys"
    using srt by (force simp: os_def sorted_wrt_append)+
  have id: "mst c = c" "mst a = a" "mst b = b" "mst (HEND cf) = HEND cf" using bd cfs by (auto intro!: mst_id)
  have ne: "a \<noteq> c" "c \<noteq> b" "a \<noteq> b" using bd by auto
  note e = mem_insert_simps[OF ne id, of g, folded h'_def, unfolded g]
  have used: "mem_used (blk h' x) = (x \<noteq> c \<and> mem_used (blk h x))" for x using ne by (simp add: e(1) Let_def)
  have links': "links cf (blk h') (xs @ a # c # b # ys)"
  proof (rule links_split[OF cf l[unfolded os_def] c])
    show "mem_used (blk h' (HEND cf))" using l bd by (simp add: used links_def)
  qed (use ne in \<open>simp_all add: e(1) Let_def\<close>)
  have "packed (blk h) xs" "packed (blk h) (b # ys)"
    using pk by (simp_all add: os_def packed_app packed_Cons[of _ a])
  then have "packed (blk h') xs" "packed (blk h') (b # ys)"
    using nin ne by (auto simp: used elim!: packed_mono)
  then have packed': "packed (blk h') (xs @ a # c # b # ys)"
    using u ne by (simp add: used packed_app packed_Cons[of _ a] packed_Cons[of _ c])
  have "c \<noteq> lfree h" using lf nin ne by (auto simp: lfree_ok_def os_def)
  then have lfree': "lfree_ok cf (blk h') (xs @ a # c # b # ys) (lfree h')"
    using lf bd nin by (auto simp: lfree_ok_def os_def used e(2))
  have "live cf h' (xs @ a # c # b # ys) = insert (ram h + a + HDR cf, room cf h' a)
      (live cf h os - {(ram h + a + HDR cf, room cf h a)})"
  proof (rule live_frame)
    show "{x \<in> set (xs @ a # c # b # ys). x \<noteq> HEND cf \<and> mem_used (blk h' x)} =
        {x \<in> set os. x \<noteq> HEND cf \<and> mem_used (blk h x)}"
      using u ne nin by (auto simp: os_def used)
    show "mem_next (blk h' x) = mem_next (blk h x)" if "x \<in> set os" "x \<noteq> a" "mem_used (blk h x)" for x
    proof -
      have "x \<noteq> c" using that nin ne by (auto simp: os_def)
      then show ?thesis using that by (simp add: e(1) Let_def)
    qed
  qed (use bd u in \<open>auto simp: os_def e(3)\<close>)
  moreover have "room cf h' a = c - a - HDR cf" "room cf h a = b - a - HDR cf"
    using ne st by (simp_all add: room_def e(1) Let_def step_def)
  ultimately show ?thesis
    using links' packed' lfree' ra by (simp add: heap_ok_def heap_pre_def e(3) os_def)
qed

text \<open>The size of an area of \<open>n\<close> bytes at \<open>p\<close> after it has been shrunk: the rounded request, if the rest can join a free block
  behind it or become a free block; otherwise the area stays as it is.\<close>

definition shrunk :: "mem_conf \<Rightarrow> heap \<Rightarrow> int \<Rightarrow> int \<Rightarrow> int \<Rightarrow> int" where
  "shrunk cf h p n sz = (if \<not> mem_used (blk h (p + n - ram h)) \<or> request cf sz + HDR cf + MINB cf \<le> n then request cf sz else n)"

lemma mem_realloc_ok:
  assumes cf: "conf_ok cf" and h: "heap_ok cf h os" and v: "(p, n) \<in> live cf h os"
    and sz: "0 < sz" "sz + MEM_ALIGNMENT cf \<le> 65536" and fits: "request cf sz \<le> n"
  shows "\<exists>h' os'. mem_realloc cf p sz h = Inr (h', Some p) \<and> heap_ok cf h' os' \<and>
    live cf h' os' = insert (p, shrunk cf h p n sz) (live cf h os - {(p, n)})"
proof -
  note cfs = conf_facts[OF cf] and rq = request_facts[OF cf sz]
  obtain xs a b ys where d: "os = xs @ a # b # ys" "p = ram h + a + HDR cf" "n = b - a - HDR cf"
      "mem_used (blk h a)" "0 \<le> a" "b \<le> HEND cf" "a + HDR cf + MINB cf \<le> b" "mem_next (blk h a) = b"
      "MEM_ALIGNMENT cf dvd a"
    using live_cases[OF cf h v] by blast
  define c where "c = a + HDR cf + request cf sz"
  have c: "mst c = c" "a + HDR cf + MINB cf \<le> c" "MEM_ALIGNMENT cf dvd c"
    using d fits cfs rq sz by (auto simp: c_def intro!: mst_id)
  have e: "mem_realloc cf p sz h = Inr (if request cf sz = n then h else mem_shrink cf a a n (request cf sz) h, Some p)"
    using mem_realloc_eq[OF cf sz d(5,7,6,8)] fits by (simp add: d(2,3))
  note se = mem_shrink_eq[OF c(1) c_def d(8), of n]
  define h1 where "h1 = stat_used_add (- (n - request cf sz)) h"
  have cr: "c - a - HDR cf = request cf sz" by (simp add: c_def)
  have ins: "insert (p, n) (live cf h os - {(p, n)}) = live cf h os" using v by auto
  have sk: "shrunk cf h p n sz = (if \<not> mem_used (blk h b) \<or> request cf sz + HDR cf + MINB cf \<le> n then request cf sz else n)"
    by (simp add: shrunk_def d(2,3))
  consider "request cf sz = n" | "request cf sz < n" "\<not> mem_used (blk h b)"
    | "request cf sz < n" "mem_used (blk h b)" "request cf sz + HDR cf + MINB cf \<le> n"
    | "request cf sz < n" "mem_used (blk h b)" "\<not> request cf sz + HDR cf + MINB cf \<le> n"
    using fits by linarith
  then show ?thesis
  proof cases
    case 1
    then show ?thesis using h e ins sk by (intro exI[of _ h] exI[of _ os]) simp
  next
    case 2
    have l: "links cf (blk h) (xs @ a # b # ys)" using h by (simp add: heap_ok_def heap_pre_def d(1))
    then have "b \<noteq> HEND cf" using 2 by (auto simp: links_def)
    then obtain f zs where f: "ys = f # zs" using l by (cases ys) (auto simp: links_def)
    have "mem_next (blk h b) = f" using links_step[of cf "blk h" "xs @ [a]" b f zs] l by (simp add: f step_def)
    then have ms: "mem_realloc cf p sz h =
        Inr (mem_insert cf a a c f (h1\<lparr>lfree := if lfree h = b then c else lfree h\<rparr>), Some p)"
      using 2 e se(1) by (simp add: h1_def)
    define h2 where "h2 = mem_insert cf a a c f (h1\<lparr>lfree := if lfree h = b then c else lfree h\<rparr>)"
    have "c < b" using 2 d(3) by (simp add: c_def)
    from shrink_before_free[OF cf h[unfolded d(1) f] d(4) 2(2) c(2) this c(3),
        of "h1\<lparr>lfree := if lfree h = b then c else lfree h\<rparr>"]
    have "heap_ok cf h2 (xs @ a # c # f # zs) \<and>
        live cf h2 (xs @ a # c # f # zs) = insert (p, request cf sz) (live cf h os - {(p, n)})"
      by (simp add: h2_def h1_def d(1,2,3) f cr)
    then show ?thesis using ms 2(2) sk h2_def by auto
  next
    case 3
    then have ms: "mem_realloc cf p sz h =
        Inr (mem_insert cf a a c b (h1\<lparr>lfree := if c < lfree h then c else lfree h\<rparr>), Some p)"
      using e se(2) by (simp add: h1_def)
    define h2 where "h2 = mem_insert cf a a c b (h1\<lparr>lfree := if c < lfree h then c else lfree h\<rparr>)"
    have "c + HDR cf + MINB cf \<le> b" using 3 d(3) by (simp add: c_def)
    from shrink_before_used[OF cf h[unfolded d(1)] d(4) 3(2) c(2) this c(3),
        of "h1\<lparr>lfree := if c < lfree h then c else lfree h\<rparr>"]
    have "heap_ok cf h2 (xs @ a # c # b # ys) \<and>
        live cf h2 (xs @ a # c # b # ys) = insert (p, request cf sz) (live cf h os - {(p, n)})"
      by (simp add: h2_def h1_def d(1,2,3) cr)
    then show ?thesis using ms 3(3) sk h2_def by auto
  next
    case 4
    then have "mem_realloc cf p sz h = Inr (h1, Some p)" using e se(3) by (simp add: h1_def)
    moreover have "heap_ok cf h1 os" "live cf h1 os = live cf h os"
      using h by (simp_all add: heap_ok_def heap_pre_def live_def h1_def)
    ultimately show ?thesis using 4(2,3) ins sk by (intro exI[of _ h1] exI[of _ os]) auto
  qed
qed

section \<open>The allocator as a contract\<close>

lemma succ_unique:
  assumes "successively (step cf r) xs" "successively (step cf r) ys" "xs \<noteq> []" "ys \<noteq> []" "hd xs = hd ys"
    "last xs = HEND cf" "last ys = HEND cf" "\<And>a b. step cf r a b \<Longrightarrow> a < b"
  shows "xs = ys"
  using assms
proof (induction xs arbitrary: ys)
  case (Cons a xs)
  have srt: "sorted_wrt (<) zs" if "successively (step cf r) zs" for zs
    using successively_mono[OF that, of "(<)"] Cons.prems(8) by (simp add: successively_conv_sorted_wrt)
  obtain ys' where ys: "ys = a # ys'" using Cons.prems by (cases ys) auto
  show ?case
  proof (cases xs)
    case Nil
    then have "last ys = a" using Cons.prems by simp
    then have "ys' = []" using srt[OF Cons.prems(2)] last_in_set[of ys'] by (auto simp: ys split: if_splits)
    then show ?thesis using Nil by (simp add: ys)
  next
    case (Cons b zs)
    have "last xs \<noteq> a" using srt[OF Cons.prems(1)] last_in_set[of xs] local.Cons by auto
    then have "ys' \<noteq> []" using Cons.prems by (auto simp: ys local.Cons)
    then obtain b' zs' where ys': "ys' = b' # zs'" by (cases ys') auto
    have "b = b'" using Cons.prems(1,2) by (simp add: ys ys' local.Cons step_def)
    then have "xs = ys'" using Cons.prems by (intro Cons.IH) (auto simp: ys ys' local.Cons)
    then show ?thesis by (simp add: ys)
  qed
qed simp

lemma heap_ok_unique: "conf_ok cf \<Longrightarrow> heap_ok cf h os \<Longrightarrow> heap_ok cf h os' \<Longrightarrow> os = os'"
  by (rule succ_unique[of cf "blk h"])
    (use conf_facts[of cf] in \<open>auto simp: heap_ok_def heap_pre_def links_def step_def\<close>)

definition heap_inv :: "mem_conf \<Rightarrow> heap \<Rightarrow> bool" where
  "heap_inv cf h \<longleftrightarrow> (\<exists>os. heap_ok cf h os)"

text \<open>The allocated areas of a well-formed heap.\<close>

definition allocated :: "mem_conf \<Rightarrow> heap \<Rightarrow> (int \<times> int) set" where
  "allocated cf h = \<Union> {live cf h os |os. heap_ok cf h os}"

lemma allocated_eq: "conf_ok cf \<Longrightarrow> heap_ok cf h os \<Longrightarrow> allocated cf h = live cf h os"
proof -
  assume *: "conf_ok cf" "heap_ok cf h os"
  then have eq: "heap_ok cf h os' \<longleftrightarrow> os' = os" for os' by (blast intro: heap_ok_unique)
  show ?thesis by (simp add: allocated_def eq)
qed

lemma allocated_safe:
  assumes cf: "conf_ok cf" and h: "heap_inv cf h"
  shows "separate (allocated cf h)"
    and "\<forall>(p, n) \<in> allocated cf h. ram h \<le> p \<and> p + n \<le> ram h + HEND cf \<and> 0 < n \<and> MEM_ALIGNMENT cf dvd p"
proof -
  obtain os where os: "heap_ok cf h os" using h by (auto simp: heap_inv_def)
  note cfs = conf_facts[OF cf]
  have l: "links cf (blk h) os" and ra: "MEM_ALIGNMENT cf dvd ram h" using os by (simp_all add: heap_ok_def heap_pre_def)
  have nxt: "mem_next (blk h a) \<le> b" if "a \<in> set os" "b \<in> set os" "a < b" for a b
  proof -
    have "a \<noteq> HEND cf" using that links_bounds(2)[OF cf l, of b] by auto
    from block_bounds[OF cf l that(1) this]
    obtain xs c ys where d: "os = xs @ a # c # ys" "mem_next (blk h a) = c" by blast
    then show ?thesis using links_sorted[OF cf l] that by (auto simp: sorted_wrt_append)
  qed
  show "separate (allocated cf h)"
    using cfs(4) unfolding separate_def allocated_eq[OF cf os]
    by (auto simp: live_def) (smt (verit) nxt)
  show "\<forall>(p, n) \<in> allocated cf h. ram h \<le> p \<and> p + n \<le> ram h + HEND cf \<and> 0 < n \<and> MEM_ALIGNMENT cf dvd p"
  proof (rule ballI, rule case_prodI2)
    fix x p n assume "x \<in> allocated cf h" "x = (p, n)"
    then have "(p, n) \<in> live cf h os" by (simp add: allocated_eq[OF cf os])
    then show "ram h \<le> p \<and> p + n \<le> ram h + HEND cf \<and> 0 < n \<and> MEM_ALIGNMENT cf dvd p"
      by (rule live_cases[OF cf os]) (use cfs ra in auto)
  qed
qed

text \<open>Requests whose rounded size still fits a \<open>mem_size_t\<close>.\<close>

definition legal_size :: "mem_conf \<Rightarrow> int \<Rightarrow> bool" where
  "legal_size cf n \<longleftrightarrow> 0 < n \<and> n + MEM_ALIGNMENT cf \<le> 65536"

text \<open>\<open>mem.c\<close> keeps the contract.\<close>

lemma mem_malloc_cases:
  assumes cf: "conf_ok cf" and h: "heap_inv cf h" and n: "legal_size cf n"
  obtains (null) h' where "mem_malloc cf n h = Inr (h', None)" "heap_inv cf h'" "allocated cf h' = allocated cf h"
  | (some) h' p m where "mem_malloc cf n h = Inr (h', Some p)" "heap_inv cf h'" "n \<le> m" "MEM_ALIGNMENT cf dvd p"
    "p \<notin> fst ` allocated cf h" "allocated cf h' = insert (p, m) (allocated cf h)"
proof -
  obtain os where os: "heap_ok cf h os" using h by (auto simp: heap_inv_def)
  note a = allocated_eq[OF cf]
  from mem_malloc_ok[OF cf os, of n] n obtain h' os' where "heap_ok cf h' os'"
    "(\<exists>p m. mem_malloc cf n h = Inr (h', Some p) \<and> n \<le> m \<and> MEM_ALIGNMENT cf dvd p \<and>
        p \<notin> fst ` live cf h os \<and> live cf h' os' = insert (p, m) (live cf h os)) \<or>
     mem_malloc cf n h = Inr (h', None) \<and> live cf h' os' = live cf h os"
    unfolding legal_size_def by blast
  then show thesis using null some os a by (metis heap_inv_def)
qed

lemma mem_free_cases:
  assumes cf: "conf_ok cf" and h: "heap_inv cf h" and p: "(p, m) \<in> allocated cf h"
  obtains h' where "mem_free cf (Some p) h = Inr h'" "heap_inv cf h'" "allocated cf h' = allocated cf h - {(p, m)}"
proof -
  obtain os where os: "heap_ok cf h os" using h by (auto simp: heap_inv_def)
  note a = allocated_eq[OF cf]
  from mem_free_ok[OF cf os, of p m] p obtain h' os' where "mem_free cf (Some p) h = Inr h'" "heap_ok cf h' os'"
    "live cf h' os' = live cf h os - {(p, m)}" by (auto simp: a[OF os])
  then show thesis using that os a by (metis heap_inv_def)
qed

lemma ram_updates [simp]:
  "ram (set_next i v h) = ram h" "ram (set_prev i v h) = ram h" "ram (set_used i b h) = ram h"
  "ram (stat_used_add n h) = ram h" "ram (stat_max_update h) = ram h" "ram (stat_err_inc h) = ram h"
  by (simp_all add: set_next_def set_prev_def set_used_def stat_used_add_def stat_max_update_def stat_err_inc_def)

lemma mem_take_ram: "ram (mem_take cf sz ptr h) = ram h"
  by (simp add: mem_take_def Let_def)

lemma mem_malloc_ram: "mem_malloc cf n h = Inr (h', r) \<Longrightarrow> ram h' = ram h"
  by (auto simp: mem_malloc_def Let_def lwip_outcome mem_take_ram split: option.splits if_splits)

lemma plug_holes_ram: "plug_holes cf m h = Inr h' \<Longrightarrow> ram h' = ram h"
  by (auto simp: plug_holes_def Let_def lwip_outcome split: if_splits)

lemma mem_free_ram: "mem_free cf p h = Inr h' \<Longrightarrow> ram h' = ram h"
  by (auto simp: mem_free_def Let_def lwip_outcome dest!: plug_holes_ram split: option.splits if_splits)

lemma mem_realloc_ram: "mem_realloc cf p n h = Inr (h', r) \<Longrightarrow> ram h' = ram h"
  by (auto simp: mem_realloc_def mem_shrink_def mem_insert_def Let_def lwip_outcome split: if_splits)

interpretation mem_c: allocator "\<lambda>h. conf_ok cf \<and> heap_inv cf h \<and> ram h = base" "allocated cf" "mem_malloc cf"
    "\<lambda>_ p. mem_free cf (Some p)" "legal_size cf" "\<lambda>n. n" "\<lambda>n (p, m). n \<le> m" for cf base
proof (unfold_locales, goal_cases)
  case (1 s) then show ?case using allocated_safe by blast
next
  case (2 s p m k)
  then have "separate (allocated cf s)" "0 < m" "0 < k" using allocated_safe[of cf s] by auto
  then show ?case using 2 unfolding separate_def by fastforce
next
  case (3 s n) then show ?case by (auto elim: mem_malloc_cases[of cf s n])
next
  case (4 s n s') then show ?case using mem_malloc_ram[of cf n s s'] by (auto elim: mem_malloc_cases[of cf s n])
next
  case (5 s n s' p)
  then have "conf_ok cf" "heap_inv cf s" "legal_size cf n" by auto
  then show ?case
  proof (cases rule: mem_malloc_cases)
    case null then show ?thesis using 5(3) by simp
  next
    case (some h' q m) then show ?thesis using 5(1,3) mem_malloc_ram[OF 5(3)] by (intro conjI) auto
  qed
next
  case (6 n p m) then show ?case by simp
next
  case (7 s n p m) then show ?case by (auto elim!: mem_free_cases[of cf s p m] dest: mem_free_ram)
qed

text \<open>With nothing allocated the heap is one free block.\<close>

lemma empty_heap:
  assumes cf: "conf_ok cf" and h: "heap_ok cf h os" and e: "live cf h os = {}"
  shows "os = [0, HEND cf]"
proof -
  have l: "links cf (blk h) os" and pk: "packed (blk h) os" using h by (simp_all add: heap_ok_def heap_pre_def)
  have free: "\<not> mem_used (blk h a)" if "a \<in> set os" "a \<noteq> HEND cf" for a using e that by (auto simp: live_def)
  have lt: "sorted_wrt (<) os" by (rule links_sorted[OF cf l])
  have ends: "os \<noteq> []" "hd os = 0" "last os = HEND cf" "HEND cf \<noteq> 0" using l conf_facts[OF cf] by (auto simp: links_def)
  obtain a os' where os: "os = a # os'" using ends(1) by (cases os) auto
  show ?thesis
  proof (cases os')
    case Nil then show ?thesis using ends os by simp
  next
    case (Cons b os'')
    have "a \<noteq> HEND cf" using ends os by simp
    then have b: "b = HEND cf" using pk free[of a] free[of b] os Cons by (auto simp: packed_def)
    have "os'' = []"
    proof (rule ccontr)
      assume n: "os'' \<noteq> []"
      then have "b < last os''" using lt os Cons last_in_set[of os''] by simp
      then show False using b ends(3) os Cons n by simp
    qed
    then show ?thesis using ends os Cons b by simp
  qed
qed

section \<open>Properties\<close>

text \<open>Claim C16. On a well-formed heap \<open>mem_malloc\<close> with a legal size ends without a failing assertion. Either it
  returns an aligned pointer to an area of at least the requested size that is added to the
  allocated ones and shares no byte with them, or it returns \<open>NULL\<close>, changes no area, and then
  no free block is large enough for the rounded request.\<close>

theorem mem_malloc_correct:
  assumes "conf_ok cf" "heap_ok cf h os" "legal_size cf n"
  shows "\<exists>h' os' r. mem_malloc cf n h = Inr (h', r) \<and> heap_ok cf h' os' \<and> separate (live cf h' os') \<and>
    (case r of
       Some p \<Rightarrow> \<exists>m \<ge> n. MEM_ALIGNMENT cf dvd p \<and> p \<notin> fst ` live cf h os \<and>
         live cf h' os' = insert (p, m) (live cf h os)
     | None \<Rightarrow> live cf h' os' = live cf h os \<and>
         (\<forall>a \<in> set os. a \<noteq> MEM_SIZE_ALIGNED cf \<and> \<not> mem_used (blk h a) \<longrightarrow>
           mem_next (blk h a) - a - SIZEOF_STRUCT_MEM cf < request cf n))"
proof -
  have sep: "separate (live cf h' os')" if "heap_ok cf h' os'" for h' os'
    using allocated_safe(1)[of cf h'] assms(1) allocated_eq that by (force simp: heap_inv_def)
  from mem_malloc_ok[OF assms(1,2), of n] assms(3) show ?thesis
    unfolding legal_size_def free_blk_def room_def using sep by fastforce
qed

text \<open>The default configuration of the header files, with a four byte alignment.\<close>

definition conf4 :: mem_conf where
  "conf4 = \<lparr>MEM_ALIGNMENT = 4, MEM_SIZE = 1600, MIN_SIZE = 12\<rparr>"

definition heap4 :: heap where
  "heap4 = \<lparr>ram = 4096, blk = (\<lambda>i. if i = 0 then \<lparr>mem_next = 1600, mem_prev = 0, mem_used = False\<rparr>
      else \<lparr>mem_next = 1600, mem_prev = 1600, mem_used = True\<rparr>), lfree = 0,
    mem_stats = \<lparr>st_avail = 1600, st_used = 0, st_max = 0, st_err = 0\<rparr>\<rparr>"

lemma conf4_simps [simp]:
  "MEM_ALIGNMENT conf4 = 4" "SIZEOF_STRUCT_MEM conf4 = 8" "MIN_SIZE_ALIGNED conf4 = 12"
  "MEM_SIZE_ALIGNED conf4 = 1600" "conf_ok conf4"
  by (simp_all add: conf4_def SIZEOF_STRUCT_MEM_def MIN_SIZE_ALIGNED_def MEM_SIZE_ALIGNED_def
      LWIP_MEM_ALIGN_SIZE_def conf_ok_def)

lemma heap4_ok: "heap_ok conf4 heap4 [0, 1600]" "live conf4 heap4 [0, 1600] = {}"
  by (auto simp: heap_ok_def heap_pre_def links_def packed_def lfree_ok_def step_def heap4_def live_def)

theorem mem_malloc_correct_witness:
  "\<exists>h' os' r. mem_malloc conf4 100 heap4 = Inr (h', r) \<and> heap_ok conf4 h' os'"
  using mem_malloc_correct[OF conf4_simps(5) heap4_ok(1), of 100] by (auto simp: legal_size_def)

text \<open>Claim C17. Freeing an allocated area ends without a failing assertion, removes exactly that area and
  leaves a well-formed heap, in which no two free blocks are neighbours.\<close>

theorem mem_free_correct:
  assumes "conf_ok cf" "heap_ok cf h os" "(p, n) \<in> live cf h os"
  shows "\<exists>h' os'. mem_free cf (Some p) h = Inr h' \<and> heap_ok cf h' os' \<and>
    live cf h' os' = live cf h os - {(p, n)} \<and>
    successively (\<lambda>a b. mem_used (blk h' a) \<or> mem_used (blk h' b)) os'"
  using mem_free_ok[OF assms] by (auto simp: heap_ok_def packed_def)

text \<open>One area of 40 bytes, the rest free.\<close>

definition heap4a :: heap where
  "heap4a = \<lparr>ram = 4096, blk = (\<lambda>i. if i = 0 then \<lparr>mem_next = 48, mem_prev = 0, mem_used = True\<rparr>
      else if i = 48 then \<lparr>mem_next = 1600, mem_prev = 0, mem_used = False\<rparr>
      else \<lparr>mem_next = 1600, mem_prev = 1600, mem_used = True\<rparr>), lfree = 48,
    mem_stats = \<lparr>st_avail = 1600, st_used = 48, st_max = 48, st_err = 0\<rparr>\<rparr>"

lemma heap4a_ok: "heap_ok conf4 heap4a [0, 48, 1600]" "(4104, 40) \<in> live conf4 heap4a [0, 48, 1600]"
  by (auto simp: heap_ok_def heap_pre_def links_def packed_def lfree_ok_def step_def heap4a_def live_def)

theorem mem_free_correct_witness:
  "\<exists>h' os'. mem_free conf4 (Some 4104) heap4a = Inr h' \<and> heap_ok conf4 h' os'"
  using mem_free_correct[OF conf4_simps(5) heap4a_ok] by blast

text \<open>Claim C18. Shrinking an allocated area with \<open>mem_realloc\<close> returns the same pointer and leaves a well-formed heap in which every
  other area is untouched.  The area then has exactly the rounded size that was asked for, whenever the block behind it is free, which
  grows by the rest, or the rest is large enough for a free block of its own; only otherwise it keeps its size.\<close>

theorem mem_realloc_correct:
  assumes "conf_ok cf" "heap_ok cf h os" "(p, n) \<in> live cf h os" "legal_size cf m" "request cf m \<le> n"
  shows "\<exists>h' os'. mem_realloc cf p m h = Inr (h', Some p) \<and> heap_ok cf h' os' \<and>
    live cf h' os' = insert (p, if \<not> mem_used (blk h (p + n - ram h)) \<or> request cf m + SIZEOF_STRUCT_MEM cf + MIN_SIZE_ALIGNED cf \<le> n
      then request cf m else n) (live cf h os - {(p, n)})"
  using mem_realloc_ok[OF assms(1-3), of m] assms(4,5) by (auto simp: legal_size_def shrunk_def)

theorem mem_realloc_correct_witness:
  "\<exists>h' os'. mem_realloc conf4 4104 17 heap4a = Inr (h', Some 4104) \<and> heap_ok conf4 h' os' \<and> live conf4 h' os' = {(4104, 20)}"
proof -
  have "legal_size conf4 17" and r: "request conf4 17 = 20"
    by (simp_all add: legal_size_def request_def LWIP_MEM_ALIGN_SIZE_def)
  moreover have "\<not> mem_used (blk heap4a 48)" "ram heap4a = 4096" by (simp_all add: heap4a_def)
  moreover have "live conf4 heap4a [0, 48, 1600] = {(4104, 40)}" by (auto simp: heap4a_def live_def)
  ultimately show ?thesis using mem_realloc_correct[OF conf4_simps(5) heap4a_ok, of 17] by simp
qed

text \<open>Claim C3. After \<open>mem_init\<close>, any sequence of allocations of legal sizes and releases of pointers that \<open>mem_malloc\<close> has
  returned runs to its end: no assertion of \<open>mem.c\<close> fails and no loop hangs.  The areas the client was given, from the pointers returned
  to the sizes asked for, are aligned, inside the heap, and no two of them overlap, whatever was released in between.  Once it has
  given everything back, every request that fits the whole heap is served again.\<close>

theorem mem_heap_trace_safe:
  assumes "conf_ok cf" "mem_init cf addr h0 = Inr h" "list_all (legal_size cf) (asked rs)"
  shows "\<exists>held h'. run_requests (mem_malloc cf) (\<lambda>_ p. mem_free cf (Some p)) rs [] h = Inr (held, h') \<and>
    sorted_wrt no_overlap held \<and>
    (\<forall>(p, n) \<in> set held. ram h \<le> p \<and> p + n \<le> ram h + MEM_SIZE_ALIGNED cf \<and> MEM_ALIGNMENT cf dvd p) \<and>
    (held = [] \<longrightarrow> (\<forall>n. legal_size cf n \<and> SIZEOF_STRUCT_MEM cf + request cf n \<le> MEM_SIZE_ALIGNED cf \<longrightarrow>
      (\<exists>h'' p. mem_malloc cf n h' = Inr (h'', Some p))))"
proof -
  have ok: "heap_ok cf h [0, HEND cf]" "live cf h [0, HEND cf] = {}" using mem_init_ok[OF assms(1), of addr h0] assms(2) by auto
  then have start: "conf_ok cf \<and> heap_inv cf h \<and> ram h = ram h" "allocated cf h = {}"
    using allocated_eq[OF assms(1)] assms(1) by (auto simp: heap_inv_def)
  obtain held h' where run: "run_requests (mem_malloc cf) (\<lambda>_ p. mem_free cf (Some p)) rs [] h = Inr (held, h')"
      "conf_ok cf \<and> heap_inv cf h' \<and> ram h' = ram h" "accounted (\<lambda>n (p, m). n \<le> m) (allocated cf h') held" "sorted_wrt no_overlap held"
    using mem_c.run_safe[OF start assms(3)] by auto
  have "ram h \<le> p \<and> p + n \<le> ram h + HEND cf \<and> MEM_ALIGNMENT cf dvd p" if held: "(p, n) \<in> set held" for p n
  proof -
    obtain m where "n \<le> m" "(p, m) \<in> allocated cf h'" using accounted_served[OF run(3) held] by auto
    then show ?thesis using allocated_safe(2)[of cf h'] run(2) by fastforce
  qed
  moreover have "\<exists>h'' p. mem_malloc cf n h' = Inr (h'', Some p)"
    if e: "held = []" and n: "legal_size cf n" "HDR cf + request cf n \<le> HEND cf" for n
  proof -
    obtain os where os: "heap_ok cf h' os" using run(2) by (auto simp: heap_inv_def)
    have none: "live cf h' os = {}" using run(3) e allocated_eq[OF assms(1) os] by (simp add: accounted_def)
    then have two: "os = [0, HEND cf]" by (rule empty_heap[OF assms(1) os])
    then have l: "links cf (blk h') [0, HEND cf]" using os by (simp add: heap_ok_def heap_pre_def)
    have "HEND cf \<noteq> 0" using conf_facts[OF assms(1)] by linarith
    moreover from this have "\<not> mem_used (blk h' 0)" using none unfolding two by (simp add: live_def) (metis)
    moreover have "mem_next (blk h' 0) = HEND cf" using l by (simp add: links_def step_def)
    ultimately have "free_blk cf h' os 0" "\<not> room cf h' 0 < request cf n" using n(2) two by (simp_all add: free_blk_def room_def)
    then show ?thesis using mem_malloc_ok[OF assms(1) os, of n] n(1) unfolding legal_size_def by blast
  qed
  ultimately show ?thesis using run(1,4) by blast
qed

theorem mem_heap_trace_safe_witness:
  "\<exists>h held h'. mem_init conf4 4096 heap4a = Inr h \<and>
    run_requests (mem_malloc conf4) (\<lambda>_ p. mem_free conf4 (Some p)) [Alloc 100, Alloc 200, Release 1, Alloc 30] [] h = Inr (held, h') \<and>
    sorted_wrt no_overlap held"
proof -
  obtain h where h: "mem_init conf4 4096 heap4a = Inr h" using mem_init_ok[OF conf4_simps(5)] by blast
  have "list_all (legal_size conf4) (asked [Alloc 100, Alloc 200, Release 1, Alloc 30])" by (simp add: legal_size_def)
  from mem_heap_trace_safe[OF conf4_simps(5) h this] h show ?thesis by blast
qed

section \<open>What the sizes do not guard\<close>

text \<open>A request within three bytes of the range of \<open>mem_size_t\<close> is rounded up to 0 and served with the
  minimum block; \<open>mem_calloc\<close> then clears far more than it was given.\<close>

lemma heap4_malloc:
  assumes n: "(if mst (LWIP_MEM_ALIGN_SIZE conf4 sz) < 12 then mst 12 else mst (LWIP_MEM_ALIGN_SIZE conf4 sz)) = n"
    and b: "12 \<le> n" "n \<le> 1000" "sz \<noteq> 0"
  shows "\<exists>h. mem_malloc conf4 sz heap4 = Inr (h, Some 4104) \<and> mem_next (blk h 0) = n + 8"
proof -
  define h1 where "h1 = mem_take conf4 n 0 heap4"
  have id: "mst (n + 8) = n + 8" "mst 0 = 0" "mst 1600 = 1600" using b by (auto intro!: mst_id)
  have s: "mem_search conf4 heap4 n 0 = Some (Some 0)"
    using b by (subst mem_search.simps) (simp add: heap4_def szt_def)
  have t: "mem_next (blk h1 0) = n + 8" "mem_used (blk h1 0)" "\<not> mem_used (blk h1 (n + 8))" "lfree h1 = 0" "ram h1 = 4096"
    using b by (simp_all add: h1_def mem_take_def Let_def szt_def heap4_def id add.commute[of 8])
  have a: "lfree_advance conf4 h1 0 = Some (n + 8)"
    using t b by (subst lfree_advance.simps, simp, subst lfree_advance.simps, simp)
  have z: "lfree heap4 = 0" by (simp add: heap4_def)
  show ?thesis
    unfolding mem_malloc_def Let_def conf4_simps n
    using b by (simp add: s z id h1_def [symmetric] t a)
qed

lemma mem_malloc_wraps: "\<exists>h. mem_malloc conf4 65535 heap4 = Inr (h, Some 4104) \<and> mem_next (blk h 0) = 12 + 8"
  by (rule heap4_malloc) (simp_all add: LWIP_MEM_ALIGN_SIZE_def mst_def)

lemma mem_calloc_wraps:
  "\<exists>h. mem_calloc conf4 257 256 heap4 = Inr (h, Some (4104, 65792)) \<and> mem_next (blk h 0) = 256 + 8"
proof -
  obtain h where "mem_malloc conf4 256 heap4 = Inr (h, Some 4104)" "mem_next (blk h 0) = 256 + 8"
    using heap4_malloc[of 256 256] by (auto simp: LWIP_MEM_ALIGN_SIZE_def mst_def)
  then show ?thesis by (simp add: mem_calloc_def mst_def)
qed

text \<open>When the shrunk part is too small for a block of its own, \<open>mem_realloc\<close> leaves the block as it is but
  still takes the difference off \<open>lwip_stats.mem.used\<close>; freeing the block then takes it off
  again and the unsigned counter wraps.\<close>

definition heap4b :: heap where
  "heap4b = \<lparr>ram = 4096, blk = (\<lambda>i. if i = 0 then \<lparr>mem_next = 48, mem_prev = 0, mem_used = True\<rparr>
      else if i = 48 then \<lparr>mem_next = 1600, mem_prev = 0, mem_used = True\<rparr>
      else \<lparr>mem_next = 1600, mem_prev = 1600, mem_used = True\<rparr>), lfree = 1600,
    mem_stats = \<lparr>st_avail = 1600, st_used = 1600, st_max = 1600, st_err = 0\<rparr>\<rparr>"

lemma mem_realloc_stats_drift:
  "lwip_bind (mem_realloc conf4 4104 36 heap4b) (\<lambda>(h, _).
     lwip_bind (mem_free conf4 (Some 4104) h) (\<lambda>h.
       lwip_bind (mem_free conf4 (Some 4152) h) (\<lambda>h. Inr (st_used (mem_stats h))))) = Inr 65532"
  by (simp add: mem_realloc_def LWIP_MEM_ALIGN_SIZE_def mst_def heap4b_def mem_shrink_def Let_def mem_free_def
      stat_used_add_def set_used_def plug_holes_def set_next_def set_prev_def)

end
