(* ===== verification/Lwip_Memp.thy ===== *)
theory Lwip_Memp
  imports Lwip_Mem_Correct
begin

text \<open>
  Fixed-size pools: \<open>nsc/lwip-1.3.0/src/core/memp.c\<close> without overflow regions
  (\<open>MEMP_OVERFLOW_CHECK\<close> 0, the default, so \<open>MEMP_SIZE\<close> is 0) and with its statistics, and the variant
  of \<open>mem_malloc\<close> and \<open>mem_free\<close> in \<open>mem.c\<close> that serves the heap from pools (\<open>MEM_USE_POOLS\<close>).

  \<open>memp_tab\<close> holds the head of each free list, \<open>memp_next\<close> the \<open>next\<close> field of the element at an
  address.  The pools of a build come from \<open>memp_std.h\<close>: their number, sizes and counts are the
  configuration.
\<close>

section \<open>State\<close>

record memp_conf =
  memp_alignment :: int
  memp_sizes :: "int list"
  memp_num :: "nat list"

definition MEMP_MAX :: "memp_conf \<Rightarrow> nat" where "MEMP_MAX cf = length (memp_sizes cf)"

record memp_state =
  memp_tab :: "nat \<Rightarrow> int option"
  memp_next :: "int \<Rightarrow> int option"
  memp_stat :: "nat \<Rightarrow> stats_mem"

section \<open>Operations\<close>

text \<open>The two loops of \<open>memp_init\<close>: the elements of one pool, then all pools.\<close>

fun memp_init_pool :: "nat \<Rightarrow> int \<Rightarrow> nat \<Rightarrow> int \<Rightarrow> memp_state \<Rightarrow> int \<times> memp_state" where
  "memp_init_pool i sz 0 memp s = (memp, s)"
| "memp_init_pool i sz (Suc j) memp s =
    (let s = s\<lparr>memp_next := (memp_next s)(memp := memp_tab s i)\<rparr>;
         s = s\<lparr>memp_tab := (memp_tab s)(i := Some memp)\<rparr>
     in memp_init_pool i sz j (memp + sz) s)"

fun memp_init_pools :: "nat \<Rightarrow> (int \<times> nat) list \<Rightarrow> int \<Rightarrow> memp_state \<Rightarrow> memp_state" where
  "memp_init_pools i [] memp s = s"
| "memp_init_pools i ((sz, num) # ps) memp s =
    (let s = s\<lparr>memp_tab := (memp_tab s)(i := None)\<rparr>;
         (memp, s) = memp_init_pool i sz num memp s
     in memp_init_pools (i + 1) ps memp s)"

definition memp_init :: "memp_conf \<Rightarrow> int \<Rightarrow> memp_state \<Rightarrow> memp_state" where
  "memp_init cf memp_memory s =
    (let s = s\<lparr>memp_stat := (\<lambda>i. if i < MEMP_MAX cf
                then \<lparr>st_avail = mst (int (memp_num cf ! i)), st_used = 0, st_max = 0, st_err = 0\<rparr>
                else memp_stat s i)\<rparr>
     in memp_init_pools 0 (zip (memp_sizes cf) (memp_num cf))
          ((memp_memory + memp_alignment cf - 1) AND NOT (memp_alignment cf - 1)) s)"

definition stat_take :: "stats_mem \<Rightarrow> stats_mem" where
  "stat_take st = (let st = st\<lparr>st_used := mst (st_used st + 1)\<rparr> in
     if st_used st > st_max st then st\<lparr>st_max := st_used st\<rparr> else st)"

definition memp_malloc :: "memp_conf \<Rightarrow> nat \<Rightarrow> memp_state \<Rightarrow> (memp_state \<times> int option) lwip" where
  "memp_malloc cf type s =
    lwip_assert ''memp_malloc: type < MEMP_MAX'' (type < MEMP_MAX cf) (
    case memp_tab s type of
      Some memp \<Rightarrow>
        let s = s\<lparr>memp_tab := (memp_tab s)(type := memp_next s memp)\<rparr>;
            s = s\<lparr>memp_stat := (memp_stat s)(type := stat_take (memp_stat s type))\<rparr>
        in lwip_assert ''memp_malloc: memp properly aligned'' (memp mod memp_alignment cf = 0) (Inr (s, Some memp))
    | None \<Rightarrow>
        let st = memp_stat s type in
        Inr (s\<lparr>memp_stat := (memp_stat s)(type := st\<lparr>st_err := mst (st_err st + 1)\<rparr>)\<rparr>, None))"

definition memp_free :: "memp_conf \<Rightarrow> nat \<Rightarrow> int option \<Rightarrow> memp_state \<Rightarrow> memp_state lwip" where
  "memp_free cf type mem s = (case mem of None \<Rightarrow> Inr s | Some memp \<Rightarrow>
    lwip_assert ''memp_free: mem properly aligned'' (memp mod memp_alignment cf = 0) (
    let st = memp_stat s type;
        s = s\<lparr>memp_stat := (memp_stat s)(type := st\<lparr>st_used := mst (st_used st - 1)\<rparr>)\<rparr>;
        s = s\<lparr>memp_next := (memp_next s)(memp := memp_tab s type)\<rparr>
    in Inr (s\<lparr>memp_tab := (memp_tab s)(type := Some memp)\<rparr>)))"

text \<open>The heap served from the pools \<open>pool_first .. pool_last\<close>: each element starts with a \<open>struct mem_helper\<close> of \<open>hsz\<close>
  bytes that records its pool, kept here in \<open>poolnr\<close>.\<close>

record pool_heap = pools :: memp_state poolnr :: "int \<Rightarrow> nat"

fun pool_search :: "memp_conf \<Rightarrow> int \<Rightarrow> int \<Rightarrow> nat list \<Rightarrow> nat option" where
  "pool_search cf hsz sz [] = None"
| "pool_search cf hsz sz (nr # nrs) = (if sz + hsz \<le> memp_sizes cf ! nr then Some nr else pool_search cf hsz sz nrs)"

definition pool_mem_malloc :: "memp_conf \<Rightarrow> int \<Rightarrow> nat \<Rightarrow> nat \<Rightarrow> int \<Rightarrow> pool_heap \<Rightarrow> (pool_heap \<times> int option) lwip" where
  "pool_mem_malloc cf hsz pool_first pool_last sz s =
    (case pool_search cf hsz sz [pool_first ..< Suc pool_last] of
       None \<Rightarrow> Inl (AssertFail ''mem_malloc(): no pool is that big!'')
     | Some nr \<Rightarrow> lwip_bind (memp_malloc cf nr (pools s)) (\<lambda>(ps, el). case el of
           None \<Rightarrow> Inr (s\<lparr>pools := ps\<rparr>, None)
         | Some element \<Rightarrow> Inr (s\<lparr>pools := ps, poolnr := (poolnr s)(element := nr)\<rparr>, Some (element + hsz))))"

definition pool_mem_free :: "memp_conf \<Rightarrow> int \<Rightarrow> int option \<Rightarrow> pool_heap \<Rightarrow> pool_heap lwip" where
  "pool_mem_free cf hsz rmem s = (case rmem of
       None \<Rightarrow> Inl (AssertFail ''rmem != NULL'')
     | Some rmem \<Rightarrow>
    lwip_assert ''rmem == MEM_ALIGN(rmem)'' (rmem mod memp_alignment cf = 0) (
    let hmem = rmem - hsz in
    lwip_assert ''hmem != NULL'' (hmem \<noteq> 0) (
    lwip_assert ''hmem == MEM_ALIGN(hmem)'' (hmem mod memp_alignment cf = 0) (
    lwip_assert ''hmem->poolnr < MEMP_MAX'' (poolnr s hmem < MEMP_MAX cf) (
    lwip_bind (memp_free cf (poolnr s hmem) (Some hmem) (pools s)) (\<lambda>ps. Inr (s\<lparr>pools := ps\<rparr>)))))))"

section \<open>Free lists\<close>

fun lst :: "(int \<Rightarrow> int option) \<Rightarrow> int option \<Rightarrow> int list \<Rightarrow> bool" where
  "lst nx p [] = (p = None)"
| "lst nx p (a # as) = (p = Some a \<and> lst nx (nx a) as)"

lemma lst_upd [simp]: "a \<notin> set xs \<Longrightarrow> lst (nx(a := v)) p xs = lst nx p xs"
  by (induction xs arbitrary: p) auto

lemma lst_unique: "lst nx p xs \<Longrightarrow> lst nx p ys \<Longrightarrow> xs = ys"
proof (induction xs arbitrary: p ys)
  case (Cons a as) then show ?case by (cases ys) auto
next
  case Nil then show ?case by (cases ys) auto
qed

definition pool_offset :: "memp_conf \<Rightarrow> nat \<Rightarrow> int" where
  "pool_offset cf t = sum_list (map (\<lambda>(sz, num). sz * int num) (take t (zip (memp_sizes cf) (memp_num cf))))"

definition pool_elems :: "memp_conf \<Rightarrow> int \<Rightarrow> nat \<Rightarrow> int set" where
  "pool_elems cf base t = (\<lambda>k. base + pool_offset cf t + int k * memp_sizes cf ! t) ` {..<memp_num cf ! t}"

definition memp_conf_ok :: "memp_conf \<Rightarrow> bool" where
  "memp_conf_ok cf \<longleftrightarrow> length (memp_num cf) = length (memp_sizes cf) \<and> memp_alignment cf \<in> {1, 2, 4, 8} \<and>
     (\<forall>sz \<in> set (memp_sizes cf). 0 < sz \<and> memp_alignment cf dvd sz)"

definition memp_ok :: "memp_conf \<Rightarrow> int \<Rightarrow> memp_state \<Rightarrow> (nat \<Rightarrow> int list) \<Rightarrow> bool" where
  "memp_ok cf base s fl \<longleftrightarrow> memp_alignment cf dvd base \<and>
     (\<forall>t < MEMP_MAX cf. lst (memp_next s) (memp_tab s t) (fl t) \<and> distinct (fl t) \<and> set (fl t) \<subseteq> pool_elems cf base t)"

lemma pool_offset_Suc:
  assumes "memp_conf_ok cf" "t < MEMP_MAX cf"
  shows "pool_offset cf (Suc t) = pool_offset cf t + memp_sizes cf ! t * int (memp_num cf ! t)"
  using assms by (simp add: pool_offset_def memp_conf_ok_def MEMP_MAX_def take_Suc_conv_app_nth)

lemma pool_offset_mono:
  assumes "memp_conf_ok cf" "t < u" "u < MEMP_MAX cf"
  shows "pool_offset cf t + memp_sizes cf ! t * int (memp_num cf ! t) \<le> pool_offset cf u"
  using assms(2,3)
proof (induction u)
  case (Suc u)
  have p: "0 \<le> memp_sizes cf ! u * int (memp_num cf ! u)"
    using assms(1) Suc.prems by (intro mult_nonneg_nonneg) (auto simp: memp_conf_ok_def MEMP_MAX_def less_imp_le)
  show ?case
  proof (cases "t = u")
    case True then show ?thesis using pool_offset_Suc[OF assms(1), of t] Suc.prems by simp
  next
    case False
    then show ?thesis using pool_offset_Suc[OF assms(1), of u] Suc p by simp
  qed
qed simp

lemma pool_elem_bounds:
  assumes "memp_conf_ok cf" "t < MEMP_MAX cf" "a \<in> pool_elems cf base t"
  shows "base + pool_offset cf t \<le> a" "a + memp_sizes cf ! t \<le> base + pool_offset cf t + memp_sizes cf ! t * int (memp_num cf ! t)"
proof -
  have sz: "0 < memp_sizes cf ! t" using assms by (auto simp: memp_conf_ok_def MEMP_MAX_def)
  obtain k where k: "k < memp_num cf ! t" "a = base + pool_offset cf t + int k * memp_sizes cf ! t"
    using assms(3) by (auto simp: pool_elems_def)
  show "base + pool_offset cf t \<le> a" using k sz by simp
  have "(int k + 1) * memp_sizes cf ! t \<le> int (memp_num cf ! t) * memp_sizes cf ! t"
    using k sz by (intro mult_right_mono) auto
  then show "a + memp_sizes cf ! t \<le> base + pool_offset cf t + memp_sizes cf ! t * int (memp_num cf ! t)"
    using k(2) by (simp add: algebra_simps)
qed

lemma pool_elems_disjoint:
  assumes cf: "memp_conf_ok cf" and tu: "t < MEMP_MAX cf" "u < MEMP_MAX cf" "t \<noteq> u"
    and a: "a \<in> pool_elems cf base t" "b \<in> pool_elems cf base u"
  shows "a + memp_sizes cf ! t \<le> b \<or> b + memp_sizes cf ! u \<le> a"
  using pool_elem_bounds[OF cf tu(1) a(1)] pool_elem_bounds[OF cf tu(2) a(2)]
    pool_offset_mono[OF cf, of t u] pool_offset_mono[OF cf, of u t] tu by linarith

lemma pool_elems_disjoint':
  assumes "memp_conf_ok cf" "t < MEMP_MAX cf" "u < MEMP_MAX cf" "t \<noteq> u" "a \<in> pool_elems cf base t"
  shows "a \<notin> pool_elems cf base u"
proof
  assume "a \<in> pool_elems cf base u"
  moreover have "0 < memp_sizes cf ! t" "0 < memp_sizes cf ! u" using assms by (auto simp: memp_conf_ok_def MEMP_MAX_def)
  ultimately show False using pool_elems_disjoint[OF assms] by fastforce
qed

lemma pool_elem_aligned:
  assumes "memp_conf_ok cf" "t < MEMP_MAX cf" "memp_alignment cf dvd base" "a \<in> pool_elems cf base t"
  shows "a mod memp_alignment cf = 0"
proof -
  have "memp_alignment cf dvd pool_offset cf n" if "n \<le> MEMP_MAX cf" for n
    using that
  proof (induction n)
    case (Suc n)
    then show ?case
      using assms(1) pool_offset_Suc[OF assms(1), of n] by (auto simp: memp_conf_ok_def MEMP_MAX_def)
  qed (simp add: pool_offset_def)
  then show ?thesis using assms by (auto simp: pool_elems_def memp_conf_ok_def MEMP_MAX_def)
qed

section \<open>The pool contract\<close>

lemma memp_malloc_none:
  assumes "memp_ok cf base s fl" "t < MEMP_MAX cf" "fl t = []"
  shows "\<exists>s'. memp_malloc cf t s = Inr (s', None) \<and> memp_ok cf base s' fl \<and>
    memp_tab s' = memp_tab s \<and> memp_next s' = memp_next s"
proof -
  have "memp_tab s t = None" using assms by (force simp: memp_ok_def)
  then show ?thesis using assms by (simp add: memp_malloc_def memp_ok_def Let_def)
qed

lemma memp_malloc_some:
  assumes cf: "memp_conf_ok cf" and s: "memp_ok cf base s fl" "t < MEMP_MAX cf" "fl t = a # as"
  shows "\<exists>s'. memp_malloc cf t s = Inr (s', Some a) \<and> memp_ok cf base s' (fl(t := as))"
proof -
  have t: "memp_tab s t = Some a" "lst (memp_next s) (memp_next s a) as" "a \<in> pool_elems cf base t"
    "distinct (a # as)" "set as \<subseteq> pool_elems cf base t" "memp_alignment cf dvd base"
    using s unfolding memp_ok_def by fastforce+
  then show ?thesis
    using s pool_elem_aligned[OF cf s(2) t(6,3)] by (simp add: memp_malloc_def Let_def memp_ok_def)
qed

lemma memp_free_some:
  assumes cf: "memp_conf_ok cf" and s: "memp_ok cf base s fl" "t < MEMP_MAX cf"
    and a: "a \<in> pool_elems cf base t" "a \<notin> set (fl t)"
  shows "\<exists>s'. memp_free cf t (Some a) s = Inr s' \<and> memp_ok cf base s' (fl(t := a # fl t))"
proof -
  have al: "a mod memp_alignment cf = 0"
    using pool_elem_aligned[OF cf s(2) _ a(1)] s(1) by (simp add: memp_ok_def)
  have "a \<notin> set (fl u)" if "u < MEMP_MAX cf" for u
    using that a s pool_elems_disjoint'[OF cf s(2) that _ a(1)] by (cases "u = t") (auto simp: memp_ok_def)
  then show ?thesis using s a al by (auto simp: memp_free_def Let_def memp_ok_def)
qed

definition memp_inv :: "memp_conf \<Rightarrow> int \<Rightarrow> memp_state \<Rightarrow> bool" where
  "memp_inv cf base s \<longleftrightarrow> (\<exists>fl. memp_ok cf base s fl)"

definition free_elems :: "memp_state \<Rightarrow> nat \<Rightarrow> int set" where
  "free_elems s t = {a. \<exists>xs. lst (memp_next s) (memp_tab s t) xs \<and> a \<in> set xs}"

definition pool_areas :: "memp_conf \<Rightarrow> int \<Rightarrow> nat \<Rightarrow> memp_state \<Rightarrow> (int \<times> int) set" where
  "pool_areas cf base t s = (\<lambda>a. (a, memp_sizes cf ! t)) ` (pool_elems cf base t - free_elems s t)"

lemma free_elems_eq: "memp_ok cf base s fl \<Longrightarrow> t < MEMP_MAX cf \<Longrightarrow> free_elems s t = set (fl t)"
  by (auto simp: free_elems_def memp_ok_def dest: lst_unique)

lemma pool_areas_separate:
  assumes "memp_conf_ok cf" "t < MEMP_MAX cf" shows "separate (pool_areas cf base t s)"
proof -
  have sz: "0 < memp_sizes cf ! t" using assms by (auto simp: memp_conf_ok_def MEMP_MAX_def)
  have "(int j + 1) * memp_sizes cf ! t \<le> int k * memp_sizes cf ! t" if "j < k" for j k :: nat
    using that sz by (intro mult_right_mono) auto
  then have "int j * memp_sizes cf ! t + memp_sizes cf ! t \<le> int k * memp_sizes cf ! t" if "j < k" for j k :: nat
    using that by (simp add: algebra_simps)
  then show ?thesis
    unfolding separate_def pool_areas_def pool_elems_def by (auto simp: add.assoc) (metis nat_neq_iff)
qed

lemma memp_malloc_cases:
  assumes "memp_conf_ok cf" "t < MEMP_MAX cf" "memp_inv cf base s"
  obtains (null) s' where "memp_malloc cf t s = Inr (s', None)" "memp_inv cf base s'"
      "pool_areas cf base t s' = pool_areas cf base t s" "free_elems s t = {}"
  | (some) s' a where "memp_malloc cf t s = Inr (s', Some a)" "memp_inv cf base s'"
      "a \<notin> fst ` pool_areas cf base t s" "a \<in> pool_elems cf base t"
      "pool_areas cf base t s' = insert (a, memp_sizes cf ! t) (pool_areas cf base t s)"
proof -
  obtain fl where fl: "memp_ok cf base s fl" using assms(3) by (auto simp: memp_inv_def)
  show thesis
  proof (cases "fl t")
    case Nil
    from memp_malloc_none[OF fl assms(2) this] obtain s' where "memp_malloc cf t s = Inr (s', None)" "memp_ok cf base s' fl" by blast
    then show thesis using fl assms Nil by (intro null[of s']) (auto simp: memp_inv_def pool_areas_def free_elems_eq)
  next
    case (Cons a as)
    from memp_malloc_some[OF assms(1) fl assms(2) this] obtain s' where
      s': "memp_malloc cf t s = Inr (s', Some a)" "memp_ok cf base s' (fl(t := as))" by blast
    have a: "a \<in> pool_elems cf base t" "a \<notin> set as" using fl assms(2) Cons by (auto simp: memp_ok_def)
    then have eq: "pool_elems cf base t - set as = insert a (pool_elems cf base t - set (fl t))" using Cons by auto
    have fe: "free_elems s t = set (fl t)" "free_elems s' t = set as"
      using free_elems_eq[OF fl assms(2)] free_elems_eq[OF s'(2) assms(2)] by simp_all
    show thesis
    proof (rule some[OF s'(1)])
      show "memp_inv cf base s'" using s'(2) by (auto simp: memp_inv_def)
      show "a \<notin> fst ` pool_areas cf base t s" using Cons by (auto simp: pool_areas_def fe)
      show "pool_areas cf base t s' = insert (a, memp_sizes cf ! t) (pool_areas cf base t s)"
        unfolding pool_areas_def fe eq by simp
    qed (rule a(1))
  qed
qed

lemma memp_free_cases:
  assumes "memp_conf_ok cf" "t < MEMP_MAX cf" "memp_inv cf base s" "(a, m) \<in> pool_areas cf base t s"
  obtains s' where "memp_free cf t (Some a) s = Inr s'" "memp_inv cf base s'"
    "pool_areas cf base t s' = pool_areas cf base t s - {(a, m)}"
proof -
  obtain fl where fl: "memp_ok cf base s fl" using assms(3) by (auto simp: memp_inv_def)
  have a: "a \<in> pool_elems cf base t" "a \<notin> set (fl t)" "m = memp_sizes cf ! t"
    using assms fl by (auto simp: pool_areas_def free_elems_eq)
  from memp_free_some[OF assms(1) fl assms(2) a(1,2)] obtain s' where
    s': "memp_free cf t (Some a) s = Inr s'" "memp_ok cf base s' (fl(t := a # fl t))" by blast
  then show thesis
    using fl assms a by (intro that[of s']) (auto simp: memp_inv_def pool_areas_def free_elems_eq)
qed

lemma memp_malloc_frame:
  assumes "memp_conf_ok cf" "t < MEMP_MAX cf" "memp_inv cf base s" "memp_malloc cf t s = Inr (s', r)" "u < MEMP_MAX cf" "u \<noteq> t"
  shows "pool_areas cf base u s' = pool_areas cf base u s"
proof -
  obtain fl where fl: "memp_ok cf base s fl" using assms(3) by (auto simp: memp_inv_def)
  have "\<exists>fl'. memp_ok cf base s' fl' \<and> fl' u = fl u"
  proof (cases "fl t")
    case Nil then show ?thesis using memp_malloc_none [OF fl assms(2)] assms(4) by auto
  next
    case (Cons a as) then show ?thesis using memp_malloc_some [OF assms(1) fl assms(2) Cons] assms(4,6) by fastforce
  qed
  then show ?thesis using fl assms(5) by (auto simp: pool_areas_def free_elems_eq)
qed

lemma memp_free_frame:
  assumes "memp_conf_ok cf" "t < MEMP_MAX cf" "memp_inv cf base s" "(a, m) \<in> pool_areas cf base t s"
    "memp_free cf t (Some a) s = Inr s'" "u < MEMP_MAX cf" "u \<noteq> t"
  shows "pool_areas cf base u s' = pool_areas cf base u s"
proof -
  obtain fl where fl: "memp_ok cf base s fl" using assms(3) by (auto simp: memp_inv_def)
  have "a \<in> pool_elems cf base t" "a \<notin> set (fl t)" using assms fl by (auto simp: pool_areas_def free_elems_eq)
  from memp_free_some [OF assms(1) fl assms(2) this] assms(5) have "memp_ok cf base s' (fl(t := a # fl t))" by auto
  then show ?thesis using fl assms(6,7) by (simp add: pool_areas_def free_elems_eq)
qed

lemma pool_elems_card:
  assumes "memp_conf_ok cf" "t < MEMP_MAX cf"
  shows "finite (pool_elems cf base t)" "card (pool_elems cf base t) = memp_num cf ! t"
proof -
  have "0 < memp_sizes cf ! t" using assms by (auto simp: memp_conf_ok_def MEMP_MAX_def)
  then have "inj_on (\<lambda>k. base + pool_offset cf t + int k * memp_sizes cf ! t) {..<memp_num cf ! t}" by (auto simp: inj_on_def)
  then show "finite (pool_elems cf base t)" "card (pool_elems cf base t) = memp_num cf ! t"
    by (simp_all add: pool_elems_def card_image)
qed

lemma pool_areas_card:
  assumes "memp_conf_ok cf" "t < MEMP_MAX cf"
  shows "finite (pool_areas cf base t s)" "card (pool_areas cf base t s) \<le> memp_num cf ! t"
    "free_elems s t = {} \<Longrightarrow> card (pool_areas cf base t s) = memp_num cf ! t"
proof -
  note e = pool_elems_card [OF assms, of base]
  have inj: "inj_on (\<lambda>a. (a, memp_sizes cf ! t)) A" for A by (simp add: inj_on_def)
  show "finite (pool_areas cf base t s)" using e(1) by (simp add: pool_areas_def)
  show "card (pool_areas cf base t s) \<le> memp_num cf ! t"
    using e card_mono [of "pool_elems cf base t"] by (simp add: pool_areas_def card_image [OF inj])
  show "card (pool_areas cf base t s) = memp_num cf ! t" if "free_elems s t = {}"
    using e that by (simp add: pool_areas_def card_image [OF inj])
qed

text \<open>The pools of \<open>memp.c\<close> keep the allocator contract together: a request names a pool and is served with an element of
  that pool.\<close>

definition all_areas :: "memp_conf \<Rightarrow> int \<Rightarrow> memp_state \<Rightarrow> (int \<times> int) set" where
  "all_areas cf base s = (\<Union>t < MEMP_MAX cf. pool_areas cf base t s)"

definition pool_serves :: "memp_conf \<Rightarrow> int \<Rightarrow> nat \<Rightarrow> int \<times> int \<Rightarrow> bool" where
  "pool_serves cf base t = (\<lambda>(a, n). t < MEMP_MAX cf \<and> a \<in> pool_elems cf base t \<and> n = memp_sizes cf ! t)"

lemma pool_areas_elem: "(a, n) \<in> pool_areas cf base t s \<Longrightarrow> a \<in> pool_elems cf base t \<and> n = memp_sizes cf ! t"
  by (auto simp: pool_areas_def)

lemma all_areas_pool:
  assumes cf: "memp_conf_ok cf" and a: "(a, n) \<in> all_areas cf base s" "a \<in> pool_elems cf base t" "t < MEMP_MAX cf"
  shows "(a, n) \<in> pool_areas cf base t s"
proof -
  obtain u where u: "u < MEMP_MAX cf" "(a, n) \<in> pool_areas cf base u s" using a(1) by (auto simp: all_areas_def)
  then have "u = t" using pool_elems_disjoint'[OF cf u(1) a(3), of a base] pool_areas_elem[OF u(2)] a(2) by blast
  then show ?thesis using u by simp
qed

lemma all_areas_separate:
  assumes cf: "memp_conf_ok cf" shows "separate (all_areas cf base s)"
  unfolding separate_def
proof (intro ballI case_prodI2 impI)
  fix x y p n q m
  assume x: "x \<in> all_areas cf base s" "x = (p, n)" and y: "y \<in> all_areas cf base s" "y = (q, m)" and ne: "(p, n) \<noteq> (q, m)"
  obtain t where t: "t < MEMP_MAX cf" "(p, n) \<in> pool_areas cf base t s" using x by (auto simp: all_areas_def)
  obtain u where u: "u < MEMP_MAX cf" "(q, m) \<in> pool_areas cf base u s" using y by (auto simp: all_areas_def)
  show "p + n \<le> q \<or> q + m \<le> p"
  proof (cases "t = u")
    case True
    then show ?thesis using pool_areas_separate[OF cf t(1), of base s] t(2) u(2) ne unfolding separate_def by fastforce
  next
    case False
    then show ?thesis
      using pool_elems_disjoint[OF cf t(1) u(1)] pool_areas_elem[OF t(2)] pool_areas_elem[OF u(2)] by blast
  qed
qed

lemma all_areas_upd:
  assumes "t < MEMP_MAX cf" "\<And>u. u < MEMP_MAX cf \<Longrightarrow> u \<noteq> t \<Longrightarrow> pool_areas cf base u s' = pool_areas cf base u s"
  shows "all_areas cf base s' = (\<Union>u < MEMP_MAX cf. if u = t then pool_areas cf base t s' else pool_areas cf base u s)"
  using assms by (auto simp: all_areas_def split: if_splits)

lemma all_areas_malloc:
  assumes "memp_conf_ok cf" "t < MEMP_MAX cf" "memp_inv cf base s" "memp_malloc cf t s = Inr (s', r)"
  shows "pool_areas cf base t s' = pool_areas cf base t s \<Longrightarrow> all_areas cf base s' = all_areas cf base s"
    and "pool_areas cf base t s' = insert x (pool_areas cf base t s) \<Longrightarrow> all_areas cf base s' = insert x (all_areas cf base s)"
proof -
  have same: "pool_areas cf base u s' = pool_areas cf base u s" if "u < MEMP_MAX cf" "u \<noteq> t" for u
    using memp_malloc_frame[OF assms that] .
  have upd: "all_areas cf base s' = (\<Union>u < MEMP_MAX cf. if u = t then pool_areas cf base t s' else pool_areas cf base u s)"
    by (rule all_areas_upd) (use same assms(2) in auto)
  show "all_areas cf base s' = all_areas cf base s" if "pool_areas cf base t s' = pool_areas cf base t s"
    using same that by (force simp: all_areas_def)
  show "all_areas cf base s' = insert x (all_areas cf base s)" if t: "pool_areas cf base t s' = insert x (pool_areas cf base t s)"
    unfolding upd t using assms(2) by (auto simp: all_areas_def split: if_splits)
qed

lemma all_areas_free:
  assumes cf: "memp_conf_ok cf" "memp_inv cf base s" and a: "(p, m) \<in> all_areas cf base s" "pool_serves cf base t (p, m)"
  obtains s' where "memp_free cf t (Some p) s = Inr s'" "memp_inv cf base s'" "all_areas cf base s' = all_areas cf base s - {(p, m)}"
proof -
  have t: "t < MEMP_MAX cf" "p \<in> pool_elems cf base t" using a(2) by (simp_all add: pool_serves_def)
  have pa: "(p, m) \<in> pool_areas cf base t s" using all_areas_pool[OF cf(1) a(1) t(2,1)] .
  obtain s' where s': "memp_free cf t (Some p) s = Inr s'" "memp_inv cf base s'"
      "pool_areas cf base t s' = pool_areas cf base t s - {(p, m)}" using memp_free_cases[OF cf(1) t(1) cf(2) pa] .
  have same: "pool_areas cf base u s' = pool_areas cf base u s" if "u < MEMP_MAX cf" "u \<noteq> t" for u
    using memp_free_frame[OF cf(1) t(1) cf(2) pa s'(1) that] .
  have upd: "all_areas cf base s' = (\<Union>u < MEMP_MAX cf. if u = t then pool_areas cf base t s' else pool_areas cf base u s)"
    by (rule all_areas_upd) (use same t(1) in auto)
  have other: "(p, m) \<notin> pool_areas cf base u s" if "u < MEMP_MAX cf" "u \<noteq> t" for u
    using pool_elems_disjoint'[OF cf(1) t(1) that(1) _ t(2)] that(2) pool_areas_elem by blast
  have "all_areas cf base s' = all_areas cf base s - {(p, m)}"
    unfolding upd s'(3) using other by (auto simp: all_areas_def t(1) split: if_splits)
  then show thesis using that s'(1,2) by blast
qed

interpretation memp_c: allocator "\<lambda>s. memp_conf_ok cf \<and> memp_inv cf base s" "all_areas cf base"
    "memp_malloc cf" "\<lambda>t p. memp_free cf t (Some p)" "\<lambda>t. t < MEMP_MAX cf" "\<lambda>t. memp_sizes cf ! t" "pool_serves cf base" for cf base
proof (unfold_locales, goal_cases)
  case (1 s) then show ?case using all_areas_separate by blast
next
  case (2 s p m k)
  then obtain t where t: "t < MEMP_MAX cf" "(p, m) \<in> pool_areas cf base t s" by (auto simp: all_areas_def)
  then have "(p, k) \<in> pool_areas cf base t s" using all_areas_pool[of cf p k base s t] 2 pool_areas_elem[OF t(2)] by blast
  then show ?case using pool_areas_elem t(2) by blast
next
  case (3 s t) then show ?case by (auto elim: memp_malloc_cases[of cf t base s])
next
  case (4 s t s')
  then have "memp_conf_ok cf" "t < MEMP_MAX cf" "memp_inv cf base s" by auto
  then show ?case
    by (cases rule: memp_malloc_cases) (use 4 all_areas_malloc(1)[of cf t base s s' None] in auto)
next
  case (5 s t s' p)
  then have ok: "memp_conf_ok cf" "t < MEMP_MAX cf" "memp_inv cf base s" by auto
  then show ?case
  proof (cases rule: memp_malloc_cases)
    case null then show ?thesis using 5(3) by simp
  next
    case (some h' q)
    then have e: "h' = s'" "q = p" using 5(3) by auto
    have "p \<notin> fst ` all_areas cf base s" using some(3,4) all_areas_pool[OF ok(1) _ _ ok(2), of p _ base s] unfolding e by force
    then show ?thesis
      using some ok all_areas_malloc(2)[OF ok 5(3)] unfolding e by (auto simp: pool_serves_def)
  qed
next
  case (6 t p m) then show ?case by (simp add: pool_serves_def)
next
  case (7 s t p m) then show ?case by (meson all_areas_free)
qed

section \<open>Initialisation\<close>

text \<open>The elements of a pool of \<open>num\<close> elements that starts at \<open>a\<close>, last first.\<close>

definition carve :: "int \<Rightarrow> int \<Rightarrow> nat \<Rightarrow> int list" where
  "carve a sz num = rev (map (\<lambda>k. a + int k * sz) [0..<num])"

lemma carve_Suc: "carve a sz (Suc n) = carve (a + sz) sz n @ [a]"
  unfolding carve_def upt_rec[of 0 "Suc n"] map_Suc_upt [symmetric] by (simp add: algebra_simps o_def)

lemma carve_set: "set (carve a sz n) = (\<lambda>k. a + int k * sz) ` {..<n}"
  by (auto simp: carve_def)

lemma carve_distinct: "0 < sz \<Longrightarrow> distinct (carve a sz n)"
  by (auto simp: carve_def distinct_map inj_on_def)

lemma carve_bounds: "0 < sz \<Longrightarrow> x \<in> set (carve a sz n) \<Longrightarrow> a \<le> x \<and> x < a + int n * sz"
  by (auto simp: carve_set)

lemma memp_init_pool_ok:
  assumes "memp_init_pool i sz j memp s = (m', s')"
    and "0 < sz" "lst (memp_next s) (memp_tab s i) ys" "\<forall>y \<in> set ys. y < memp"
  shows "m' = memp + int j * sz \<and>
    lst (memp_next s') (memp_tab s' i) (carve memp sz j @ ys) \<and>
    (\<forall>t. t \<noteq> i \<longrightarrow> memp_tab s' t = memp_tab s t) \<and> (\<forall>a < memp. memp_next s' a = memp_next s a)"
  using assms
proof (induction j arbitrary: memp s ys)
  case (Suc j)
  define s1 where "s1 = s\<lparr>memp_next := (memp_next s)(memp := memp_tab s i), memp_tab := (memp_tab s)(i := Some memp)\<rparr>"
  have e: "memp_init_pool i sz j (memp + sz) s1 = (m', s')" using Suc.prems(1) by (simp add: s1_def)
  have "memp \<notin> set ys" using Suc.prems by auto
  then have "lst (memp_next s1) (memp_tab s1 i) (memp # ys)" using Suc.prems by (simp add: s1_def)
  moreover have "\<forall>y \<in> set (memp # ys). y < memp + sz" using Suc.prems by auto
  ultimately have ih: "m' = memp + sz + int j * sz \<and>
      lst (memp_next s') (memp_tab s' i) (carve (memp + sz) sz j @ memp # ys) \<and>
      (\<forall>t. t \<noteq> i \<longrightarrow> memp_tab s' t = memp_tab s1 t) \<and> (\<forall>a < memp + sz. memp_next s' a = memp_next s1 a)"
    by (rule Suc.IH[OF e Suc.prems(2)])
  then show ?case using Suc.prems(2) by (simp add: s1_def carve_Suc distrib_right)
qed (simp add: carve_def)

lemma lst_cong: "(\<And>a. a \<in> set xs \<Longrightarrow> n1 a = n2 a) \<Longrightarrow> lst n1 p xs = lst n2 p xs"
  by (induction xs arbitrary: p) auto

lemma memp_init_pools_ok:
  assumes "\<forall>(sz, num) \<in> set ps. 0 < sz"
    and "\<forall>t < i. lst (memp_next s) (memp_tab s t) (fl t) \<and> (\<forall>a \<in> set (fl t). a < memp)"
  shows "let s' = memp_init_pools i ps memp s in
    (\<forall>t < i. lst (memp_next s') (memp_tab s' t) (fl t)) \<and>
    (\<forall>u < length ps. lst (memp_next s') (memp_tab s' (i + u))
      (carve (memp + sum_list (map (\<lambda>(sz, num). sz * int num) (take u ps))) (fst (ps ! u)) (snd (ps ! u))))"
  using assms
proof (induction ps arbitrary: i memp s fl)
  case (Cons p ps)
  obtain sz num where p: "p = (sz, num)" by force
  have sz: "0 < sz" using Cons.prems(1) by (simp add: p)
  define s0 where "s0 = s\<lparr>memp_tab := (memp_tab s)(i := None)\<rparr>"
  obtain m1 s1 where ms: "memp_init_pool i sz num memp s0 = (m1, s1)" by force
  have i1: "m1 = memp + int num * sz" "lst (memp_next s1) (memp_tab s1 i) (carve memp sz num)"
      "\<forall>t. t \<noteq> i \<longrightarrow> memp_tab s1 t = memp_tab s t" "\<forall>a < memp. memp_next s1 a = memp_next s a"
    using memp_init_pool_ok[OF ms sz, of "[]"] by (simp_all add: s0_def)
  define fl' where "fl' = fl(i := carve memp sz num)"
  have old: "lst (memp_next s1) (memp_tab s1 t) (fl t)" if "t < i" for t
  proof -
    have "lst (memp_next s1) (memp_tab s t) (fl t) = lst (memp_next s) (memp_tab s t) (fl t)"
      by (rule lst_cong) (use Cons.prems(2) i1(4) that in auto)
    then show ?thesis using Cons.prems(2) i1(3) that by simp
  qed
  have pos: "0 \<le> int num * sz" using sz by simp
  have "\<forall>t < Suc i. lst (memp_next s1) (memp_tab s1 t) (fl' t) \<and> (\<forall>a \<in> set (fl' t). a < m1)"
    using old i1(2) Cons.prems(2) carve_bounds[OF sz, of _ memp num] pos
    by (auto simp: fl'_def i1(1) less_Suc_eq) (fastforce)
  from Cons.IH[OF _ this] Cons.prems(1)
  have ih: "\<forall>t < Suc i. lst (memp_next (memp_init_pools (Suc i) ps m1 s1)) (memp_tab (memp_init_pools (Suc i) ps m1 s1) t) (fl' t)"
    "\<forall>u < length ps. lst (memp_next (memp_init_pools (Suc i) ps m1 s1)) (memp_tab (memp_init_pools (Suc i) ps m1 s1) (Suc i + u))
      (carve (m1 + sum_list (map (\<lambda>(sz, num). sz * int num) (take u ps))) (fst (ps ! u)) (snd (ps ! u)))"
    by (simp_all add: Let_def)
  have e: "memp_init_pools i (p # ps) memp s = memp_init_pools (Suc i) ps m1 s1"
    by (simp add: p Let_def s0_def [symmetric] ms)
  show ?case
    unfolding e Let_def
  proof (intro conjI allI impI)
    fix t assume "t < i" then show "lst (memp_next (memp_init_pools (Suc i) ps m1 s1)) (memp_tab (memp_init_pools (Suc i) ps m1 s1) t) (fl t)"
      using ih(1) by (auto simp: fl'_def less_Suc_eq)
  next
    fix u assume u: "u < length (p # ps)"
    show "lst (memp_next (memp_init_pools (Suc i) ps m1 s1)) (memp_tab (memp_init_pools (Suc i) ps m1 s1) (i + u))
      (carve (memp + sum_list (map (\<lambda>(sz, num). sz * int num) (take u (p # ps)))) (fst ((p # ps) ! u)) (snd ((p # ps) ! u)))"
      using ih u by (cases u) (auto simp: p fl'_def i1(1) add.assoc mult.commute)
  qed
qed simp

definition memp_base :: "memp_conf \<Rightarrow> int \<Rightarrow> int" where
  "memp_base cf addr = (addr + memp_alignment cf - 1) AND NOT (memp_alignment cf - 1)"

lemma memp_base_aligned: "memp_conf_ok cf \<Longrightarrow> memp_alignment cf dvd memp_base cf addr"
  using and_not_mask_int[of _ 0] and_not_mask_int[of _ 1] and_not_mask_int[of _ 2] and_not_mask_int[of _ 3]
  by (auto simp: memp_conf_ok_def memp_base_def)

lemma memp_init_ok:
  fixes addr :: int
  assumes cf: "memp_conf_ok cf"
  defines "base \<equiv> memp_base cf addr"
  shows "memp_ok cf base (memp_init cf addr s)
    (\<lambda>t. carve (base + pool_offset cf t) (memp_sizes cf ! t) (memp_num cf ! t))"
proof -
  have sz: "0 < memp_sizes cf ! t" if "t < MEMP_MAX cf" for t
    using cf that by (auto simp: memp_conf_ok_def MEMP_MAX_def)
  have len: "length (zip (memp_sizes cf) (memp_num cf)) = MEMP_MAX cf"
    using cf by (simp add: memp_conf_ok_def MEMP_MAX_def)
  have pos: "\<forall>(sz, num) \<in> set (zip (memp_sizes cf) (memp_num cf)). 0 < sz"
    using cf by (auto simp: memp_conf_ok_def dest: set_zip_leftD)
  have "lst (memp_next (memp_init cf addr s)) (memp_tab (memp_init cf addr s) t)
      (carve (base + pool_offset cf t) (memp_sizes cf ! t) (memp_num cf ! t))" if "t < MEMP_MAX cf" for t
    using memp_init_pools_ok[OF pos, of 0] that cf
    by (simp add: memp_init_def Let_def base_def memp_base_def len pool_offset_def nth_zip memp_conf_ok_def MEMP_MAX_def)
  then show ?thesis
    using memp_base_aligned[OF cf] sz by (auto simp: memp_ok_def carve_distinct carve_set pool_elems_def base_def)
qed

section \<open>Properties\<close>

lemma memp_init_empty:
  assumes "memp_conf_ok cf" shows "memp_inv cf (memp_base cf addr) (memp_init cf addr s0)" "all_areas cf (memp_base cf addr) (memp_init cf addr s0) = {}"
proof -
  note ok = memp_init_ok[OF assms, of addr s0]
  show "memp_inv cf (memp_base cf addr) (memp_init cf addr s0)" using ok by (auto simp: memp_inv_def)
  show "all_areas cf (memp_base cf addr) (memp_init cf addr s0) = {}"
    using free_elems_eq[OF ok] by (auto simp: all_areas_def pool_areas_def carve_set pool_elems_def)
qed

text \<open>The elements of a pool that a client holds are the ones missing in its free list, so they can be counted.\<close>

lemma held_card:
  assumes cf: "memp_conf_ok cf" and t: "t < MEMP_MAX cf" and a: "accounted (pool_serves cf base) (all_areas cf base s) held"
  shows "card (pool_areas cf base t s) = length (filter (\<lambda>(p, u). u = t) held)"
proof -
  have h: "distinct (map fst held)" "fst ` all_areas cf base s = fst ` set held" using a by (simp_all add: accounted_def)
  have "p \<in> fst ` pool_areas cf base t s \<longleftrightarrow> (p, t) \<in> set held" for p
  proof
    assume "p \<in> fst ` pool_areas cf base t s"
    then have p: "p \<in> fst ` all_areas cf base s" "p \<in> pool_elems cf base t" using t by (auto simp: all_areas_def pool_areas_def)
    then obtain u where u: "(p, u) \<in> set held" using h(2) by force
    obtain m where "pool_serves cf base u (p, m)" using accounted_served[OF a u] .
    then have "u = t" using p(2) pool_elems_disjoint'[OF cf t _ _ p(2), of u] by (auto simp: pool_serves_def)
    then show "(p, t) \<in> set held" using u by simp
  next
    assume "(p, t) \<in> set held"
    from accounted_served[OF a this] obtain m where "pool_serves cf base t (p, m)" "(p, m) \<in> all_areas cf base s" .
    then have "(p, m) \<in> pool_areas cf base t s" using all_areas_pool[OF cf] by (simp add: pool_serves_def)
    then show "p \<in> fst ` pool_areas cf base t s" by force
  qed
  then have "fst ` pool_areas cf base t s = fst ` set (filter (\<lambda>(p, u). u = t) held)" by force
  moreover have "card (fst ` pool_areas cf base t s) = card (pool_areas cf base t s)"
    by (rule card_image) (auto simp: inj_on_def pool_areas_def)
  moreover have "distinct (map fst (filter (\<lambda>(p, u). u = t) held))" using h(1) by (rule distinct_map_filter)
  then have "card (set (map fst (filter (\<lambda>(p, u). u = t) held))) = length (filter (\<lambda>(p, u). u = t) held)"
    by (metis distinct_card length_map)
  ultimately show ?thesis by (simp only: set_map)
qed

lemma memp_malloc_serves_iff:
  assumes ok: "memp_conf_ok cf" "t < MEMP_MAX cf" "memp_inv cf base s"
  shows "(\<exists>s' p. memp_malloc cf t s = Inr (s', Some p)) \<longleftrightarrow> card (pool_areas cf base t s) < memp_num cf ! t"
  using ok
proof (cases rule: memp_malloc_cases)
  case (null s')
  then show ?thesis using pool_areas_card(3)[OF ok(1,2) null(4), of base] by simp
next
  case (some s' a)
  then have "(a, memp_sizes cf ! t) \<notin> pool_areas cf base t s" by force
  then show ?thesis using some(1,5) pool_areas_card(1,2)[OF ok(1,2), of base s'] by (simp add: less_eq_Suc_le)
qed

text \<open>Claim C19. After \<open>memp_init\<close>, any sequence of requests to the pools, in any order, in which only pointers that \<open>memp_malloc\<close> has
  returned are freed, to the pool they came from, runs without a failing assertion.  The elements the client was given are aligned
  elements of the pools it asked, no two of them share a byte, and a pool serves the next request if and only if the
  client holds fewer of its elements than the pool has.\<close>

theorem memp_trace_safe:
  assumes "memp_conf_ok cf" "list_all (\<lambda>t. t < MEMP_MAX cf) (asked rs)"
  shows "\<exists>held s. run_requests (memp_malloc cf) (\<lambda>t p. memp_free cf t (Some p)) rs [] (memp_init cf addr s0) = Inr (held, s) \<and>
    sorted_wrt no_overlap (map (\<lambda>(p, t). (p, memp_sizes cf ! t)) held) \<and>
    (\<forall>(p, t) \<in> set held. t < MEMP_MAX cf \<and> p \<in> pool_elems cf (memp_base cf addr) t \<and> memp_alignment cf dvd p) \<and>
    (\<forall>t < MEMP_MAX cf. (\<exists>s' p. memp_malloc cf t s = Inr (s', Some p)) \<longleftrightarrow>
      length (filter (\<lambda>(p, u). u = t) held) < memp_num cf ! t)"
proof -
  define base where "base = memp_base cf addr"
  have inv: "memp_conf_ok cf \<and> memp_inv cf base (memp_init cf addr s0)"
    using memp_init_empty(1)[OF assms(1)] assms(1) by (simp add: base_def)
  obtain held s where run: "run_requests (memp_malloc cf) (\<lambda>t p. memp_free cf t (Some p)) rs [] (memp_init cf addr s0) = Inr (held, s)"
      "memp_conf_ok cf \<and> memp_inv cf base s" "accounted (pool_serves cf base) (all_areas cf base s) held"
      "sorted_wrt no_overlap (map (\<lambda>(p, t). (p, memp_sizes cf ! t)) held)"
    using memp_c.run_safe[OF inv memp_init_empty(2)[OF assms(1), of addr s0, folded base_def] assms(2)] .
  have "t < MEMP_MAX cf \<and> p \<in> pool_elems cf base t \<and> memp_alignment cf dvd p" if "(p, t) \<in> set held" for p t
    using accounted_served[OF run(3) that] pool_elem_aligned[OF assms(1) _ memp_base_aligned[OF assms(1)]]
    by (auto simp: pool_serves_def base_def dvd_eq_mod_eq_0)
  moreover have "(\<exists>s' p. memp_malloc cf t s = Inr (s', Some p)) \<longleftrightarrow> length (filter (\<lambda>(p, u). u = t) held) < memp_num cf ! t"
    if "t < MEMP_MAX cf" for t
    using memp_malloc_serves_iff[OF assms(1) that, of base s] held_card[OF assms(1) that run(3)] run(2) by simp
  ultimately show ?thesis using run(1,4) unfolding base_def by blast
qed

definition memp_example :: memp_conf where
  "memp_example = \<lparr>memp_alignment = 4, memp_sizes = [8, 16], memp_num = [1, 2]\<rparr>"

definition memp_blank :: memp_state where
  "memp_blank = \<lparr>memp_tab = (\<lambda>_. None), memp_next = (\<lambda>_. None),
     memp_stat = (\<lambda>_. \<lparr>st_avail = 0, st_used = 0, st_max = 0, st_err = 0\<rparr>)\<rparr>"

lemma memp_example_ok: "memp_conf_ok memp_example" "MEMP_MAX memp_example = 2"
  by (simp_all add: memp_example_def memp_conf_ok_def MEMP_MAX_def)

theorem memp_trace_safe_witness:
  "\<exists>held s. run_requests (memp_malloc memp_example) (\<lambda>t p. memp_free memp_example t (Some p))
      [Alloc 1, Alloc 0, Alloc 1, Release 2, Alloc 1, Alloc 0] [] (memp_init memp_example 1001 memp_blank) = Inr (held, s) \<and>
    sorted_wrt no_overlap (map (\<lambda>(p, t). (p, memp_sizes memp_example ! t)) held)"
proof -
  have "list_all (\<lambda>t. t < MEMP_MAX memp_example) (asked [Alloc 1, Alloc 0, Alloc 1, Release 2, Alloc 1, Alloc 0])"
    by (simp add: memp_example_ok(2))
  from memp_trace_safe[OF memp_example_ok(1) this] show ?thesis by blast
qed

text \<open>An element taken from a pool goes back on the free list it came from: \<open>memp_malloc\<close> fails exactly on
  an empty free list, and \<open>memp_free\<close> after a successful \<open>memp_malloc\<close> restores the lists of
  all pools.\<close>

theorem memp_malloc_free_inverse:
  assumes "memp_conf_ok cf" "memp_ok cf base s fl" "t < MEMP_MAX cf"
  shows "(fl t = [] \<longleftrightarrow> (\<exists>s'. memp_malloc cf t s = Inr (s', None))) \<and>
    (\<forall>s' a. memp_malloc cf t s = Inr (s', Some a) \<longrightarrow>
      (\<exists>s''. memp_free cf t (Some a) s' = Inr s'' \<and> memp_ok cf base s'' fl))"
proof (cases "fl t")
  case Nil
  then show ?thesis using memp_malloc_none[OF assms(2,3) Nil] by auto
next
  case (Cons a as)
  from memp_malloc_some[OF assms this] obtain s' where
    s': "memp_malloc cf t s = Inr (s', Some a)" "memp_ok cf base s' (fl(t := as))" by blast
  have a: "a \<in> pool_elems cf base t" "a \<notin> set as" using assms(2,3) Cons by (auto simp: memp_ok_def)
  have "\<exists>s''. memp_free cf t (Some a) s' = Inr s'' \<and> memp_ok cf base s'' fl"
    using memp_free_some[OF assms(1) s'(2) assms(3) a(1)] a(2) Cons by (simp add: fun_upd_idem)
  then show ?thesis using s' Cons by auto
qed

theorem memp_malloc_free_inverse_witness:
  "\<nexists>s'. memp_malloc memp_example 0 (memp_init memp_example 1000 memp_blank) = Inr (s', None)"
  using memp_malloc_free_inverse[OF memp_example_ok(1) memp_init_ok[OF memp_example_ok(1)], of 0 1000 memp_blank]
    memp_example_ok(2)
  by (auto simp: carve_def memp_example_def)

end
