(* ===== verification/Fec_Tag.thy ===== *)
theory Fec_Tag
  imports Prelude
begin

text \<open>
  The packet tag of the forward error correction module (contrib/fec/model/fec-tag.cc), written
  to and read from the tag buffer of ns-3 (src/network/model/tag-buffer.cc), and the packets that
  carry it: a tag, the headers from the outermost inwards, and a zero-filled payload.
\<close>

section \<open>Outcomes of the C++ code\<close>

text \<open>
  A method either returns, or an NS\_ASSERT fails, or it divides by zero, or it reads the front of an empty queue, or it
  reads an uninitialised local, or one of its loops spins for ever.
\<close>

datatype ns3_err = NsAssert string | DivByZero | EmptyFront | Indeterminate | Spin

type_synonym 'a ns3 = "ns3_err + 'a"

definition ns3_bind :: "'a ns3 \<Rightarrow> ('a \<Rightarrow> 'b ns3) \<Rightarrow> 'b ns3" where
  "ns3_bind m k = (case m of Inl e \<Rightarrow> Inl e | Inr x \<Rightarrow> k x)"

named_theorems ns3_outcome "inversion of successful outcomes"

lemma ns3_bind_simps [simp]:
  "ns3_bind (Inr x) k = k x" "ns3_bind (Inl e) k = Inl e"
  by (simp_all add: ns3_bind_def)

lemma ns3_bind_Inr [ns3_outcome]:
  "ns3_bind m k = Inr y \<longleftrightarrow> (\<exists>x. m = Inr x \<and> k x = Inr y)"
  by (cases m) simp_all

section \<open>Tag buffers\<close>

record TagBuffer =
  tb_data :: "8 word list"
  tb_current :: nat
  tb_end :: nat

definition TagBuffer_WriteU8 :: "TagBuffer \<Rightarrow> 8 word \<Rightarrow> TagBuffer ns3" where
  "TagBuffer_WriteU8 i v = (
    if tb_current i + 1 \<le> tb_end i
    then Inr (i\<lparr>tb_data := (tb_data i)[tb_current i := v], tb_current := tb_current i + 1\<rparr>)
    else Inl (NsAssert ''m_current + 1 <= m_end''))"

definition TagBuffer_WriteU32 :: "TagBuffer \<Rightarrow> 32 word \<Rightarrow> TagBuffer ns3" where
  "TagBuffer_WriteU32 i data =
    ns3_bind (TagBuffer_WriteU8 i (ucast (drop_bit 0 data AND 0xff))) (\<lambda>i.
    ns3_bind (TagBuffer_WriteU8 i (ucast (drop_bit 8 data AND 0xff))) (\<lambda>i.
    ns3_bind (TagBuffer_WriteU8 i (ucast (drop_bit 16 data AND 0xff))) (\<lambda>i.
    TagBuffer_WriteU8 i (ucast (drop_bit 24 data AND 0xff)))))"

definition TagBuffer_ReadU8 :: "TagBuffer \<Rightarrow> (8 word \<times> TagBuffer) ns3" where
  "TagBuffer_ReadU8 i = (
    if tb_current i + 1 \<le> tb_end i
    then Inr (tb_data i ! tb_current i, i\<lparr>tb_current := tb_current i + 1\<rparr>)
    else Inl (NsAssert ''m_current + 1 <= m_end''))"

definition TagBuffer_ReadU32 :: "TagBuffer \<Rightarrow> (32 word \<times> TagBuffer) ns3" where
  "TagBuffer_ReadU32 i =
    ns3_bind (TagBuffer_ReadU8 i) (\<lambda>(byte0, i).
    ns3_bind (TagBuffer_ReadU8 i) (\<lambda>(byte1, i).
    ns3_bind (TagBuffer_ReadU8 i) (\<lambda>(byte2, i).
    ns3_bind (TagBuffer_ReadU8 i) (\<lambda>(byte3, i).
    let data = ucast byte3;
        data = push_bit 8 data OR ucast byte2;
        data = push_bit 8 data OR ucast byte1;
        data = push_bit 8 data OR ucast byte0
    in Inr (data, i)))))"

section \<open>The tag\<close>

record FecTag =
  tag_type :: "8 word"
  tag_serial :: "32 word"
  tag_roundId :: "32 word"
  tag_groupId :: "8 word"
  tag_nGroups :: "8 word"

text \<open>The constructor leaves the type uninitialised: it is an argument here.\<close>

definition FecTag_new :: "8 word \<Rightarrow> FecTag" where
  "FecTag_new garbage = \<lparr>tag_type = garbage, tag_serial = 0, tag_roundId = 0, tag_groupId = 0, tag_nGroups = 0\<rparr>"

definition FecTag_GetSerializedSize :: "FecTag \<Rightarrow> 32 word" where
  "FecTag_GetSerializedSize t = 1 + 4 + 4 + 1 + 1"

definition FecTag_Serialize :: "FecTag \<Rightarrow> TagBuffer \<Rightarrow> TagBuffer ns3" where
  "FecTag_Serialize t i =
    ns3_bind (TagBuffer_WriteU8 i (tag_type t)) (\<lambda>i.
    ns3_bind (TagBuffer_WriteU32 i (tag_serial t)) (\<lambda>i.
    ns3_bind (TagBuffer_WriteU32 i (tag_roundId t)) (\<lambda>i.
    ns3_bind (TagBuffer_WriteU8 i (tag_groupId t)) (\<lambda>i.
    TagBuffer_WriteU8 i (tag_nGroups t)))))"

definition FecTag_Deserialize :: "TagBuffer \<Rightarrow> FecTag ns3" where
  "FecTag_Deserialize i =
    ns3_bind (TagBuffer_ReadU8 i) (\<lambda>(typ, i).
    ns3_bind (TagBuffer_ReadU32 i) (\<lambda>(serial, i).
    ns3_bind (TagBuffer_ReadU32 i) (\<lambda>(roundId, i).
    ns3_bind (TagBuffer_ReadU8 i) (\<lambda>(groupId, i).
    ns3_bind (TagBuffer_ReadU8 i) (\<lambda>(nGroups, i).
    Inr \<lparr>tag_type = typ, tag_serial = serial, tag_roundId = roundId,
      tag_groupId = groupId, tag_nGroups = nGroups\<rparr>)))))"

text \<open>The text FecTag::Print writes for the type: the cases of its switch have no break.\<close>

definition FecTag_Print_type :: "8 word \<Rightarrow> string" where
  "FecTag_Print_type typ =
    (if typ = 0 then ''NONE'' else '''') @
    (if typ \<le> 1 then ''DATA'' else '''') @
    (if typ \<le> 2 then ''REDUNDANT'' else '''') @
    (if typ \<le> 3 then ''RETRASMISSION'' else '''') @
    (if typ \<le> 4 then ''RECOVERED'' else '''') @
    (if typ \<le> 5 then ''RxREQUEST'' else '''')"

section \<open>Headers and packets\<close>

text \<open>
  The members of TcpHeader and Ipv4Header that are read or written, with the checksums off, as they
  are unless a simulation sets ChecksumEnabled; the contents of the TCP options are left out.
\<close>

record TcpHeader =
  m_sourcePort :: "16 word"
  m_destinationPort :: "16 word"
  m_sequenceNumber :: "32 word"
  m_ackNumber :: "32 word"
  m_length :: "8 word"
  m_flags :: "8 word"
  m_windowSize :: "16 word"
  m_urgentPointer :: "16 word"

definition TcpHeader_new :: TcpHeader where
  "TcpHeader_new = \<lparr>m_sourcePort = 0, m_destinationPort = 0, m_sequenceNumber = 0, m_ackNumber = 0,
    m_length = 5, m_flags = 0, m_windowSize = 0xffff, m_urgentPointer = 0\<rparr>"

record Ipv4Header =
  m_source :: "32 word"
  m_destination :: "32 word"
  m_protocol :: "8 word"
  m_payloadSize :: "16 word"
  m_identification :: "16 word"
  m_tos :: "8 word"
  m_ttl :: "8 word"
  m_ipflags :: "3 word"
  m_fragmentOffset :: "16 word"

text \<open>The default Ipv4Address is the reserved value 102.102.102.102.\<close>

definition Ipv4Header_new :: Ipv4Header where
  "Ipv4Header_new = \<lparr>m_source = 0x66666666, m_destination = 0x66666666, m_protocol = 0,
    m_payloadSize = 0, m_identification = 0, m_tos = 0, m_ttl = 0, m_ipflags = 0, m_fragmentOffset = 0\<rparr>"

text \<open>The only member of a PppHeader is the protocol number.\<close>

datatype header = TcpH TcpHeader | IpH Ipv4Header | PppH "16 word"

record Packet =
  pkt_tag :: "FecTag option"
  pkt_headers :: "header list"
  pkt_payload :: "32 word"

fun header_size :: "header \<Rightarrow> 32 word" where
  "header_size (TcpH h) = ucast (m_length h) * 4"
| "header_size (IpH h) = 20"
| "header_size (PppH protocol) = 2"

definition GetSize :: "Packet \<Rightarrow> 32 word" where
  "GetSize p = foldr (\<lambda>h n. header_size h + n) (pkt_headers p) (pkt_payload p)"

definition Create_Packet :: "32 word \<Rightarrow> Packet" where
  "Create_Packet n = \<lparr>pkt_tag = None, pkt_headers = [], pkt_payload = n\<rparr>"

text \<open>A second tag of the same kind fails the assertion of PacketTagList::Add.\<close>

definition AddPacketTag :: "FecTag \<Rightarrow> Packet \<Rightarrow> Packet ns3" where
  "AddPacketTag t p = (case pkt_tag p of
      None \<Rightarrow> Inr (p\<lparr>pkt_tag := Some t\<rparr>)
    | Some _ \<Rightarrow> Inl (NsAssert ''Error: cannot add the same kind of tag twice.''))"

text \<open>
  A packet without the tag leaves the local tag as constructed, with its type indeterminate;
  every caller goes on to read that type.
\<close>

definition PeekPacketTag :: "Packet \<Rightarrow> FecTag ns3" where
  "PeekPacketTag p = (case pkt_tag p of None \<Rightarrow> Inl Indeterminate | Some t \<Rightarrow> Inr t)"

definition RemovePacketTag :: "Packet \<Rightarrow> Packet" where
  "RemovePacketTag p = p\<lparr>pkt_tag := None\<rparr>"

definition AddHeader :: "header \<Rightarrow> Packet \<Rightarrow> Packet" where
  "AddHeader h p = p\<lparr>pkt_headers := h # pkt_headers p\<rparr>"

text \<open>
  The octets of the headers that the network device puts in front of a TCP header, and a TcpHeader
  read from octets. The options of a header length above five words are not modelled; a length below
  five wraps to more octets of options than there can be, and they are discarded.
\<close>

definition WriteHtonU16 :: "16 word \<Rightarrow> 8 word list" where
  "WriteHtonU16 data = [ucast (drop_bit 8 data), ucast data]"

definition WriteHtonU32 :: "32 word \<Rightarrow> 8 word list" where
  "WriteHtonU32 data = [ucast (drop_bit 24 data), ucast (drop_bit 16 data), ucast (drop_bit 8 data), ucast data]"

definition ReadNtohU16 :: "nat \<Rightarrow> 8 word list \<Rightarrow> 16 word" where
  "ReadNtohU16 i bs = push_bit 8 (ucast (bs ! i)) OR ucast (bs ! (i + 1))"

definition ReadNtohU32 :: "nat \<Rightarrow> 8 word list \<Rightarrow> 32 word" where
  "ReadNtohU32 i bs = push_bit 8 (push_bit 8 (push_bit 8 (ucast (bs ! i)) OR ucast (bs ! (i + 1)))
    OR ucast (bs ! (i + 2))) OR ucast (bs ! (i + 3))"

definition Ipv4Header_Serialize :: "Ipv4Header \<Rightarrow> 8 word list" where
  "Ipv4Header_Serialize h =
    (let verIhl = push_bit 4 4 OR 5;
         fragmentOffset = drop_bit 3 (ucast (m_fragmentOffset h) :: 32 word);
         flagsFrag = (ucast (drop_bit 8 fragmentOffset) AND 0x1f :: 8 word);
         flagsFrag = (if bit (m_ipflags h) 0 then flagsFrag OR push_bit 6 1 else flagsFrag);
         flagsFrag = (if bit (m_ipflags h) 1 then flagsFrag OR push_bit 5 1 else flagsFrag);
         frag = ucast (fragmentOffset AND 0xff)
     in [verIhl, m_tos h] @ WriteHtonU16 (m_payloadSize h + 5 * 4) @ WriteHtonU16 (m_identification h) @
        [flagsFrag, frag, m_ttl h, m_protocol h] @ WriteHtonU16 0 @
        WriteHtonU32 (m_source h) @ WriteHtonU32 (m_destination h))"

definition PppHeader_Serialize :: "16 word \<Rightarrow> 8 word list" where
  "PppHeader_Serialize protocol = WriteHtonU16 protocol"

definition TcpHeader_Deserialize :: "8 word list \<Rightarrow> TcpHeader ns3" where
  "TcpHeader_Deserialize bs =
    (let field = ReadNtohU16 12 bs;
         len = (ucast (drop_bit 12 field) :: 8 word)
     in if len > 5 then Inl Indeterminate
        else Inr \<lparr>m_sourcePort = ReadNtohU16 0 bs, m_destinationPort = ReadNtohU16 2 bs,
          m_sequenceNumber = ReadNtohU32 4 bs, m_ackNumber = ReadNtohU32 8 bs, m_length = len,
          m_flags = ucast (field AND 0xff), m_windowSize = ReadNtohU16 14 bs, m_urgentPointer = ReadNtohU16 18 bs\<rparr>)"

text \<open>
  RemoveHeader for a TcpHeader: the callers always have one outermost. PeekHeader for a TcpHeader also
  meets a packet that the device has taken, and reads the octets of its PPP and IP headers. For an
  Ipv4Header, Ipv4Header::Deserialize refuses bytes whose first nibble is not 4 and then removes nothing:
  that is what happens on the zero-filled payload, and on a TCP or PPP header unless its source port or
  protocol number starts with that nibble.
\<close>

definition RemoveTcpHeader :: "Packet \<Rightarrow> (TcpHeader \<times> Packet) ns3" where
  "RemoveTcpHeader p = (case pkt_headers p of
      TcpH h # hs \<Rightarrow> Inr (h, p\<lparr>pkt_headers := hs\<rparr>)
    | _ \<Rightarrow> Inl Indeterminate)"

definition PeekTcpHeader :: "Packet \<Rightarrow> TcpHeader ns3" where
  "PeekTcpHeader p = (case pkt_headers p of
      TcpH h # hs \<Rightarrow> Inr h
    | PppH protocol # IpH h # hs \<Rightarrow> TcpHeader_Deserialize (PppHeader_Serialize protocol @ Ipv4Header_Serialize h)
    | _ \<Rightarrow> Inl Indeterminate)"

definition RemoveIpv4Header :: "Packet \<Rightarrow> (Ipv4Header \<times> Packet) ns3" where
  "RemoveIpv4Header p = (case pkt_headers p of
      [] \<Rightarrow> Inr (Ipv4Header_new, p)
    | IpH h # hs \<Rightarrow> Inr (h, p\<lparr>pkt_headers := hs\<rparr>)
    | TcpH h # hs \<Rightarrow> (if drop_bit 12 (m_sourcePort h) = 4 then Inl Indeterminate else Inr (Ipv4Header_new, p))
    | PppH protocol # hs \<Rightarrow> (if drop_bit 12 protocol = 4 then Inl Indeterminate else Inr (Ipv4Header_new, p)))"

text \<open>
  Behind a PPP and an IP header the octets that PeekHeader takes for the header length are the
  zeros of the IP checksum, so that it reads a header without options and without flags.
\<close>

lemma ReadNtohU16_zero: "bs ! i = 0 \<Longrightarrow> bs ! (i + 1) = 0 \<Longrightarrow> ReadNtohU16 i bs = 0"
  by (simp add: ReadNtohU16_def)

lemma PeekTcpHeader_behind_ip:
  assumes "pkt_headers p = PppH protocol # IpH h # hs"
  shows "\<exists>t. PeekTcpHeader p = Inr t \<and> m_sourcePort t = protocol \<and> m_length t = 0 \<and> m_flags t = 0"
proof -
  let ?bs = "PppHeader_Serialize protocol @ Ipv4Header_Serialize h"
  have field: "ReadNtohU16 12 ?bs = 0"
    by (rule ReadNtohU16_zero) (simp_all add: PppHeader_Serialize_def Ipv4Header_Serialize_def WriteHtonU16_def Let_def)
  have port: "ReadNtohU16 0 ?bs = protocol"
    by (rule bit_word_eqI) (auto simp: ReadNtohU16_def PppHeader_Serialize_def WriteHtonU16_def bit_simps)
  show ?thesis using assms by (simp add: PeekTcpHeader_def TcpHeader_Deserialize_def field port)
qed

section \<open>Round trip of the tag\<close>

lemma ReadU32_bytes:
  fixes data :: "32 word"
  shows "((push_bit 24 (ucast (ucast (drop_bit 24 data AND 0xff) :: 8 word)) OR
      push_bit 16 (ucast (ucast (drop_bit 16 data AND 0xff) :: 8 word))) OR
      push_bit 8 (ucast (ucast (drop_bit 8 data AND 0xff) :: 8 word))) OR
      ucast (ucast (data AND 0xff) :: 8 word) = data" (is "?lhs = data")
proof (rule bit_word_eqI)
  fix n assume "n < LENGTH(32)"
  then consider "n < 8" | "8 \<le> n" "n < 16" | "16 \<le> n" "n < 24" | "24 \<le> n" "n < 32" by force
  then show "bit ?lhs n = bit data n"
    by cases (auto simp: byte_masks bit_simps)
qed

lemma WriteU8_Inr:
  "tb_current i < tb_end i \<Longrightarrow>
    TagBuffer_WriteU8 i v = Inr (i\<lparr>tb_data := (tb_data i)[tb_current i := v], tb_current := Suc (tb_current i)\<rparr>)"
  by (simp add: TagBuffer_WriteU8_def)

lemma ReadU8_Inr:
  "tb_current i < tb_end i \<Longrightarrow>
    TagBuffer_ReadU8 i = Inr (tb_data i ! tb_current i, i\<lparr>tb_current := Suc (tb_current i)\<rparr>)"
  by (simp add: TagBuffer_ReadU8_def)

text \<open>
  Claim C30. Eleven bytes of buffer, the size FecTag::GetSerializedSize announces, are enough for
  FecTag::Serialize, it moves the cursor by exactly that many bytes, and reading the buffer back with
  FecTag::Deserialize from where the writer started gives the tag it was called on, whatever the
  tag and the former contents of the buffer.
\<close>
theorem FecTag_roundtrip:
  assumes "tb_current i + unat (FecTag_GetSerializedSize t) \<le> tb_end i" "tb_end i \<le> length (tb_data i)"
  shows "\<exists>i'. FecTag_Serialize t i = Inr i' \<and>
    tb_current i' = tb_current i + unat (FecTag_GetSerializedSize t) \<and>
    FecTag_Deserialize (i'\<lparr>tb_current := tb_current i\<rparr>) = Inr t"
  using assms
  by (simp add: FecTag_GetSerializedSize_def FecTag_Serialize_def FecTag_Deserialize_def
      TagBuffer_WriteU32_def TagBuffer_ReadU32_def WriteU8_Inr ReadU8_Inr ReadU32_bytes)

theorem FecTag_roundtrip_witness:
  "FecTag_Deserialize ((projr (FecTag_Serialize
      \<lparr>tag_type = 2, tag_serial = 0x12345678, tag_roundId = 7, tag_groupId = 3, tag_nGroups = 4\<rparr>
      \<lparr>tb_data = replicate 12 0, tb_current = 1, tb_end = 12\<rparr>))\<lparr>tb_current := 1\<rparr>) =
    Inr \<lparr>tag_type = 2, tag_serial = 0x12345678, tag_roundId = 7, tag_groupId = 3, tag_nGroups = 4\<rparr>"
  using FecTag_roundtrip [of "\<lparr>tb_data = replicate 12 0, tb_current = 1, tb_end = 12\<rparr>"
      "\<lparr>tag_type = 2, tag_serial = 0x12345678, tag_roundId = 7, tag_groupId = 3, tag_nGroups = 4\<rparr>"]
  by (auto simp: FecTag_GetSerializedSize_def)

text \<open>The switch of FecTag::Print prints the names of all later types after the right one.\<close>

lemma FecTag_Print_falls_through:
  "FecTag_Print_type 4 = ''RECOVEREDRxREQUEST''"
  "FecTag_Print_type 1 = ''DATAREDUNDANTRETRASMISSIONRECOVEREDRxREQUEST''"
  by (simp_all add: FecTag_Print_type_def word_le_nat_alt)

end
