(* ===== verification/Fec_Core.thy ===== *)
theory Fec_Core
  imports Fec_Tag "HOL-Library.AList" "HOL-Library.Multiset"
begin

text \<open>
  The tables that FecAgent and FecRouterAgent (contrib/fec/model) have in common: the queue of round
  tables, the queue of group tables and the transit queue, with the loops over them. The sender
  appends to the tables at the back, the receiver of the same flow, which holds the same agent,
  marks and consumes them at the front.
\<close>

section \<open>Data\<close>

text \<open>
  PacketInfo: the group id is a uint8\_t in fec-agent.h and a uint32\_t in fec-router-agent.h; both store
  a uint8\_t in it and compare it with one, so the wider type holds the same values. The member rexmit\_ of fec-agent.h is neither read nor written anywhere.
\<close>

record PacketInfo =
  pi_serial :: "32 word"
  pi_check :: bool
  pi_gid :: "32 word"
  pi_type :: bool
  pi_tcp :: TcpHeader
  pi_flag :: bool

record 'p RoundFecTable =
  rt_rid :: "32 word"
  rt_nGroups :: "8 word"
  rt_pi :: "'p list"

text \<open>The std::map gi\_ is an association list; reading a missing key inserts an empty list.\<close>

record 'p GroupFecTable =
  gt_rid :: "32 word"
  gt_nGroups :: "8 word"
  gt_gi :: "(32 word \<times> 'p list) list"

record TransitQueue =
  tq_serial :: "32 word"
  tq_p :: Packet

record 'p fec_core =
  rtq :: "'p RoundFecTable list"
  gtq :: "'p GroupFecTable list"
  tqq :: "TransitQueue list"
  m_fwin :: "32 word"
  m_nGroups :: "8 word"
  m_segmentSize :: "32 word"
  m_serial :: "32 word"
  m_roundId :: "32 word"
  m_groupId :: "8 word"
  m_sentdatapkt :: "32 word"
  m_lostdatapkt :: "32 word"
  m_sentfecpkt :: "32 word"
  m_lostfecpkt :: "32 word"
  m_recover :: "32 word"
  m_printRoundFecTable :: bool
  m_printGroupFecTable :: bool

definition gi_at :: "(32 word \<times> 'p list) list \<Rightarrow> 32 word \<Rightarrow> 'p list" where
  "gi_at gi k = (case map_of gi k of None \<Rightarrow> [] | Some ps \<Rightarrow> ps)"

definition gi_put :: "32 word \<Rightarrow> 'p list \<Rightarrow> (32 word \<times> 'p list) list \<Rightarrow> (32 word \<times> 'p list) list" where
  "gi_put k ps gi = AList.update k ps gi"

text \<open>The two push\_back calls, on the last round table and on group g of the last group table.\<close>

definition push_tables :: "8 word \<Rightarrow> 'p \<Rightarrow> ('p, 'z) fec_core_scheme \<Rightarrow> ('p, 'z) fec_core_scheme ns3" where
  "push_tables g p s = (
    if gtq s = [] \<or> rtq s = [] then Inl EmptyFront
    else let gt = last (gtq s); rt = last (rtq s) in
      Inr (s\<lparr>gtq := butlast (gtq s) @ [gt\<lparr>gt_gi := gi_put (ucast g) (gi_at (gt_gi gt) (ucast g) @ [p]) (gt_gi gt)\<rparr>],
             rtq := butlast (rtq s) @ [rt\<lparr>rt_pi := rt_pi rt @ [p]\<rparr>]\<rparr>))"

section \<open>The transit queue\<close>

definition InsertTransitQueue :: "Packet \<Rightarrow> 32 word \<Rightarrow> ('p, 'z) fec_core_scheme \<Rightarrow> ('p, 'z) fec_core_scheme" where
  "InsertTransitQueue packet serial s = s\<lparr>tqq :=
    takeWhile (\<lambda>e. \<not> tq_serial e > serial) (tqq s) @ \<lparr>tq_serial = serial, tq_p = packet\<rparr> #
    dropWhile (\<lambda>e. \<not> tq_serial e > serial) (tqq s)\<rparr>"

definition TransitQueueSize :: "('p, 'z) fec_core_scheme \<Rightarrow> 32 word" where
  "TransitQueueSize s = (if tqq s \<noteq> [] then of_nat (length (tqq s)) else 0)"

definition GetPacket :: "('p, 'z) fec_core_scheme \<Rightarrow> (Packet \<times> ('p, 'z) fec_core_scheme) ns3" where
  "GetPacket s = (case tqq s of [] \<Rightarrow> Inl EmptyFront | e # es \<Rightarrow> Inr (tq_p e, s\<lparr>tqq := es\<rparr>))"

section \<open>The round tables\<close>

text \<open>What PrintRoundFecTable changes: the two loss counters, by the unmarked entries of the table.\<close>

fun count_lost :: "bool \<Rightarrow> 'x PacketInfo_scheme list \<Rightarrow> 32 word" where
  "count_lost typ [] = 0"
| "count_lost typ (p # ps) = (if pi_type p = typ \<and> \<not> pi_check p then 1 else 0) + count_lost typ ps"

definition PrintRoundFecTable :: "'x PacketInfo_scheme RoundFecTable \<Rightarrow>
    ('x PacketInfo_scheme, 'z) fec_core_scheme \<Rightarrow> ('x PacketInfo_scheme, 'z) fec_core_scheme" where
  "PrintRoundFecTable t s = s\<lparr>
    m_lostdatapkt := m_lostdatapkt s + count_lost False (rt_pi t),
    m_lostfecpkt := m_lostfecpkt s + count_lost True (rt_pi t)\<rparr>"

text \<open>The loop that drops the rounds before the one of the packet.\<close>

fun pop_rounds :: "32 word \<Rightarrow> ('x PacketInfo_scheme, 'z) fec_core_scheme \<Rightarrow>
    'x PacketInfo_scheme RoundFecTable list \<Rightarrow> ('x PacketInfo_scheme, 'z) fec_core_scheme ns3" where
  "pop_rounds rid s [] = Inl EmptyFront"
| "pop_rounds rid s (t # ts) = (
    if rt_rid t < rid
    then pop_rounds rid (if m_printRoundFecTable s then PrintRoundFecTable t s else s) ts
    else Inr (s\<lparr>rtq := t # ts\<rparr>))"

fun mark_entry :: "32 word \<Rightarrow> 8 word \<Rightarrow> 'x PacketInfo_scheme list \<Rightarrow>
    'x PacketInfo_scheme list option" where
  "mark_entry serial gid [] = None"
| "mark_entry serial gid (p # ps) = (
    if pi_serial p = serial \<and> pi_gid p = ucast gid then Some (p\<lparr>pi_check := True\<rparr> # ps)
    else map_option (Cons p) (mark_entry serial gid ps))"

definition enter_round :: "32 word \<Rightarrow> ('x PacketInfo_scheme, 'z) fec_core_scheme \<Rightarrow>
    'x PacketInfo_scheme RoundFecTable \<Rightarrow> ('x PacketInfo_scheme, 'z) fec_core_scheme ns3" where
  "enter_round rid s t = (if rid > rt_rid t then pop_rounds rid s (rtq s) else Inr s)"

text \<open>The body of MarkRoundFecTable, the same text in both classes.\<close>

definition mark_round :: "Packet \<Rightarrow> ('x PacketInfo_scheme, 'z) fec_core_scheme \<Rightarrow>
    ('x PacketInfo_scheme, 'z) fec_core_scheme ns3" where
  "mark_round packet s =
    ns3_bind (PeekPacketTag packet) (\<lambda>tag.
    case rtq s of [] \<Rightarrow> Inl EmptyFront | t # _ \<Rightarrow>
    if tag_roundId tag < rt_rid t then Inr s
    else ns3_bind (enter_round (tag_roundId tag) s t) (\<lambda>s.
      case rtq s of [] \<Rightarrow> Inl EmptyFront | t # ts \<Rightarrow>
      if rt_rid t = tag_roundId tag
      then (case mark_entry (tag_serial tag) (tag_groupId tag) (rt_pi t) of
          None \<Rightarrow> Inl Spin
        | Some pi \<Rightarrow> Inr (s\<lparr>rtq := t\<lparr>rt_pi := pi\<rparr> # ts\<rparr>))
      else Inl Spin))"

text \<open>The end of CheckRoundFecTable: the redundant packet of the last group closes the round.\<close>

definition close_round :: "FecTag \<Rightarrow> ('x PacketInfo_scheme, 'z) fec_core_scheme \<Rightarrow>
    ('x PacketInfo_scheme, 'z) fec_core_scheme ns3" where
  "close_round tag s = (case rtq s of [] \<Rightarrow> Inl EmptyFront | t # ts \<Rightarrow>
    if tag_type tag = 2 \<and> uint (tag_groupId tag) = uint (rt_nGroups t) - 1
    then Inr ((if m_printRoundFecTable s then PrintRoundFecTable t s else s)\<lparr>rtq := ts\<rparr>)
    else Inr s)"

section \<open>The group tables\<close>

text \<open>
  What PrintGroupFecTable changes: on a non-empty map, operator[] creates the groups 0 to groupId;
  its counter is a uint8\_t, so that the loop does not end for the group id 255.
\<close>

definition PrintGroupFecTable :: "8 word \<Rightarrow> 'p GroupFecTable \<Rightarrow> 'p GroupFecTable ns3" where
  "PrintGroupFecTable groupId t = (
    if gt_gi t = [] then Inr t
    else if groupId = 255 then Inl Spin
    else Inr (t\<lparr>gt_gi := fold (\<lambda>i gi. gi_put (of_nat i) (gi_at gi (of_nat i)) gi)
      [0 ..< Suc (unat groupId)] (gt_gi t)\<rparr>))"

text \<open>
  The loop that drops the groups before the round of the packet. With printing enabled it prints
  each group of the table it drops; the group ids are below nGroups\_ and so below 255.
\<close>

fun pop_groups :: "32 word \<Rightarrow> 'p GroupFecTable list \<Rightarrow> 'p GroupFecTable list ns3" where
  "pop_groups rid [] = Inl EmptyFront"
| "pop_groups rid (t # ts) = (if gt_rid t < rid then pop_groups rid ts else Inr (t # ts))"

fun mark_group_entry :: "32 word \<Rightarrow> 32 word \<Rightarrow> 'x PacketInfo_scheme list \<Rightarrow>
    (32 word \<times> 'x PacketInfo_scheme list) option" where
  "mark_group_entry serial nlost [] = None"
| "mark_group_entry serial nlost (p # ps) = (
    if pi_serial p = serial then Some (nlost, p\<lparr>pi_check := True\<rparr> # ps)
    else map_option (\<lambda>(n, ps). (n, p # ps))
      (mark_group_entry serial (if pi_serial p < serial \<and> \<not> pi_check p then nlost + 1 else nlost) ps))"

text \<open>The body of MarkGroupFecTable, the same text in both classes. It starts with a look at the round queue.\<close>

definition mark_group :: "Packet \<Rightarrow> ('x PacketInfo_scheme, 'z) fec_core_scheme \<Rightarrow>
    (32 word \<times> ('x PacketInfo_scheme, 'z) fec_core_scheme) ns3" where
  "mark_group packet s =
    ns3_bind (PeekPacketTag packet) (\<lambda>tag.
    case rtq s of [] \<Rightarrow> Inl EmptyFront | r # _ \<Rightarrow>
    if tag_roundId tag < rt_rid r then Inr (0, s)
    else ns3_bind (pop_groups (tag_roundId tag) (gtq s)) (\<lambda>gts.
      case gts of [] \<Rightarrow> Inl EmptyFront | t # ts \<Rightarrow>
      if gt_rid t = tag_roundId tag
      then (case mark_group_entry (tag_serial tag) 0 (gi_at (gt_gi t) (ucast (tag_groupId tag))) of
          None \<Rightarrow> Inl Spin
        | Some (nlost, pi) \<Rightarrow>
            Inr (nlost, s\<lparr>gtq := t\<lparr>gt_gi := gi_put (ucast (tag_groupId tag)) pi (gt_gi t)\<rparr> # ts\<rparr>))
      else Inl Spin))"

text \<open>
  The loop of CheckGroupFecTable up to the redundant packet's own entry: the count mlost and the
  entry that rec\_serial and oldTcpHeader were last copied from.
\<close>

fun check_group_entries :: "32 word \<Rightarrow> 32 word \<Rightarrow> 32 word \<Rightarrow> 'x PacketInfo_scheme option \<Rightarrow>
    'x PacketInfo_scheme list \<Rightarrow> (32 word \<times> 'x PacketInfo_scheme option) option" where
  "check_group_entries serial nlost mlost found [] = None"
| "check_group_entries serial nlost mlost found (p # ps) = (
    if pi_serial p = serial then Some (mlost, found)
    else if pi_serial p < serial \<and> \<not> pi_check p
    then check_group_entries serial nlost (mlost + 1) (if nlost = 1 then Some p else found) ps
    else check_group_entries serial nlost mlost found ps)"

text \<open>
  The body of CheckGroupFecTable; recover is what the class does with the entry it recovers.
\<close>

definition check_group :: "('x PacketInfo_scheme \<Rightarrow> ('x PacketInfo_scheme, 'z) fec_core_scheme \<Rightarrow>
      ('x PacketInfo_scheme, 'z) fec_core_scheme ns3) \<Rightarrow>
    Packet \<Rightarrow> 32 word \<Rightarrow> ('x PacketInfo_scheme, 'z) fec_core_scheme \<Rightarrow>
    (32 word \<times> ('x PacketInfo_scheme, 'z) fec_core_scheme) ns3" where
  "check_group recover packet nlost s =
    ns3_bind (PeekPacketTag packet) (\<lambda>tag.
    case rtq s of [] \<Rightarrow> Inl EmptyFront | r # _ \<Rightarrow>
    if tag_roundId tag < rt_rid r then Inr (0, s)
    else ns3_bind (pop_groups (tag_roundId tag) (gtq s)) (\<lambda>gts.
      case gts of [] \<Rightarrow> Inl EmptyFront | t # ts \<Rightarrow>
      if gt_rid t = tag_roundId tag
      then (case check_group_entries (tag_serial tag) nlost 0 None (gi_at (gt_gi t) (ucast (tag_groupId tag))) of
          None \<Rightarrow> Inl Spin
        | Some (mlost, found) \<Rightarrow>
            ns3_bind (if nlost = 1 \<and> mlost = 1
                then (case found of None \<Rightarrow> Inl Indeterminate | Some p \<Rightarrow> recover p s) else Inr s) (\<lambda>s.
            ns3_bind (if m_printGroupFecTable s then PrintGroupFecTable (tag_groupId tag) t else Inr t) (\<lambda>t.
            Inr (mlost, s\<lparr>gtq := t\<lparr>gt_gi := gi_put (ucast (tag_groupId tag)) [] (gt_gi t)\<rparr> # ts\<rparr>))))
      else Inl Spin))"

section \<open>The transit queue in order\<close>

definition tq_sorted :: "('p, 'z) fec_core_scheme \<Rightarrow> bool" where
  "tq_sorted s = sorted (map tq_serial (tqq s))"

lemma tqq_InsertTransitQueue:
  "tqq (InsertTransitQueue packet serial s) =
    takeWhile (\<lambda>e. tq_serial e \<le> serial) (tqq s) @ \<lparr>tq_serial = serial, tq_p = packet\<rparr> #
    dropWhile (\<lambda>e. tq_serial e \<le> serial) (tqq s)"
  by (simp add: InsertTransitQueue_def not_less)

lemma InsertTransitQueue_frame [simp]:
  "rtq (InsertTransitQueue packet serial s) = rtq s"
  "gtq (InsertTransitQueue packet serial s) = gtq s"
  "fec_core.more (InsertTransitQueue packet serial s) = fec_core.more s"
  by (simp_all add: InsertTransitQueue_def)

lemma InsertTransitQueue_mset:
  "mset (tqq (InsertTransitQueue packet serial s)) = add_mset \<lparr>tq_serial = serial, tq_p = packet\<rparr> (mset (tqq s))"
  unfolding tqq_InsertTransitQueue
  by simp (metis mset_append takeWhile_dropWhile_id)

lemma sorted_while_filter:
  fixes f :: "'a \<Rightarrow> 'b::linorder"
  assumes "sorted (map f xs)"
  shows "takeWhile (\<lambda>e. f e \<le> k) xs = filter (\<lambda>e. f e \<le> k) xs"
    and "dropWhile (\<lambda>e. f e \<le> k) xs = filter (\<lambda>e. k < f e) xs"
  using assms
proof (induction xs)
  case (Cons y ys)
  have le: "\<And>e. e \<in> set ys \<Longrightarrow> f y \<le> f e" if "sorted (map f (y # ys))" using that by auto
  {
    case 1
    show ?case
    proof (cases "f y \<le> k")
      case False
      then have "\<And>e. e \<in> set ys \<Longrightarrow> \<not> f e \<le> k" using le [OF 1] order_trans by blast
      then show ?thesis using False by simp
    qed (use 1 Cons in simp)
  next
    case 2
    show ?case
    proof (cases "f y \<le> k")
      case False
      then have "\<And>e. e \<in> set ys \<Longrightarrow> k < f e" using le [OF 2] by (meson not_le order_less_le_trans)
      then show ?thesis using False by (simp add: not_le)
    qed (use 2 Cons in simp)
  }
qed simp_all

lemma tqq_insert_sorted:
  "tq_sorted s \<Longrightarrow> tqq (InsertTransitQueue packet serial s) =
    filter (\<lambda>e. tq_serial e \<le> serial) (tqq s) @ \<lparr>tq_serial = serial, tq_p = packet\<rparr> #
    filter (\<lambda>e. serial < tq_serial e) (tqq s)"
  unfolding tqq_InsertTransitQueue tq_sorted_def by (simp add: sorted_while_filter)

lemma InsertTransitQueue_sorted:
  "tq_sorted s \<Longrightarrow> tq_sorted (InsertTransitQueue packet serial s)"
  by (auto simp: tq_sorted_def tqq_insert_sorted [unfolded tq_sorted_def] sorted_append sorted_filter)

lemma InsertTransitQueue_stable:
  assumes "tq_sorted s"
  shows "filter (\<lambda>e. tq_serial e = j) (tqq (InsertTransitQueue packet serial s)) =
    filter (\<lambda>e. tq_serial e = j) (tqq s) @ (if serial = j then [\<lparr>tq_serial = serial, tq_p = packet\<rparr>] else [])"
proof -
  have "filter (\<lambda>e. tq_serial e \<le> serial \<and> tq_serial e = j) (tqq s) =
      (if j \<le> serial then filter (\<lambda>e. tq_serial e = j) (tqq s) else [])"
    "filter (\<lambda>e. serial < tq_serial e \<and> tq_serial e = j) (tqq s) =
      (if serial < j then filter (\<lambda>e. tq_serial e = j) (tqq s) else [])"
    by (auto simp: filter_empty_conv intro!: filter_cong)
  then show ?thesis
    using linorder_less_linear [of serial j] by (auto simp: tqq_insert_sorted [OF assms])
qed

text \<open>Taking packets until the queue is empty.\<close>

fun drain :: "nat \<Rightarrow> ('p, 'z) fec_core_scheme \<Rightarrow> (Packet list \<times> ('p, 'z) fec_core_scheme) ns3" where
  "drain 0 s = Inr ([], s)"
| "drain (Suc n) s = ns3_bind (GetPacket s) (\<lambda>(p, s). ns3_bind (drain n s) (\<lambda>(ps, s). Inr (p # ps, s)))"

lemma drain_all: "drain (length (tqq s)) s = Inr (map tq_p (tqq s), s\<lparr>tqq := []\<rparr>)"
proof (induction "tqq s" arbitrary: s)
  case (Cons e es)
  from Cons(1) [of "s\<lparr>tqq := es\<rparr>"] show ?case
    unfolding Cons(2) [symmetric] by (simp add: GetPacket_def Cons(2) [symmetric])
qed simp

text \<open>A batch of packets, inserted one after the other.\<close>

definition insert_all :: "(32 word \<times> Packet) list \<Rightarrow> ('p, 'z) fec_core_scheme \<Rightarrow> ('p, 'z) fec_core_scheme" where
  "insert_all = fold (\<lambda>(n, p). InsertTransitQueue p n)"

lemma insert_all_tqq:
  "tq_sorted s \<Longrightarrow> tq_sorted (insert_all batch s) \<and>
    mset (tqq (insert_all batch s)) =
      mset (tqq s) + mset (map (\<lambda>(n, p). \<lparr>tq_serial = n, tq_p = p\<rparr>) batch) \<and>
    filter (\<lambda>e. tq_serial e = j) (tqq (insert_all batch s)) =
      filter (\<lambda>e. tq_serial e = j) (tqq s @ map (\<lambda>(n, p). \<lparr>tq_serial = n, tq_p = p\<rparr>) batch)"
proof (induction batch arbitrary: s)
  case (Cons b batch)
  obtain n p where b: "b = (n, p)" by fastforce
  show ?case
    using Cons.IH [OF InsertTransitQueue_sorted [OF Cons.prems, of p n]] Cons.prems
    by (simp add: insert_all_def b InsertTransitQueue_mset InsertTransitQueue_stable)
qed (simp add: insert_all_def)

text \<open>
  Claim C14. Whatever batch of packets InsertTransitQueue puts into an empty transit queue, and in
  whatever order, as many calls of GetPacket take them out sorted by serial number, packets of the
  same serial number in the order they came, and leave the queue empty.
\<close>
theorem transit_queue_sorts:
  assumes "tqq s = []"
  shows "drain (length batch) (insert_all batch s) = Inr (map snd (sort_key fst batch), (insert_all batch s)\<lparr>tqq := []\<rparr>)"
proof -
  let ?entry = "\<lambda>(n, p). \<lparr>tq_serial = n, tq_p = p\<rparr>" and ?pair = "\<lambda>e. (tq_serial e, tq_p e)"
  let ?q = "tqq (insert_all batch s)"
  have "tq_sorted s" using assms by (simp add: tq_sorted_def)
  note q = insert_all_tqq [OF this, of batch]
  have id: "map (?pair \<circ> ?entry) batch = batch" by (rule map_idI) auto
  have mq: "mset ?q = mset (map ?entry batch)" using q assms by simp
  then have len: "length ?q = length batch" by (metis length_map mset_eq_length)
  have "sort_key fst batch = map ?pair ?q"
  proof (rule properties_for_sort_key)
    show "mset (map ?pair ?q) = mset batch" by (simp only: mset_map [of _ ?q] mq) (simp only: mset_map [symmetric] map_map id)
    show "sorted (map fst (map ?pair ?q))" using q by (simp add: tq_sorted_def comp_def)
    fix k assume "k \<in> set (map ?pair ?q)"
    have "filter (\<lambda>x. fst k = fst x) (map ?pair ?q) = map ?pair (filter (\<lambda>e. tq_serial e = fst k) ?q)"
      by (auto simp: filter_map comp_def intro!: arg_cong [of _ _ "map ?pair"] filter_cong)
    also have "\<dots> = map ?pair (map ?entry (filter (\<lambda>x. fst x = fst k) batch))"
      using q assms by (auto simp: filter_map comp_def case_prod_beta)
    also have "\<dots> = filter (\<lambda>x. fst k = fst x) batch"
      by (simp add: comp_def case_prod_beta eq_commute)
    finally show "filter (\<lambda>x. fst k = fst x) (map ?pair ?q) = filter (\<lambda>x. fst k = fst x) batch" .
  qed
  then show ?thesis using drain_all [of "insert_all batch s"] len by (simp add: comp_def)
qed

theorem transit_queue_sorts_witness:
  "map pkt_payload (fst (projr (drain (Suc (Suc (Suc 0))) (insert_all
      [(7, Create_Packet 70), (3, Create_Packet 30), (7, Create_Packet 71)]
      \<lparr>rtq = [] :: PacketInfo RoundFecTable list, gtq = [], tqq = [], m_fwin = 2, m_nGroups = 1, m_segmentSize = 1000, m_serial = 1,
       m_roundId = 1, m_groupId = 0, m_sentdatapkt = 0, m_lostdatapkt = 0, m_sentfecpkt = 0, m_lostfecpkt = 0,
       m_recover = 0, m_printRoundFecTable = False, m_printGroupFecTable = False\<rparr>)))) = [30, 70, 71]"
  using transit_queue_sorts [of "\<lparr>rtq = [] :: PacketInfo RoundFecTable list, gtq = [], tqq = [], m_fwin = 2, m_nGroups = 1, m_segmentSize = 1000, m_serial = 1,
       m_roundId = 1, m_groupId = 0, m_sentdatapkt = 0, m_lostdatapkt = 0, m_sentfecpkt = 0, m_lostfecpkt = 0,
       m_recover = 0, m_printRoundFecTable = False, m_printGroupFecTable = False\<rparr>"
      "[(7, Create_Packet 70), (3, Create_Packet 30), (7, Create_Packet 71)]"]
  by (simp add: Create_Packet_def sort_key_def word_le_nat_alt del: drain.simps)

section \<open>Losses before a packet\<close>

definition missing :: "32 word \<Rightarrow> 'x PacketInfo_scheme list \<Rightarrow> 'x PacketInfo_scheme list" where
  "missing serial ps = filter (\<lambda>p. \<not> pi_check p \<and> pi_serial p < serial) (takeWhile (\<lambda>p. pi_serial p \<noteq> serial) ps)"

fun mark_first :: "('x PacketInfo_scheme \<Rightarrow> bool) \<Rightarrow> 'x PacketInfo_scheme list \<Rightarrow> 'x PacketInfo_scheme list" where
  "mark_first P [] = []"
| "mark_first P (p # ps) = (if P p then p\<lparr>pi_check := True\<rparr> # ps else p # mark_first P ps)"

lemma mark_entry_eq:
  "mark_entry serial gid ps =
    (if \<exists>p\<in>set ps. pi_serial p = serial \<and> pi_gid p = ucast gid
     then Some (mark_first (\<lambda>p. pi_serial p = serial \<and> pi_gid p = ucast gid) ps) else None)"
  by (induction ps) auto

lemma mark_group_entry_eq:
  "mark_group_entry serial n ps =
    (if serial \<in> pi_serial ` set ps
     then Some (n + of_nat (length (missing serial ps)), mark_first (\<lambda>p. pi_serial p = serial) ps) else None)"
  by (induction ps arbitrary: n) (auto simp: missing_def)

lemma check_group_entries_eq:
  "check_group_entries serial nlost m found ps =
    (if serial \<in> pi_serial ` set ps
     then Some (m + of_nat (length (missing serial ps)),
       if nlost = 1 \<and> missing serial ps \<noteq> [] then Some (last (missing serial ps)) else found) else None)"
  by (induction ps arbitrary: m found) (auto simp: missing_def)

lemma missing_mark_first [simp]: "missing serial (mark_first (\<lambda>p. pi_serial p = serial) ps) = missing serial ps"
  by (induction ps) (auto simp: missing_def)

lemma mark_first_maps [simp]:
  "map pi_serial (mark_first P ps) = map pi_serial ps"
  "map pi_gid (mark_first P ps) = map pi_gid ps"
  "map pi_type (mark_first P ps) = map pi_type ps"
  by (induction ps) auto

lemma serial_mark_first [simp]: "pi_serial ` set (mark_first P ps) = pi_serial ` set ps"
  by (metis mark_first_maps(1) set_map)

lemma gi_at_put: "gi_at (gi_put k ps gi) k' = (if k' = k then ps else gi_at gi k')"
  by (simp add: gi_at_def gi_put_def update_conv')

end
