(* ===== verification/Fec_Router.thy ===== *)
theory Fec_Router
  imports Fec_Core
begin

text \<open>
  FecRouterAgent (contrib/fec/model/fec-router-agent.cc), the encoder and decoder between two routers,
  with the code of Ipv4L3ProtocolwithFecEncode and Ipv4L3ProtocolwithFecDecode that drives it.
\<close>

section \<open>State\<close>

record RouterPacketInfo = PacketInfo +
  pi_ip :: Ipv4Header

record FecRouterAgent = "RouterPacketInfo fec_core" +
  m_sendRxRequest :: bool
  m_storeMode :: bool
  lpq :: "Packet list"

definition FecRouterAgent_new :: "32 word \<Rightarrow> 8 word \<Rightarrow> 32 word \<Rightarrow> bool \<Rightarrow> bool \<Rightarrow> FecRouterAgent" where
  "FecRouterAgent_new fecWin numberofGroups segmentSize sendRxRequest storeMode =
    \<lparr>rtq = [], gtq = [], tqq = [], m_fwin = fecWin, m_nGroups = numberofGroups, m_segmentSize = segmentSize,
     m_serial = 1, m_roundId = 1, m_groupId = 0, m_sentdatapkt = 0, m_lostdatapkt = 0,
     m_sentfecpkt = 0, m_lostfecpkt = 0, m_recover = 0, m_printRoundFecTable = False, m_printGroupFecTable = False,
     m_sendRxRequest = sendRxRequest, m_storeMode = storeMode, lpq = []\<rparr>"

definition Router_GetFwin :: "FecRouterAgent \<Rightarrow> 32 word" where
  "Router_GetFwin s = m_fwin s"

definition Router_GetNGroups :: "FecRouterAgent \<Rightarrow> 8 word" where
  "Router_GetNGroups s = m_nGroups s"

definition Router_GetSegmentSize :: "FecRouterAgent \<Rightarrow> 32 word" where
  "Router_GetSegmentSize s = m_segmentSize s"

section \<open>Encoder\<close>

definition Router_CreateDataPacket :: "Packet \<Rightarrow> Ipv4Header \<Rightarrow> FecRouterAgent \<Rightarrow> (Packet \<times> FecRouterAgent) ns3" where
  "Router_CreateDataPacket packet ipHeader s =
    (let s = (if m_nGroups s = 1 then s\<lparr>m_groupId := 0\<rparr> else s) in
     ns3_bind (PeekTcpHeader packet) (\<lambda>tcpHeader.
     let pi = \<lparr>pi_serial = m_serial s, pi_check = False, pi_gid = ucast (m_groupId s), pi_type = False,
           pi_tcp = tcpHeader, pi_flag = False, pi_ip = ipHeader\<rparr>
     in ns3_bind (if m_fwin s \<noteq> 0 then push_tables (m_groupId s) pi s else Inr s) (\<lambda>s.
        ns3_bind (AddPacketTag \<lparr>tag_type = 1, tag_serial = m_serial s, tag_roundId = m_roundId s,
          tag_groupId = m_groupId s, tag_nGroups = m_nGroups s\<rparr> packet) (\<lambda>packet.
        let s = (if m_nGroups s > 1
              then let s = s\<lparr>m_groupId := m_groupId s + 1\<rparr> in
                if m_groupId s = m_nGroups s then s\<lparr>m_groupId := 0\<rparr> else s
              else s)
        in Inr (packet, s\<lparr>m_serial := m_serial s + 1, m_sentdatapkt := m_sentdatapkt s + 1\<rparr>)))))"

definition fec_tcp_header :: "TcpHeader \<Rightarrow> TcpHeader" where
  "fec_tcp_header h = TcpHeader_new\<lparr>m_flags := m_flags h, m_sequenceNumber := 0, m_ackNumber := m_ackNumber h,
    m_sourcePort := m_sourcePort h, m_destinationPort := m_destinationPort h, m_windowSize := m_windowSize h\<rparr>"

definition Router_CreateFecPacket :: "Packet \<Rightarrow> FecRouterAgent \<Rightarrow> (Packet \<times> FecRouterAgent) ns3" where
  "Router_CreateFecPacket packet s =
    (let p = Create_Packet (m_segmentSize s);
         pi = \<lparr>pi_serial = m_serial s, pi_check = False, pi_gid = ucast (m_groupId s), pi_type = True,
           pi_tcp = TcpHeader_new, pi_flag = False, pi_ip = Ipv4Header_new\<rparr>
     in ns3_bind (push_tables (m_groupId s) pi s) (\<lambda>s.
        ns3_bind (PeekTcpHeader packet) (\<lambda>h.
        ns3_bind (AddPacketTag \<lparr>tag_type = 2, tag_serial = m_serial s, tag_roundId = m_roundId s,
          tag_groupId = m_groupId s, tag_nGroups = m_nGroups s\<rparr> p) (\<lambda>p.
        let p = AddHeader (TcpH (fec_tcp_header h)) p;
            s = (if m_nGroups s > 1
              then let s = s\<lparr>m_groupId := m_groupId s + 1, m_serial := m_serial s + 1\<rparr> in
                if m_groupId s = m_nGroups s
                then s\<lparr>m_serial := 1, m_groupId := 0, m_roundId := m_roundId s + 1\<rparr> else s
              else if m_nGroups s = 1 then s\<lparr>m_serial := 1, m_groupId := 0, m_roundId := m_roundId s + 1\<rparr> else s)
        in Inr (p, s\<lparr>m_sentfecpkt := m_sentfecpkt s + 1\<rparr>)))))"

definition Router_UpdateFecTable :: "FecRouterAgent \<Rightarrow> FecRouterAgent" where
  "Router_UpdateFecTable s = s\<lparr>
    gtq := gtq s @ [\<lparr>gt_rid = m_roundId s, gt_nGroups = m_nGroups s, gt_gi = []\<rparr>],
    rtq := rtq s @ [\<lparr>rt_rid = m_roundId s, rt_nGroups = m_nGroups s, rt_pi = []\<rparr>]\<rparr>"

section \<open>Decoder\<close>

definition Router_InsertTransitQueue :: "Packet \<Rightarrow> 32 word \<Rightarrow> FecRouterAgent \<Rightarrow> FecRouterAgent" where
  "Router_InsertTransitQueue packet serial s = InsertTransitQueue packet serial s"

definition Router_TransitQueueSize :: "FecRouterAgent \<Rightarrow> 32 word" where
  "Router_TransitQueueSize s = TransitQueueSize s"

definition Router_GetPacket :: "FecRouterAgent \<Rightarrow> (Packet \<times> FecRouterAgent) ns3" where
  "Router_GetPacket s = GetPacket s"

definition Router_CreateRecoveryPacket :: "Packet \<Rightarrow> TcpHeader \<Rightarrow> Ipv4Header \<Rightarrow> FecTag \<Rightarrow> 32 word \<Rightarrow> FecRouterAgent \<Rightarrow> FecRouterAgent ns3" where
  "Router_CreateRecoveryPacket packet tcpHeader ipHeader tag rec_serial s =
    (let packet = RemovePacketTag packet in
     ns3_bind (RemoveTcpHeader packet) (\<lambda>(fecTcpHeader, packet).
     ns3_bind (RemoveIpv4Header packet) (\<lambda>(fecIpHeader, packet).
     let newTag = (FecTag_new 0)\<lparr>tag_type := 4, tag_roundId := tag_roundId tag,
           tag_groupId := tag_groupId tag, tag_serial := rec_serial\<rparr>
     in ns3_bind (AddPacketTag newTag packet) (\<lambda>packet.
        Inr (Router_InsertTransitQueue (AddHeader (IpH ipHeader) (AddHeader (TcpH tcpHeader) packet)) rec_serial s)))))"

definition Router_MarkRoundFecTable :: "Packet \<Rightarrow> FecRouterAgent \<Rightarrow> FecRouterAgent ns3" where
  "Router_MarkRoundFecTable packet s = mark_round packet s"

text \<open>The retransmission request of LostPacketInfo, for the packet whose headers are the old ones.\<close>

definition lost_packet :: "32 word \<Rightarrow> 8 word \<Rightarrow> 32 word \<Rightarrow> TcpHeader \<Rightarrow> Ipv4Header \<Rightarrow> Packet" where
  "lost_packet roundId groupId serial oldTcpHeader oldIpHeader =
    \<lparr>pkt_tag = Some ((FecTag_new 0)\<lparr>tag_type := 5, tag_roundId := roundId, tag_groupId := groupId, tag_serial := serial\<rparr>),
     pkt_headers =
       [IpH (Ipv4Header_new\<lparr>m_source := m_destination oldIpHeader, m_destination := m_source oldIpHeader,
          m_protocol := m_protocol oldIpHeader, m_payloadSize := m_payloadSize oldIpHeader, m_ttl := 64, m_tos := 0\<rparr>),
        TcpH (TcpHeader_new\<lparr>m_flags := 64, m_sequenceNumber := m_ackNumber oldTcpHeader,
          m_ackNumber := m_sequenceNumber oldTcpHeader, m_sourcePort := m_destinationPort oldTcpHeader,
          m_destinationPort := m_sourcePort oldTcpHeader, m_windowSize := m_windowSize oldTcpHeader\<rparr>)],
     pkt_payload = 0\<rparr>"

definition Router_LostPacketInfo :: "32 word \<Rightarrow> 8 word \<Rightarrow> 32 word \<Rightarrow> TcpHeader \<Rightarrow> Ipv4Header \<Rightarrow> FecRouterAgent \<Rightarrow> FecRouterAgent" where
  "Router_LostPacketInfo roundId groupId serial oldTcpHeader oldIpHeader s =
    s\<lparr>lpq := lpq s @ [lost_packet roundId groupId serial oldTcpHeader oldIpHeader]\<rparr>"

definition Router_LostPacketQueueSize :: "FecRouterAgent \<Rightarrow> 32 word" where
  "Router_LostPacketQueueSize s = (if lpq s \<noteq> [] then of_nat (length (lpq s)) else 0)"

definition Router_GetLostPacket :: "FecRouterAgent \<Rightarrow> (Packet \<times> FecRouterAgent) ns3" where
  "Router_GetLostPacket s = (case lpq s of [] \<Rightarrow> Inl EmptyFront | p # ps \<Rightarrow> Inr (p, s\<lparr>lpq := ps\<rparr>))"

text \<open>A lost entry met by a data packet is requested once, and its flag set.\<close>

definition request_entry :: "FecTag \<Rightarrow> RouterPacketInfo \<Rightarrow> FecRouterAgent \<Rightarrow> RouterPacketInfo \<times> FecRouterAgent" where
  "request_entry tag p s = (
    if tag_type tag = 1 \<and> \<not> pi_flag p \<and> m_sendRxRequest s
    then (p\<lparr>pi_flag := True\<rparr>,
      Router_LostPacketInfo (tag_roundId tag) (ucast (pi_gid p)) (pi_serial p) (pi_tcp p) (pi_ip p) s)
    else (p, s))"

text \<open>
  The loop of CheckRoundFecTable: the count, whether the return inside was taken, the entries with
  their flags, and the state with the requests appended.
\<close>

fun router_check_entries :: "FecTag \<Rightarrow> 32 word \<Rightarrow> 32 word \<Rightarrow> RouterPacketInfo list \<Rightarrow> FecRouterAgent \<Rightarrow>
    32 word \<times> bool \<times> RouterPacketInfo list \<times> FecRouterAgent" where
  "router_check_entries tag fw sumlost [] s = (sumlost, False, [], s)"
| "router_check_entries tag fw sumlost (p # ps) s = (
    let (sumlost, p, s) = (
      if \<not> pi_check p \<and> pi_serial p < fw
      then (sumlost + 1, request_entry tag p s) else (sumlost, p, s))
    in if tag_type tag = 1 \<and> tag_serial tag = pi_serial p then (sumlost, True, p # ps, s)
       else case router_check_entries tag fw sumlost ps s of
         (sumlost, ret, ps, s) \<Rightarrow> (sumlost, ret, p # ps, s))"

definition Router_CheckRoundFecTable :: "Packet \<Rightarrow> FecRouterAgent \<Rightarrow> (32 word \<times> FecRouterAgent) ns3" where
  "Router_CheckRoundFecTable packet s =
    ns3_bind (PeekPacketTag packet) (\<lambda>tag.
    case rtq s of [] \<Rightarrow> Inl EmptyFront | t # _ \<Rightarrow>
    if tag_roundId tag < rt_rid t then Inr (0, s)
    else ns3_bind (enter_round (tag_roundId tag) s t) (\<lambda>s.
      case rtq s of [] \<Rightarrow> Inl EmptyFront | t # ts \<Rightarrow>
      case (if rt_rid t = tag_roundId tag
          then router_check_entries tag (m_fwin s * ucast (tag_nGroups tag)) 0 (rt_pi t) s
          else (0, False, rt_pi t, s)) of
        (sumlost, ret, ps, s) \<Rightarrow>
          let s = s\<lparr>rtq := t\<lparr>rt_pi := ps\<rparr> # ts\<rparr> in
          if ret then Inr (sumlost, s)
          else ns3_bind (close_round tag s) (\<lambda>s. Inr (sumlost, s))))"

definition Router_MarkGroupFecTable :: "Packet \<Rightarrow> FecRouterAgent \<Rightarrow> (32 word \<times> FecRouterAgent) ns3" where
  "Router_MarkGroupFecTable packet s = mark_group packet s"

definition Router_recover :: "Packet \<Rightarrow> RouterPacketInfo \<Rightarrow> FecRouterAgent \<Rightarrow> FecRouterAgent ns3" where
  "Router_recover packet p s =
    ns3_bind (PeekPacketTag packet) (\<lambda>tag.
    Router_CreateRecoveryPacket packet (pi_tcp p) (pi_ip p) tag (pi_serial p) (s\<lparr>m_recover := m_recover s + 1\<rparr>))"

definition Router_CheckGroupFecTable :: "Packet \<Rightarrow> 32 word \<Rightarrow> FecRouterAgent \<Rightarrow> (32 word \<times> FecRouterAgent) ns3" where
  "Router_CheckGroupFecTable packet nlost s = check_group (Router_recover packet) packet nlost s"

definition Router_Recv :: "Packet \<Rightarrow> Ipv4Header \<Rightarrow> FecRouterAgent \<Rightarrow> (32 word \<times> FecRouterAgent) ns3" where
  "Router_Recv packet ipHeader s =
    ns3_bind (PeekPacketTag packet) (\<lambda>tag.
    ns3_bind (Router_MarkRoundFecTable packet s) (\<lambda>s.
    ns3_bind (Router_CheckRoundFecTable packet s) (\<lambda>(sumlost, s).
    if sumlost > ucast (tag_nGroups tag) then Inr (2, s)
    else ns3_bind (Router_MarkGroupFecTable packet s) (\<lambda>(nlost, s).
    ns3_bind (if tag_type tag = 2 then Router_CheckGroupFecTable packet nlost s else Inr (0, s)) (\<lambda>(flag, s).
    if nlost > ucast (tag_nGroups tag) then Inr (2, s)
    else if sumlost > 0 \<and> tag_type tag = 1 \<and> m_storeMode s
    then Inr (1, Router_InsertTransitQueue (AddHeader (IpH ipHeader) packet) (tag_serial tag) s)
    else if sumlost - nlost > 0 \<and> flag = 1 \<and> tag_type tag = 2 \<and> uint (tag_groupId tag) < uint (m_nGroups s) - 1
    then Inr (1, s)
    else if tag_type tag = 2 \<and> uint (tag_groupId tag) = uint (m_nGroups s) - 1 then Inr (2, s)
    else Inr (0, s))))))"

text \<open>The static streams of the tables: setting one makes the decoder count losses as it drops tables.\<close>

definition Router_EnablePrintRoundFecTable :: "bool \<Rightarrow> FecRouterAgent \<Rightarrow> FecRouterAgent" where
  "Router_EnablePrintRoundFecTable stream s = s\<lparr>m_printRoundFecTable := stream\<rparr>"

definition Router_EnablePrintGroupFecTable :: "bool \<Rightarrow> FecRouterAgent \<Rightarrow> FecRouterAgent" where
  "Router_EnablePrintGroupFecTable stream s = s\<lparr>m_printGroupFecTable := stream\<rparr>"

end
