(* ===== verification/Fec_Decoder.thy ===== *)
theory Fec_Decoder
  imports Fec_Core
begin

text \<open>
  The decoding steps the two agents have in common, on a packet of the round at the front of the
  tables, and the contract (locale fec\_decoder) of what an agent does with the one entry of a group
  that is missing.
\<close>

section \<open>Steps on the current round\<close>

lemma enter_round_current [simp]: "rt_rid t = rid \<Longrightarrow> enter_round rid s t = Inr s"
  by (simp add: enter_round_def)

lemma mark_round_current:
  assumes "pkt_tag packet = Some tag" "rtq s = t # ts" "rt_rid t = tag_roundId tag"
    and "\<exists>p\<in>set (rt_pi t). pi_serial p = tag_serial tag \<and> pi_gid p = ucast (tag_groupId tag)"
  shows "mark_round packet s = Inr (s\<lparr>rtq :=
    t\<lparr>rt_pi := mark_first (\<lambda>p. pi_serial p = tag_serial tag \<and> pi_gid p = ucast (tag_groupId tag)) (rt_pi t)\<rparr> # ts\<rparr>)"
  using assms by (simp add: mark_round_def PeekPacketTag_def mark_entry_eq)

lemma close_round_keep:
  "rtq s = t # ts \<Longrightarrow> \<not> (tag_type tag = 2 \<and> uint (tag_groupId tag) = uint (rt_nGroups t) - 1) \<Longrightarrow>
    close_round tag s = Inr s"
  by (auto simp: close_round_def)

lemma mark_group_stale:
  "pkt_tag packet = Some tag \<Longrightarrow> rtq s = r # rs \<Longrightarrow> tag_roundId tag < rt_rid r \<Longrightarrow> mark_group packet s = Inr (0, s)"
  by (simp add: mark_group_def PeekPacketTag_def)

lemma check_group_stale:
  "pkt_tag packet = Some tag \<Longrightarrow> rtq s = r # rs \<Longrightarrow> tag_roundId tag < rt_rid r \<Longrightarrow>
    check_group recover packet nlost s = Inr (0, s)"
  by (simp add: check_group_def PeekPacketTag_def)

lemma mark_group_current:
  assumes "pkt_tag packet = Some tag" "rtq s = r # rs" "rt_rid r = tag_roundId tag"
    and "pop_groups (tag_roundId tag) (gtq s) = Inr (g # gs)" "gt_rid g = tag_roundId tag"
    and "ps = gi_at (gt_gi g) (ucast (tag_groupId tag))" "tag_serial tag \<in> pi_serial ` set ps"
  shows "mark_group packet s = Inr (of_nat (length (missing (tag_serial tag) ps)),
    s\<lparr>gtq := g\<lparr>gt_gi := gi_put (ucast (tag_groupId tag)) (mark_first (\<lambda>p. pi_serial p = tag_serial tag) ps) (gt_gi g)\<rparr> # gs\<rparr>)"
  using assms by (simp add: mark_group_def PeekPacketTag_def mark_group_entry_eq)

section \<open>Recovery\<close>

text \<open>
  The contract: recovered is the packet an agent makes of a redundant packet for a missing entry,
  recover puts it into the transit queue and counts it.
\<close>

locale fec_decoder =
  fixes recover :: "Packet \<Rightarrow> 'x PacketInfo_scheme \<Rightarrow> ('x PacketInfo_scheme, 'z) fec_core_scheme \<Rightarrow>
      ('x PacketInfo_scheme, 'z) fec_core_scheme ns3"
    and recovered :: "Packet \<Rightarrow> FecTag \<Rightarrow> 'x PacketInfo_scheme \<Rightarrow> Packet"
  assumes recover_Inr:
    "pkt_tag packet = Some tag \<Longrightarrow> pkt_headers packet = [TcpH h] \<Longrightarrow> \<not> pi_check p \<Longrightarrow>
      recover packet p s = Inr ((InsertTransitQueue (recovered packet tag p) (pi_serial p) s)\<lparr>m_recover := m_recover s + 1\<rparr>)"
  and recovered_tag: "pkt_tag (recovered packet tag p) = Some \<lparr>tag_type = 4, tag_serial = pi_serial p,
      tag_roundId = tag_roundId tag, tag_groupId = tag_groupId tag, tag_nGroups = 0\<rparr>"
  and recovered_tcp: "TcpH (pi_tcp p) \<in> set (pkt_headers (recovered packet tag p))"
begin

lemma missing_unchecked: "p \<in> set (missing n ps) \<Longrightarrow> \<not> pi_check p"
  by (simp add: missing_def)

lemma group_recovery:
  fixes s :: "('x PacketInfo_scheme, 'z) fec_core_scheme"
  assumes tag: "pkt_tag packet = Some tag" "pkt_headers packet = [TcpH h]"
    and round: "rtq s = r # rs" "rt_rid r = tag_roundId tag"
    and group: "pop_groups (tag_roundId tag) (gtq s) = Inr (g # gs)" "gt_rid g = tag_roundId tag"
      "ps = gi_at (gt_gi g) (ucast (tag_groupId tag))" "tag_serial tag \<in> pi_serial ` set ps"
    and M: "M = missing (tag_serial tag) ps" "length M < 2 ^ 32"
    and quiet: "\<not> m_printGroupFecTable s"
  shows "\<exists>s1. mark_group packet s = Inr (of_nat (length M), s1) \<and>
    check_group (recover packet) packet (of_nat (length M)) s1 =
      Inr (of_nat (length M),
        (if length M = 1 then (InsertTransitQueue (recovered packet tag (hd M)) (pi_serial (hd M)) s)\<lparr>m_recover := m_recover s + 1\<rparr> else s)
        \<lparr>gtq := g\<lparr>gt_gi := gi_put (ucast (tag_groupId tag)) []
          (gi_put (ucast (tag_groupId tag)) (mark_first (\<lambda>p. pi_serial p = tag_serial tag) ps) (gt_gi g))\<rparr> # gs\<rparr>)"
proof (intro exI conjI)
  let ?k = "ucast (tag_groupId tag) :: 32 word"
  let ?g = "g\<lparr>gt_gi := gi_put ?k (mark_first (\<lambda>p. pi_serial p = tag_serial tag) ps) (gt_gi g)\<rparr>"
  show "mark_group packet s = Inr (of_nat (length M), s\<lparr>gtq := ?g # gs\<rparr>)"
    using mark_group_current [OF tag(1) round group] by (simp add: M)
  have one: "(of_nat (length M) :: 32 word) = 1 \<longleftrightarrow> length M = 1"
    using M(2) by (simp add: word_unat_eq_iff unsigned_of_nat take_bit_nat_eq_self)
  have last: "last M = hd M" "\<not> pi_check (hd M)" if "length M = 1"
    using that missing_unchecked [of "hd M" "tag_serial tag" ps, folded M(1)] by (auto simp: length_Suc_conv)
  have rec: "recover packet (hd M) s' =
      Inr ((InsertTransitQueue (recovered packet tag (hd M)) (pi_serial (hd M)) s')\<lparr>m_recover := m_recover s' + 1\<rparr>)"
    if "length M = 1" for s' by (rule recover_Inr [OF tag last(2) [OF that]])
  show "check_group (recover packet) packet (of_nat (length M)) (s\<lparr>gtq := ?g # gs\<rparr>) =
      Inr (of_nat (length M),
        (if length M = 1 then (InsertTransitQueue (recovered packet tag (hd M)) (pi_serial (hd M)) s)\<lparr>m_recover := m_recover s + 1\<rparr> else s)
        \<lparr>gtq := g\<lparr>gt_gi := gi_put ?k [] (gi_put ?k (mark_first (\<lambda>p. pi_serial p = tag_serial tag) ps) (gt_gi g))\<rparr> # gs\<rparr>)"
    using tag round group(2,4) quiet last
    by (auto simp: check_group_def PeekPacketTag_def check_group_entries_eq gi_at_put one rec M(1) [symmetric]
        InsertTransitQueue_def)
qed

lemma recover_keeps_order:
  assumes "pkt_tag packet = Some tag" "pkt_headers packet = [TcpH h]" "\<not> pi_check p"
    and "recover packet p s = Inr s'" "tq_sorted s"
  shows "tq_sorted s'"
  using assms(4) InsertTransitQueue_sorted [OF assms(5)] unfolding recover_Inr [OF assms(1-3)]
  by (auto simp: tq_sorted_def)

end

end
