(* ===== verification/Fec_Router_Correct.thy ===== *)
theory Fec_Router_Correct
  imports Fec_Router Fec_Decoder
begin

text \<open>
  What FecRouterAgent recovers: FecRouterAgent::Recv on a redundant packet of the current round, for
  the groups before the last one and for the last one.
\<close>

section \<open>The recovery contract\<close>

definition router_recovered :: "Packet \<Rightarrow> FecTag \<Rightarrow> RouterPacketInfo \<Rightarrow> Packet" where
  "router_recovered packet tag p = \<lparr>
    pkt_tag = Some \<lparr>tag_type = 4, tag_serial = pi_serial p, tag_roundId = tag_roundId tag,
      tag_groupId = tag_groupId tag, tag_nGroups = 0\<rparr>,
    pkt_headers = [IpH (pi_ip p), TcpH (pi_tcp p)], pkt_payload = pkt_payload packet\<rparr>"

interpretation router_dec: fec_decoder Router_recover router_recovered
proof
  fix packet :: Packet and tag h and p :: RouterPacketInfo and s :: FecRouterAgent
  assume "pkt_tag packet = Some tag" "pkt_headers packet = [TcpH h]" "\<not> pi_check p"
  then show "Router_recover packet p s =
      Inr ((InsertTransitQueue (router_recovered packet tag p) (pi_serial p) s)\<lparr>m_recover := m_recover s + 1\<rparr>)"
    by (simp add: Router_recover_def PeekPacketTag_def Router_CreateRecoveryPacket_def RemovePacketTag_def
        RemoveTcpHeader_def RemoveIpv4Header_def AddPacketTag_def AddHeader_def FecTag_new_def
        router_recovered_def Router_InsertTransitQueue_def InsertTransitQueue_def)
qed (simp_all add: router_recovered_def)

section \<open>The count of losses of a round\<close>

definition round_lost :: "32 word \<Rightarrow> 'x PacketInfo_scheme list \<Rightarrow> nat" where
  "round_lost fw ps = length (filter (\<lambda>p. \<not> pi_check p \<and> pi_serial p < fw) ps)"

text \<open>Only the queue of retransmission requests grows.\<close>

definition ip_first :: "Packet \<Rightarrow> bool" where
  "ip_first q = (\<exists>h hs. pkt_headers q = IpH h # hs)"

definition lpq_grows :: "FecRouterAgent \<Rightarrow> FecRouterAgent \<Rightarrow> bool" where
  "lpq_grows s s' = (\<exists>requests. list_all ip_first requests \<and> s' = s\<lparr>lpq := lpq s @ requests\<rparr>)"

lemma lpq_grows_refl [simp]: "lpq_grows s s"
  by (auto simp: lpq_grows_def intro: exI [of _ "[]"])

lemma lpq_grows_trans: "lpq_grows s s' \<Longrightarrow> lpq_grows s' s'' \<Longrightarrow> lpq_grows s s''"
  unfolding lpq_grows_def by (elim exE conjE, rule exI [of _ "_ @ _"], force)

lemma lpq_grows_frame:
  assumes "lpq_grows s s'"
  shows "rtq s' = rtq s" "gtq s' = gtq s" "tqq s' = tqq s" "m_fwin s' = m_fwin s" "m_nGroups s' = m_nGroups s"
    "m_segmentSize s' = m_segmentSize s" "m_serial s' = m_serial s" "m_roundId s' = m_roundId s" "m_groupId s' = m_groupId s"
    "m_recover s' = m_recover s" "m_printRoundFecTable s' = m_printRoundFecTable s"
    "m_printGroupFecTable s' = m_printGroupFecTable s" "m_storeMode s' = m_storeMode s"
    "list_all ip_first (lpq s) \<Longrightarrow> list_all ip_first (lpq s')"
  using assms by (auto simp: lpq_grows_def)

definition same_entry :: "RouterPacketInfo \<Rightarrow> RouterPacketInfo \<Rightarrow> bool" where
  "same_entry p q = (\<exists>flag. q = p\<lparr>pi_flag := flag\<rparr>)"

lemma same_entry_refl [simp]: "same_entry p p"
  by (auto simp: same_entry_def intro: exI [of _ "pi_flag p"])

lemma same_entry_frame:
  assumes "same_entry p q"
  shows "pi_serial q = pi_serial p" "pi_gid q = pi_gid p" "pi_check q = pi_check p" "pi_type q = pi_type p"
    "pi_tcp q = pi_tcp p" "pi_ip q = pi_ip p"
  using assms by (auto simp: same_entry_def)

lemma lpq_grows_request: "lpq_grows s (Router_LostPacketInfo rid gid serial tcp ip s)"
  unfolding lpq_grows_def Router_LostPacketInfo_def
  by (rule exI [of _ "[lost_packet rid gid serial tcp ip]"]) (simp add: ip_first_def lost_packet_def)

lemma request_entry_frame:
  "request_entry tag p s = (p', s') \<Longrightarrow> lpq_grows s s' \<and> same_entry p p'"
  by (auto simp: request_entry_def lpq_grows_request split: if_splits) (auto simp: same_entry_def)

lemma router_check_entries_other:
  "tag_type tag \<noteq> 1 \<Longrightarrow> router_check_entries tag fw n ps s = (n + of_nat (round_lost fw ps), False, ps, s)"
  by (induction ps arbitrary: n) (auto simp: round_lost_def request_entry_def)

lemma router_check_entries_frame:
  "router_check_entries tag fw n ps s = (n', ret, ps', s') \<Longrightarrow>
    lpq_grows s s' \<and> list_all2 same_entry ps ps' \<and>
    (ret \<longleftrightarrow> tag_type tag = 1 \<and> tag_serial tag \<in> pi_serial ` set ps)"
proof (induction ps arbitrary: n s n' ret ps' s')
  case (Cons p ps)
  obtain n1 p1 s1 where step: "(if \<not> pi_check p \<and> pi_serial p < fw then (n + 1, request_entry tag p s) else (n, p, s)) = (n1, p1, s1)"
    by (rule prod_cases3)
  then have p1: "lpq_grows s s1" "same_entry p p1"
    using request_entry_frame [of tag p s p1 s1] by (auto split: if_splits)
  obtain m r qs s2 where rec: "router_check_entries tag fw n1 ps s1 = (m, r, qs, s2)"
    by (rule prod_cases4)
  note IH = Cons.IH [OF rec]
  have "(if tag_type tag = 1 \<and> tag_serial tag = pi_serial p1 then (n1, True, p1 # ps, s1) else (m, r, p1 # qs, s2)) = (n', ret, ps', s')"
    using Cons.prems unfolding router_check_entries.simps step by (auto simp: rec split: if_splits)
  then show ?case
    using IH p1 lpq_grows_trans [OF p1(1)] same_entry_frame [OF p1(2)]
    by (auto split: if_splits intro: list_all2_refl)
qed simp

section \<open>Redundant packets of the current round\<close>

lemma Router_CheckRound_redundant:
  assumes "pkt_tag packet = Some tag" "tag_type tag = 2" "rtq s = r # rs" "rt_rid r = tag_roundId tag"
  shows "Router_CheckRoundFecTable packet s =
    Inr (of_nat (round_lost (m_fwin s * ucast (tag_nGroups tag)) (rt_pi r)),
      if uint (tag_groupId tag) = uint (rt_nGroups r) - 1
      then (if m_printRoundFecTable s then PrintRoundFecTable r s else s)\<lparr>rtq := rs\<rparr> else s)"
  using assms
  by (auto simp: Router_CheckRoundFecTable_def PeekPacketTag_def router_check_entries_other close_round_def PrintRoundFecTable_def)

text \<open>
  Claim C2. FecRouterAgent::Recv on a redundant packet of the current round, for a group that is not
  the last one of the round, when the round has at most as many losses as groups: if exactly one
  packet of the group before it is still unmarked, Recv recovers it, putting into the transit queue,
  under its serial number, a packet with that serial number, with the tag type 4 and with the IP and TCP headers the lost packet
  was sent with, and counts the recovery; in every other case the queue and the counter stay as they
  are. The group is cleared either way, and the round stays open.
\<close>
theorem Router_Recv_recovers:
  assumes tag: "pkt_tag packet = Some tag" "tag_type tag = 2" "pkt_headers packet = [TcpH h]"
    and round: "rtq s = r # rs" "rt_rid r = tag_roundId tag"
      "\<exists>p\<in>set (rt_pi r). pi_serial p = tag_serial tag \<and> pi_gid p = ucast (tag_groupId tag)"
    and before_last: "uint (tag_groupId tag) < uint (rt_nGroups r) - 1"
    and few: "round_lost (m_fwin s * ucast (tag_nGroups tag))
      (mark_first (\<lambda>p. pi_serial p = tag_serial tag \<and> pi_gid p = ucast (tag_groupId tag)) (rt_pi r)) \<le> unat (tag_nGroups tag)"
    and group: "pop_groups (tag_roundId tag) (gtq s) = Inr (g # gs)" "gt_rid g = tag_roundId tag"
      "ps = gi_at (gt_gi g) (ucast (tag_groupId tag))" "tag_serial tag \<in> pi_serial ` set ps"
    and M: "M = missing (tag_serial tag) ps" "length M < 2 ^ 32"
    and quiet: "\<not> m_printGroupFecTable s"
  shows "\<exists>flag s' g'. Router_Recv packet ipHeader s = Inr (flag, s') \<and>
    tqq s' = (if length M = 1 then tqq (InsertTransitQueue (router_recovered packet tag (hd M)) (pi_serial (hd M)) s) else tqq s) \<and>
    m_recover s' = (if length M = 1 then m_recover s + 1 else m_recover s) \<and>
    gtq s' = g' # gs \<and> gi_at (gt_gi g') (ucast (tag_groupId tag)) = [] \<and>
    (\<exists>r'. rtq s' = r' # rs \<and> rt_rid r' = rt_rid r)"
proof -
  let ?ps = "mark_first (\<lambda>p. pi_serial p = tag_serial tag \<and> pi_gid p = ucast (tag_groupId tag)) (rt_pi r)"
  let ?s = "s\<lparr>rtq := r\<lparr>rt_pi := ?ps\<rparr> # rs\<rparr>"
  let ?n = "of_nat (round_lost (m_fwin s * ucast (tag_nGroups tag)) ?ps) :: 32 word"
  have mark: "Router_MarkRoundFecTable packet s = Inr ?s"
    unfolding Router_MarkRoundFecTable_def by (rule mark_round_current [OF tag(1) round])
  have check: "Router_CheckRoundFecTable packet ?s = Inr (?n, ?s)"
    using Router_CheckRound_redundant [OF tag(1,2), of ?s "r\<lparr>rt_pi := ?ps\<rparr>" rs] round(2) before_last by simp
  have small: "\<not> ?n > ucast (tag_nGroups tag)"
    using few unat_lt2p [of "tag_nGroups tag"]
    by (simp add: word_less_nat_alt unat_ucast_up unsigned_of_nat take_bit_nat_eq_self not_less)
  let ?g = "g\<lparr>gt_gi := gi_put (ucast (tag_groupId tag)) [] (gi_put (ucast (tag_groupId tag))
      (mark_first (\<lambda>p. pi_serial p = tag_serial tag) ps) (gt_gi g))\<rparr>"
  obtain s1 where s1: "mark_group packet ?s = Inr (of_nat (length M), s1)"
    "check_group (Router_recover packet) packet (of_nat (length M)) s1 = Inr (of_nat (length M),
      (if length M = 1 then (InsertTransitQueue (router_recovered packet tag (hd M)) (pi_serial (hd M)) ?s)\<lparr>m_recover := m_recover ?s + 1\<rparr> else ?s)
      \<lparr>gtq := ?g # gs\<rparr>)"
    using router_dec.group_recovery [OF tag(1,3), of ?s "r\<lparr>rt_pi := ?ps\<rparr>" rs g gs ps M] round(2) group M quiet by auto
  show ?thesis
    using tag mark check small s1 round(2)
    by (simp add: Router_Recv_def PeekPacketTag_def Router_MarkGroupFecTable_def Router_CheckGroupFecTable_def Let_def
        gi_at_put InsertTransitQueue_def)
qed

text \<open>
  An agent with two groups of one data packet each: the data packets 1 and 2 and the redundant packets
  3 and 4 of round 1 are sent, neither data packet has arrived, and the table of round 2 is open.
\<close>

definition example_entry :: "32 word \<Rightarrow> bool \<Rightarrow> 32 word \<Rightarrow> bool \<Rightarrow> RouterPacketInfo" where
  "example_entry serial check gid typ = \<lparr>pi_serial = serial, pi_check = check, pi_gid = gid, pi_type = typ,
    pi_tcp = TcpHeader_new\<lparr>m_sequenceNumber := serial * 1000\<rparr>, pi_flag = False, pi_ip = Ipv4Header_new\<rparr>"

definition router_example :: FecRouterAgent where
  "router_example = (FecRouterAgent_new 1 2 1000 True True)\<lparr>m_roundId := 2,
    rtq := [\<lparr>rt_rid = 1, rt_nGroups = 2, rt_pi = [example_entry 1 False 0 False, example_entry 2 False 1 False,
        example_entry 3 False 0 True, example_entry 4 False 1 True]\<rparr>, \<lparr>rt_rid = 2, rt_nGroups = 2, rt_pi = []\<rparr>],
    gtq := [\<lparr>gt_rid = 1, gt_nGroups = 2, gt_gi = [(0, [example_entry 1 False 0 False, example_entry 3 False 0 True]),
        (1, [example_entry 2 False 1 False, example_entry 4 False 1 True])]\<rparr>, \<lparr>gt_rid = 2, gt_nGroups = 2, gt_gi = []\<rparr>]\<rparr>"

definition example_fec_packet :: "32 word \<Rightarrow> 8 word \<Rightarrow> Packet" where
  "example_fec_packet serial gid = \<lparr>pkt_tag = Some \<lparr>tag_type = 2, tag_serial = serial, tag_roundId = 1, tag_groupId = gid, tag_nGroups = 2\<rparr>,
    pkt_headers = [TcpH TcpHeader_new], pkt_payload = 1000\<rparr>"

lemmas router_example_defs = router_example_def example_fec_packet_def example_entry_def FecRouterAgent_new_def

theorem Router_Recv_recovers_witness:
  "map (\<lambda>e. (tq_serial e, pkt_headers (tq_p e)))
     (tqq (snd (projr (Router_Recv (example_fec_packet 3 0) Ipv4Header_new router_example)))) =
   [(1, [IpH Ipv4Header_new, TcpH (TcpHeader_new\<lparr>m_sequenceNumber := 1000\<rparr>)])]"
proof -
  have "\<exists>flag s' g'. Router_Recv (example_fec_packet 3 0) Ipv4Header_new router_example = Inr (flag, s') \<and>
    tqq s' = tqq (InsertTransitQueue (router_recovered (example_fec_packet 3 0) (the (pkt_tag (example_fec_packet 3 0)))
      (example_entry 1 False 0 False)) 1 router_example)"
    using Router_Recv_recovers [of "example_fec_packet 3 0" "the (pkt_tag (example_fec_packet 3 0))" TcpHeader_new
        router_example "hd (rtq router_example)" "tl (rtq router_example)" "hd (gtq router_example)" "tl (gtq router_example)"
        "[example_entry 1 False 0 False, example_entry 3 False 0 True]" "[example_entry 1 False 0 False]" Ipv4Header_new]
    by (fastforce simp: router_example_defs gi_at_def missing_def round_lost_def word_less_nat_alt)
  then show ?thesis
    by (auto simp: tqq_InsertTransitQueue router_example_defs router_recovered_def)
qed

section \<open>The last group of a round\<close>

text \<open>
  Claim C37. The last group of a round is never recovered. When the redundant packet of the last group
  of the current round arrives, CheckRoundFecTable closes the round, so that the next round, which the
  sender has opened when it sent this packet, is at the front; MarkGroupFecTable and
  CheckGroupFecTable then take the packet for one of a past round and return at once. Whatever is
  missing of the group, the transit queue, the group tables and the recovery counter are unchanged.
\<close>
theorem Router_Recv_last_group_not_recovered:
  assumes tag: "pkt_tag packet = Some tag" "tag_type tag = 2"
    and round: "rtq s = r # r2 # rs" "rt_rid r = tag_roundId tag"
      "\<exists>p\<in>set (rt_pi r). pi_serial p = tag_serial tag \<and> pi_gid p = ucast (tag_groupId tag)"
    and last_group: "uint (tag_groupId tag) = uint (rt_nGroups r) - 1"
    and next_round: "tag_roundId tag < rt_rid r2"
  shows "\<exists>flag s'. Router_Recv packet ipHeader s = Inr (flag, s') \<and>
    tqq s' = tqq s \<and> gtq s' = gtq s \<and> m_recover s' = m_recover s \<and> rtq s' = r2 # rs"
proof -
  let ?ps = "mark_first (\<lambda>p. pi_serial p = tag_serial tag \<and> pi_gid p = ucast (tag_groupId tag)) (rt_pi r)"
  let ?r = "r\<lparr>rt_pi := ?ps\<rparr>" and ?s = "s\<lparr>rtq := r\<lparr>rt_pi := ?ps\<rparr> # r2 # rs\<rparr>"
  define s1 where "s1 = (if m_printRoundFecTable s then PrintRoundFecTable ?r ?s else ?s)\<lparr>rtq := r2 # rs\<rparr>"
  have s1: "rtq s1 = r2 # rs" "tqq s1 = tqq s" "gtq s1 = gtq s" "m_recover s1 = m_recover s"
    by (simp_all add: s1_def PrintRoundFecTable_def)
  have mark: "Router_MarkRoundFecTable packet s = Inr ?s"
    unfolding Router_MarkRoundFecTable_def by (rule mark_round_current [OF tag(1) round])
  have check: "\<exists>n. Router_CheckRoundFecTable packet ?s = Inr (n, s1)"
    using Router_CheckRound_redundant [OF tag, of ?s ?r "r2 # rs"] round(2) last_group by (simp add: s1_def)
  note group = mark_group_stale [OF tag(1) s1(1) next_round] check_group_stale [OF tag(1) s1(1) next_round]
  show ?thesis
    using tag mark check group s1
    by (auto simp: Router_Recv_def PeekPacketTag_def Router_MarkGroupFecTable_def Router_CheckGroupFecTable_def Let_def)
qed

theorem Router_Recv_last_group_not_recovered_witness:
  "tqq (snd (projr (Router_Recv (example_fec_packet 4 1) Ipv4Header_new router_example))) = []"
proof -
  have "\<exists>flag s'. Router_Recv (example_fec_packet 4 1) Ipv4Header_new router_example = Inr (flag, s') \<and> tqq s' = tqq router_example"
    using Router_Recv_last_group_not_recovered [of "example_fec_packet 4 1" "the (pkt_tag (example_fec_packet 4 1))"
        router_example "hd (rtq router_example)" "hd (tl (rtq router_example))" "[]" Ipv4Header_new]
    by (fastforce simp: router_example_defs)
  then show ?thesis by (auto simp: router_example_defs)
qed

section \<open>Packets out of order\<close>

lemma mark_group_missing:
  assumes "pkt_tag packet = Some tag" "rtq s = r # rs" "rt_rid r = tag_roundId tag"
    and "pop_groups (tag_roundId tag) (gtq s) = Inr (g # gs)" "gt_rid g = tag_roundId tag"
    and "tag_serial tag \<notin> pi_serial ` set (gi_at (gt_gi g) (ucast (tag_groupId tag)))"
  shows "mark_group packet s = Inl Spin"
  using assms by (auto simp: mark_group_def PeekPacketTag_def mark_group_entry_eq)

text \<open>
  Claim C38. A redundant packet that arrives when its group has been cleared, because the link
  duplicated it or it overtook another one, makes FecRouterAgent::Recv spin for ever in the loop of
  MarkGroupFecTable: the round is still open, so the packet is looked for, and it is not in the group any more.
\<close>
theorem Router_Recv_duplicate_spins:
  assumes tag: "pkt_tag packet = Some tag" "tag_type tag = 2"
    and round: "rtq s = r # rs" "rt_rid r = tag_roundId tag"
      "\<exists>p\<in>set (rt_pi r). pi_serial p = tag_serial tag \<and> pi_gid p = ucast (tag_groupId tag)"
    and before_last: "uint (tag_groupId tag) < uint (rt_nGroups r) - 1"
    and few: "round_lost (m_fwin s * ucast (tag_nGroups tag))
      (mark_first (\<lambda>p. pi_serial p = tag_serial tag \<and> pi_gid p = ucast (tag_groupId tag)) (rt_pi r)) \<le> unat (tag_nGroups tag)"
    and cleared: "pop_groups (tag_roundId tag) (gtq s) = Inr (g # gs)" "gt_rid g = tag_roundId tag"
      "gi_at (gt_gi g) (ucast (tag_groupId tag)) = []"
  shows "Router_Recv packet ipHeader s = Inl Spin"
proof -
  let ?ps = "mark_first (\<lambda>p. pi_serial p = tag_serial tag \<and> pi_gid p = ucast (tag_groupId tag)) (rt_pi r)"
  let ?s = "s\<lparr>rtq := r\<lparr>rt_pi := ?ps\<rparr> # rs\<rparr>"
  let ?n = "of_nat (round_lost (m_fwin s * ucast (tag_nGroups tag)) ?ps) :: 32 word"
  have mark: "Router_MarkRoundFecTable packet s = Inr ?s"
    unfolding Router_MarkRoundFecTable_def by (rule mark_round_current [OF tag(1) round])
  have check: "Router_CheckRoundFecTable packet ?s = Inr (?n, ?s)"
    using Router_CheckRound_redundant [OF tag(1,2), of ?s "r\<lparr>rt_pi := ?ps\<rparr>" rs] round(2) before_last by simp
  have small: "\<not> ?n > ucast (tag_nGroups tag)"
    using few unat_lt2p [of "tag_nGroups tag"]
    by (simp add: word_less_nat_alt unat_ucast_up unsigned_of_nat take_bit_nat_eq_self not_less)
  have "mark_group packet ?s = Inl Spin"
    by (rule mark_group_missing [OF tag(1), of ?s "r\<lparr>rt_pi := ?ps\<rparr>" rs g gs]) (use round cleared in simp_all)
  then show ?thesis
    using tag mark check small by (simp add: Router_Recv_def PeekPacketTag_def Router_MarkGroupFecTable_def)
qed

definition router_example_cleared :: FecRouterAgent where
  "router_example_cleared = router_example\<lparr>
    gtq := [\<lparr>gt_rid = 1, gt_nGroups = 2, gt_gi = [(0, []), (1, [example_entry 2 False 1 False, example_entry 4 False 1 True])]\<rparr>,
      \<lparr>gt_rid = 2, gt_nGroups = 2, gt_gi = []\<rparr>]\<rparr>"

theorem Router_Recv_duplicate_spins_witness:
  "Router_Recv (example_fec_packet 3 0) Ipv4Header_new router_example_cleared = Inl Spin"
  by (rule Router_Recv_duplicate_spins [of _ "the (pkt_tag (example_fec_packet 3 0))" _
        "hd (rtq router_example_cleared)" "tl (rtq router_example_cleared)" "hd (gtq router_example_cleared)" "tl (gtq router_example_cleared)"])
    (simp_all add: router_example_cleared_def router_example_defs gi_at_def round_lost_def word_less_nat_alt)

end
