(* ===== verification/Fec_L3.thy ===== *)
theory Fec_L3
  imports Fec_Router
begin

text \<open>
  The two router drivers of FecRouterAgent: the sending side of Ipv4L3ProtocolwithFecEncode and the
  forwarding side of Ipv4L3ProtocolwithFecDecode (contrib/fec/model/ipv4-l3-protocol-with-fec-*.cc),
  which the helper gives one and the same agent.
\<close>

section \<open>Sending\<close>

text \<open>The members of the encoding protocol, the agent it points to, and what it handed to the interface.\<close>

record FecEncode =
  enc_fec :: FecRouterAgent
  enc_fwin :: "32 word"
  enc_nGroups :: "8 word"
  enc_segmentSize :: "32 word"
  enc_init :: bool
  enc_fc :: "32 word"
  enc_ic :: "32 word"
  enc_sent :: "(Packet \<times> Ipv4Header) list"

definition Encode_SetFec :: "FecRouterAgent \<Rightarrow> FecEncode" where
  "Encode_SetFec fec = \<lparr>enc_fec = fec, enc_fwin = Router_GetFwin fec, enc_nGroups = Router_GetNGroups fec,
    enc_segmentSize = Router_GetSegmentSize fec, enc_init = True, enc_fc = - 1, enc_ic = - 1, enc_sent = []\<rparr>"

definition Encode_RedundancyControl :: "FecEncode \<Rightarrow> FecEncode" where
  "Encode_RedundancyControl e = e\<lparr>enc_fc := enc_fwin e * ucast (enc_nGroups e), enc_ic := ucast (enc_nGroups e),
    enc_fec := Router_UpdateFecTable (enc_fec e)\<rparr>"

text \<open>
  What the calls of Ipv4Interface::Send do to a packet on a point-to-point device that is up. The packet
  is shared, not copied: once the queueing discipline hands it to the device, the IP header of
  Ipv4QueueDiscItem::AddHeader and the PPP header of the device's Send are in front of it. \<open>Handed n\<close>
  is a packet that is handed on by the n-th Send after its own, by its own when n is 0; \<open>Held\<close> is one
  that stays as it is, because it is dropped, waits for longer, or has been handed on.
\<close>

datatype handover = Held | Handed nat

definition Ipv4QueueDiscItem_AddHeader :: "Ipv4Header \<Rightarrow> Packet \<Rightarrow> Packet" where
  "Ipv4QueueDiscItem_AddHeader m_header p = AddHeader (IpH m_header) p"

definition EtherToPpp :: "16 word \<Rightarrow> 16 word ns3" where
  "EtherToPpp proto = (
    if proto = 0x0800 then Inr 0x0021 else if proto = 0x86dd then Inr 0x0057
    else Inl (NsAssert ''PPP Protocol number not defined!''))"

definition PointToPointNetDevice_AddHeader :: "Packet \<Rightarrow> 16 word \<Rightarrow> Packet ns3" where
  "PointToPointNetDevice_AddHeader p protocolNumber =
    ns3_bind (EtherToPpp protocolNumber) (\<lambda>protocol. Inr (AddHeader (PppH protocol) p))"

definition PROT_NUMBER :: "16 word" where
  "PROT_NUMBER = 0x0800"

definition Ipv4Interface_Send :: "handover \<Rightarrow> Packet \<Rightarrow> Ipv4Header \<Rightarrow> (handover \<times> Packet) ns3" where
  "Ipv4Interface_Send outcome p hdr = (case outcome of
      Held \<Rightarrow> Inr (Held, p)
    | Handed (Suc n) \<Rightarrow> Inr (Handed n, p)
    | Handed 0 \<Rightarrow>
        ns3_bind (PointToPointNetDevice_AddHeader (Ipv4QueueDiscItem_AddHeader hdr p) PROT_NUMBER) (\<lambda>p. Inr (Held, p)))"

text \<open>
  The interface is given the packet and the header, which is what the far end sees of them behind the
  PPP and the IP header.
\<close>

definition Encode_Send :: "Packet \<Rightarrow> Ipv4Header \<Rightarrow> FecEncode \<Rightarrow> FecEncode" where
  "Encode_Send packet ipHeader e = e\<lparr>enc_sent := enc_sent e @ [(packet, ipHeader)]\<rparr>"

text \<open>
  Sending a redundant packet may hand on the data packet it is made from as well; the headers put on
  the redundant packet itself are not looked at again.
\<close>

definition Encode_SendFecPacket :: "handover \<Rightarrow> Packet \<Rightarrow> Ipv4Header \<Rightarrow> FecEncode \<Rightarrow> (handover \<times> Packet \<times> FecEncode) ns3" where
  "Encode_SendFecPacket outcome packet ipHeader e =
    ns3_bind (Router_CreateFecPacket packet (enc_fec e)) (\<lambda>(p, fec).
    ns3_bind (Ipv4Interface_Send outcome packet ipHeader) (\<lambda>(outcome, packet).
    Inr (outcome, packet, Encode_Send p ipHeader (e\<lparr>enc_fec := fec\<rparr>))))"

text \<open>The loop that sends the redundant packets; it does not end when the next round is empty as well.\<close>

partial_function (option) Encode_fec_loop :: "handover \<Rightarrow> Packet \<Rightarrow> Ipv4Header \<Rightarrow> FecEncode \<Rightarrow> FecEncode ns3 option" where
  "Encode_fec_loop outcome packet ipHeader e = (
    if enc_fc e = 0
    then (case Encode_SendFecPacket outcome packet ipHeader e of
        Inl err \<Rightarrow> Some (Inl err)
      | Inr (outcome, packet, e) \<Rightarrow> Encode_fec_loop outcome packet ipHeader
          (if enc_ic e - 1 = 0 then Encode_RedundancyControl (e\<lparr>enc_ic := enc_ic e - 1\<rparr>)
           else e\<lparr>enc_ic := enc_ic e - 1\<rparr>))
    else Some (Inr e))"

definition ns3_loop :: "'a ns3 option \<Rightarrow> 'a ns3" where
  "ns3_loop r = (case r of None \<Rightarrow> Inl Spin | Some x \<Rightarrow> x)"

text \<open>
  SendRealOut for a packet that needs no fragmentation, on an interface that is up. The size is
  compared twice, the second time on the packet as Ipv4Interface::Send has left it, and the redundant
  packets take their TCP header from that packet too.
\<close>

definition Encode_SendRealOut :: "handover \<Rightarrow> Packet \<Rightarrow> Ipv4Header \<Rightarrow> FecEncode \<Rightarrow> FecEncode ns3" where
  "Encode_SendRealOut outcome packet ipHeader e =
    (let e = (if enc_fwin e \<noteq> 0 \<and> enc_init e then (Encode_RedundancyControl e)\<lparr>enc_init := False\<rparr> else e) in
     ns3_bind (
       if GetSize packet > enc_segmentSize e
       then ns3_bind (Router_CreateDataPacket packet ipHeader (enc_fec e)) (\<lambda>(packet, fec).
         Inr (packet, e\<lparr>enc_fec := fec\<rparr>))
       else Inr (packet, e)) (\<lambda>(packet, e).
     let e = Encode_Send packet ipHeader e in
     ns3_bind (Ipv4Interface_Send outcome packet ipHeader) (\<lambda>(outcome, packet).
     let e = (if GetSize packet > enc_segmentSize e then e\<lparr>enc_fc := enc_fc e - 1\<rparr> else e)
     in ns3_loop (Encode_fec_loop outcome packet ipHeader e))))"

text \<open>A packet whose outermost header CreateFecPacket can read, before and after it has been handed on.\<close>

definition peekable :: "Packet \<Rightarrow> bool" where
  "peekable p = ((\<exists>h hs. pkt_headers p = TcpH h # hs) \<or> (\<exists>n h hs. pkt_headers p = PppH n # IpH h # hs))"

lemma peekable_Peek: "peekable p \<Longrightarrow> \<exists>h. PeekTcpHeader p = Inr h"
  unfolding peekable_def
proof (elim disjE exE)
  fix h hs assume "pkt_headers p = TcpH h # hs"
  then show ?thesis by (simp add: PeekTcpHeader_def)
next
  fix n h hs assume "pkt_headers p = PppH n # IpH h # hs"
  from PeekTcpHeader_behind_ip [OF this] show ?thesis by blast
qed

lemma Ipv4Interface_Send_Inr:
  "\<exists>o' q. Ipv4Interface_Send outcome p hdr = Inr (o', q) \<and> (peekable p \<longrightarrow> peekable q) \<and>
    q = (if outcome = Handed 0 then p\<lparr>pkt_headers := PppH 0x0021 # IpH hdr # pkt_headers p\<rparr> else p)"
  by (auto simp: Ipv4Interface_Send_def PointToPointNetDevice_AddHeader_def EtherToPpp_def PROT_NUMBER_def
      Ipv4QueueDiscItem_AddHeader_def AddHeader_def peekable_def split: handover.split nat.split)

lemma GetSize_behind_ip: "GetSize (p\<lparr>pkt_headers := PppH n # IpH h # pkt_headers p\<rparr>) = GetSize p + 22"
  by (simp add: GetSize_def)

section \<open>Forwarding\<close>

text \<open>
  Transmit: the time to live is decremented and the packet dropped when it reaches 0 (the ICMP
  reply and the traces are left out); otherwise it is routed and sent.
\<close>

definition Decode_Transmit :: "Packet \<Rightarrow> Ipv4Header \<Rightarrow> (Packet \<times> Ipv4Header) list" where
  "Decode_Transmit packet ipHeader =
    (let ipHeader = ipHeader\<lparr>m_ttl := m_ttl ipHeader - 1\<rparr> in
     if m_ttl ipHeader = 0 then [] else [(packet, ipHeader)])"

record FecDecode =
  dec_fec :: FecRouterAgent
  dec_rid :: "32 word"
  dec_sent :: "(Packet \<times> Ipv4Header) list"

definition Decode_Free :: "FecDecode \<Rightarrow> FecDecode ns3" where
  "Decode_Free d =
    ns3_bind (Router_GetPacket (dec_fec d)) (\<lambda>(pkt, fec).
    ns3_bind (RemoveIpv4Header pkt) (\<lambda>(ipHeader, pkt).
    Inr (d\<lparr>dec_fec := fec, dec_sent := dec_sent d @ Decode_Transmit pkt ipHeader\<rparr>)))"

text \<open>While the transit queue is not empty: every turn takes one packet, so its length bounds the turns.\<close>

primrec free_turns :: "nat \<Rightarrow> FecDecode \<Rightarrow> FecDecode ns3" where
  "free_turns 0 d = Inl Spin"
| "free_turns (Suc n) d = (
    if Router_TransitQueueSize (dec_fec d) > 0 then ns3_bind (Decode_Free d) (free_turns n) else Inr d)"

definition Decode_FreeAll :: "FecDecode \<Rightarrow> FecDecode ns3" where
  "Decode_FreeAll d = free_turns (Suc (length (tqq (dec_fec d)))) d"

definition Decode_SendRxRequest :: "FecDecode \<Rightarrow> FecDecode ns3" where
  "Decode_SendRxRequest d =
    ns3_bind (Router_GetLostPacket (dec_fec d)) (\<lambda>(pkt, fec).
    ns3_bind (RemoveIpv4Header pkt) (\<lambda>(ipHeader, pkt).
    Inr (d\<lparr>dec_fec := fec, dec_sent := dec_sent d @ Decode_Transmit pkt ipHeader\<rparr>)))"

primrec request_turns :: "nat \<Rightarrow> FecDecode \<Rightarrow> FecDecode ns3" where
  "request_turns 0 d = Inl Spin"
| "request_turns (Suc n) d = (
    if Router_LostPacketQueueSize (dec_fec d) > 0 then ns3_bind (Decode_SendRxRequest d) (request_turns n) else Inr d)"

definition Decode_RequestAll :: "FecDecode \<Rightarrow> FecDecode ns3" where
  "Decode_RequestAll d = request_turns (Suc (length (lpq (dec_fec d)))) d"

text \<open>IpForward: the part for the forward error correction, then the ordinary forwarding.\<close>

definition Decode_IpForward :: "Packet \<Rightarrow> Ipv4Header \<Rightarrow> FecDecode \<Rightarrow> FecDecode ns3" where
  "Decode_IpForward packet ipHeader d = (
    if GetSize packet > Router_GetSegmentSize (dec_fec d) \<and> Router_GetFwin (dec_fec d) > 0
    then
      ns3_bind (PeekPacketTag packet) (\<lambda>tag.
      ns3_bind (if dec_rid d < tag_roundId tag
          then ns3_bind (Decode_FreeAll d) (\<lambda>d. Inr (d\<lparr>dec_rid := tag_roundId tag\<rparr>)) else Inr d) (\<lambda>d.
      ns3_bind (Router_Recv packet ipHeader (dec_fec d)) (\<lambda>(flag, fec).
      ns3_bind (Decode_RequestAll (d\<lparr>dec_fec := fec\<rparr>)) (\<lambda>d.
      if flag = 1 then Inr d
      else ns3_bind (if flag = 2 then Decode_FreeAll d else Inr d) (\<lambda>d.
        if tag_type tag = 2 then Inr d
        else Inr (d\<lparr>dec_sent := dec_sent d @ Decode_Transmit packet ipHeader\<rparr>))))))
    else Inr (d\<lparr>dec_sent := dec_sent d @ Decode_Transmit packet ipHeader\<rparr>))"

end
