(* ===== verification/Fec_Views.thy ===== *)
theory Fec_Views
  imports Fec_Router_Correct Fec_L3
begin

text \<open>
  The tables of FecRouterAgent without the marks: for every round its number, its number of groups and
  the serial numbers and groups of its entries; for every group table its round and the serial numbers in
  each group. The encoder extends these views at the back; what the decoder does to them at the front
  is shown here.
\<close>

type_synonym round_view = "nat \<times> 8 word \<times> (32 word \<times> 32 word) list"
type_synonym group_view = "nat \<times> (32 word \<Rightarrow> 32 word list)"

definition rt_view :: "'x PacketInfo_scheme RoundFecTable \<Rightarrow> round_view" where
  "rt_view t = (unat (rt_rid t), rt_nGroups t, map (\<lambda>p. (pi_serial p, pi_gid p)) (rt_pi t))"

definition gt_view :: "'x PacketInfo_scheme GroupFecTable \<Rightarrow> group_view" where
  "gt_view t = (unat (gt_rid t), \<lambda>g. map pi_serial (gi_at (gt_gi t) g))"

definition rview :: "('x PacketInfo_scheme, 'z) fec_core_scheme \<Rightarrow> round_view list" where
  "rview s = map rt_view (rtq s)"

definition gview :: "('x PacketInfo_scheme, 'z) fec_core_scheme \<Rightarrow> group_view list" where
  "gview s = map gt_view (gtq s)"

section \<open>Decoding steps on the views\<close>

lemma upt_drop_hd: "a \<le> r \<Longrightarrow> r \<le> R \<Longrightarrow> drop (r - a) [a..<Suc R] = r # [Suc r..<Suc R]"
  by (simp add: upt_conv_Cons)

lemma map_upt_Cons:
  assumes "map f ts = [a..<Suc R]" "a \<le> R"
  obtains t ts' where "ts = t # ts'" "f t = a" "map f ts' = [Suc a..<Suc R]"
proof -
  have "map f ts = a # [Suc a..<Suc R]" using assms by (simp only: upt_conv_Cons less_Suc_eq_le)
  then show thesis using that by (auto simp only: map_eq_Cons_conv)
qed

lemma rtq_front:
  assumes "map fst (rview s) = [a..<Suc R]" "a \<le> R"
  obtains t ts where "rtq s = t # ts" "unat (rt_rid t) = a"
proof -
  have "map (fst \<circ> rt_view) (rtq s) = [a..<Suc R]" using assms(1) by (simp add: rview_def)
  from this assms(2) obtain t ts where "rtq s = t # ts" "(fst \<circ> rt_view) t = a" by (rule map_upt_Cons)
  then show thesis using that by (simp add: rt_view_def)
qed

lemma word_less_of_nat: "r < 2 ^ 32 \<Longrightarrow> (w :: 32 word) < of_nat r \<longleftrightarrow> unat w < r"
  by (simp add: word_less_nat_alt unsigned_of_nat take_bit_nat_eq_self)

lemma pop_rounds_view:
  assumes "\<not> m_printRoundFecTable s" "map (fst \<circ> rt_view) ts = [a..<Suc R]" "a \<le> r" "r \<le> R" "R < 2 ^ 32"
  shows "pop_rounds (of_nat r) s ts = Inr (s\<lparr>rtq := drop (r - a) ts\<rparr>)"
  using assms
proof (induction "r - a" arbitrary: a ts)
  case 0
  then obtain t ts' where "ts = t # ts'" "fst (rt_view t) = a"
    using map_upt_Cons [OF "0.prems"(2)] by (metis comp_apply le_trans)
  with 0 show ?case by (simp add: word_less_of_nat rt_view_def)
next
  case (Suc n)
  then obtain t ts' where ts: "ts = t # ts'" "fst (rt_view t) = a" "map (fst \<circ> rt_view) ts' = [Suc a..<Suc R]"
    using map_upt_Cons [OF Suc.prems(2)] by (metis comp_apply le_trans)
  have "pop_rounds (of_nat r) s ts' = Inr (s\<lparr>rtq := drop (r - Suc a) ts'\<rparr>)"
    using Suc.hyps(1) [of "Suc a" ts'] Suc.hyps(2) Suc.prems ts(3) by simp
  moreover have "drop (r - a) ts = drop (r - Suc a) ts'"
    using Suc.hyps(2) ts(1) by (simp add: drop_Cons')
  ultimately show ?case using Suc.hyps(2) Suc.prems ts by (simp add: word_less_of_nat rt_view_def)
qed

lemma pop_groups_view:
  assumes "map (fst \<circ> gt_view) ts = [b..<Suc R]" "b \<le> r" "r \<le> R" "R < 2 ^ 32"
  shows "pop_groups (of_nat r) ts = Inr (drop (r - b) ts)"
  using assms
proof (induction "r - b" arbitrary: b ts)
  case 0
  then obtain t ts' where "ts = t # ts'" "fst (gt_view t) = b"
    using map_upt_Cons [OF "0.prems"(1)] by (metis comp_apply le_trans)
  with 0 show ?case by (simp add: word_less_of_nat gt_view_def)
next
  case (Suc n)
  then obtain t ts' where ts: "ts = t # ts'" "fst (gt_view t) = b" "map (fst \<circ> gt_view) ts' = [Suc b..<Suc R]"
    using map_upt_Cons [OF Suc.prems(1)] by (metis comp_apply le_trans)
  have "pop_groups (of_nat r) ts' = Inr (drop (r - Suc b) ts')"
    using Suc.hyps(1) [of "Suc b" ts'] Suc.hyps(2) Suc.prems ts(3) by simp
  moreover have "drop (r - b) ts = drop (r - Suc b) ts'"
    using Suc.hyps(2) ts(1) by (simp add: drop_Cons')
  ultimately show ?case using Suc.hyps(2) Suc.prems ts by (simp add: word_less_of_nat gt_view_def)
qed

lemma rt_view_mark [simp]: "rt_view (t\<lparr>rt_pi := mark_first P (rt_pi t)\<rparr>) = rt_view t"
proof -
  have "map (\<lambda>p. (pi_serial p, pi_gid p)) (mark_first P ps) = map (\<lambda>p. (pi_serial p, pi_gid p)) ps" for ps
    by (induction ps) auto
  then show ?thesis by (simp add: rt_view_def)
qed

lemma mark_round_view:
  assumes tag: "pkt_tag packet = Some tag" "tag_roundId tag = of_nat r"
    and quiet: "\<not> m_printRoundFecTable s"
    and rids: "map fst (rview s) = [a..<Suc R]" "a \<le> r" "r \<le> R" "R < 2 ^ 32"
    and has: "\<forall>n E. (r, n, E) \<in> set (rview s) \<longrightarrow> (tag_serial tag, ucast (tag_groupId tag)) \<in> set E"
  shows "\<exists>ts. mark_round packet s = Inr (s\<lparr>rtq := ts\<rparr>) \<and> map rt_view ts = drop (r - a) (rview s)"
proof -
  have rids': "map (fst \<circ> rt_view) (rtq s) = [a..<Suc R]" using rids(1) by (simp add: rview_def)
  have "a \<le> R" using rids by simp
  with rids' obtain t0 ts0 where t0: "rtq s = t0 # ts0" "(fst \<circ> rt_view) t0 = a" by (rule map_upt_Cons)
  then have t0: "rtq s = t0 # ts0" "unat (rt_rid t0) = a" by (simp_all add: rt_view_def)
  have dr: "map (fst \<circ> rt_view) (drop (r - a) (rtq s)) = r # [Suc r..<Suc R]"
    using rids' rids by (simp only: drop_map [symmetric] upt_drop_hd)
  then obtain t ts where t: "drop (r - a) (rtq s) = t # ts" "fst (rt_view t) = r"
    by (cases "drop (r - a) (rtq s)") auto
  have rt: "rt_rid t = of_nat r" using t(2) by (auto simp: rt_view_def)
  have "rt_view t \<in> set (rview s)"
    using t(1) unfolding rview_def by (metis image_eqI in_set_dropD list.set_intros(1) list.set_map)
  then have ex: "\<exists>p\<in>set (rt_pi t). pi_serial p = tag_serial tag \<and> pi_gid p = ucast (tag_groupId tag)"
    using has t(2) by (force simp: rt_view_def)
  have enter: "enter_round (of_nat r) s t0 = Inr (s\<lparr>rtq := drop (r - a) (rtq s)\<rparr>)"
  proof (cases "a < r")
    case True
    then show ?thesis
      using pop_rounds_view [OF quiet rids' rids(2-4)] t0 rids(3,4)
      by (simp add: enter_round_def word_less_of_nat)
  next
    case False
    then show ?thesis using rids(2-4) t0 by (simp add: enter_round_def word_less_of_nat)
  qed
  let ?P = "\<lambda>p. pi_serial p = tag_serial tag \<and> pi_gid p = ucast (tag_groupId tag)"
  have "\<not> of_nat r < rt_rid t0"
    using rids t0(2) by (simp add: word_less_nat_alt unsigned_of_nat take_bit_nat_eq_self not_less)
  then have "mark_round packet s = Inr (s\<lparr>rtq := t\<lparr>rt_pi := mark_first ?P (rt_pi t)\<rparr> # ts\<rparr>)"
    using tag t0(1) enter t rt ex by (simp add: mark_round_def PeekPacketTag_def mark_entry_eq)
  moreover have "map rt_view (t\<lparr>rt_pi := mark_first ?P (rt_pi t)\<rparr> # ts) = drop (r - a) (rview s)"
    using t(1) by (simp add: rview_def drop_map)
  ultimately show ?thesis by blast
qed

section \<open>Receiving on the views\<close>

text \<open>The members the decoder does not touch, and the shape of the packets in the two queues.\<close>

definition agent_frame :: "FecRouterAgent \<Rightarrow> FecRouterAgent \<Rightarrow> bool" where
  "agent_frame s s' = (m_fwin s' = m_fwin s \<and> m_nGroups s' = m_nGroups s \<and> m_segmentSize s' = m_segmentSize s \<and>
    m_serial s' = m_serial s \<and> m_roundId s' = m_roundId s \<and> m_groupId s' = m_groupId s \<and>
    m_printRoundFecTable s' = m_printRoundFecTable s \<and> m_printGroupFecTable s' = m_printGroupFecTable s)"

definition queues_wf :: "FecRouterAgent \<Rightarrow> bool" where
  "queues_wf s = (list_all (ip_first \<circ> tq_p) (tqq s) \<and> list_all ip_first (lpq s))"

lemma agent_frame_refl [simp]: "agent_frame s s"
  by (simp add: agent_frame_def)

lemma agent_frame_trans: "agent_frame s s' \<Longrightarrow> agent_frame s' s'' \<Longrightarrow> agent_frame s s''"
  by (simp add: agent_frame_def)

lemma queues_wf_insert:
  assumes "queues_wf s" "ip_first packet"
  shows "queues_wf (InsertTransitQueue packet serial s)"
proof -
  have "set (tqq (InsertTransitQueue packet serial s)) = insert \<lparr>tq_serial = serial, tq_p = packet\<rparr> (set (tqq s))"
    using InsertTransitQueue_mset [of packet serial s] by (metis set_mset_add_mset_insert set_mset_mset)
  then show ?thesis using assms by (auto simp: queues_wf_def list_all_iff InsertTransitQueue_def)
qed

lemma list_all2_same_entry_view:
  "list_all2 same_entry ps ps' \<Longrightarrow> map (\<lambda>p. (pi_serial p, pi_gid p)) ps' = map (\<lambda>p. (pi_serial p, pi_gid p)) ps"
  by (induction rule: list_all2_induct) (simp_all add: same_entry_frame)

lemma check_round_view:
  assumes tag: "pkt_tag packet = Some tag" "tag_type tag = 1 \<or> tag_type tag = 2"
    and front: "rtq s = t # ts" "rt_rid t = tag_roundId tag" "tag_serial tag \<in> pi_serial ` set (rt_pi t)"
    and quiet: "\<not> m_printRoundFecTable s" and wf: "queues_wf s"
  shows "\<exists>n s'. Router_CheckRoundFecTable packet s = Inr (n, s') \<and> gtq s' = gtq s \<and> agent_frame s s' \<and> queues_wf s' \<and>
    rview s' = (if tag_type tag = 2 \<and> uint (tag_groupId tag) = uint (rt_nGroups t) - 1 then tl (rview s) else rview s)"
proof (cases "tag_type tag = 2")
  case True
  then show ?thesis
    using Router_CheckRound_redundant [OF tag(1) True front(1,2)] front quiet wf
    by (auto simp: agent_frame_def queues_wf_def rview_def)
next
  case False
  obtain n ret ps s1 where scan:
    "router_check_entries tag (m_fwin s * ucast (tag_nGroups tag)) 0 (rt_pi t) s = (n, ret, ps, s1)"
    by (rule prod_cases4)
  note frame = router_check_entries_frame [OF scan]
  then have grow: "lpq_grows s s1" and ret: "ret" using False tag(2) front(3) by auto
  have "Router_CheckRoundFecTable packet s = Inr (n, s1\<lparr>rtq := t\<lparr>rt_pi := ps\<rparr> # ts\<rparr>)"
    using tag(1) front scan ret by (simp add: Router_CheckRoundFecTable_def PeekPacketTag_def)
  moreover have "rview (s1\<lparr>rtq := t\<lparr>rt_pi := ps\<rparr> # ts\<rparr>) = rview s"
    using frame front(1) list_all2_same_entry_view [of "rt_pi t" ps] by (simp add: rview_def rt_view_def)
  ultimately show ?thesis
    using False lpq_grows_frame [OF grow] wf by (simp add: agent_frame_def queues_wf_def)
qed

lemma gt_view_mark:
  "ps = gi_at (gt_gi g) k \<Longrightarrow> gt_view (g\<lparr>gt_gi := gi_put k (mark_first P ps) (gt_gi g)\<rparr>) = gt_view g"
  by (simp add: gt_view_def gi_at_put fun_eq_iff)

lemma mark_group_view:
  assumes tag: "pkt_tag packet = Some tag" "tag_roundId tag = of_nat r"
    and front: "rtq s = t # ts" "rt_rid t = of_nat r"
    and rids: "map fst (gview s) = [b..<Suc R]" "b \<le> r" "r \<le> R" "R < 2 ^ 32"
    and has: "\<forall>G. (r, G) \<in> set (gview s) \<longrightarrow> tag_serial tag \<in> set (G (ucast (tag_groupId tag)))"
  shows "\<exists>n g gs. mark_group packet s = Inr (n, s\<lparr>gtq := g # gs\<rparr>) \<and> map gt_view (g # gs) = drop (r - b) (gview s) \<and>
    gt_rid g = of_nat r \<and> tag_serial tag \<in> pi_serial ` set (gi_at (gt_gi g) (ucast (tag_groupId tag)))"
proof -
  have rids': "map (fst \<circ> gt_view) (gtq s) = [b..<Suc R]" using rids(1) by (simp add: gview_def)
  have "map (fst \<circ> gt_view) (drop (r - b) (gtq s)) = r # [Suc r..<Suc R]"
    using rids' rids by (simp only: drop_map [symmetric] upt_drop_hd)
  then obtain g gs where g: "drop (r - b) (gtq s) = g # gs" "fst (gt_view g) = r"
    by (cases "drop (r - b) (gtq s)") auto
  have rt: "gt_rid g = of_nat r" using g(2) by (auto simp: gt_view_def)
  have "gt_view g \<in> set (gview s)"
    using g(1) unfolding gview_def by (metis image_eqI in_set_dropD list.set_intros(1) list.set_map)
  then have ex: "tag_serial tag \<in> pi_serial ` set (gi_at (gt_gi g) (ucast (tag_groupId tag)))"
    using has g(2) by (force simp: gt_view_def)
  let ?ps = "gi_at (gt_gi g) (ucast (tag_groupId tag))"
  let ?g = "g\<lparr>gt_gi := gi_put (ucast (tag_groupId tag)) (mark_first (\<lambda>p. pi_serial p = tag_serial tag) ?ps) (gt_gi g)\<rparr>"
  have pop: "pop_groups (tag_roundId tag) (gtq s) = Inr (g # gs)"
    using pop_groups_view [OF rids' rids(2-4)] tag(2) g(1) by simp
  have "mark_group packet s = Inr (of_nat (length (missing (tag_serial tag) ?ps)), s\<lparr>gtq := ?g # gs\<rparr>)"
    by (rule mark_group_current [OF tag(1) front(1) _ pop _ refl ex]) (simp_all add: tag front rt)
  moreover have "map gt_view (?g # gs) = drop (r - b) (gview s)"
    using arg_cong [OF g(1), of "map gt_view"] by (simp add: gt_view_mark drop_map gview_def)
  moreover have "tag_serial tag \<in> pi_serial ` set (gi_at (gt_gi ?g) (ucast (tag_groupId tag)))" "gt_rid ?g = of_nat r"
    using ex rt by (simp_all add: gi_at_put)
  ultimately show ?thesis by blast
qed

lemma check_group_view:
  assumes tag: "pkt_tag packet = Some tag" "pkt_headers packet = [TcpH h]"
    and front: "rtq s = t # ts" "rt_rid t = tag_roundId tag"
    and group: "gtq s = g # gs" "gt_rid g = tag_roundId tag"
      "tag_serial tag \<in> pi_serial ` set (gi_at (gt_gi g) (ucast (tag_groupId tag)))"
    and quiet: "\<not> m_printGroupFecTable s" and wf: "queues_wf s"
  shows "\<exists>m s'. check_group (Router_recover packet) packet n s = Inr (m, s') \<and> rtq s' = rtq s \<and> agent_frame s s' \<and>
    queues_wf s' \<and> gview s' = (fst (gt_view g), (snd (gt_view g))(ucast (tag_groupId tag) := [])) # map gt_view gs"
proof -
  let ?M = "missing (tag_serial tag) (gi_at (gt_gi g) (ucast (tag_groupId tag)))"
  let ?p = "last ?M" and ?m = "of_nat (length ?M) :: 32 word"
  define s1 where "s1 = (if n = 1 \<and> ?m = 1
    then (InsertTransitQueue (router_recovered packet tag ?p) (pi_serial ?p) s)\<lparr>m_recover := m_recover s + 1\<rparr> else s)"
  have s1: "rtq s1 = rtq s" "agent_frame s s1" "queues_wf s1" "\<not> m_printGroupFecTable s1"
    using quiet wf queues_wf_insert [of s "router_recovered packet tag ?p" "pi_serial ?p"]
    by (auto simp: s1_def agent_frame_def InsertTransitQueue_def queues_wf_def ip_first_def router_recovered_def)
  have rec: "Router_recover packet ?p s = Inr s1" if "n = 1" "?m = 1"
  proof -
    have "?M \<noteq> []" using that(2) by auto
    then have "\<not> pi_check ?p" using last_in_set [of ?M] by (simp add: missing_def)
    from router_dec.recover_Inr [OF tag this] that show ?thesis by (simp add: s1_def)
  qed
  have "check_group (Router_recover packet) packet n s =
      Inr (?m, s1\<lparr>gtq := g\<lparr>gt_gi := gi_put (ucast (tag_groupId tag)) [] (gt_gi g)\<rparr> # gs\<rparr>)"
  proof (cases "n = 1 \<and> ?m = 1")
    case True
    then have "?M \<noteq> []" by auto
    then show ?thesis using True tag front group s1(4) rec
      by (simp add: check_group_def PeekPacketTag_def check_group_entries_eq)
  next
    case False
    then have "s1 = s" by (auto simp: s1_def)
    then show ?thesis using False tag front group quiet
      by (auto simp: check_group_def PeekPacketTag_def check_group_entries_eq)
  qed
  then show ?thesis using s1 by (auto simp: gview_def gt_view_def gi_at_put agent_frame_def queues_wf_def fun_eq_iff)
qed

section \<open>Recv does not get stuck\<close>

text \<open>Both queues of tables hold consecutive rounds up to the round R the encoder is in.\<close>

definition tables_ok :: "FecRouterAgent \<Rightarrow> nat \<Rightarrow> bool" where
  "tables_ok s R = ((\<exists>a b. map fst (rview s) = [a..<Suc R] \<and> map fst (gview s) = [b..<Suc R] \<and> b \<le> a \<and> a \<le> R) \<and>
    (\<forall>(r, n, E)\<in>set (rview s). n = m_nGroups s))"

text \<open>What a packet of round r changes: tables are dropped, and a redundant packet may clear its group.\<close>

definition shrinks :: "FecTag \<Rightarrow> nat \<Rightarrow> FecRouterAgent \<Rightarrow> FecRouterAgent \<Rightarrow> bool" where
  "shrinks tag r s s' = (agent_frame s s' \<and> set (rview s') \<subseteq> set (rview s) \<and>
    (\<forall>r' G'. (r', G') \<in> set (gview s') \<longrightarrow> (\<exists>G. (r', G) \<in> set (gview s) \<and>
      (\<forall>g. G' g = G g \<or> (tag_type tag = 2 \<and> r' = r \<and> g = ucast (tag_groupId tag))))))"

lemma shrinks_refl [simp]: "shrinks tag r s s"
  by (auto simp: shrinks_def)

lemma shrinks_trans: "shrinks tag r s s' \<Longrightarrow> shrinks tag r s' s'' \<Longrightarrow> shrinks tag r s s''"
  unfolding shrinks_def by (intro conjI; (blast intro: agent_frame_trans)?) (metis (full_types))

lemma shrinks_drop:
  "agent_frame s s' \<Longrightarrow> set (rview s') \<subseteq> set (rview s) \<Longrightarrow> set (gview s') \<subseteq> set (gview s) \<Longrightarrow> shrinks tag r s s'"
  unfolding shrinks_def by blast

lemma agent_frame_rtq [simp]: "agent_frame s (s\<lparr>rtq := ts\<rparr>)" "agent_frame s (s\<lparr>gtq := gs\<rparr>)"
  by (simp_all add: agent_frame_def)

text \<open>Recv in two parts, around the group tables.\<close>

lemma Router_Recv_finish:
  assumes "pkt_tag packet = Some tag" "queues_wf s"
    and "Router_MarkRoundFecTable packet s = Inr s1" "Router_CheckRoundFecTable packet s1 = Inr (n, s2)"
    and "queues_wf s2" "tables_ok s2 R" "shrinks tag r s s2"
    and group: "\<exists>nlost s3 flag s4. mark_group packet s2 = Inr (nlost, s3) \<and>
      (if tag_type tag = 2 then check_group (Router_recover packet) packet nlost s3 else Inr (0, s3)) = Inr (flag, s4) \<and>
      queues_wf s4 \<and> tables_ok s4 R \<and> shrinks tag r s2 s4"
  shows "\<exists>flag s'. Router_Recv packet ipHeader s = Inr (flag, s') \<and> tables_ok s' R \<and> queues_wf s' \<and> shrinks tag r s s'"
proof -
  obtain nlost s3 flag s4 where g: "mark_group packet s2 = Inr (nlost, s3)"
      "(if tag_type tag = 2 then Router_CheckGroupFecTable packet nlost s3 else Inr (0, s3)) = Inr (flag, s4)"
    and s4: "queues_wf s4" "tables_ok s4 R" "shrinks tag r s2 s4"
    using group unfolding Router_CheckGroupFecTable_def by blast
  let ?q = "AddHeader (IpH ipHeader) packet"
  let ?s5 = "Router_InsertTransitQueue ?q (tag_serial tag) s4"
  have s5: "queues_wf ?s5" "tables_ok ?s5 R" "shrinks tag r s4 ?s5"
    using queues_wf_insert [OF s4(1), of ?q] s4(2)
    by (auto simp: Router_InsertTransitQueue_def ip_first_def AddHeader_def tables_ok_def shrinks_def agent_frame_def
        rview_def gview_def InsertTransitQueue_def)
  note tr = shrinks_trans [OF assms(7) s4(3)] shrinks_trans [OF shrinks_trans [OF assms(7) s4(3)] s5(3)]
  have "\<exists>v. Router_Recv packet ipHeader s = Inr v \<and> (snd v = s2 \<or> snd v = s4 \<or> snd v = ?s5)"
    using assms(1,3,4) g
    by (simp add: Router_Recv_def PeekPacketTag_def Router_MarkGroupFecTable_def)
  then show ?thesis using assms(5-7) s4 s5 tr by (auto simp: split_paired_Ex)
qed

lemma Recv_stale:
  assumes tag: "pkt_tag packet = Some tag" and front: "rtq s = t # ts" "tag_roundId tag < rt_rid t"
    and wf: "queues_wf s" "tables_ok s R"
  shows "\<exists>flag s'. Router_Recv packet ipHeader s = Inr (flag, s') \<and> tables_ok s' R \<and> queues_wf s' \<and> shrinks tag r s s'"
proof (rule Router_Recv_finish [OF tag wf(1) _ _ wf shrinks_refl])
  show "Router_MarkRoundFecTable packet s = Inr s"
    using assms by (simp add: Router_MarkRoundFecTable_def mark_round_def PeekPacketTag_def)
  show "Router_CheckRoundFecTable packet s = Inr (0, s)"
    using assms by (simp add: Router_CheckRoundFecTable_def PeekPacketTag_def)
qed (use mark_group_stale [OF tag front] check_group_stale [OF tag front] wf in \<open>auto split: if_splits\<close>)

lemma set_drop_view: "xs = drop d ys \<Longrightarrow> set xs \<subseteq> set ys"
  by (simp add: set_drop_subset)

lemma group_part_ok:
  assumes tag: "pkt_tag packet = Some tag" "tag_roundId tag = of_nat r" "tag_type tag = 2 \<Longrightarrow> pkt_headers packet = [TcpH h]"
    and ok: "tables_ok s R" "R < 2 ^ 32" "r \<le> R" "queues_wf s" "\<not> m_printGroupFecTable s"
    and front: "rtq s = t # ts" "rt_rid t = of_nat r"
    and has: "\<forall>G. (r, G) \<in> set (gview s) \<longrightarrow> tag_serial tag \<in> set (G (ucast (tag_groupId tag)))"
  shows "\<exists>nlost s3 flag s4. mark_group packet s = Inr (nlost, s3) \<and>
      (if tag_type tag = 2 then check_group (Router_recover packet) packet nlost s3 else Inr (0, s3)) = Inr (flag, s4) \<and>
      queues_wf s4 \<and> tables_ok s4 R \<and> shrinks tag r s s4"
proof -
  obtain a b where ab: "map fst (rview s) = [a..<Suc R]" "map fst (gview s) = [b..<Suc R]" "b \<le> a" "a \<le> R"
    and n: "\<forall>(r, n, E)\<in>set (rview s). n = m_nGroups s"
    using ok(1) unfolding tables_ok_def by blast
  have "map fst (rview s) = a # [Suc a..<Suc R]" using ab by (simp only: upt_conv_Cons less_Suc_eq_le)
  then have a: "a = r" using front ok(2,3) by (auto simp: rview_def rt_view_def unsigned_of_nat take_bit_nat_eq_self)
  obtain m g gs where mg: "mark_group packet s = Inr (m, s\<lparr>gtq := g # gs\<rparr>)" "map gt_view (g # gs) = drop (r - b) (gview s)"
      "gt_rid g = of_nat r" "tag_serial tag \<in> pi_serial ` set (gi_at (gt_gi g) (ucast (tag_groupId tag)))"
    using mark_group_view [OF tag(1,2) front ab(2) _ ok(3,2) has] ab(3) a by auto
  let ?s3 = "s\<lparr>gtq := g # gs\<rparr>"
  have g3: "map fst (gview ?s3) = [r..<Suc R]" "set (gview ?s3) \<subseteq> set (gview s)"
  proof -
    have "map fst (drop (r - b) (gview s)) = [r..<Suc R]"
      using ab(2,3) a ok(3) by (simp only: drop_map [symmetric] drop_upt) simp
    then show "map fst (gview ?s3) = [r..<Suc R]" using mg(2) by (simp add: gview_def)
    show "set (gview ?s3) \<subseteq> set (gview s)" using set_drop_view [OF mg(2)] by (simp add: gview_def)
  qed
  have rv3: "rview ?s3 = rview s" by (simp add: rview_def)
  have ok3: "queues_wf ?s3" "tables_ok ?s3 R" "shrinks tag r s ?s3"
    using ok(4) ab a n g3 rv3 by (auto simp: queues_wf_def tables_ok_def simp del: upt_Suc intro!: shrinks_drop)
  show ?thesis
  proof (cases "tag_type tag = 2")
    case True
    obtain k s4 where cg: "check_group (Router_recover packet) packet m ?s3 = Inr (k, s4)" "rtq s4 = rtq ?s3"
        "agent_frame ?s3 s4" "queues_wf s4"
        "gview s4 = (fst (gt_view g), (snd (gt_view g))(ucast (tag_groupId tag) := [])) # map gt_view gs"
      using check_group_view [OF tag(1) tag(3) [OF True], of ?s3 t ts g gs m] front tag(2) mg ok3(1) ok(5) by auto
    have g3v: "gview ?s3 = gt_view g # map gt_view gs" by (simp add: gview_def)
    have fg: "fst (gt_view g) = r"
      using mg(3) ok(2,3) by (simp add: gt_view_def unsigned_of_nat take_bit_nat_eq_self)
    have gv4: "map fst (gview s4) = map fst (gview ?s3)" by (simp add: cg(5) g3v)
    have rv4: "rview s4 = rview s" using cg(2) by (simp add: rview_def)
    have "tables_ok s4 R"
      using ok3(2) rv4 rv3 gv4 cg(3) by (simp add: tables_ok_def agent_frame_def del: upt_Suc)
    moreover have "shrinks tag r ?s3 s4"
      unfolding shrinks_def using cg(3) rv4 rv3 True fg
      by (auto simp: cg(5) g3v intro: exI [of _ "snd (gt_view g)"])
    ultimately show ?thesis using mg(1) cg(1,4) True shrinks_trans [OF ok3(3)] by auto
  qed (use mg(1) ok3 in auto)
qed

lemma Router_Recv_ok:
  assumes tag: "pkt_tag packet = Some tag" "tag_roundId tag = of_nat r" "tag_type tag = 1 \<or> tag_type tag = 2"
      "tag_type tag = 2 \<Longrightarrow> pkt_headers packet = [TcpH h]"
    and ok: "tables_ok s R" "R < 2 ^ 32" "r \<le> R" "queues_wf s" "\<not> m_printRoundFecTable s" "\<not> m_printGroupFecTable s"
    and rhas: "\<forall>n E. (r, n, E) \<in> set (rview s) \<longrightarrow> (tag_serial tag, ucast (tag_groupId tag)) \<in> set E"
    and ghas: "\<forall>G. (r, G) \<in> set (gview s) \<longrightarrow> tag_serial tag \<in> set (G (ucast (tag_groupId tag)))"
    and closing: "tag_type tag = 2 \<Longrightarrow> uint (tag_groupId tag) = uint (m_nGroups s) - 1 \<Longrightarrow> r < R"
  shows "\<exists>flag s'. Router_Recv packet ipHeader s = Inr (flag, s') \<and> tables_ok s' R \<and> queues_wf s' \<and> shrinks tag r s s'"
proof -
  obtain a b where ab: "map fst (rview s) = [a..<Suc R]" "map fst (gview s) = [b..<Suc R]" "b \<le> a" "a \<le> R"
    and n: "\<forall>(r, n, E)\<in>set (rview s). n = m_nGroups s"
    using ok(1) unfolding tables_ok_def by blast
  from ab(1,4) obtain t0 ts0 where t0: "rtq s = t0 # ts0" "unat (rt_rid t0) = a" by (rule rtq_front)
  show ?thesis
  proof (cases "r < a")
    case True
    then have "tag_roundId tag < rt_rid t0"
      using t0(2) tag(2) ok(2,3) by (simp add: word_less_nat_alt unsigned_of_nat take_bit_nat_eq_self)
    with Recv_stale [OF tag(1) t0(1) this ok(4,1)] show ?thesis by blast
  next
    case False
    then have ar: "a \<le> r" by simp
    obtain ts where mr: "mark_round packet s = Inr (s\<lparr>rtq := ts\<rparr>)" "map rt_view ts = drop (r - a) (rview s)"
      using mark_round_view [OF tag(1,2) ok(5) ab(1) ar ok(3,2) rhas] by blast
    let ?s1 = "s\<lparr>rtq := ts\<rparr>"
    have rv1: "rview ?s1 = drop (r - a) (rview s)" using mr(2) by (simp add: rview_def)
    have rids1: "map fst (rview ?s1) = r # [Suc r..<Suc R]"
      using ab(1) ar ok(3) rv1 by (simp only: drop_map [symmetric] upt_drop_hd)
    then obtain t ts' where ts: "ts = t # ts'" "fst (rt_view t) = r"
      by (cases ts) (auto simp: rview_def)
    have front: "rt_rid t = tag_roundId tag" using ts(2) tag(2) by (auto simp: rt_view_def)
    have mem: "rt_view t \<in> set (rview s)" using set_drop_view [OF mr(2)] ts(1) by auto
    then have nt: "rt_nGroups t = m_nGroups s" and "(tag_serial tag, ucast (tag_groupId tag)) \<in> set (snd (snd (rt_view t)))"
      using n rhas ts(2) by (force simp: rt_view_def)+
    then have ser: "tag_serial tag \<in> pi_serial ` set (rt_pi t)" by (force simp: rt_view_def)
    obtain k s2 where cr: "Router_CheckRoundFecTable packet ?s1 = Inr (k, s2)" "gtq s2 = gtq ?s1" "agent_frame ?s1 s2"
        "queues_wf s2" "rview s2 = (if tag_type tag = 2 \<and> uint (tag_groupId tag) = uint (rt_nGroups t) - 1 then tl (rview ?s1) else rview ?s1)"
      using check_round_view [OF tag(1,3), of ?s1 t ts'] ts(1) front ser ok(4,5) by (auto simp: queues_wf_def)
    have gv2: "gview s2 = gview s" using cr(2) by (simp add: gview_def)
    have "set (tl xs) \<subseteq> set xs" for xs :: "round_view list" by (cases xs) auto
    then have "set (rview s2) \<subseteq> set (rview ?s1)" unfolding cr(5) by (simp split: if_splits)
    then have sub: "set (rview s2) \<subseteq> set (rview s)"
      unfolding rv1 using set_drop_subset [of "r - a" "rview s"] by (rule order_trans)
    let ?closed = "tag_type tag = 2 \<and> uint (tag_groupId tag) = uint (m_nGroups s) - 1"
    have rids2: "map fst (rview s2) = [(if ?closed then Suc r else r)..<Suc R]"
      using cr(5) rids1 nt ok(3) by (simp add: map_tl upt_conv_Cons del: upt_Suc)
    have fr2: "agent_frame s s2" using cr(3) by (simp add: agent_frame_def)
    have bound: "b \<le> (if ?closed then Suc r else r)" "(if ?closed then Suc r else r) \<le> R"
      using ab(3) ar ok(3) closing by auto
    have "\<forall>(r, n, E)\<in>set (rview s2). n = m_nGroups s2" using n sub fr2 by (auto simp: agent_frame_def)
    then have ok2: "tables_ok s2 R"
      unfolding tables_ok_def gv2 using rids2 ab(2) bound by blast
    have sh2: "shrinks tag r s s2" by (rule shrinks_drop [OF fr2 sub]) (simp add: gv2)
    have mark: "Router_MarkRoundFecTable packet s = Inr ?s1" by (simp add: Router_MarkRoundFecTable_def mr(1))
    show ?thesis
    proof (rule Router_Recv_finish [OF tag(1) ok(4) mark cr(1,4) ok2 sh2])
      from rids2 bound(2) obtain t2 ts2 where t2: "rtq s2 = t2 # ts2"
          "unat (rt_rid t2) = (if ?closed then Suc r else r)" by (rule rtq_front)
      show "\<exists>nlost s3 flag s4. mark_group packet s2 = Inr (nlost, s3) \<and>
          (if tag_type tag = 2 then check_group (Router_recover packet) packet nlost s3 else Inr (0, s3)) = Inr (flag, s4) \<and>
          queues_wf s4 \<and> tables_ok s4 R \<and> shrinks tag r s2 s4"
      proof (cases ?closed)
        case True
        then have "tag_roundId tag < rt_rid t2"
          using t2(2) tag(2) ok(2,3) by (simp add: word_less_nat_alt unsigned_of_nat take_bit_nat_eq_self)
        then show ?thesis
          using mark_group_stale [OF tag(1) t2(1)] check_group_stale [OF tag(1) t2(1)] True cr(4) ok2 by auto
      next
        case False
        then have "rt_rid t2 = of_nat r" using t2(2) by auto
        then show ?thesis
          using group_part_ok [OF tag(1,2,4) ok2 ok(2,3) cr(4) _ t2(1)] fr2 ok(6) ghas gv2 by (simp add: agent_frame_def)
      qed
    qed
  qed
qed

end
