(* ===== verification/Fec_System.thy ===== *)
theory Fec_System
  imports Fec_Views
begin

text \<open>
  The encoding and the decoding router together: a state machine in which the sender transmits, the
  link loses packets or delivers them in order, and both ends work on the one agent they share.
\<close>

section \<open>The system\<close>

record FecSystem =
  sys_enc :: FecEncode
  sys_rid :: "32 word"
  sys_out :: "(Packet \<times> Ipv4Header) list"

definition fec_initial :: "FecRouterAgent \<Rightarrow> FecSystem" where
  "fec_initial fec = \<lparr>sys_enc = Encode_SetFec fec, sys_rid = 1, sys_out = []\<rparr>"

text \<open>
  The packets the sender hands to SendRealOut: without a tag and no longer than an IP packet can be;
  one longer than a segment, as every full data packet is, has a TCP header outermost, and any other
  leaves room in a segment for the 22 octets of the IP and the PPP header. A packet whose size is up to
  22 octets below that of a segment is left out: SendRealOut compares the size a second time with these
  headers in front, and counts a packet in the round that CreateDataPacket has not put into it, as
  \<open>SendRealOut_misaligned\<close> below shows. The rounds stay below the wrap-around of the 32-bit counter.
\<close>

definition sendable :: "Packet \<Rightarrow> FecEncode \<Rightarrow> bool" where
  "sendable p e = (pkt_tag p = None \<and> unat (GetSize p) + 20 \<le> 65535 \<and> unat (m_roundId (enc_fec e)) + 1 < 2 ^ 32 \<and>
    (if GetSize p > enc_segmentSize e then \<exists>h hs. pkt_headers p = TcpH h # hs
     else unat (GetSize p) + 22 \<le> unat (enc_segmentSize e)))"

definition sys_dec :: "FecSystem \<Rightarrow> FecDecode" where
  "sys_dec y = \<lparr>dec_fec = enc_fec (sys_enc y), dec_rid = sys_rid y, dec_sent = sys_out y\<rparr>"

inductive fec_step :: "FecSystem \<Rightarrow> FecSystem \<Rightarrow> bool" where
  send: "sendable p (sys_enc y) \<Longrightarrow> Encode_SendRealOut outcome p ip (sys_enc y) = Inr e \<Longrightarrow>
    fec_step y (y\<lparr>sys_enc := e\<rparr>)"
| lose: "enc_sent (sys_enc y) = x # xs \<Longrightarrow>
    fec_step y (y\<lparr>sys_enc := (sys_enc y)\<lparr>enc_sent := xs\<rparr>\<rparr>)"
| deliver: "enc_sent (sys_enc y) = (p, ip) # xs \<Longrightarrow> Decode_IpForward p ip (sys_dec y) = Inr d \<Longrightarrow>
    fec_step y (y\<lparr>sys_enc := (sys_enc y)\<lparr>enc_sent := xs, enc_fec := dec_fec d\<rparr>, sys_rid := dec_rid d, sys_out := dec_sent d\<rparr>)"

inductive fec_reach :: "FecSystem \<Rightarrow> FecSystem \<Rightarrow> bool" where
  start: "fec_reach y y"
| step: "fec_reach y z \<Longrightarrow> fec_step z w \<Longrightarrow> fec_reach y w"

inductive_cases fec_stepE: "fec_step y z"

section \<open>Items on the link\<close>

text \<open>
  The i-th packet of round r, counted from 1: the first F are data, the next N redundant packets, one
  for each group; packet i belongs to group (i - 1) mod N.
\<close>

type_synonym item = "nat \<times> nat"

definition gid8 :: "nat \<Rightarrow> nat \<Rightarrow> 8 word" where
  "gid8 N i = of_nat ((i - 1) mod N)"

definition item_tag :: "nat \<Rightarrow> nat \<Rightarrow> item \<Rightarrow> FecTag" where
  "item_tag N F x = \<lparr>tag_type = (if snd x \<le> F then 1 else 2), tag_serial = of_nat (snd x), tag_roundId = of_nat (fst x),
    tag_groupId = gid8 N (snd x), tag_nGroups = of_nat N\<rparr>"

definition item_packet :: "nat \<Rightarrow> nat \<Rightarrow> item \<Rightarrow> Packet \<Rightarrow> bool" where
  "item_packet N F x p = (pkt_tag p = Some (item_tag N F x) \<and> (F < snd x \<longrightarrow> (\<exists>h. pkt_headers p = [TcpH h])))"

definition item_less :: "item \<Rightarrow> item \<Rightarrow> bool" where
  "item_less x y = (fst x < fst y \<or> fst x = fst y \<and> snd x < snd y)"

text \<open>The item is in the tables of its round, as long as the tables are there.\<close>

definition in_tables :: "nat \<Rightarrow> FecRouterAgent \<Rightarrow> item \<Rightarrow> bool" where
  "in_tables N s x = (
    (\<forall>n E. (fst x, n, E) \<in> set (rview s) \<longrightarrow> (of_nat (snd x), ucast (gid8 N (snd x))) \<in> set E) \<and>
    (\<forall>G. (fst x, G) \<in> set (gview s) \<longrightarrow> of_nat (snd x) \<in> set (G (ucast (gid8 N (snd x))))))"

section \<open>The invariant\<close>

text \<open>In round R, k packets of which are sent.\<close>

definition agent_at :: "nat \<Rightarrow> nat \<Rightarrow> nat \<Rightarrow> nat \<Rightarrow> FecRouterAgent \<Rightarrow> bool" where
  "agent_at N F R k s = (unat (m_nGroups s) = N \<and> 0 < N \<and> F = unat (m_fwin s) * N \<and> 0 < F \<and> F + N < 2 ^ 32 \<and>
    \<not> m_printRoundFecTable s \<and> \<not> m_printGroupFecTable s \<and> R < 2 ^ 32 \<and>
    m_roundId s = of_nat R \<and> m_serial s = of_nat (Suc k) \<and> m_groupId s = of_nat (k mod N))"

definition enc_at :: "nat \<Rightarrow> nat \<Rightarrow> nat \<Rightarrow> FecEncode \<Rightarrow> bool" where
  "enc_at N F k e = (enc_fwin e = m_fwin (enc_fec e) \<and> enc_nGroups e = m_nGroups (enc_fec e) \<and>
    enc_segmentSize e = m_segmentSize (enc_fec e) \<and> \<not> enc_init e \<and> k < F + N \<and>
    enc_fc e = of_nat (F - k) \<and> enc_ic e = of_nat (min N (F + N - k)))"

definition items_ok :: "nat \<Rightarrow> nat \<Rightarrow> nat \<Rightarrow> nat \<Rightarrow> FecRouterAgent \<Rightarrow> item list \<Rightarrow> bool" where
  "items_ok N F R k s xs = (sorted_wrt item_less xs \<and> (\<forall>x\<in>set xs. 1 \<le> snd x \<and> snd x \<le> F + N \<and> fst x \<le> R \<and>
    (fst x = R \<longrightarrow> snd x \<le> k) \<and> in_tables N s x))"

text \<open>On the link, the packets with a tag are the items, and the others are no longer than a segment.\<close>

definition tagged :: "FecEncode \<Rightarrow> Packet list" where
  "tagged e = filter (\<lambda>p. pkt_tag p \<noteq> None) (map fst (enc_sent e))"

definition plain_short :: "FecEncode \<Rightarrow> bool" where
  "plain_short e = (\<forall>p\<in>set (map fst (enc_sent e)). pkt_tag p = None \<longrightarrow> GetSize p \<le> enc_segmentSize e)"

definition sys_inv :: "nat \<Rightarrow> nat \<Rightarrow> nat \<Rightarrow> nat \<Rightarrow> FecEncode \<Rightarrow> bool" where
  "sys_inv N F R k e = (agent_at N F R k (enc_fec e) \<and> enc_at N F k e \<and> tables_ok (enc_fec e) R \<and> queues_wf (enc_fec e) \<and>
    plain_short e \<and> (\<exists>xs. list_all2 (item_packet N F) xs (tagged e) \<and> items_ok N F R k (enc_fec e) xs))"

section \<open>Encoding on the views\<close>

definition rpush :: "32 word \<times> 32 word \<Rightarrow> round_view list \<Rightarrow> round_view list" where
  "rpush x V = butlast V @ [(fst (last V), fst (snd (last V)), snd (snd (last V)) @ [x])]"

definition gpush :: "32 word \<Rightarrow> 32 word \<Rightarrow> group_view list \<Rightarrow> group_view list" where
  "gpush g x V = butlast V @ [(fst (last V), (snd (last V))(g := snd (last V) g @ [x]))]"

lemma push_tables_view:
  assumes "rtq s \<noteq> []" "gtq s \<noteq> []"
  shows "\<exists>ts gs. push_tables g p s = Inr (s\<lparr>gtq := gs, rtq := ts\<rparr>) \<and>
    map rt_view ts = rpush (pi_serial p, pi_gid p) (rview s) \<and> map gt_view gs = gpush (ucast g) (pi_serial p) (gview s)"
proof (intro exI conjI)
  let ?gt = "last (gtq s)" and ?rt = "last (rtq s)"
  let ?gs = "butlast (gtq s) @ [?gt\<lparr>gt_gi := gi_put (ucast g) (gi_at (gt_gi ?gt) (ucast g) @ [p]) (gt_gi ?gt)\<rparr>]"
  let ?ts = "butlast (rtq s) @ [?rt\<lparr>rt_pi := rt_pi ?rt @ [p]\<rparr>]"
  show "push_tables g p s = Inr (s\<lparr>gtq := ?gs, rtq := ?ts\<rparr>)"
    using assms by (simp add: push_tables_def Let_def)
  show "map rt_view ?ts = rpush (pi_serial p, pi_gid p) (rview s)"
    using assms by (simp add: rpush_def rview_def map_butlast last_map) (simp add: rt_view_def)
  show "map gt_view ?gs = gpush (ucast g) (pi_serial p) (gview s)"
    using assms by (simp add: gpush_def gview_def map_butlast last_map) (simp add: gt_view_def gi_at_put fun_eq_iff)
qed

lemma fst_rpush [simp]: "V \<noteq> [] \<Longrightarrow> map fst (rpush x V) = map fst V"
  by (metis (no_types, lifting) append_butlast_last_id fst_conv list.simps(8,9) map_append rpush_def)

lemma fst_gpush [simp]: "V \<noteq> [] \<Longrightarrow> map fst (gpush g x V) = map fst V"
  by (metis (no_types, lifting) append_butlast_last_id fst_conv list.simps(8,9) map_append gpush_def)

lemma views_nonempty:
  assumes "tables_ok s R"
  shows "rtq s \<noteq> []" "gtq s \<noteq> []" "fst (last (rview s)) = R" "fst (last (gview s)) = R" "distinct (map fst (rview s))" "distinct (map fst (gview s))"
    "rview s \<noteq> []" "gview s \<noteq> []"
proof -
  obtain a b where ab: "map fst (rview s) = [a..<Suc R]" "map fst (gview s) = [b..<Suc R]" "b \<le> a" "a \<le> R"
    using assms unfolding tables_ok_def by blast
  then show ne: "rview s \<noteq> []" "gview s \<noteq> []" by auto
  then show "rtq s \<noteq> []" "gtq s \<noteq> []" by (auto simp: rview_def gview_def)
  show "fst (last (rview s)) = R" "fst (last (gview s)) = R"
    using ab last_map [OF ne(1), of fst] last_map [OF ne(2), of fst] by auto
  show "distinct (map fst (rview s))" "distinct (map fst (gview s))" using ab by auto
qed

lemma set_rpush: "V \<noteq> [] \<Longrightarrow> (r, n, E) \<in> set (rpush x V) \<Longrightarrow>
    \<exists>E0. (r, n, E0) \<in> set V \<and> set E0 \<subseteq> set E \<and> (r = fst (last V) \<and> distinct (map fst V) \<longrightarrow> x \<in> set E)"
proof -
  assume ne: "V \<noteq> []" and mem: "(r, n, E) \<in> set (rpush x V)"
  obtain W l where V: "V = W @ [l]" using ne by (metis append_butlast_last_id)
  show ?thesis using mem by (cases l) (auto simp: rpush_def V image_iff, force+)
qed

lemma set_gpush: "V \<noteq> [] \<Longrightarrow> (r, G) \<in> set (gpush g x V) \<Longrightarrow>
    \<exists>G0. (r, G0) \<in> set V \<and> (\<forall>k. set (G0 k) \<subseteq> set (G k)) \<and> (r = fst (last V) \<and> distinct (map fst V) \<longrightarrow> x \<in> set (G g))"
proof -
  assume ne: "V \<noteq> []" and mem: "(r, G) \<in> set (gpush g x V)"
  obtain W l where V: "V = W @ [l]" using ne by (metis append_butlast_last_id)
  show ?thesis using mem by (cases l) (auto simp: gpush_def V image_iff, force+)
qed

lemma in_tables_push:
  assumes ok: "tables_ok s R"
    and push: "rview s' = rpush (of_nat i, ucast (gid8 N i)) (rview s)" "gview s' = gpush (ucast (gid8 N i)) (of_nat i) (gview s)"
  shows "in_tables N s x \<Longrightarrow> in_tables N s' x" "in_tables N s' (R, i)"
proof -
  note v = views_nonempty [OF ok]
  note r = set_rpush [OF v(7), where x = "(of_nat i, ucast (gid8 N i))", folded push(1)]
  note g = set_gpush [OF v(8), where g = "ucast (gid8 N i)" and x = "of_nat i", folded push(2)]
  show "in_tables N s' x" if "in_tables N s x"
    using that r g unfolding in_tables_def by (meson subsetD)
  show "in_tables N s' (R, i)"
    using r g v(3-6) unfolding in_tables_def by (metis fst_conv snd_conv)
qed

lemma tables_ok_push:
  assumes ok: "tables_ok s R"
    and push: "rview s' = rpush x (rview s)" "gview s' = gpush g y (gview s)" "m_nGroups s' = m_nGroups s"
  shows "tables_ok s' R"
proof -
  note v = views_nonempty [OF ok]
  have "n = m_nGroups s'" if "(r, n, E) \<in> set (rview s')" for r n E
    using set_rpush [OF v(7), of r n E x] that ok unfolding push tables_ok_def by fastforce
  then show ?thesis using ok v(7,8) unfolding tables_ok_def push(1,2) by (auto simp del: upt_Suc)
qed

section \<open>Sending steps\<close>

lemma agent_at_groups:
  assumes "agent_at N F R k s"
  shows "m_nGroups s = of_nat N" "N < 256" "m_groupId s = gid8 N (Suc k)"
    "m_groupId s + 1 = m_nGroups s \<longleftrightarrow> Suc (k mod N) = N" "m_nGroups s > 1 \<longleftrightarrow> N > 1" "m_nGroups s = 1 \<longleftrightarrow> N = 1"
proof -
  have N: "unat (m_nGroups s) = N" "0 < N" and g: "m_groupId s = of_nat (k mod N)" using assms by (simp_all add: agent_at_def)
  show "m_nGroups s = of_nat N" using N(1) by auto
  show small: "N < 256" using N(1) unat_lt2p [of "m_nGroups s"] by simp
  show "m_groupId s = gid8 N (Suc k)" by (simp add: gid8_def g)
  have "k mod N < N" using N(2) by simp
  then have "unat (m_groupId s + 1) = Suc (k mod N)"
    using small unat_add_lt [of "m_groupId s" 1] by (simp add: g unsigned_of_nat take_bit_nat_eq_self)
  then show "m_groupId s + 1 = m_nGroups s \<longleftrightarrow> Suc (k mod N) = N" by (simp add: word_unat_eq_iff N(1))
  show "m_nGroups s > 1 \<longleftrightarrow> N > 1" "m_nGroups s = 1 \<longleftrightarrow> N = 1"
    by (simp_all add: word_less_nat_alt word_unat_eq_iff N(1))
qed

lemma m_groupId_single: "agent_at N F R k s \<Longrightarrow> N = 1 \<Longrightarrow> s\<lparr>m_groupId := 0\<rparr> = s"
  by (simp add: agent_at_def)

lemma GetSize_tag [simp]: "GetSize (p\<lparr>pkt_tag := t\<rparr>) = GetSize p"
  by (simp add: GetSize_def)

lemma CreateData_step:
  assumes at: "agent_at N F R k s" and ok: "tables_ok s R" and k: "k < F"
    and p: "pkt_tag p = None" "pkt_headers p = TcpH h # hs"
  shows "\<exists>p' s'. Router_CreateDataPacket p ip s = Inr (p', s') \<and> item_packet N F (R, Suc k) p' \<and> GetSize p' = GetSize p \<and>
    agent_at N F R (Suc k) s' \<and> m_fwin s' = m_fwin s \<and> m_nGroups s' = m_nGroups s \<and> m_segmentSize s' = m_segmentSize s \<and>
    tqq s' = tqq s \<and> lpq s' = lpq s \<and>
    rview s' = rpush (of_nat (Suc k), ucast (gid8 N (Suc k))) (rview s) \<and>
    gview s' = gpush (ucast (gid8 N (Suc k))) (of_nat (Suc k)) (gview s)"
proof -
  note v = views_nonempty [OF ok] and g = agent_at_groups [OF at]
  have a: "m_serial s = of_nat (Suc k)" "m_roundId s = of_nat R" "m_fwin s \<noteq> 0" "m_groupId s = of_nat (k mod N)" "0 < N"
    using at by (auto simp: agent_at_def)
  let ?pi = "\<lparr>pi_serial = m_serial s, pi_check = False, pi_gid = ucast (m_groupId s), pi_type = False,
           pi_tcp = h, pi_flag = False, pi_ip = ip\<rparr>"
  obtain ts gs where push: "push_tables (m_groupId s) ?pi s = Inr (s\<lparr>gtq := gs, rtq := ts\<rparr>)"
      "map rt_view ts = rpush (of_nat (Suc k), ucast (gid8 N (Suc k))) (rview s)"
      "map gt_view gs = gpush (ucast (gid8 N (Suc k))) (of_nat (Suc k)) (gview s)"
    using push_tables_view [OF v(1,2), of "m_groupId s" ?pi] by (auto simp: a(1) g(3) simp del: of_nat_Suc)
  let ?p = "p\<lparr>pkt_tag := Some (item_tag N F (R, Suc k))\<rparr>"
  let ?s = "s\<lparr>gtq := gs, rtq := ts, m_groupId := of_nat (Suc k mod N), m_serial := m_serial s + 1,
    m_sentdatapkt := m_sentdatapkt s + 1\<rparr>"
  have id: "(if m_nGroups s = 1 then s\<lparr>m_groupId := 0\<rparr> else s) = s"
    using m_groupId_single [OF at] g(6) by simp
  have tag: "\<lparr>tag_type = 1, tag_serial = m_serial s, tag_roundId = m_roundId s, tag_groupId = m_groupId s,
      tag_nGroups = m_nGroups s\<rparr> = item_tag N F (R, Suc k)"
    using k by (simp add: item_tag_def a(1,2) g(1,3) del: of_nat_Suc)
  have nxt: "of_nat (Suc k mod N) = (if 1 < m_nGroups s then if m_groupId s + 1 = m_nGroups s then 0 else m_groupId s + 1 else m_groupId s)"
    using g(4,5) a(4,5) by (cases "N = 1") (auto simp: mod_Suc)
  have "Router_CreateDataPacket p ip s = Inr (?p, ?s)"
    unfolding Router_CreateDataPacket_def id Let_def nxt
    using p push(1) a(3) tag by (simp add: PeekTcpHeader_def AddPacketTag_def)
  moreover have "agent_at N F R (Suc k) ?s" using at by (auto simp: agent_at_def)
  moreover have "item_packet N F (R, Suc k) ?p" using k by (simp add: item_packet_def)
  ultimately show ?thesis using push(2,3) by (intro exI [of _ ?p] exI [of _ ?s]) (simp add: rview_def gview_def)
qed

lemma CreateFec_step:
  assumes at: "agent_at N F R k s" and ok: "tables_ok s R" and k: "F \<le> k" "k < F + N"
    and p: "PeekTcpHeader p = Inr h"
  shows "\<exists>p' s'. Router_CreateFecPacket p s = Inr (p', s') \<and> item_packet N F (R, Suc k) p' \<and>
    (if Suc k = F + N then m_roundId s' = of_nat (Suc R) \<and> m_serial s' = 1 \<and> m_groupId s' = 0
     else m_roundId s' = of_nat R \<and> m_serial s' = of_nat (Suc (Suc k)) \<and> m_groupId s' = of_nat (Suc k mod N)) \<and>
    m_fwin s' = m_fwin s \<and> m_nGroups s' = m_nGroups s \<and> m_segmentSize s' = m_segmentSize s \<and>
    m_printRoundFecTable s' = m_printRoundFecTable s \<and> m_printGroupFecTable s' = m_printGroupFecTable s \<and>
    tqq s' = tqq s \<and> lpq s' = lpq s \<and>
    rview s' = rpush (of_nat (Suc k), ucast (gid8 N (Suc k))) (rview s) \<and>
    gview s' = gpush (ucast (gid8 N (Suc k))) (of_nat (Suc k)) (gview s)"
proof -
  note v = views_nonempty [OF ok] and g = agent_at_groups [OF at]
  have a: "m_serial s = of_nat (Suc k)" "m_roundId s = of_nat R" "m_groupId s = of_nat (k mod N)" "0 < N" "F mod N = 0"
    using at by (auto simp: agent_at_def)
  have km: "k mod N = k - F"
    using k a(4,5) by (metis add.commute add_diff_inverse_nat le_add_diff_inverse2 less_diff_conv2 mod_add_right_eq mod_less add_0_right not_less)
  have wrap: "Suc (k mod N) = N \<longleftrightarrow> Suc k = F + N" using km k by auto
  let ?pi = "\<lparr>pi_serial = m_serial s, pi_check = False, pi_gid = ucast (m_groupId s), pi_type = True,
           pi_tcp = TcpHeader_new, pi_flag = False, pi_ip = Ipv4Header_new\<rparr>"
  obtain ts gs where push: "push_tables (m_groupId s) ?pi s = Inr (s\<lparr>gtq := gs, rtq := ts\<rparr>)"
      "map rt_view ts = rpush (of_nat (Suc k), ucast (gid8 N (Suc k))) (rview s)"
      "map gt_view gs = gpush (ucast (gid8 N (Suc k))) (of_nat (Suc k)) (gview s)"
    using push_tables_view [OF v(1,2), of "m_groupId s" ?pi] by (auto simp: a(1) g(3) simp del: of_nat_Suc)
  let ?p = "\<lparr>pkt_tag = Some (item_tag N F (R, Suc k)), pkt_headers = [TcpH (fec_tcp_header h)], pkt_payload = m_segmentSize s\<rparr>"
  let ?s0 = "s\<lparr>gtq := gs, rtq := ts, m_sentfecpkt := m_sentfecpkt s + 1\<rparr>"
  let ?s = "if Suc k = F + N then ?s0\<lparr>m_serial := 1, m_groupId := 0, m_roundId := m_roundId s + 1\<rparr>
    else ?s0\<lparr>m_serial := m_serial s + 1, m_groupId := m_groupId s + 1\<rparr>"
  have tag: "\<lparr>tag_type = 2, tag_serial = m_serial s, tag_roundId = m_roundId s, tag_groupId = m_groupId s,
      tag_nGroups = m_nGroups s\<rparr> = item_tag N F (R, Suc k)"
    using k by (simp add: item_tag_def a(1,2) g(1,3) del: of_nat_Suc)
  have "N = 1 \<Longrightarrow> Suc k = F + N" using wrap by simp
  then have "Router_CreateFecPacket p s = Inr (?p, ?s)"
    unfolding Router_CreateFecPacket_def Let_def
    using p push(1) tag g(4,5,6) a(4) wrap
    by (auto simp: PeekTcpHeader_def AddPacketTag_def Create_Packet_def AddHeader_def)
  moreover have "item_packet N F (R, Suc k) ?p" using k by (simp add: item_packet_def)
  moreover have "m_groupId s + 1 = of_nat (Suc k mod N)" if "Suc k \<noteq> F + N"
    using that wrap a(3) by (simp add: mod_Suc)
  ultimately show ?thesis using push(2,3) a
    by (intro exI [of _ ?p] exI [of _ ?s]) (simp add: rview_def gview_def)
qed

lemma items_append:
  assumes "items_ok N F R k s xs" "tables_ok s R" "k < F + N"
    and "rview s' = rpush (of_nat (Suc k), ucast (gid8 N (Suc k))) (rview s)"
      "gview s' = gpush (ucast (gid8 N (Suc k))) (of_nat (Suc k)) (gview s)"
  shows "items_ok N F R (Suc k) s' (xs @ [(R, Suc k)])"
  using assms(1,3) in_tables_push [OF assms(2,4,5)]
  by (fastforce simp: items_ok_def sorted_wrt_append item_less_def)

lemma items_next_round:
  assumes "items_ok N F R k s xs"
    and "rview s' = rview s @ [(Suc R, n, [])]" "gview s' = gview s @ [(Suc R, \<lambda>_. [])]"
  shows "items_ok N F (Suc R) 0 s' xs"
proof -
  have "in_tables N s x \<Longrightarrow> fst x \<le> R \<Longrightarrow> in_tables N s' x" for x
    by (auto simp: in_tables_def assms(2,3))
  then show ?thesis using assms(1) by (force simp: items_ok_def)
qed

lemma UpdateFecTable_view:
  "rview (Router_UpdateFecTable s) = rview s @ [(unat (m_roundId s), m_nGroups s, [])]"
  "gview (Router_UpdateFecTable s) = gview s @ [(unat (m_roundId s), \<lambda>_. [])]"
  by (simp_all add: rview_def gview_def Router_UpdateFecTable_def rt_view_def gt_view_def gi_at_def)

lemma tables_ok_next_round:
  assumes "tables_ok s R" "rview s' = rview s @ [(Suc R, m_nGroups s, [])]" "gview s' = gview s @ [(Suc R, \<lambda>_. [])]"
    "m_nGroups s' = m_nGroups s"
  shows "tables_ok s' (Suc R)"
proof -
  obtain a b where "map fst (rview s) = [a..<Suc R]" "map fst (gview s) = [b..<Suc R]" "b \<le> a" "a \<le> R"
    using assms(1) unfolding tables_ok_def by blast
  then have "map fst (rview s') = [a..<Suc (Suc R)]" "map fst (gview s') = [b..<Suc (Suc R)]" "b \<le> a" "a \<le> Suc R"
    by (simp_all add: assms(2,3))
  then show ?thesis using assms unfolding tables_ok_def by (auto simp del: upt_Suc)
qed

lemma fc_products:
  assumes "agent_at N F R k s"
  shows "m_fwin s * ucast (m_nGroups s) = of_nat F" "ucast (m_nGroups s) = (of_nat N :: 32 word)"
proof -
  have N: "unat (m_nGroups s) = N" and F: "F = unat (m_fwin s) * N" using assms by (simp_all add: agent_at_def)
  show "ucast (m_nGroups s) = (of_nat N :: 32 word)" unfolding N [symmetric] by (rule ucast_as_of_nat)
  then show "m_fwin s * ucast (m_nGroups s) = of_nat F" unfolding F by simp
qed

lemma of_nat_zero_32: "n < 2 ^ 32 \<Longrightarrow> (of_nat n :: 32 word) = 0 \<longleftrightarrow> n = 0"
  by (simp add: word_unat_eq_iff unsigned_of_nat take_bit_nat_eq_self)

lemma sys_inv_size: "sys_inv N F R k e \<Longrightarrow> F + N < 2 ^ 32 \<and> 0 < N \<and> 0 < F \<and> k < F + N"
  by (auto simp: sys_inv_def agent_at_def enc_at_def)

lemma item_tagged: "item_packet N F x p \<Longrightarrow> pkt_tag p \<noteq> None"
  by (simp add: item_packet_def)

lemma tagged_send:
  "enc_sent e' = enc_sent e @ [(q, ip)] \<Longrightarrow> tagged e' = tagged e @ (if pkt_tag q = None then [] else [q])"
  by (simp add: tagged_def)

lemma plain_short_send:
  "plain_short e \<Longrightarrow> enc_sent e' = enc_sent e @ [(q, ip)] \<Longrightarrow> enc_segmentSize e' = enc_segmentSize e \<Longrightarrow>
    (pkt_tag q = None \<Longrightarrow> GetSize q \<le> enc_segmentSize e) \<Longrightarrow> plain_short e'"
  by (auto simp: plain_short_def)

lemma link_same:
  "enc_sent e' = enc_sent e \<Longrightarrow> tagged e' = tagged e"
  "enc_sent e' = enc_sent e \<Longrightarrow> enc_segmentSize e' = enc_segmentSize e \<Longrightarrow> plain_short e' = plain_short e"
  by (simp_all add: tagged_def plain_short_def)

lemma fec_turn:
  assumes inv: "sys_inv N F R k e" and k: "F \<le> k" and R: "Suc R < 2 ^ 32" and p: "peekable p"
  shows "\<exists>o' p' e1. Encode_SendFecPacket outcome p ip e = Inr (o', p', e1) \<and> peekable p' \<and>
    (if Suc k = F + N then enc_ic e1 - 1 = 0 \<and> sys_inv N F (Suc R) 0 (Encode_RedundancyControl (e1\<lparr>enc_ic := enc_ic e1 - 1\<rparr>))
     else enc_ic e1 - 1 \<noteq> 0 \<and> sys_inv N F R (Suc k) (e1\<lparr>enc_ic := enc_ic e1 - 1\<rparr>))"
proof -
  note sz = sys_inv_size [OF inv]
  let ?s = "enc_fec e"
  have at: "agent_at N F R k ?s" and en: "enc_at N F k e" and ok: "tables_ok ?s R" and wf: "queues_wf ?s"
    using inv by (simp_all add: sys_inv_def)
  obtain xs where xs: "list_all2 (item_packet N F) xs (tagged e)" "items_ok N F R k ?s xs" and pl: "plain_short e"
    using inv unfolding sys_inv_def by blast
  obtain h where h: "PeekTcpHeader p = Inr h" using peekable_Peek [OF p] by blast
  obtain o' p' where on: "Ipv4Interface_Send outcome p ip = Inr (o', p')" "peekable p'"
    using Ipv4Interface_Send_Inr [of outcome p ip] p by blast
  have kl: "k < F + N" using sz by simp
  obtain q s' where q: "Router_CreateFecPacket p ?s = Inr (q, s')" "item_packet N F (R, Suc k) q"
    "if Suc k = F + N then m_roundId s' = of_nat (Suc R) \<and> m_serial s' = 1 \<and> m_groupId s' = 0
     else m_roundId s' = of_nat R \<and> m_serial s' = of_nat (Suc (Suc k)) \<and> m_groupId s' = of_nat (Suc k mod N)"
    and fr: "m_fwin s' = m_fwin ?s" "m_nGroups s' = m_nGroups ?s" "m_segmentSize s' = m_segmentSize ?s"
      "m_printRoundFecTable s' = m_printRoundFecTable ?s" "m_printGroupFecTable s' = m_printGroupFecTable ?s"
      "tqq s' = tqq ?s" "lpq s' = lpq ?s"
    and vw: "rview s' = rpush (of_nat (Suc k), ucast (gid8 N (Suc k))) (rview ?s)"
      "gview s' = gpush (ucast (gid8 N (Suc k))) (of_nat (Suc k)) (gview ?s)"
    using CreateFec_step [OF at ok k kl h] by blast
  define e1 where "e1 = Encode_Send q ip (e\<lparr>enc_fec := s'\<rparr>)"
  have send: "Encode_SendFecPacket outcome p ip e = Inr (o', p', e1)" by (simp add: Encode_SendFecPacket_def q(1) on(1) e1_def)
  have sent: "enc_sent e1 = enc_sent e @ [(q, ip)]" by (simp add: e1_def Encode_Send_def)
  have ok': "tables_ok s' R" by (rule tables_ok_push [OF ok vw fr(2)])
  have wf': "queues_wf s'" using wf fr by (simp add: queues_wf_def)
  have it: "items_ok N F R (Suc k) s' (xs @ [(R, Suc k)])" by (rule items_append [OF xs(2) ok kl vw])
  have la: "list_all2 (item_packet N F) (xs @ [(R, Suc k)]) (tagged e1)"
    using xs(1) q(2) item_tagged [OF q(2)] by (simp add: tagged_send [OF sent] list_all2_appendI)
  have pl1: "plain_short e1"
    by (rule plain_short_send [OF pl sent]) (use item_tagged [OF q(2)] in \<open>simp_all add: e1_def Encode_Send_def\<close>)
  have "min N (F + N - k) = Suc (F + N - Suc k)" using k kl by simp
  then have ic: "enc_ic e1 - 1 = of_nat (F + N - Suc k)"
    using en by (simp add: e1_def Encode_Send_def enc_at_def)
  have e1: "enc_fec e1 = s'" "enc_fc e1 = of_nat (F - Suc k)" "enc_fwin e1 = m_fwin s'" "enc_nGroups e1 = m_nGroups s'"
    "enc_segmentSize e1 = m_segmentSize s'" "\<not> enc_init e1"
    using en k fr by (simp_all add: e1_def Encode_Send_def enc_at_def)
  show ?thesis
  proof (cases "Suc k = F + N")
    case True
    let ?e2 = "Encode_RedundancyControl (e1\<lparr>enc_ic := enc_ic e1 - 1\<rparr>)"
    let ?s2 = "Router_UpdateFecTable s'"
    have s2: "enc_fec ?e2 = ?s2" by (simp add: Encode_RedundancyControl_def e1)
    have rid: "unat (m_roundId s') = Suc R"
      using q(3) True R by (simp add: unsigned_of_nat take_bit_nat_eq_self del: of_nat_Suc)
    note vw2 = UpdateFecTable_view [of s', unfolded rid]
    have at2: "agent_at N F (Suc R) 0 ?s2"
      using at q(3) True R fr by (auto simp: agent_at_def Router_UpdateFecTable_def)
    have en2: "enc_at N F 0 ?e2"
      using e1 fc_products [OF at] fr sz
      by (simp add: enc_at_def Encode_RedundancyControl_def Router_UpdateFecTable_def)
    have "tables_ok ?s2 (Suc R)" by (rule tables_ok_next_round [OF ok' vw2]) (simp add: Router_UpdateFecTable_def)
    moreover have "items_ok N F (Suc R) 0 ?s2 (xs @ [(R, Suc k)])" by (rule items_next_round [OF it vw2])
    moreover have "queues_wf ?s2" using wf' by (simp add: queues_wf_def Router_UpdateFecTable_def)
    moreover have "tagged ?e2 = tagged e1" "plain_short ?e2" using pl1 by (simp_all add: Encode_RedundancyControl_def tagged_def plain_short_def)
    ultimately have "sys_inv N F (Suc R) 0 ?e2" unfolding sys_inv_def s2 using at2 en2 la by auto
    then show ?thesis using True send ic on(2) by auto
  next
    case False
    have at2: "agent_at N F R (Suc k) s'" using at q(3) False fr by (auto simp: agent_at_def)
    have en2: "enc_at N F (Suc k) (e1\<lparr>enc_ic := enc_ic e1 - 1\<rparr>)"
      using e1 ic k kl False by (auto simp: enc_at_def min_def)
    have "sys_inv N F R (Suc k) (e1\<lparr>enc_ic := enc_ic e1 - 1\<rparr>)"
      unfolding sys_inv_def using at2 en2 la it ok' wf' e1(1) pl1 by (auto simp: tagged_def plain_short_def)
    moreover have "F + N - Suc k < 2 ^ 32" "F + N - Suc k \<noteq> 0" using False kl sz by linarith+
    then have "enc_ic e1 - 1 \<noteq> 0" unfolding ic by (simp only: of_nat_zero_32 not_False_eq_True)
    ultimately show ?thesis using False send on(2) by auto
  qed
qed

lemma fec_loop_ends:
  assumes "sys_inv N F R k e" "F \<le> k" "Suc R < 2 ^ 32" "peekable p"
  shows "\<exists>e'. Encode_fec_loop outcome p ip e = Some (Inr e') \<and> sys_inv N F (Suc R) 0 e'"
  using assms
proof (induction "F + N - k" arbitrary: k e outcome p rule: less_induct)
  case less
  note sz = sys_inv_size [OF less.prems(1)]
  have fc: "enc_fc e = 0" using less.prems(1,2) by (simp add: sys_inv_def enc_at_def)
  obtain o' p' e1 where e1: "Encode_SendFecPacket outcome p ip e = Inr (o', p', e1)" and pk: "peekable p'" and e2:
    "if Suc k = F + N then enc_ic e1 - 1 = 0 \<and> sys_inv N F (Suc R) 0 (Encode_RedundancyControl (e1\<lparr>enc_ic := enc_ic e1 - 1\<rparr>))
     else enc_ic e1 - 1 \<noteq> 0 \<and> sys_inv N F R (Suc k) (e1\<lparr>enc_ic := enc_ic e1 - 1\<rparr>)"
    using fec_turn [OF less.prems] by blast
  show ?case
  proof (cases "Suc k = F + N")
    case True
    let ?e2 = "Encode_RedundancyControl (e1\<lparr>enc_ic := enc_ic e1 - 1\<rparr>)"
    have inv: "sys_inv N F (Suc R) 0 ?e2" using e2 unfolding if_P [OF True] by (rule conjunct2)
    have z: "enc_ic e1 - 1 = 0" using e2 unfolding if_P [OF True] by (rule conjunct1)
    have "enc_fc ?e2 = of_nat F" using inv by (simp add: sys_inv_def enc_at_def)
    moreover have "(of_nat F :: 32 word) \<noteq> 0" using sz of_nat_zero_32 [of F] by auto
    ultimately have "Encode_fec_loop o' p' ip ?e2 = Some (Inr ?e2)" by (subst Encode_fec_loop.simps) simp
    then have "Encode_fec_loop outcome p ip e = Some (Inr ?e2)"
      using fc e1 z by (subst Encode_fec_loop.simps) simp
    with inv show ?thesis by blast
  next
    case False
    let ?e2 = "e1\<lparr>enc_ic := enc_ic e1 - 1\<rparr>"
    have inv: "sys_inv N F R (Suc k) ?e2" and z: "enc_ic e1 - 1 \<noteq> 0" using e2 False by simp_all
    have "\<exists>e'. Encode_fec_loop o' p' ip ?e2 = Some (Inr e') \<and> sys_inv N F (Suc R) 0 e'"
      by (rule less.hyps [OF _ inv]) (use less.prems sz False pk in auto)
    then show ?thesis using fc e1 z by (subst Encode_fec_loop.simps) simp
  qed
qed

lemma fec_loop_skips: "enc_fc e \<noteq> 0 \<Longrightarrow> Encode_fec_loop outcome p ip e = Some (Inr e)"
  by (subst Encode_fec_loop.simps) simp

lemma sent_size:
  assumes "unat (GetSize p) + 20 \<le> 65535" "q = (if b then p\<lparr>pkt_headers := PppH n # IpH h # pkt_headers p\<rparr> else p)"
  shows "unat (GetSize q) = unat (GetSize p) + (if b then 22 else 0)"
  using assms(1) unat_add_lt [of "GetSize p" 22] by (simp add: assms(2) GetSize_behind_ip)

lemma fec_loop_skipped:
  assumes "sys_inv N F R k e" "k < F"
  shows "ns3_loop (Encode_fec_loop outcome p ip e) = Inr e"
proof -
  have "enc_fc e = of_nat (F - k)" using assms(1) by (simp add: sys_inv_def enc_at_def)
  moreover have "(of_nat (F - k) :: 32 word) \<noteq> 0"
    using of_nat_zero_32 [of "F - k"] sys_inv_size [OF assms(1)] assms(2) by (metis add_lessD1 diff_is_0_eq less_imp_diff_less not_le)
  ultimately show ?thesis using fec_loop_skips [of e] by (simp add: ns3_loop_def)
qed

text \<open>A packet that is no longer than a segment, with the headers in front as well, is passed on as it is.\<close>

lemma SendRealOut_short:
  assumes inv: "sys_inv N F R k e" and k: "k < F" and p: "sendable p e" "\<not> GetSize p > enc_segmentSize e"
  shows "\<exists>e'. Encode_SendRealOut outcome p ip e = Inr e' \<and> sys_inv N F R k e'"
proof -
  have sp: "pkt_tag p = None" "unat (GetSize p) + 20 \<le> 65535" "unat (GetSize p) + 22 \<le> unat (enc_segmentSize e)"
    using p by (simp_all add: sendable_def)
  obtain o' q where q: "Ipv4Interface_Send outcome p ip = Inr (o', q)"
      "q = (if outcome = Handed 0 then p\<lparr>pkt_headers := PppH 0x0021 # IpH ip # pkt_headers p\<rparr> else p)"
    using Ipv4Interface_Send_Inr [of outcome p ip] by blast
  have size: "\<not> GetSize q > enc_segmentSize e"
    using sent_size [OF sp(2) q(2)] sp(3) by (simp add: word_less_nat_alt split: if_splits)
  have sent: "enc_sent (Encode_Send p ip e) = enc_sent e @ [(p, ip)]" by (simp add: Encode_Send_def)
  have "tagged (Encode_Send p ip e) = tagged e" using sp(1) by (simp add: tagged_send [OF sent])
  moreover have "plain_short (Encode_Send p ip e)"
    by (rule plain_short_send [OF _ sent]) (use inv p(2) in \<open>simp_all add: sys_inv_def Encode_Send_def\<close>)
  ultimately have inv1: "sys_inv N F R k (Encode_Send p ip e)"
    using inv by (simp add: sys_inv_def enc_at_def Encode_Send_def)
  have "\<not> enc_init e" using inv by (simp add: sys_inv_def enc_at_def)
  then have "Encode_SendRealOut outcome p ip e = ns3_loop (Encode_fec_loop o' q ip (Encode_Send p ip e))"
    using p(2) q(1) size by (simp add: Encode_SendRealOut_def Let_def) (simp add: Encode_Send_def)
  then show ?thesis using fec_loop_skipped [OF inv1 k] inv1 by simp
qed

lemma SendRealOut_running:
  assumes inv: "sys_inv N F R k e" and k: "k < F" and p: "sendable p e"
  shows "\<exists>R' k' e'. Encode_SendRealOut outcome p ip e = Inr e' \<and> k' < F \<and> sys_inv N F R' k' e'"
proof (cases "GetSize p > enc_segmentSize e")
  case False
  from SendRealOut_short [OF inv k p False] k show ?thesis by blast
next
  case long: True
  note sz = sys_inv_size [OF inv]
  let ?s = "enc_fec e"
  have at: "agent_at N F R k ?s" and en: "enc_at N F k e" and ok: "tables_ok ?s R" and wf: "queues_wf ?s"
    using inv by (simp_all add: sys_inv_def)
  obtain xs where xs: "list_all2 (item_packet N F) xs (tagged e)" "items_ok N F R k ?s xs" and pl: "plain_short e"
    using inv unfolding sys_inv_def by blast
  obtain h hs where hd: "pkt_headers p = TcpH h # hs" "pkt_tag p = None" "unat (GetSize p) + 20 \<le> 65535"
    using p long by (auto simp: sendable_def)
  have R: "Suc R < 2 ^ 32"
    using p at by (auto simp: sendable_def agent_at_def unsigned_of_nat take_bit_nat_eq_self)
  obtain q s' where q: "Router_CreateDataPacket p ip ?s = Inr (q, s')" "item_packet N F (R, Suc k) q" "GetSize q = GetSize p"
      "agent_at N F R (Suc k) s'"
    and fr: "m_fwin s' = m_fwin ?s" "m_nGroups s' = m_nGroups ?s" "m_segmentSize s' = m_segmentSize ?s" "tqq s' = tqq ?s" "lpq s' = lpq ?s"
    and vw: "rview s' = rpush (of_nat (Suc k), ucast (gid8 N (Suc k))) (rview ?s)"
      "gview s' = gpush (ucast (gid8 N (Suc k))) (of_nat (Suc k)) (gview ?s)"
    using CreateData_step [OF at ok k hd(2,1), of ip] by blast
  have hq: "peekable q"
    using q(1) hd by (auto simp: peekable_def Router_CreateDataPacket_def Let_def PeekTcpHeader_def AddPacketTag_def ns3_outcome split: if_splits)
  have "k < F + N" using k by simp
  define e1 where "e1 = (Encode_Send q ip (e\<lparr>enc_fec := s'\<rparr>))\<lparr>enc_fc := enc_fc e - 1\<rparr>"
  have sent: "enc_sent e1 = enc_sent e @ [(q, ip)]" by (simp add: e1_def Encode_Send_def)
  have fc: "enc_fc e1 = of_nat (F - Suc k)"
  proof -
    have "F - k = Suc (F - Suc k)" using k by simp
    then show ?thesis using en by (simp add: e1_def enc_at_def)
  qed
  have "enc_at N F (Suc k) e1"
    using en k fc fr sz by (auto simp: enc_at_def e1_def Encode_Send_def)
  moreover have "list_all2 (item_packet N F) (xs @ [(R, Suc k)]) (tagged e1)"
    using xs(1) q(2) item_tagged [OF q(2)] by (simp add: tagged_send [OF sent] list_all2_appendI)
  moreover have "plain_short e1"
    by (rule plain_short_send [OF pl sent]) (use item_tagged [OF q(2)] in \<open>simp_all add: e1_def Encode_Send_def\<close>)
  ultimately have inv1: "sys_inv N F R (Suc k) e1"
    unfolding sys_inv_def
    using q(4) tables_ok_push [OF ok vw fr(2)] wf fr(4,5) items_append [OF xs(2) ok \<open>k < F + N\<close> vw]
    by (auto simp: e1_def Encode_Send_def queues_wf_def)
  obtain o' q' where on: "Ipv4Interface_Send outcome q ip = Inr (o', q')" "peekable q'"
      "q' = (if outcome = Handed 0 then q\<lparr>pkt_headers := PppH 0x0021 # IpH ip # pkt_headers q\<rparr> else q)"
    using Ipv4Interface_Send_Inr [of outcome q ip] hq by blast
  have size: "GetSize q' > enc_segmentSize e"
    using sent_size [OF _ on(3)] hd(3) long unfolding q(3) by (simp add: word_less_nat_alt split: if_splits)
  have out: "Encode_SendRealOut outcome p ip e = ns3_loop (Encode_fec_loop o' q' ip e1)"
    using en long q(1) on(1) size by (simp add: Encode_SendRealOut_def Let_def enc_at_def e1_def) (simp add: Encode_Send_def)
  show ?thesis
  proof (cases "Suc k < F")
    case True
    then show ?thesis using fec_loop_skipped [OF inv1 True] out inv1 by auto
  next
    case False
    then have "F \<le> Suc k" by simp
    then obtain e' where "Encode_fec_loop o' q' ip e1 = Some (Inr e')" "sys_inv N F (Suc R) 0 e'"
      using fec_loop_ends [OF inv1 _ R on(2), of o' ip] by blast
    then show ?thesis using out sz by (intro exI [of _ "Suc R"] exI [of _ 0] exI [of _ e']) (simp add: ns3_loop_def)
  qed
qed

section \<open>Delivery\<close>

text \<open>What the loops over the transit queue and the request queue leave unchanged.\<close>

definition queue_update :: "FecRouterAgent \<Rightarrow> FecRouterAgent \<Rightarrow> bool" where
  "queue_update s s' = (\<exists>q l. s' = s\<lparr>tqq := q, lpq := l\<rparr> \<and> queues_wf s')"

lemma queue_update_frame:
  assumes "queue_update s s'"
  shows "queues_wf s'" "rview s' = rview s" "gview s' = gview s" "agent_frame s s'" "tables_ok s R \<Longrightarrow> tables_ok s' R"
    "shrinks tag r s s'"
proof -
  obtain q l where s': "s' = s\<lparr>tqq := q, lpq := l\<rparr>" "queues_wf s'" using assms unfolding queue_update_def by blast
  show "queues_wf s'" by (rule s'(2))
  show v: "rview s' = rview s" "gview s' = gview s" by (simp_all add: s'(1) rview_def gview_def)
  show fr: "agent_frame s s'" by (simp add: s'(1) agent_frame_def)
  show "tables_ok s R \<Longrightarrow> tables_ok s' R" using fr by (simp add: tables_ok_def v agent_frame_def del: upt_Suc)
  show "shrinks tag r s s'" by (rule shrinks_drop [OF fr]) (simp_all add: v)
qed

lemma queue_update_trans: "queue_update s s' \<Longrightarrow> queue_update s' s'' \<Longrightarrow> queue_update s s''"
proof -
  assume "queue_update s s'" "queue_update s' s''"
  then obtain q l q' l' where "s' = s\<lparr>tqq := q, lpq := l\<rparr>" "s'' = s'\<lparr>tqq := q', lpq := l'\<rparr>" "queues_wf s''"
    unfolding queue_update_def by blast
  then show ?thesis unfolding queue_update_def by (intro exI [of _ q'] exI [of _ l']) simp
qed

lemma queue_update_refl: "queues_wf s \<Longrightarrow> queue_update s s"
  unfolding queue_update_def by (rule exI [of _ "tqq s"], rule exI [of _ "lpq s"]) simp

lemma free_turns_ok:
  "length (tqq (dec_fec d)) < n \<Longrightarrow> queues_wf (dec_fec d) \<Longrightarrow>
    \<exists>d'. free_turns n d = Inr d' \<and> queue_update (dec_fec d) (dec_fec d') \<and> dec_rid d' = dec_rid d"
proof (induction n arbitrary: d)
  case (Suc n)
  show ?case
  proof (cases "Router_TransitQueueSize (dec_fec d) > 0")
    case True
    then obtain x q where tq: "tqq (dec_fec d) = x # q"
      by (cases "tqq (dec_fec d)") (auto simp: Router_TransitQueueSize_def TransitQueueSize_def)
    obtain h hs where h: "pkt_headers (tq_p x) = IpH h # hs"
      using Suc.prems(2) tq by (auto simp: queues_wf_def ip_first_def)
    let ?d = "d\<lparr>dec_fec := (dec_fec d)\<lparr>tqq := q\<rparr>, dec_sent := dec_sent d @ Decode_Transmit (tq_p x\<lparr>pkt_headers := hs\<rparr>) h\<rparr>"
    have free: "Decode_Free d = Inr ?d"
      using tq h by (simp add: Decode_Free_def Router_GetPacket_def GetPacket_def RemoveIpv4Header_def)
    have up: "queue_update (dec_fec d) (dec_fec ?d)"
      using Suc.prems(2) tq unfolding queue_update_def queues_wf_def
      by (intro exI [of _ q] exI [of _ "lpq (dec_fec d)"]) simp
    obtain d' where d': "free_turns n ?d = Inr d'" "queue_update (dec_fec ?d) (dec_fec d')" "dec_rid d' = dec_rid ?d"
      using Suc.IH [of ?d] Suc.prems(1) tq queue_update_frame(1) [OF up] by auto
    then show ?thesis using True free queue_update_trans [OF up d'(2)] by simp
  qed (use Suc.prems queue_update_refl in auto)
qed simp

lemma request_turns_ok:
  "length (lpq (dec_fec d)) < n \<Longrightarrow> queues_wf (dec_fec d) \<Longrightarrow>
    \<exists>d'. request_turns n d = Inr d' \<and> queue_update (dec_fec d) (dec_fec d') \<and> dec_rid d' = dec_rid d"
proof (induction n arbitrary: d)
  case (Suc n)
  show ?case
  proof (cases "Router_LostPacketQueueSize (dec_fec d) > 0")
    case True
    then obtain x q where lp: "lpq (dec_fec d) = x # q"
      by (cases "lpq (dec_fec d)") (auto simp: Router_LostPacketQueueSize_def)
    obtain h hs where h: "pkt_headers x = IpH h # hs"
      using Suc.prems(2) lp by (auto simp: queues_wf_def ip_first_def)
    let ?d = "d\<lparr>dec_fec := (dec_fec d)\<lparr>lpq := q\<rparr>, dec_sent := dec_sent d @ Decode_Transmit (x\<lparr>pkt_headers := hs\<rparr>) h\<rparr>"
    have send: "Decode_SendRxRequest d = Inr ?d"
      using lp h by (simp add: Decode_SendRxRequest_def Router_GetLostPacket_def RemoveIpv4Header_def)
    have up: "queue_update (dec_fec d) (dec_fec ?d)"
      using Suc.prems(2) lp unfolding queue_update_def queues_wf_def
      by (intro exI [of _ "tqq (dec_fec d)"] exI [of _ q]) simp
    obtain d' where d': "request_turns n ?d = Inr d'" "queue_update (dec_fec ?d) (dec_fec d')" "dec_rid d' = dec_rid ?d"
      using Suc.IH [of ?d] Suc.prems(1) lp queue_update_frame(1) [OF up] by auto
    then show ?thesis using True send queue_update_trans [OF up d'(2)] by simp
  qed (use Suc.prems queue_update_refl in auto)
qed simp

lemmas free_all_ok = free_turns_ok [OF lessI, folded Decode_FreeAll_def]
lemmas request_all_ok = request_turns_ok [OF lessI, folded Decode_RequestAll_def]

lemma IpForward_ok:
  assumes tag: "pkt_tag packet = Some tag" "tag_roundId tag = of_nat r" "tag_type tag = 1 \<or> tag_type tag = 2"
      "tag_type tag = 2 \<Longrightarrow> pkt_headers packet = [TcpH h]"
    and ok: "tables_ok s R" "R < 2 ^ 32" "r \<le> R" "queues_wf s" "\<not> m_printRoundFecTable s" "\<not> m_printGroupFecTable s"
    and rhas: "\<forall>n E. (r, n, E) \<in> set (rview s) \<longrightarrow> (tag_serial tag, ucast (tag_groupId tag)) \<in> set E"
    and ghas: "\<forall>G. (r, G) \<in> set (gview s) \<longrightarrow> tag_serial tag \<in> set (G (ucast (tag_groupId tag)))"
    and closing: "tag_type tag = 2 \<Longrightarrow> uint (tag_groupId tag) = uint (m_nGroups s) - 1 \<Longrightarrow> r < R"
    and d: "dec_fec d = s"
  shows "\<exists>d'. Decode_IpForward packet ip d = Inr d' \<and> tables_ok (dec_fec d') R \<and> queues_wf (dec_fec d') \<and> shrinks tag r s (dec_fec d')"
proof (cases "GetSize packet > Router_GetSegmentSize (dec_fec d) \<and> Router_GetFwin (dec_fec d) > 0")
  case True
  obtain d1 where d1: "(if dec_rid d < tag_roundId tag
      then ns3_bind (Decode_FreeAll d) (\<lambda>d. Inr (d\<lparr>dec_rid := tag_roundId tag\<rparr>)) else Inr d) = Inr d1" "queue_update s (dec_fec d1)"
    using free_all_ok [of d] ok(4) queue_update_refl [OF ok(4)] d by (cases "dec_rid d < tag_roundId tag") auto
  note u1 = queue_update_frame [OF d1(2)]
  have fr1: "m_nGroups (dec_fec d1) = m_nGroups s" "\<not> m_printRoundFecTable (dec_fec d1)" "\<not> m_printGroupFecTable (dec_fec d1)"
    using u1(4) ok(5,6) by (simp_all add: agent_frame_def)
  obtain flag s2 where rv: "Router_Recv packet ip (dec_fec d1) = Inr (flag, s2)" "tables_ok s2 R" "queues_wf s2" "shrinks tag r (dec_fec d1) s2"
    using Router_Recv_ok [OF tag u1(5) [OF ok(1)] ok(2,3) u1(1) fr1(2,3), unfolded u1(2,3) fr1(1), OF _ rhas ghas closing, of ip] tag(4)
    by blast
  have sh2: "shrinks tag r s s2" by (rule shrinks_trans [OF u1(6) rv(4)])
  obtain d3 where d3: "Decode_RequestAll (d1\<lparr>dec_fec := s2\<rparr>) = Inr d3" "queue_update s2 (dec_fec d3)"
    using request_all_ok [of "d1\<lparr>dec_fec := s2\<rparr>"] rv(3) by auto
  note u3 = queue_update_frame [OF d3(2)]
  obtain d4 where d4: "(if flag = 2 then Decode_FreeAll d3 else Inr d3) = Inr d4" "queue_update (dec_fec d3) (dec_fec d4)"
    using free_all_ok [of d3] u3(1) queue_update_refl [OF u3(1)] by (cases "flag = 2") auto
  note u4 = queue_update_frame [OF d4(2)]
  have out: "\<exists>d'. Decode_IpForward packet ip d = Inr d' \<and> (dec_fec d' = dec_fec d3 \<or> dec_fec d' = dec_fec d4)"
    unfolding Decode_IpForward_def if_P [OF True] PeekPacketTag_def using tag(1) d1(1) rv(1) d3(1) d4(1) by simp
  have sh3: "shrinks tag r s (dec_fec d3)" by (rule shrinks_trans [OF sh2 u3(6)])
  have sh4: "shrinks tag r s (dec_fec d4)" by (rule shrinks_trans [OF sh3 u4(6)])
  show ?thesis using out sh3 sh4 u3(1) u4(1) u3(5) [OF rv(2)] u4(5) [OF u3(5) [OF rv(2)]] by auto
next
  case False
  show ?thesis unfolding Decode_IpForward_def if_not_P [OF False] using ok d by simp
qed

lemma redundant_group:
  assumes "F = f * N" "F < i" "i \<le> F + N" "N < 256"
  shows "unat (gid8 N i) = i - F - 1" "(ucast (gid8 N i) :: 32 word) = of_nat (i - F - 1)"
proof -
  have "(i - 1) mod N = i - F - 1"
  proof -
    have "i - 1 = (i - F - 1) + f * N" "i - F - 1 < N" using assms by simp_all
    then show ?thesis by (metis mod_less mod_mult_self1 mult.commute)
  qed
  moreover have "i - F - 1 < 2 ^ LENGTH(8)" using assms by simp
  ultimately show u: "unat (gid8 N i) = i - F - 1"
    by (simp only: gid8_def unsigned_of_nat take_bit_nat_eq_self of_nat_id)
  show "(ucast (gid8 N i) :: 32 word) = of_nat (i - F - 1)"
    unfolding u [symmetric] by (rule ucast_as_of_nat)
qed

lemma agent_at_frame: "agent_at N F R k s \<Longrightarrow> agent_frame s s' \<Longrightarrow> agent_at N F R k s'"
  by (auto simp: agent_at_def agent_frame_def)

lemma in_tables_later:
  assumes sh: "shrinks (item_tag N F x) (fst x) s s'" and y: "in_tables N s y" "item_less x y" "snd y \<le> F + N"
    and F: "F = f * N" "N < 256" "F + N < 2 ^ 32"
  shows "in_tables N s' y"
proof -
  have r: "set (rview s') \<subseteq> set (rview s)" using sh by (simp add: shrinks_def)
  have "of_nat (snd y) \<in> set (G' (ucast (gid8 N (snd y))))" if mem: "(fst y, G') \<in> set (gview s')" for G'
  proof -
    obtain G where G: "(fst y, G) \<in> set (gview s)"
      "\<And>g. G' g = G g \<or> (tag_type (item_tag N F x) = 2 \<and> fst y = fst x \<and> g = ucast (tag_groupId (item_tag N F x)))"
      using sh mem unfolding shrinks_def by blast
    have "\<not> (tag_type (item_tag N F x) = 2 \<and> fst y = fst x \<and> ucast (gid8 N (snd y)) = (ucast (gid8 N (snd x)) :: 32 word))"
    proof (intro notI, elim conjE)
      assume a: "tag_type (item_tag N F x) = 2" "fst y = fst x" "ucast (gid8 N (snd y)) = (ucast (gid8 N (snd x)) :: 32 word)"
      then have lt: "F < snd x" "snd x < snd y" using y(2) by (auto simp: item_tag_def item_less_def split: if_splits)
      then have g: "(of_nat (snd y - F - 1) :: 32 word) = of_nat (snd x - F - 1)"
        using a(3) redundant_group(2) [OF F(1) _ _ F(2), of "snd x"] redundant_group(2) [OF F(1) _ _ F(2), of "snd y"] y(3) by simp
      have "snd y - F - 1 < 2 ^ 32" "snd x - F - 1 < 2 ^ 32" using F(3) y(3) lt by linarith+
      then have "snd y - F - 1 = snd x - F - 1"
        using arg_cong [OF g, of unat] by (simp add: unsigned_of_nat take_bit_nat_eq_self)
      then show False using lt by linarith
    qed
    then have "G' (ucast (gid8 N (snd y))) = G (ucast (gid8 N (snd y)))"
      using G(2) [of "ucast (gid8 N (snd y))"] by (auto simp: item_tag_def)
    then show ?thesis using y(1) G(1) by (simp add: in_tables_def)
  qed
  then show ?thesis using y(1) r unfolding in_tables_def by blast
qed

lemma link_rest:
  assumes "enc_sent e = (p, ip) # rest"
  shows "tagged e = (if pkt_tag p = None then [] else [p]) @ tagged (e\<lparr>enc_sent := rest\<rparr>)"
    "plain_short e \<Longrightarrow> plain_short (e\<lparr>enc_sent := rest\<rparr>)"
  using assms by (simp_all add: tagged_def plain_short_def)

text \<open>A packet without a tag is forwarded, and the agent left alone.\<close>

lemma deliver_short:
  assumes inv: "sys_inv N F R k e" and sent: "enc_sent e = (p, ip) # rest" and d: "dec_fec d = enc_fec e" and tag: "pkt_tag p = None"
  shows "\<exists>d'. Decode_IpForward p ip d = Inr d' \<and> sys_inv N F R k (e\<lparr>enc_sent := rest, enc_fec := dec_fec d'\<rparr>)"
proof (intro exI conjI)
  let ?d = "d\<lparr>dec_sent := dec_sent d @ Decode_Transmit p ip\<rparr>"
  have "GetSize p \<le> enc_segmentSize e" using inv sent tag by (simp add: sys_inv_def plain_short_def)
  then have "\<not> GetSize p > Router_GetSegmentSize (dec_fec d)"
    using inv by (simp add: sys_inv_def enc_at_def d Router_GetSegmentSize_def not_less)
  then show "Decode_IpForward p ip d = Inr ?d" by (simp add: Decode_IpForward_def)
  have "tagged (e\<lparr>enc_sent := rest\<rparr>) = tagged e" using link_rest(1) [OF sent] tag by simp
  then have "sys_inv N F R k (e\<lparr>enc_sent := rest\<rparr>)"
    using inv link_rest(2) [OF sent] by (simp add: sys_inv_def enc_at_def)
  then show "sys_inv N F R k (e\<lparr>enc_sent := rest, enc_fec := dec_fec ?d\<rparr>)" by (simp add: d)
qed

lemma deliver_ok:
  assumes inv: "sys_inv N F R k e" and sent: "enc_sent e = (p, ip) # rest" and d: "dec_fec d = enc_fec e"
  shows "\<exists>d'. Decode_IpForward p ip d = Inr d' \<and> sys_inv N F R k (e\<lparr>enc_sent := rest, enc_fec := dec_fec d'\<rparr>)"
proof (cases "pkt_tag p")
  case None
  from deliver_short [OF inv sent d None] show ?thesis .
next
  case some: (Some t0)
  note sz = sys_inv_size [OF inv]
  let ?s = "enc_fec e"
  have at: "agent_at N F R k ?s" and en: "enc_at N F k e" and ok: "tables_ok ?s R" and wf: "queues_wf ?s"
    using inv by (simp_all add: sys_inv_def)
  have "tagged e = p # tagged (e\<lparr>enc_sent := rest\<rparr>)" using link_rest(1) [OF sent] some by simp
  then obtain x xs where xs: "item_packet N F x p" "list_all2 (item_packet N F) xs (tagged (e\<lparr>enc_sent := rest\<rparr>))"
      "items_ok N F R k ?s (x # xs)" and pl: "plain_short (e\<lparr>enc_sent := rest\<rparr>)"
    using inv link_rest(2) [OF sent] unfolding sys_inv_def by (auto simp: list_all2_Cons2)
  have x: "1 \<le> snd x" "snd x \<le> F + N" "fst x \<le> R" "fst x = R \<Longrightarrow> snd x \<le> k" "in_tables N ?s x"
    using xs(3) by (auto simp: items_ok_def)
  note g = agent_at_groups [OF at]
  have F: "F = unat (m_fwin ?s) * N" "R < 2 ^ 32" "\<not> m_printRoundFecTable ?s" "\<not> m_printGroupFecTable ?s" "unat (m_nGroups ?s) = N"
    using at by (simp_all add: agent_at_def)
  let ?tag = "item_tag N F x"
  have tag: "pkt_tag p = Some ?tag" "tag_roundId ?tag = of_nat (fst x)" "tag_type ?tag = 1 \<or> tag_type ?tag = 2"
    using xs(1) by (auto simp: item_packet_def item_tag_def)
  obtain h where h: "tag_type ?tag = 2 \<Longrightarrow> pkt_headers p = [TcpH h]"
    using xs(1) by (auto simp: item_packet_def item_tag_def split: if_splits)
  have closing: "fst x < R" if c: "tag_type ?tag = 2" "uint (tag_groupId ?tag) = uint (m_nGroups ?s) - 1"
  proof -
    have "F < snd x" using c(1) by (auto simp: item_tag_def split: if_splits)
    then have "unat (gid8 N (snd x)) = snd x - F - 1" by (rule redundant_group(1) [OF F(1) _ x(2) g(2)])
    moreover have "int (unat (gid8 N (snd x))) = int (unat (m_nGroups ?s)) - 1" using c(2) by (simp add: item_tag_def)
    then have "int (unat (gid8 N (snd x))) = int N - 1" unfolding F(5) .
    ultimately have "snd x = F + N" using \<open>F < snd x\<close> by linarith
    then show ?thesis using x(3,4) sz by force
  qed
  obtain d' where d': "Decode_IpForward p ip d = Inr d'" "tables_ok (dec_fec d') R" "queues_wf (dec_fec d')"
      "shrinks ?tag (fst x) ?s (dec_fec d')"
    using IpForward_ok [OF tag h ok F(2) x(3) wf F(3,4) _ _ closing d, of ip] x(5)
    by (auto simp: in_tables_def item_tag_def)
  have fr: "agent_frame ?s (dec_fec d')" using d'(4) by (simp add: shrinks_def)
  have "in_tables N (dec_fec d') y" if "y \<in> set xs" for y
    by (rule in_tables_later [OF d'(4) _ _ _ F(1) g(2)]) (use xs(3) that sz in \<open>auto simp: items_ok_def\<close>)
  then have "items_ok N F R k (dec_fec d') xs" using xs(3) by (auto simp: items_ok_def)
  moreover have "enc_at N F k (e\<lparr>enc_sent := rest, enc_fec := dec_fec d'\<rparr>)"
    using en fr by (simp add: enc_at_def agent_frame_def)
  ultimately have "sys_inv N F R k (e\<lparr>enc_sent := rest, enc_fec := dec_fec d'\<rparr>)"
    unfolding sys_inv_def using agent_at_frame [OF at fr] d'(2,3) xs(2) pl by (auto simp: tagged_def plain_short_def)
  with d'(1) show ?thesis by blast
qed

section \<open>Every reachable state\<close>

lemma start_round:
  assumes "0 < unat fw" "0 < unat n" "unat fw * unat n + unat n < 2 ^ 32"
  shows "sys_inv (unat n) (unat fw * unat n) 1 0
    ((Encode_RedundancyControl (Encode_SetFec (FecRouterAgent_new fw n seg rx store)))\<lparr>enc_init := False\<rparr>)"
    (is "sys_inv ?N ?F 1 0 ?e")
proof -
  let ?s0 = "FecRouterAgent_new fw n seg rx store"
  have at0: "agent_at ?N ?F 1 0 ?s0" using assms by (simp add: agent_at_def FecRouterAgent_new_def)
  note fc = fc_products [OF at0]
  have s: "enc_fec ?e = Router_UpdateFecTable ?s0" by (simp add: Encode_RedundancyControl_def Encode_SetFec_def)
  have v: "rview (enc_fec ?e) = [(1, n, [])]" "gview (enc_fec ?e) = [(1, \<lambda>_. [])]"
    unfolding s UpdateFecTable_view by (simp_all add: rview_def gview_def FecRouterAgent_new_def)
  have "agent_at ?N ?F 1 0 (enc_fec ?e)" using at0 unfolding s by (auto simp: agent_at_def Router_UpdateFecTable_def FecRouterAgent_new_def)
  moreover have "enc_at ?N ?F 0 ?e"
    using fc assms by (simp add: enc_at_def Encode_RedundancyControl_def Encode_SetFec_def Router_UpdateFecTable_def
        Router_GetFwin_def Router_GetNGroups_def Router_GetSegmentSize_def FecRouterAgent_new_def)
  moreover have "m_nGroups (enc_fec ?e) = n" unfolding s by (simp add: Router_UpdateFecTable_def FecRouterAgent_new_def)
  then have "tables_ok (enc_fec ?e) 1"
    unfolding tables_ok_def v by (intro conjI exI [of _ 1]) (simp_all add: upt_rec)
  moreover have "queues_wf (enc_fec ?e)" unfolding s by (simp add: queues_wf_def Router_UpdateFecTable_def FecRouterAgent_new_def)
  moreover have "enc_sent ?e = []" by (simp add: Encode_RedundancyControl_def Encode_SetFec_def)
  ultimately show ?thesis unfolding sys_inv_def by (auto simp: items_ok_def tagged_def plain_short_def)
qed

text \<open>Before the first packet the encoder has no tables; afterwards the invariant holds.\<close>

definition reach_inv :: "32 word \<Rightarrow> 8 word \<Rightarrow> FecEncode \<Rightarrow> FecEncode \<Rightarrow> bool" where
  "reach_inv fw n e0 e = (e = e0 \<or> (\<exists>R k. k < unat fw * unat n \<and> sys_inv (unat n) (unat fw * unat n) R k e))"

lemma SendRealOut_reach:
  assumes conf: "0 < unat fw" "0 < unat n" "unat fw * unat n + unat n < 2 ^ 32"
    and inv: "reach_inv fw n (Encode_SetFec (FecRouterAgent_new fw n seg rx store)) e" and p: "sendable p e"
  shows "\<exists>e'. Encode_SendRealOut outcome p ip e = Inr e' \<and> reach_inv fw n (Encode_SetFec (FecRouterAgent_new fw n seg rx store)) e'"
proof (cases "e = Encode_SetFec (FecRouterAgent_new fw n seg rx store)")
  case True
  let ?e = "(Encode_RedundancyControl e)\<lparr>enc_init := False\<rparr>"
  have fw: "enc_fwin e \<noteq> 0" "enc_init e"
    using conf(1) unfolding True by (auto simp: Encode_SetFec_def Router_GetFwin_def FecRouterAgent_new_def)
  then have same: "Encode_SendRealOut outcome p ip e = Encode_SendRealOut outcome p ip ?e"
    by (simp add: Encode_SendRealOut_def Let_def)
  have "sendable p ?e" using p by (simp add: sendable_def Encode_RedundancyControl_def Router_UpdateFecTable_def split: if_splits)
  moreover have "0 < unat fw * unat n" using conf by simp
  ultimately obtain R k e' where "Encode_SendRealOut outcome p ip ?e = Inr e'" "k < unat fw * unat n"
      "sys_inv (unat n) (unat fw * unat n) R k e'"
    using SendRealOut_running [OF start_round [OF conf, of seg rx store, folded True], of p outcome ip] by blast
  then show ?thesis unfolding same reach_inv_def by blast
next
  case False
  then obtain R k where "k < unat fw * unat n" "sys_inv (unat n) (unat fw * unat n) R k e"
    using inv unfolding reach_inv_def by blast
  from SendRealOut_running [OF this(2,1) p, of outcome ip] show ?thesis unfolding reach_inv_def by blast
qed

lemma lose_inv:
  assumes "sys_inv N F R k e" "enc_sent e = x # rest"
  shows "sys_inv N F R k (e\<lparr>enc_sent := rest\<rparr>)"
proof -
  have "plain_short (e\<lparr>enc_sent := rest\<rparr>)" using assms by (simp add: sys_inv_def plain_short_def)
  moreover have "\<exists>xs. list_all2 (item_packet N F) xs (tagged (e\<lparr>enc_sent := rest\<rparr>)) \<and> items_ok N F R k (enc_fec e) xs"
    using assms unfolding sys_inv_def items_ok_def by (auto simp: list_all2_Cons2 tagged_def split: if_splits)
  ultimately show ?thesis using assms(1) by (simp add: sys_inv_def enc_at_def)
qed

lemma reach_inv_reach:
  assumes conf: "0 < unat fw" "0 < unat n" "unat fw * unat n + unat n < 2 ^ 32"
    and reach: "fec_reach (fec_initial (FecRouterAgent_new fw n seg rx store)) y"
  shows "reach_inv fw n (Encode_SetFec (FecRouterAgent_new fw n seg rx store)) (sys_enc y)"
  using reach
proof (induction "fec_initial (FecRouterAgent_new fw n seg rx store)" y rule: fec_reach.induct)
  case start
  then show ?case by (simp add: reach_inv_def fec_initial_def)
next
  case (step z w)
  let ?e0 = "Encode_SetFec (FecRouterAgent_new fw n seg rx store)"
  have init: "enc_sent ?e0 = []" by (simp add: Encode_SetFec_def)
  from \<open>fec_step z w\<close> show ?case
  proof (cases rule: fec_step.cases)
    case (send p outcome ip e)
    then show ?thesis using SendRealOut_reach [OF conf step(2), of p outcome ip] by auto
  next
    case (lose x xs)
    then have "sys_enc z \<noteq> ?e0" using init by auto
    then obtain R k where "k < unat fw * unat n" "sys_inv (unat n) (unat fw * unat n) R k (sys_enc z)"
      using step(2) unfolding reach_inv_def by blast
    from this(1) lose_inv [OF this(2) lose(2)] lose(1) show ?thesis unfolding reach_inv_def by auto
  next
    case (deliver p ip xs d)
    then have "sys_enc z \<noteq> ?e0" using init by auto
    then obtain R k where k: "k < unat fw * unat n" and inv: "sys_inv (unat n) (unat fw * unat n) R k (sys_enc z)"
      using step(2) unfolding reach_inv_def by blast
    have "\<exists>d'. Decode_IpForward p ip (sys_dec z) = Inr d' \<and>
        sys_inv (unat n) (unat fw * unat n) R k ((sys_enc z)\<lparr>enc_sent := xs, enc_fec := dec_fec d'\<rparr>)"
      by (rule deliver_ok [OF inv deliver(2)]) (simp add: sys_dec_def)
    then show ?thesis using k deliver unfolding reach_inv_def by auto
  qed
qed

text \<open>
  A packet whose size is up to 22 octets below that of a segment, when it is handed to the device: it is
  counted in the round although the agent has not put it there.
\<close>

lemma SendRealOut_misaligned:
  assumes "\<not> enc_init e" "\<not> GetSize p > enc_segmentSize e" "unat (enc_segmentSize e) < unat (GetSize p) + 22"
    "unat (GetSize p) + 20 \<le> 65535" "enc_fc e \<noteq> 1"
  shows "Encode_SendRealOut (Handed 0) p ip e = Inr ((Encode_Send p ip e)\<lparr>enc_fc := enc_fc e - 1\<rparr>)"
proof -
  obtain o' q where q: "Ipv4Interface_Send (Handed 0) p ip = Inr (o', q)"
      "q = (if True then p\<lparr>pkt_headers := PppH 0x0021 # IpH ip # pkt_headers p\<rparr> else p)"
    using Ipv4Interface_Send_Inr [of "Handed 0" p ip] by auto
  have "GetSize q > enc_segmentSize e"
    using sent_size [OF assms(4) q(2)] assms(3) by (simp add: word_less_nat_alt)
  moreover have "enc_fc e - 1 \<noteq> 0" using assms(5) by (metis right_minus_eq)
  ultimately show ?thesis using assms(1,2) q(1)
    by (simp add: Encode_SendRealOut_def Let_def) (simp add: Encode_Send_def fec_loop_skips ns3_loop_def)
qed

text \<open>
  Claim C1. Two routers that share an agent with a window and a number of groups above zero, whose
  round fits the 32-bit counters, never get stuck, in whatever order packets are sent, lost and
  delivered, as long as the link keeps the order and the packets are those of \<open>sendable\<close>: SendRealOut
  returns for each of them, whenever the queueing discipline hands it to the device, so that its loop
  over the redundant packets ends; and IpForward returns for the packet that is delivered next. None of
  the loops without an exit condition spins, no front of an empty queue is read and no assertion fails.
  The packets of \<open>sendable\<close> are those that do not take their size across the segment size when the
  IP and PPP headers are put in front of them.
\<close>
theorem fec_routers_never_stuck:
  assumes "0 < unat fw" "0 < unat n" "unat fw * unat n + unat n < 2 ^ 32"
    and "fec_reach (fec_initial (FecRouterAgent_new fw n seg rx store)) y"
  shows "(\<forall>outcome p ip. sendable p (sys_enc y) \<longrightarrow> (\<exists>e. Encode_SendRealOut outcome p ip (sys_enc y) = Inr e)) \<and>
    (\<forall>p ip rest. enc_sent (sys_enc y) = (p, ip) # rest \<longrightarrow> (\<exists>d. Decode_IpForward p ip (sys_dec y) = Inr d))"
proof (intro conjI allI impI)
  note inv = reach_inv_reach [OF assms]
  fix outcome p ip
  assume "sendable p (sys_enc y)"
  from SendRealOut_reach [OF assms(1-3) inv this, of outcome ip]
  show "\<exists>e. Encode_SendRealOut outcome p ip (sys_enc y) = Inr e" by blast
next
  note inv = reach_inv_reach [OF assms]
  fix p ip rest
  assume sent: "enc_sent (sys_enc y) = (p, ip) # rest"
  then have "sys_enc y \<noteq> Encode_SetFec (FecRouterAgent_new fw n seg rx store)" by (auto simp: Encode_SetFec_def)
  then obtain R k where "sys_inv (unat n) (unat fw * unat n) R k (sys_enc y)"
    using inv unfolding reach_inv_def by blast
  from deliver_ok [OF this sent, of "sys_dec y"] show "\<exists>d. Decode_IpForward p ip (sys_dec y) = Inr d"
    by (auto simp: sys_dec_def)
qed

definition example_data_packet :: Packet where
  "example_data_packet = \<lparr>pkt_tag = None, pkt_headers = [TcpH TcpHeader_new], pkt_payload = 1000\<rparr>"

text \<open>A data packet that the device takes at once, and the acknowledgement-sized one after it.\<close>

theorem fec_routers_never_stuck_witness:
  "\<exists>e e'. Encode_SendRealOut (Handed 0) example_data_packet Ipv4Header_new (Encode_SetFec (FecRouterAgent_new 3 2 1000 True True)) = Inr e \<and>
    Encode_SendRealOut Held (example_data_packet\<lparr>pkt_payload := 0\<rparr>) Ipv4Header_new e = Inr e' \<and>
    (\<exists>p ip rest d. enc_sent e = (p, ip) # rest \<and> Decode_IpForward p ip (sys_dec \<lparr>sys_enc = e, sys_rid = 1, sys_out = []\<rparr>) = Inr d)"
proof -
  let ?y = "fec_initial (FecRouterAgent_new 3 2 1000 True True)" and ?a = "example_data_packet\<lparr>pkt_payload := 0\<rparr>"
  have send: "sendable example_data_packet (sys_enc ?y)"
    by (simp add: sendable_def example_data_packet_def fec_initial_def Encode_SetFec_def FecRouterAgent_new_def GetSize_def
        Router_GetSegmentSize_def TcpHeader_new_def word_less_nat_alt)
  have "fec_reach ?y ?y" by (rule fec_reach.start)
  note first = fec_routers_never_stuck [OF _ _ _ this, simplified]
  then obtain e where e: "Encode_SendRealOut (Handed 0) example_data_packet Ipv4Header_new (sys_enc ?y) = Inr e" using send by blast
  let ?z = "?y\<lparr>sys_enc := e\<rparr>"
  have "fec_reach ?y ?z" using fec_reach.step [OF \<open>fec_reach ?y ?y\<close> fec_step.send [OF send e]] .
  note second = fec_routers_never_stuck [OF _ _ _ this, simplified]
  note defs = fec_initial_def Encode_SendRealOut_def Encode_SetFec_def Encode_RedundancyControl_def
        Router_UpdateFecTable_def FecRouterAgent_new_def Router_GetFwin_def Router_GetNGroups_def Router_GetSegmentSize_def
        Router_CreateDataPacket_def example_data_packet_def PeekTcpHeader_def push_tables_def AddPacketTag_def GetSize_def
        TcpHeader_new_def Let_def Encode_Send_def fec_loop_skips ns3_loop_def Ipv4Interface_Send_def
        PointToPointNetDevice_AddHeader_def EtherToPpp_def PROT_NUMBER_def Ipv4QueueDiscItem_AddHeader_def AddHeader_def
  have sent: "enc_sent e \<noteq> []" "enc_segmentSize e = 1000" "m_roundId (enc_fec e) = 1"
    using e by (auto simp: defs split: if_splits)
  then obtain p ip rest where p: "enc_sent e = (p, ip) # rest" by (metis list.exhaust surj_pair)
  have "sendable ?a e"
    using sent(2,3) by (simp add: sendable_def example_data_packet_def GetSize_def TcpHeader_new_def word_less_nat_alt)
  then obtain e' where "Encode_SendRealOut Held ?a Ipv4Header_new e = Inr e'" using second by blast
  then show ?thesis using e p second by (auto simp: fec_initial_def)
qed

text \<open>
  What the packets that \<open>sendable\<close> leaves out do: with rounds of one window and two groups, a packet of 990
  octets in front of a data packet makes the round close after one data packet. The second of the
  redundant packets then belongs to a round of which it is not in the tables, and the loop of
  MarkRoundFecTable never ends when it is delivered, although no packet was lost.
\<close>

declare Encode_fec_loop.simps [code]

definition short_data_packet :: Packet where
  "short_data_packet = \<lparr>pkt_tag = None, pkt_headers = [TcpH TcpHeader_new], pkt_payload = 970\<rparr>"

definition deliver_all :: "FecEncode \<Rightarrow> FecDecode ns3" where
  "deliver_all e = foldl (\<lambda>r (p, ip). ns3_bind r (Decode_IpForward p ip))
    (Inr \<lparr>dec_fec = enc_fec e, dec_rid = 1, dec_sent = []\<rparr>) (enc_sent e)"

lemma SendRealOut_misaligned_spins:
  "ns3_bind (Encode_SendRealOut (Handed 0) short_data_packet Ipv4Header_new (Encode_SetFec (FecRouterAgent_new 1 2 1000 False False)))
    (\<lambda>e. ns3_bind (Encode_SendRealOut (Handed 0) example_data_packet Ipv4Header_new e) deliver_all) = Inl Spin"
  by code_simp

end
