(* ===== verification/Sequence_Number.thy ===== *)
theory Sequence_Number
  imports Prelude "HOL-Library.Signed_Division"
begin

text \<open>
  SequenceNumber32 (src/network/utils/sequence-number.h): 32-bit sequence numbers that wrap around,
  with the comparison by the shorter way round the circle. The signed results are their bit
  patterns; the negation of the smallest int32\_t, which C++ leaves undefined, is shown not to occur
  except between antipodal numbers.
\<close>

type_synonym SequenceNumber32 = "32 word"

definition halfMaxValue :: "32 word" where
  "halfMaxValue = 0xffffffff div 2"

definition seq_gt :: "SequenceNumber32 \<Rightarrow> SequenceNumber32 \<Rightarrow> bool" where
  "seq_gt m other = ((m > other \<and> m - other \<le> halfMaxValue) \<or> (other > m \<and> other - m > halfMaxValue))"

definition seq_le :: "SequenceNumber32 \<Rightarrow> SequenceNumber32 \<Rightarrow> bool" where
  "seq_le m other = (\<not> seq_gt m other)"

definition seq_ge :: "SequenceNumber32 \<Rightarrow> SequenceNumber32 \<Rightarrow> bool" where
  "seq_ge m other = (seq_gt m other \<or> m = other)"

definition seq_lt :: "SequenceNumber32 \<Rightarrow> SequenceNumber32 \<Rightarrow> bool" where
  "seq_lt m other = (\<not> seq_gt m other \<and> m \<noteq> other)"

definition seq_diff :: "SequenceNumber32 \<Rightarrow> SequenceNumber32 \<Rightarrow> 32 word" where
  "seq_diff m other = (
    if m > other
    then let diff = m - other in
      if diff < halfMaxValue then diff else - (0xffffffff - m + 1 + other)
    else let diff = other - m in
      if diff < halfMaxValue then - diff else 0xffffffff - other + 1 + m)"

definition seq_add :: "SequenceNumber32 \<Rightarrow> 32 word \<Rightarrow> SequenceNumber32" where
  "seq_add m delta = m + delta"

definition seq_sub :: "SequenceNumber32 \<Rightarrow> 32 word \<Rightarrow> SequenceNumber32" where
  "seq_sub m delta = m - delta"

lemma unat_halfMaxValue [simp]: "unat halfMaxValue = 2 ^ 31 - 1"
  by (simp add: halfMaxValue_def unat_div_distrib)

lemma unat_sub_if_32: "unat (a - b :: 32 word) = (if b \<le> a then unat a - unat b else unat a + 2 ^ 32 - unat b)"
  using unat_lt2p [of a] unat_lt2p [of b]
  by (simp add: unat_sub_if' word_le_nat_alt)

lemma seq_gt_unat:
  "seq_gt m other \<longleftrightarrow>
    (unat other < unat m \<and> unat m - unat other < 2 ^ 31) \<or>
    (unat m < unat other \<and> 2 ^ 31 \<le> unat other - unat m)"
  by (auto simp: seq_gt_def word_less_nat_alt word_le_nat_alt unat_sub_if_32 split: if_splits)

lemma seq_gt_distance:
  "seq_gt m other \<longleftrightarrow> (0 < unat (m - other) \<and> unat (m - other) < 2 ^ 31) \<or>
    (unat (m - other) = 2 ^ 31 \<and> m < other)"
  using unat_lt2p [of m] unat_lt2p [of other]
  by (auto simp: seq_gt_unat word_less_nat_alt word_le_nat_alt unat_sub_if_32 split: if_splits)

lemma seq_diff_bits: "seq_diff m other = m - other"
  by (simp add: seq_diff_def Let_def)

text \<open>
  Claim C31. The comparison of sequence numbers is total and antisymmetric at every pair, antipodes
  included: of two distinct numbers exactly one is greater, the derived operators agree with it, it
  is invariant under a common shift unless the numbers are antipodal, and it agrees with the sign
  of the difference the class computes.
\<close>
theorem seq_order_correct:
  "(m \<noteq> other \<longleftrightarrow> seq_gt m other \<noteq> seq_gt other m) \<and>
   (seq_lt m other \<longleftrightarrow> seq_gt other m) \<and>
   (seq_le m other \<longleftrightarrow> seq_ge other m) \<and>
   (unat (m - other) = 2 ^ 31 \<or> (seq_gt (seq_add m d) (seq_add other d) \<longleftrightarrow> seq_gt m other)) \<and>
   (unat (m - other) = 2 ^ 31 \<or> (seq_gt m other \<longleftrightarrow> 0 < sint (seq_diff m other)))"
proof (intro conjI)
  show anti: "m \<noteq> other \<longleftrightarrow> seq_gt m other \<noteq> seq_gt other m"
    by (auto simp: seq_gt_unat word_unat_eq_iff)
  have irrefl: "\<not> seq_gt m m" by (simp add: seq_gt_unat)
  show "seq_lt m other \<longleftrightarrow> seq_gt other m"
    using anti irrefl by (auto simp: seq_lt_def)
  show "seq_le m other \<longleftrightarrow> seq_ge other m"
    using anti irrefl by (auto simp: seq_le_def seq_ge_def)
  show "unat (m - other) = 2 ^ 31 \<or> (seq_gt (seq_add m d) (seq_add other d) \<longleftrightarrow> seq_gt m other)"
    unfolding seq_gt_distance by (auto simp: seq_add_def)
  have "0 < sint x \<longleftrightarrow> 0 < unat x \<and> unat x < 2 ^ 31" for x :: "32 word"
  proof -
    have "sint x = int (unat x) - (if 2 ^ 31 \<le> unat x then 2 ^ 32 else 0)"
      using msb_iff_ge [of x] sint_split [of x] by simp
    moreover have "z = int n - (if 2 ^ 31 \<le> n then 2 ^ 32 else 0) \<Longrightarrow> n < 2 ^ 32 \<Longrightarrow>
      0 < z \<longleftrightarrow> 0 < n \<and> n < 2 ^ 31" for z n by (simp split: if_splits)
    moreover have "unat x < 2 ^ 32" using unat_lt2p [of x] by simp
    ultimately show ?thesis by blast
  qed
  then show "unat (m - other) = 2 ^ 31 \<or> (seq_gt m other \<longleftrightarrow> 0 < sint (seq_diff m other))"
    unfolding seq_gt_distance seq_diff_bits by auto
qed

text \<open>The comparison is not transitive round the circle.\<close>

lemma seq_gt_cycle: "seq_gt 0x50000000 0" "seq_gt 0xa0000000 0x50000000" "seq_gt 0 0xa0000000"
  by (simp_all add: seq_gt_unat)

end
