(* ===== verification/Fec_Agent.thy ===== *)
theory Fec_Agent
  imports Fec_Core Sequence_Number
begin

text \<open>
  FecAgent (contrib/fec/model/fec-agent.cc), the end-to-end encoder and decoder of a TCP flow, and
  the code of TcpSocketBase (src/internet/model/tcp-socket-base.cc) that drives it.
\<close>

section \<open>State\<close>

datatype FecMode = Static | Dynamic
datatype BoundMode = OUT | IN

record FecAgent = "PacketInfo fec_core" +
  m_fecMode :: FecMode
  m_boundMode :: BoundMode
  m_ackMode :: bool
  m_fmax :: "32 word"
  m_srcId :: "32 word"
  m_cwnd :: "32 word"
  m_ssThresh :: "32 word"
  m_seq :: SequenceNumber32
  m_lastAckedSeq :: SequenceNumber32
  m_retPkt :: "32 word"
  m_recover_rexmit :: "32 word"
  m_timeout :: "32 word"
  m_fastRecovery :: "32 word"
  m_rateControl :: "32 word"
  m_fmaxCount :: "32 word"
  m_ackSuppression :: "32 word"
  fwin :: "32 word"
  ackSendId :: "32 word"
  nGroups :: "8 word"

text \<open>
  The constructor. The attributes FecMode, BoundMode, AckMode (whether acknowledgements are suppressed),
  FecWin, MaxFecWin, NumberofGroups, srcId and SegmentSize are arguments, and so is the member
  m\_serial, which the constructor leaves uninitialised.
\<close>

definition FecAgent_new :: "FecMode \<Rightarrow> BoundMode \<Rightarrow> bool \<Rightarrow> 32 word \<Rightarrow> 32 word \<Rightarrow> 8 word \<Rightarrow> 32 word \<Rightarrow> 32 word \<Rightarrow>
    32 word \<Rightarrow> FecAgent" where
  "FecAgent_new fecMode boundMode ackMode fecWin maxFecWin numberofGroups srcId segmentSize garbage =
    \<lparr>rtq = [], gtq = [], tqq = [], m_fwin = fecWin, m_nGroups = numberofGroups, m_segmentSize = segmentSize,
     m_serial = garbage, m_roundId = 1, m_groupId = 0, m_sentdatapkt = 0, m_lostdatapkt = 0,
     m_sentfecpkt = 0, m_lostfecpkt = 0, m_recover = 0, m_printRoundFecTable = False, m_printGroupFecTable = False,
     m_fecMode = fecMode, m_boundMode = boundMode, m_ackMode = ackMode, m_fmax = maxFecWin, m_srcId = srcId,
     m_cwnd = 0, m_ssThresh = 0, m_seq = 0, m_lastAckedSeq = 0, m_retPkt = 0, m_recover_rexmit = 0,
     m_timeout = 0, m_fastRecovery = 0, m_rateControl = 0, m_fmaxCount = 0, m_ackSuppression = 0,
     fwin = 0, ackSendId = 0, nGroups = 0\<rparr>"

section \<open>Encoder\<close>

definition FecAgent_CreateDataPacket :: "Packet \<Rightarrow> TcpHeader \<Rightarrow> SequenceNumber32 \<Rightarrow> FecAgent \<Rightarrow> (Packet \<times> FecAgent) ns3" where
  "FecAgent_CreateDataPacket packet tcpHeader highTxMark s =
    ns3_bind (
      if m_fwin s \<noteq> 0
      then
        let seq = m_sequenceNumber tcpHeader;
            s = s\<lparr>m_serial := seq\<rparr>;
            s = (if m_nGroups s = 1 then s\<lparr>m_groupId := 0\<rparr> else s);
            check = seq_lt seq highTxMark;
            pi = \<lparr>pi_serial = m_serial s, pi_check = check, pi_gid = ucast (m_groupId s), pi_type = False,
              pi_tcp = tcpHeader, pi_flag = False\<rparr>
        in ns3_bind (push_tables (m_groupId s) pi s) (\<lambda>s.
           ns3_bind (AddPacketTag \<lparr>tag_type = (if \<not> check then 1 else 3), tag_serial = m_serial s,
             tag_roundId = m_roundId s, tag_groupId = m_groupId s, tag_nGroups = nGroups s\<rparr> packet) (\<lambda>packet.
           let s = (if nGroups s > 1
                 then let s = s\<lparr>m_groupId := m_groupId s + 1\<rparr> in
                   if m_groupId s = nGroups s then s\<lparr>m_groupId := 0\<rparr> else s
                 else s)
           in Inr (packet, s\<lparr>m_serial := m_serial s + 1\<rparr>)))
      else Inr (packet, s))
    (\<lambda>(packet, s). Inr (packet, s\<lparr>m_sentdatapkt := m_sentdatapkt s + 1\<rparr>))"

definition FecAgent_CreateFecPacket :: "FecAgent \<Rightarrow> (Packet \<times> FecAgent) ns3" where
  "FecAgent_CreateFecPacket s =
    (let packet = Create_Packet (m_segmentSize s);
         pi = \<lparr>pi_serial = m_serial s, pi_check = False, pi_gid = ucast (m_groupId s), pi_type = True,
           pi_tcp = TcpHeader_new, pi_flag = False\<rparr>
     in ns3_bind (push_tables (m_groupId s) pi s) (\<lambda>s.
        ns3_bind (AddPacketTag \<lparr>tag_type = 2, tag_serial = m_serial s, tag_roundId = m_roundId s,
          tag_groupId = m_groupId s, tag_nGroups = nGroups s\<rparr> packet) (\<lambda>packet.
        let s = (if nGroups s > 1
              then let s = s\<lparr>m_groupId := m_groupId s + 1, m_serial := m_serial s + 1\<rparr> in
                if m_groupId s = nGroups s then s\<lparr>m_groupId := 0, m_roundId := m_roundId s + 1\<rparr> else s
              else if nGroups s = 1 then s\<lparr>m_groupId := 0, m_roundId := m_roundId s + 1\<rparr> else s)
        in Inr (packet, s\<lparr>m_sentfecpkt := m_sentfecpkt s + 1\<rparr>))))"

text \<open>
  RedundancyControl first chooses fwin, the number of data packets of the round, and nGroups, the
  number of its groups; the products are of a uint32\_t and a uint8\_t and wrap at 32 bits.
\<close>

definition choose_window :: "32 word \<Rightarrow> FecAgent \<Rightarrow> FecAgent" where
  "choose_window win s = (let nG = ucast (m_nGroups s) in
    case (m_fecMode s, m_boundMode s) of
      (Static, OUT) \<Rightarrow> s\<lparr>fwin := m_fwin s * nG, nGroups := m_nGroups s\<rparr>
    | (Static, IN) \<Rightarrow>
        if win < m_fwin s * nG + nG then s\<lparr>fwin := win, nGroups := 1\<rparr>
        else s\<lparr>fwin := m_fwin s * nG, nGroups := m_nGroups s\<rparr>
    | (Dynamic, OUT) \<Rightarrow>
        let s = s\<lparr>nGroups := (if win < nG then 1 else m_nGroups s)\<rparr>;
            fc = win div ucast (nGroups s);
            s = (if m_fmax s \<noteq> 0 \<and> fc \<ge> m_fmax s then s\<lparr>m_fmaxCount := m_fmaxCount s + 1\<rparr> else s);
            fc = (if m_fmax s \<noteq> 0 \<and> fc \<ge> m_fmax s then m_fmax s else fc)
        in s\<lparr>fwin := fc * ucast (nGroups s)\<rparr>
    | (Dynamic, IN) \<Rightarrow>
        if win < m_fwin s * nG + nG then s\<lparr>fwin := win, nGroups := 1\<rparr>
        else
          let fc = (win - nG) div nG;
              s = (if m_fmax s \<noteq> 0 \<and> fc \<ge> m_fmax s then s\<lparr>m_fmaxCount := m_fmaxCount s + 1\<rparr> else s);
              fc = (if m_fmax s \<noteq> 0 \<and> fc \<ge> m_fmax s then m_fmax s else fc)
          in s\<lparr>fwin := fc * nG, nGroups := m_nGroups s\<rparr>)"

text \<open>A division by zero, for a segment size or a number of groups of 0, traps in C++.\<close>

definition divides_by_zero :: "FecAgent \<Rightarrow> bool" where
  "divides_by_zero s = (m_segmentSize s = 0 \<or> (m_fecMode s = Dynamic \<and> m_nGroups s = 0))"

definition FecAgent_RedundancyControl :: "32 word \<Rightarrow> FecAgent \<Rightarrow> (32 word \<times> FecAgent) ns3" where
  "FecAgent_RedundancyControl cwnd s =
    (if divides_by_zero s then Inl DivByZero
     else
       let win = cwnd div m_segmentSize s;
           s = choose_window win s;
           s = s\<lparr>gtq := gtq s @ [\<lparr>gt_rid = m_roundId s, gt_nGroups = nGroups s, gt_gi = []\<rparr>]\<rparr>;
           s = s\<lparr>rtq := rtq s @ [\<lparr>rt_rid = m_roundId s, rt_nGroups = nGroups s, rt_pi = []\<rparr>]\<rparr>
       in Inr (fwin s, s))"

definition FecAgent_GetFwin :: "FecAgent \<Rightarrow> 32 word" where
  "FecAgent_GetFwin s = m_fwin s"

definition FecAgent_GetNGroups :: "FecAgent \<Rightarrow> 32 word" where
  "FecAgent_GetNGroups s = ucast (nGroups s)"

definition FecAgent_GetSrcId :: "FecAgent \<Rightarrow> 32 word" where
  "FecAgent_GetSrcId s = m_srcId s"

definition FecAgent_Reset :: "FecAgent \<Rightarrow> FecAgent" where
  "FecAgent_Reset s = s\<lparr>m_roundId := m_roundId s + 1, m_groupId := 0\<rparr>"

section \<open>Decoder\<close>

definition FecAgent_MarkRoundFecTable :: "Packet \<Rightarrow> FecAgent \<Rightarrow> FecAgent ns3" where
  "FecAgent_MarkRoundFecTable packet s = mark_round packet s"

text \<open>The loop of CheckRoundFecTable: the count, and whether it was left by the return inside.\<close>

fun check_round_entries :: "8 word \<Rightarrow> 32 word \<Rightarrow> 32 word \<Rightarrow> PacketInfo list \<Rightarrow> 32 word \<times> bool" where
  "check_round_entries typ serial sumlost [] = (sumlost, False)"
| "check_round_entries typ serial sumlost (p # ps) = (
    let sumlost = (if \<not> pi_check p \<and> pi_serial p < serial then sumlost + 1 else sumlost) in
    if typ = 1 \<and> serial = pi_serial p then (sumlost, True)
    else check_round_entries typ serial sumlost ps)"

definition FecAgent_CheckRoundFecTable :: "Packet \<Rightarrow> FecAgent \<Rightarrow> (32 word \<times> FecAgent) ns3" where
  "FecAgent_CheckRoundFecTable packet s =
    ns3_bind (PeekPacketTag packet) (\<lambda>tag.
    case rtq s of [] \<Rightarrow> Inl EmptyFront | t # _ \<Rightarrow>
    if tag_roundId tag < rt_rid t then Inr (0, s)
    else ns3_bind (enter_round (tag_roundId tag) s t) (\<lambda>s.
      case rtq s of [] \<Rightarrow> Inl EmptyFront | t # ts \<Rightarrow>
      case (if rt_rid t = tag_roundId tag then check_round_entries (tag_type tag) (tag_serial tag) 0 (rt_pi t) else (0, False)) of
        (sumlost, True) \<Rightarrow> Inr (sumlost, s)
      | (sumlost, False) \<Rightarrow> ns3_bind (close_round tag s) (\<lambda>s. Inr (sumlost, s))))"

definition FecAgent_MarkGroupFecTable :: "Packet \<Rightarrow> FecAgent \<Rightarrow> (32 word \<times> FecAgent) ns3" where
  "FecAgent_MarkGroupFecTable packet s = mark_group packet s"

definition FecAgent_InsertTransitQueue :: "Packet \<Rightarrow> 32 word \<Rightarrow> FecAgent \<Rightarrow> FecAgent" where
  "FecAgent_InsertTransitQueue packet serial s = InsertTransitQueue packet serial s"

definition FecAgent_CreateRecoveryPacket :: "Packet \<Rightarrow> TcpHeader \<Rightarrow> FecTag \<Rightarrow> 32 word \<Rightarrow> FecAgent \<Rightarrow> FecAgent ns3" where
  "FecAgent_CreateRecoveryPacket packet oldTcpHeader tag rec_serial s =
    (let packet = RemovePacketTag packet in
     ns3_bind (RemoveTcpHeader packet) (\<lambda>(oldFecTcpHeader, packet).
     let newTag = (FecTag_new 0)\<lparr>tag_type := 4, tag_roundId := tag_roundId tag,
           tag_groupId := tag_groupId tag, tag_serial := rec_serial\<rparr>
     in ns3_bind (AddPacketTag newTag packet) (\<lambda>packet.
        Inr (FecAgent_InsertTransitQueue (AddHeader (TcpH oldTcpHeader) packet) rec_serial s))))"

text \<open>What CheckGroupFecTable does with the one missing entry; retpkt is the check\_ member of that entry.\<close>

definition FecAgent_recover :: "Packet \<Rightarrow> PacketInfo \<Rightarrow> FecAgent \<Rightarrow> FecAgent ns3" where
  "FecAgent_recover packet p s =
    (let retpkt = pi_check p;
         s = (if retpkt then s\<lparr>m_recover_rexmit := m_recover_rexmit s + 1\<rparr> else s\<lparr>m_recover := m_recover s + 1\<rparr>)
     in ns3_bind (PeekPacketTag packet) (\<lambda>tag. FecAgent_CreateRecoveryPacket packet (pi_tcp p) tag (pi_serial p) s))"

definition FecAgent_CheckGroupFecTable :: "Packet \<Rightarrow> 32 word \<Rightarrow> FecAgent \<Rightarrow> (32 word \<times> FecAgent) ns3" where
  "FecAgent_CheckGroupFecTable packet nlost s = check_group (FecAgent_recover packet) packet nlost s"

definition FecAgent_Recv :: "Packet \<Rightarrow> Ipv4Header \<Rightarrow> FecAgent \<Rightarrow> (32 word \<times> FecAgent) ns3" where
  "FecAgent_Recv packet ipHeader s =
    ns3_bind (PeekPacketTag packet) (\<lambda>tag.
    ns3_bind (FecAgent_MarkRoundFecTable packet s) (\<lambda>s.
    ns3_bind (FecAgent_CheckRoundFecTable packet s) (\<lambda>(sumlost, s).
    if sumlost > ucast (tag_nGroups tag) then Inr (2, s)
    else ns3_bind (FecAgent_MarkGroupFecTable packet s) (\<lambda>(nlost, s).
    ns3_bind (if tag_type tag = 2 then FecAgent_CheckGroupFecTable packet nlost s else Inr (0, s)) (\<lambda>(flag, s).
    if nlost > ucast (tag_nGroups tag) then Inr (2, s)
    else
      let s = (if tag_type tag = 3 then s\<lparr>ackSendId := tag_roundId tag\<rparr> else s) in
      if ackSendId s = tag_roundId tag \<and> tag_type tag \<noteq> 2 then Inr (2, s)
      else if sumlost > 0 \<and> tag_type tag = 1 \<and> m_ackMode s
      then Inr (1, (FecAgent_InsertTransitQueue (AddHeader (IpH ipHeader) packet) (tag_serial tag) s)
        \<lparr>m_ackSuppression := m_ackSuppression s + 1\<rparr>)
      else if sumlost - nlost > 0 \<and> flag = 1 \<and> tag_type tag = 2 \<and> uint (tag_groupId tag) < uint (m_nGroups s) - 1
      then Inr (1, s)
      else if tag_type tag = 2 \<and> uint (tag_groupId tag) = uint (m_nGroups s) - 1 then Inr (2, s)
      else Inr (0, s))))))"

definition FecAgent_TransitQueueSize :: "FecAgent \<Rightarrow> 32 word" where
  "FecAgent_TransitQueueSize s = TransitQueueSize s"

definition FecAgent_GetPacket :: "FecAgent \<Rightarrow> (Packet \<times> FecAgent) ns3" where
  "FecAgent_GetPacket s = GetPacket s"

section \<open>Information from TCP\<close>

definition FecAgent_SetTcpDumpInfo :: "32 word \<Rightarrow> 32 word \<Rightarrow> SequenceNumber32 \<Rightarrow> SequenceNumber32 \<Rightarrow> FecAgent \<Rightarrow> FecAgent" where
  "FecAgent_SetTcpDumpInfo cwnd ssThresh seq lastAckedSeq s =
    s\<lparr>m_cwnd := cwnd, m_ssThresh := ssThresh, m_seq := seq, m_lastAckedSeq := lastAckedSeq\<rparr>"

definition FecAgent_SetTimeoutInfo :: "32 word \<Rightarrow> 32 word \<Rightarrow> 32 word \<Rightarrow> SequenceNumber32 \<Rightarrow> FecAgent \<Rightarrow> FecAgent" where
  "FecAgent_SetTimeoutInfo timeout cwnd ssThresh seq s =
    s\<lparr>m_timeout := timeout, m_cwnd := cwnd, m_ssThresh := ssThresh, m_seq := seq\<rparr>"

definition FecAgent_SetFastRecoveryInfo :: "32 word \<Rightarrow> 32 word \<Rightarrow> 32 word \<Rightarrow> SequenceNumber32 \<Rightarrow> FecAgent \<Rightarrow> FecAgent" where
  "FecAgent_SetFastRecoveryInfo fastRecovery cwnd ssThresh seq s =
    s\<lparr>m_fastRecovery := fastRecovery, m_cwnd := cwnd, m_ssThresh := ssThresh, m_seq := seq\<rparr>"

definition FecAgent_SetRetransmitInfo :: "32 word \<Rightarrow> 32 word \<Rightarrow> 32 word \<Rightarrow> SequenceNumber32 \<Rightarrow> FecAgent \<Rightarrow> FecAgent" where
  "FecAgent_SetRetransmitInfo retPkt cwnd ssThresh seq s =
    s\<lparr>m_retPkt := retPkt, m_cwnd := cwnd, m_ssThresh := ssThresh, m_seq := seq\<rparr>"

definition FecAgent_SetRateControlInfo :: "32 word \<Rightarrow> 32 word \<Rightarrow> 32 word \<Rightarrow> FecAgent \<Rightarrow> FecAgent" where
  "FecAgent_SetRateControlInfo rateControl newcwnd ssThresh s =
    s\<lparr>m_rateControl := rateControl, m_cwnd := newcwnd, m_ssThresh := ssThresh\<rparr>"

section \<open>Streams\<close>

definition FecAgent_EnablePrintRoundFecTable :: "bool \<Rightarrow> FecAgent \<Rightarrow> FecAgent" where
  "FecAgent_EnablePrintRoundFecTable stream s = s\<lparr>m_printRoundFecTable := stream\<rparr>"

definition FecAgent_EnablePrintGroupFecTable :: "bool \<Rightarrow> FecAgent \<Rightarrow> FecAgent" where
  "FecAgent_EnablePrintGroupFecTable stream s = s\<lparr>m_printGroupFecTable := stream\<rparr>"

end
