(* ===== verification/Fec_Tcp.thy ===== *)
theory Fec_Tcp
  imports Fec_Agent
begin

text \<open>
  The code of TcpSocketBase (src/internet/model/tcp-socket-base.cc) that drives FecAgent: the part of
  SendDataPacket after the header is built, the redundant packets, the resets at fast recovery
  and timeout, and the part of ForwardUp before the segment is processed.
\<close>

record FecSocket =
  sk_fec :: FecAgent
  sk_init :: bool
  sk_fc :: "32 word"
  sk_ic :: "32 word"
  sk_rid :: "32 word"
  sk_timeout :: "32 word"
  sk_fastRecovery :: "32 word"
  sk_retransmit :: "32 word"
  sk_cWnd :: "32 word"
  sk_ssThresh :: "32 word"
  sk_lastAckedSeq :: SequenceNumber32
  sk_highTxMark :: SequenceNumber32
  sk_segmentSize :: "32 word"
  sk_sent :: "(Packet \<times> TcpHeader) list"
  sk_up :: "(Packet \<times> Ipv4Header) list"

section \<open>Sending\<close>

definition Tcp_RedundancyControl :: "32 word \<Rightarrow> FecSocket \<Rightarrow> FecSocket ns3" where
  "Tcp_RedundancyControl cwnd t =
    ns3_bind (FecAgent_RedundancyControl cwnd (sk_fec t)) (\<lambda>(n, fec).
    Inr (t\<lparr>sk_fec := fec, sk_fc := n, sk_ic := FecAgent_GetNGroups fec\<rparr>))"

definition Tcp_SendFecPacket :: "TcpHeader \<Rightarrow> FecSocket \<Rightarrow> FecSocket ns3" where
  "Tcp_SendFecPacket tcpHeader t =
    (let tcpHeader = tcpHeader\<lparr>m_sequenceNumber := 0\<rparr> in
     ns3_bind (FecAgent_CreateFecPacket (sk_fec t)) (\<lambda>(p, fec).
     Inr (t\<lparr>sk_fec := FecAgent_SetTcpDumpInfo (sk_cWnd t) (sk_ssThresh t) 0 (sk_lastAckedSeq t) fec,
       sk_sent := sk_sent t @ [(p, tcpHeader)]\<rparr>)))"

partial_function (option) Tcp_fec_loop :: "TcpHeader \<Rightarrow> FecSocket \<Rightarrow> FecSocket ns3 option" where
  "Tcp_fec_loop header t = (
    if sk_fc t = 0
    then (case Tcp_SendFecPacket header t of
        Inl err \<Rightarrow> Some (Inl err)
      | Inr t \<Rightarrow> (case (if sk_ic t - 1 = 0 then Tcp_RedundancyControl (sk_cWnd t) (t\<lparr>sk_ic := sk_ic t - 1\<rparr>)
            else Inr (t\<lparr>sk_ic := sk_ic t - 1\<rparr>)) of
          Inl err \<Rightarrow> Some (Inl err)
        | Inr t \<Rightarrow> Tcp_fec_loop header t))
    else Some (Inr t))"

text \<open>SendDataPacket from the test of the end point on, with an agent installed.\<close>

definition Tcp_SendDataPacket :: "Packet \<Rightarrow> TcpHeader \<Rightarrow> FecSocket \<Rightarrow> FecSocket ns3" where
  "Tcp_SendDataPacket p header t =
    ns3_bind (if sk_init t \<and> FecAgent_GetFwin (sk_fec t) \<noteq> 0
      then ns3_bind (Tcp_RedundancyControl (sk_cWnd t) t) (\<lambda>t. Inr (t\<lparr>sk_init := False\<rparr>)) else Inr t) (\<lambda>t.
    ns3_bind (FecAgent_CreateDataPacket p header (sk_highTxMark t) (sk_fec t)) (\<lambda>(p, fec).
    let t = t\<lparr>sk_fec := fec, sk_sent := sk_sent t @ [(p, header)]\<rparr>;
        seq = m_sequenceNumber header;
        t = (if seq_lt seq (sk_highTxMark t)
          then t\<lparr>sk_retransmit := sk_retransmit t + 1,
            sk_fec := FecAgent_SetRetransmitInfo (sk_retransmit t + 1) (sk_cWnd t) (sk_ssThresh t) seq (sk_fec t)\<rparr>
          else t);
        t = t\<lparr>sk_fec := FecAgent_SetTcpDumpInfo (sk_cWnd t) (sk_ssThresh t) seq (sk_lastAckedSeq t) (sk_fec t)\<rparr>
    in if FecAgent_GetFwin (sk_fec t) \<noteq> 0
       then (case Tcp_fec_loop header (t\<lparr>sk_fc := sk_fc t - 1\<rparr>) of None \<Rightarrow> Inl Spin | Some r \<Rightarrow> r)
       else Inr t))"

text \<open>The calls at the start of fast recovery and at a retransmission timeout.\<close>

definition Tcp_enter_recovery :: "FecSocket \<Rightarrow> FecSocket ns3" where
  "Tcp_enter_recovery t =
    (let t = t\<lparr>sk_fastRecovery := sk_fastRecovery t + 1,
           sk_fec := FecAgent_SetFastRecoveryInfo (sk_fastRecovery t + 1) (sk_cWnd t) (sk_ssThresh t) (sk_highTxMark t) (sk_fec t)\<rparr>
     in if FecAgent_GetFwin (sk_fec t) \<noteq> 0
        then Tcp_RedundancyControl (sk_cWnd t) (t\<lparr>sk_fec := FecAgent_Reset (sk_fec t)\<rparr>) else Inr t)"

definition Tcp_retx_timeout :: "SequenceNumber32 \<Rightarrow> FecSocket \<Rightarrow> FecSocket ns3" where
  "Tcp_retx_timeout headSequence t =
    (let t = t\<lparr>sk_timeout := sk_timeout t + 1,
           sk_fec := FecAgent_SetTimeoutInfo (sk_timeout t + 1) (sk_cWnd t) (sk_ssThresh t) headSequence (sk_fec t)\<rparr>
     in if FecAgent_GetFwin (sk_fec t) \<noteq> 0
        then Tcp_RedundancyControl (sk_cWnd t) (t\<lparr>sk_fec := FecAgent_Reset (sk_fec t)\<rparr>) else Inr t)"

section \<open>Receiving\<close>

text \<open>Free hands the front of the transit queue to ReForwardUp, which goes on as ForwardUp does without the agent.\<close>

definition Tcp_Free :: "FecSocket \<Rightarrow> FecSocket ns3" where
  "Tcp_Free t =
    ns3_bind (FecAgent_GetPacket (sk_fec t)) (\<lambda>(packet, fec).
    ns3_bind (RemoveIpv4Header packet) (\<lambda>(ipHeader, packet).
    Inr (t\<lparr>sk_fec := fec, sk_up := sk_up t @ [(packet, ipHeader)]\<rparr>)))"

primrec tcp_free_turns :: "nat \<Rightarrow> FecSocket \<Rightarrow> FecSocket ns3" where
  "tcp_free_turns 0 t = Inl Spin"
| "tcp_free_turns (Suc n) t = (
    if FecAgent_TransitQueueSize (sk_fec t) > 0 then ns3_bind (Tcp_Free t) (tcp_free_turns n) else Inr t)"

definition Tcp_FreeAll :: "FecSocket \<Rightarrow> FecSocket ns3" where
  "Tcp_FreeAll t = tcp_free_turns (Suc (length (tqq (sk_fec t)))) t"

definition Tcp_ForwardUp :: "Packet \<Rightarrow> Ipv4Header \<Rightarrow> FecSocket \<Rightarrow> FecSocket ns3" where
  "Tcp_ForwardUp packet header t = (
    if FecAgent_GetFwin (sk_fec t) \<noteq> 0 \<and> GetSize packet > sk_segmentSize t
    then
      ns3_bind (PeekPacketTag packet) (\<lambda>tag.
      ns3_bind (if sk_rid t < tag_roundId tag
          then ns3_bind (Tcp_FreeAll t) (\<lambda>t. Inr (t\<lparr>sk_rid := tag_roundId tag\<rparr>)) else Inr t) (\<lambda>t.
      ns3_bind (FecAgent_Recv packet header (sk_fec t)) (\<lambda>(flag, fec).
      let t = t\<lparr>sk_fec := fec\<rparr> in
      if flag = 1 then Inr t
      else ns3_bind (if flag = 2 then Tcp_FreeAll t else Inr t) (\<lambda>t.
        if tag_type tag = 2 then Inr t
        else Inr (t\<lparr>sk_up := sk_up t @ [(packet, header)]\<rparr>)))))
    else Inr (t\<lparr>sk_up := sk_up t @ [(packet, header)]\<rparr>))"

end
