(* ===== verification/Fec_Agent_Correct.thy ===== *)
theory Fec_Agent_Correct
  imports Fec_Tcp Fec_Decoder
begin

text \<open>
  What FecAgent promises: the window RedundancyControl chooses, the recovery of Recv, and what
  becomes of the loop in SendDataPacket when the window is empty.
\<close>

section \<open>The window\<close>

lemma unat_nG: "unat (ucast (n :: 8 word) :: 32 word) = unat n"
  by (rule unat_ucast_up) simp

lemma capped_window:
  fixes w n m :: "32 word"
  assumes "n \<noteq> 0" and fc: "fc = (if m \<noteq> 0 \<and> w div n \<ge> m then m else w div n)"
  shows "unat (fc * n) = unat fc * unat n" "unat fc * unat n \<le> unat w" "m = 0 \<or> unat fc \<le> unat m"
proof -
  have le: "unat fc \<le> unat w div unat n"
    unfolding fc by (auto simp: word_le_nat_alt unat_div_distrib)
  then show b: "unat fc * unat n \<le> unat w"
    by (meson div_times_less_eq_dividend le_trans mult_le_mono1)
  then show "unat (fc * n) = unat fc * unat n"
    by (intro unat_mult_lt) (use unat_lt2p [of w] in simp)
  show "m = 0 \<or> unat fc \<le> unat m" unfolding fc by (auto simp: word_le_nat_alt)
qed

definition window_ok :: "nat \<Rightarrow> FecAgent \<Rightarrow> FecAgent \<Rightarrow> bool" where
  "window_ok win s s' = (
    if m_boundMode s = IN
    then if unat (m_fwin s) * unat (m_nGroups s) + unat (m_nGroups s) \<le> win
      then nGroups s' = m_nGroups s \<and> unat (fwin s') + unat (nGroups s') \<le> win \<and> unat (nGroups s') dvd unat (fwin s')
      else nGroups s' = 1 \<and> unat (fwin s') = win
    else if m_fecMode s = Static
      then nGroups s' = m_nGroups s \<and> unat (fwin s') = unat (m_fwin s) * unat (m_nGroups s)
      else unat (fwin s') \<le> win \<and> unat (nGroups s') dvd unat (fwin s') \<and>
        nGroups s' = (if win < unat (m_nGroups s) then 1 else m_nGroups s) \<and>
        (m_fmax s = 0 \<or> unat (fwin s') \<le> unat (m_fmax s) * unat (nGroups s')))"

lemma choose_window_frame:
  "rtq (choose_window w s) = rtq s" "gtq (choose_window w s) = gtq s" "m_roundId (choose_window w s) = m_roundId s"
  by (cases "m_fecMode s"; cases "m_boundMode s"; simp add: choose_window_def Let_def)+

lemma choose_window_ok:
  assumes "m_nGroups s \<noteq> 0" "unat (m_fwin s) * unat (m_nGroups s) + unat (m_nGroups s) < 2 ^ 32"
  shows "window_ok (unat w) s (choose_window w s)"
proof -
  let ?nG = "ucast (m_nGroups s) :: 32 word"
  have nz: "?nG \<noteq> 0" using assms(1) by (simp add: word_unat_eq_iff unat_nG)
  have p: "unat (m_fwin s * ?nG) = unat (m_fwin s) * unat (m_nGroups s)"
    using assms(2) by (subst unat_mult_lt) (simp_all add: unat_nG)
  have q: "unat (m_fwin s * ?nG + ?nG) = unat (m_fwin s) * unat (m_nGroups s) + unat (m_nGroups s)"
    using assms(2) by (subst unat_add_lt) (simp_all add: unat_nG p)
  have lt: "w < m_fwin s * ?nG + ?nG \<longleftrightarrow> unat w < unat (m_fwin s) * unat (m_nGroups s) + unat (m_nGroups s)"
    by (simp add: word_less_nat_alt q)
  have sub: "unat (w - ?nG) = unat w - unat (m_nGroups s)" if "unat (m_nGroups s) \<le> unat w"
    using that by (simp add: unat_sub_if' unat_nG)
  show ?thesis
  proof (cases "m_fecMode s")
    case Static
    then show ?thesis by (cases "m_boundMode s") (auto simp: choose_window_def window_ok_def Let_def lt p)
  next
    case Dynamic
    show ?thesis
    proof (cases "m_boundMode s")
      case IN
      define fc where "fc = (if m_fmax s \<noteq> 0 \<and> (w - ?nG) div ?nG \<ge> m_fmax s then m_fmax s else (w - ?nG) div ?nG)"
      note c = capped_window [OF nz fc_def, unfolded unat_nG]
      have "fwin (choose_window w s) = fc * ?nG \<and> nGroups (choose_window w s) = m_nGroups s"
        if "\<not> unat w < unat (m_fwin s) * unat (m_nGroups s) + unat (m_nGroups s)"
        using Dynamic IN that lt by (simp add: choose_window_def Let_def fc_def)
      then show ?thesis using Dynamic IN c sub lt
        by (auto simp: window_ok_def not_less) (auto simp: choose_window_def Let_def)
    next
      case OUT
      define n where "n = (if w < ?nG then 1 else m_nGroups s)"
      define fc where "fc = (if m_fmax s \<noteq> 0 \<and> w div ucast n \<ge> m_fmax s then m_fmax s else w div ucast n)"
      have "ucast n \<noteq> (0 :: 32 word)" using assms(1) by (auto simp: n_def word_unat_eq_iff unat_nG)
      note c = capped_window [OF this fc_def, unfolded unat_nG]
      have "fwin (choose_window w s) = fc * ucast n \<and> nGroups (choose_window w s) = n"
        using Dynamic OUT by (simp add: choose_window_def Let_def fc_def n_def)
      moreover have "n = (if unat w < unat (m_nGroups s) then 1 else m_nGroups s)"
        by (simp add: n_def word_less_nat_alt unat_nG)
      ultimately show ?thesis using Dynamic OUT c by (auto simp: window_ok_def)
    qed
  qed
qed

text \<open>
  Claim C10. FecAgent::RedundancyControl, for a segment size and a number of groups above zero whose full
  round fits 32 bits. It appends one empty table for the current round to either queue and returns the
  number of data packets it has chosen. With the bound IN and a congestion window that holds a
  full round, the data packets and the redundant packets, one per group, together fit the congestion
  window, and the data packets divide evenly among the configured groups; below that it takes the
  whole window as a single group. With the bound OUT the static mode takes the configured round
  whatever the window, and the dynamic mode never takes more data packets than the window holds, nor
  more than MaxFecWin per group where that is set, and divides them evenly among the groups.
\<close>
theorem RedundancyControl_window:
  assumes conf: "m_segmentSize s \<noteq> 0" "m_nGroups s \<noteq> 0" "unat (m_fwin s) * unat (m_nGroups s) + unat (m_nGroups s) < 2 ^ 32"
    and win: "win = unat (cwnd div m_segmentSize s)" and full: "full = unat (m_fwin s) * unat (m_nGroups s) + unat (m_nGroups s)"
  shows "\<exists>s'. FecAgent_RedundancyControl cwnd s = Inr (fwin s', s') \<and>
    rtq s' = rtq s @ [\<lparr>rt_rid = m_roundId s, rt_nGroups = nGroups s', rt_pi = []\<rparr>] \<and>
    gtq s' = gtq s @ [\<lparr>gt_rid = m_roundId s, gt_nGroups = nGroups s', gt_gi = []\<rparr>] \<and>
    nGroups s' \<noteq> 0 \<and>
    (if m_boundMode s = IN
     then if full \<le> win
       then nGroups s' = m_nGroups s \<and> unat (fwin s') + unat (nGroups s') \<le> win \<and> unat (nGroups s') dvd unat (fwin s')
       else nGroups s' = 1 \<and> unat (fwin s') = win
     else if m_fecMode s = Static
       then nGroups s' = m_nGroups s \<and> unat (fwin s') = unat (m_fwin s) * unat (m_nGroups s)
       else unat (fwin s') \<le> win \<and> unat (nGroups s') dvd unat (fwin s') \<and>
         nGroups s' = (if win < unat (m_nGroups s) then 1 else m_nGroups s) \<and>
         (m_fmax s = 0 \<or> unat (fwin s') \<le> unat (m_fmax s) * unat (nGroups s')))"
proof -
  define c where "c = choose_window (cwnd div m_segmentSize s) s"
  let ?s = "c\<lparr>gtq := gtq s @ [\<lparr>gt_rid = m_roundId s, gt_nGroups = nGroups c, gt_gi = []\<rparr>],
    rtq := rtq s @ [\<lparr>rt_rid = m_roundId s, rt_nGroups = nGroups c, rt_pi = []\<rparr>]\<rparr>"
  have rc: "FecAgent_RedundancyControl cwnd s = Inr (fwin ?s, ?s)"
    using conf(1,2) by (simp add: FecAgent_RedundancyControl_def divides_by_zero_def Let_def choose_window_frame c_def)
  have w: "window_ok win s c" unfolding c_def win by (rule choose_window_ok [OF conf(2,3)])
  have eq: "nGroups ?s = nGroups c" "fwin ?s = fwin c" by simp_all
  from w have ok: "window_ok win s ?s" unfolding window_ok_def eq .
  then have "nGroups ?s \<noteq> 0" using conf(2) by (auto simp: window_ok_def split: if_splits)
  then show ?thesis
    by (intro exI [of _ ?s] conjI rc ok [unfolded window_ok_def, folded full]) simp_all
qed

theorem RedundancyControl_window_witness:
  "\<exists>s'. FecAgent_RedundancyControl 20000 (FecAgent_new Dynamic IN True 2 0 3 0 1000 0) = Inr (fwin s', s') \<and>
    nGroups s' = 3 \<and> unat (fwin s') + 3 \<le> 20"
proof -
  let ?s = "FecAgent_new Dynamic IN True 2 0 3 0 1000 0"
  have c: "m_segmentSize ?s \<noteq> 0" "m_nGroups ?s \<noteq> 0" "unat (m_fwin ?s) * unat (m_nGroups ?s) + unat (m_nGroups ?s) < 2 ^ 32"
    "20 = unat (20000 div m_segmentSize ?s)" "9 = unat (m_fwin ?s) * unat (m_nGroups ?s) + unat (m_nGroups ?s)"
    "m_boundMode ?s = IN" "m_nGroups ?s = 3"
    by (simp_all add: FecAgent_new_def)
  show ?thesis using RedundancyControl_window [OF c(1-5)] unfolding if_P [OF c(6)] c(7) by fastforce
qed

section \<open>Recovery\<close>

definition agent_recovered :: "Packet \<Rightarrow> FecTag \<Rightarrow> PacketInfo \<Rightarrow> Packet" where
  "agent_recovered packet tag p = \<lparr>
    pkt_tag = Some \<lparr>tag_type = 4, tag_serial = pi_serial p, tag_roundId = tag_roundId tag,
      tag_groupId = tag_groupId tag, tag_nGroups = 0\<rparr>,
    pkt_headers = [TcpH (pi_tcp p)], pkt_payload = pkt_payload packet\<rparr>"

interpretation agent_dec: fec_decoder FecAgent_recover agent_recovered
proof
  fix packet :: Packet and tag h and p :: PacketInfo and s :: FecAgent
  assume "pkt_tag packet = Some tag" "pkt_headers packet = [TcpH h]" "\<not> pi_check p"
  then show "FecAgent_recover packet p s =
      Inr ((InsertTransitQueue (agent_recovered packet tag p) (pi_serial p) s)\<lparr>m_recover := m_recover s + 1\<rparr>)"
    by (simp add: FecAgent_recover_def PeekPacketTag_def FecAgent_CreateRecoveryPacket_def RemovePacketTag_def
        RemoveTcpHeader_def AddPacketTag_def AddHeader_def FecTag_new_def agent_recovered_def
        FecAgent_InsertTransitQueue_def InsertTransitQueue_def)
qed (simp_all add: agent_recovered_def)

definition lost_before :: "32 word \<Rightarrow> PacketInfo list \<Rightarrow> nat" where
  "lost_before serial ps = length (filter (\<lambda>p. \<not> pi_check p \<and> pi_serial p < serial) ps)"

lemma check_round_entries_other:
  "typ \<noteq> 1 \<Longrightarrow> check_round_entries typ serial n ps = (n + of_nat (lost_before serial ps), False)"
  by (induction ps arbitrary: n) (auto simp: lost_before_def)

lemma Agent_CheckRound_redundant:
  assumes "pkt_tag packet = Some tag" "tag_type tag = 2" "rtq s = r # rs" "rt_rid r = tag_roundId tag"
  shows "FecAgent_CheckRoundFecTable packet s =
    Inr (of_nat (lost_before (tag_serial tag) (rt_pi r)),
      if uint (tag_groupId tag) = uint (rt_nGroups r) - 1
      then (if m_printRoundFecTable s then PrintRoundFecTable r s else s)\<lparr>rtq := rs\<rparr> else s)"
  using assms
  by (auto simp: FecAgent_CheckRoundFecTable_def PeekPacketTag_def check_round_entries_other close_round_def)

text \<open>
  Claim C6. FecAgent::Recv on a redundant packet of the current round. For a group before the last one
  of the round, in a round with at most as many losses before the packet as groups, the one packet of
  the group that is still unmarked, if it is exactly one, is put into the transit queue with its TCP
  header, its serial number and the tag type 4, and counted; in every other case nothing is recovered.
\<close>
theorem FecAgent_Recv_recovers:
  assumes tag: "pkt_tag packet = Some tag" "tag_type tag = 2" "pkt_headers packet = [TcpH h]"
    and round: "rtq s = r # rs" "rt_rid r = tag_roundId tag"
      "\<exists>p\<in>set (rt_pi r). pi_serial p = tag_serial tag \<and> pi_gid p = ucast (tag_groupId tag)"
    and before_last: "uint (tag_groupId tag) < uint (rt_nGroups r) - 1"
    and few: "lost_before (tag_serial tag)
      (mark_first (\<lambda>p. pi_serial p = tag_serial tag \<and> pi_gid p = ucast (tag_groupId tag)) (rt_pi r)) \<le> unat (tag_nGroups tag)"
    and group: "pop_groups (tag_roundId tag) (gtq s) = Inr (g # gs)" "gt_rid g = tag_roundId tag"
      "ps = gi_at (gt_gi g) (ucast (tag_groupId tag))" "tag_serial tag \<in> pi_serial ` set ps"
    and M: "M = missing (tag_serial tag) ps" "length M < 2 ^ 32"
    and quiet: "\<not> m_printGroupFecTable s"
  shows "\<exists>flag s'. FecAgent_Recv packet ipHeader s = Inr (flag, s') \<and>
    tqq s' = (if length M = 1 then tqq (InsertTransitQueue (agent_recovered packet tag (hd M)) (pi_serial (hd M)) s) else tqq s) \<and>
    m_recover s' = (if length M = 1 then m_recover s + 1 else m_recover s) \<and> m_recover_rexmit s' = m_recover_rexmit s"
proof -
  let ?ps = "mark_first (\<lambda>p. pi_serial p = tag_serial tag \<and> pi_gid p = ucast (tag_groupId tag)) (rt_pi r)"
  let ?s = "s\<lparr>rtq := r\<lparr>rt_pi := ?ps\<rparr> # rs\<rparr>"
  let ?n = "of_nat (lost_before (tag_serial tag) ?ps) :: 32 word"
  have mark: "FecAgent_MarkRoundFecTable packet s = Inr ?s"
    unfolding FecAgent_MarkRoundFecTable_def by (rule mark_round_current [OF tag(1) round])
  have check: "FecAgent_CheckRoundFecTable packet ?s = Inr (?n, ?s)"
    using Agent_CheckRound_redundant [OF tag(1,2), of ?s "r\<lparr>rt_pi := ?ps\<rparr>" rs] round(2) before_last by simp
  have small: "\<not> ?n > ucast (tag_nGroups tag)"
    using few unat_lt2p [of "tag_nGroups tag"]
    by (simp add: word_less_nat_alt unat_ucast_up unsigned_of_nat take_bit_nat_eq_self not_less)
  let ?g = "g\<lparr>gt_gi := gi_put (ucast (tag_groupId tag)) [] (gi_put (ucast (tag_groupId tag))
      (mark_first (\<lambda>p. pi_serial p = tag_serial tag) ps) (gt_gi g))\<rparr>"
  obtain s1 where s1: "mark_group packet ?s = Inr (of_nat (length M), s1)"
    "check_group (FecAgent_recover packet) packet (of_nat (length M)) s1 = Inr (of_nat (length M),
      (if length M = 1 then (InsertTransitQueue (agent_recovered packet tag (hd M)) (pi_serial (hd M)) ?s)\<lparr>m_recover := m_recover ?s + 1\<rparr> else ?s)
      \<lparr>gtq := ?g # gs\<rparr>)"
    using agent_dec.group_recovery [OF tag(1,3), of ?s "r\<lparr>rt_pi := ?ps\<rparr>" rs g gs ps M] round(2) group M quiet by auto
  show ?thesis
    using tag mark check small s1
    by (simp add: FecAgent_Recv_def PeekPacketTag_def FecAgent_MarkGroupFecTable_def FecAgent_CheckGroupFecTable_def Let_def
        InsertTransitQueue_def)
qed

definition agent_entry :: "32 word \<Rightarrow> 32 word \<Rightarrow> bool \<Rightarrow> PacketInfo" where
  "agent_entry serial gid typ = \<lparr>pi_serial = serial, pi_check = False, pi_gid = gid, pi_type = typ,
    pi_tcp = TcpHeader_new\<lparr>m_sequenceNumber := serial\<rparr>, pi_flag = False\<rparr>"

definition agent_example :: FecAgent where
  "agent_example = (FecAgent_new Static IN True 1 0 2 0 1000 0)\<lparr>
    rtq := [\<lparr>rt_rid = 1, rt_nGroups = 2, rt_pi = [agent_entry 1 0 False, agent_entry 1001 1 False, agent_entry 1002 0 True]\<rparr>],
    gtq := [\<lparr>gt_rid = 1, gt_nGroups = 2, gt_gi = [(0, [agent_entry 1 0 False, agent_entry 1002 0 True]), (1, [agent_entry 1001 1 False])]\<rparr>]\<rparr>"

definition agent_fec_packet :: Packet where
  "agent_fec_packet = \<lparr>pkt_tag = Some \<lparr>tag_type = 2, tag_serial = 1002, tag_roundId = 1, tag_groupId = 0, tag_nGroups = 2\<rparr>,
    pkt_headers = [TcpH TcpHeader_new], pkt_payload = 1000\<rparr>"

lemmas agent_example_defs = agent_example_def agent_fec_packet_def agent_entry_def FecAgent_new_def

theorem FecAgent_Recv_recovers_witness:
  "m_recover (snd (projr (FecAgent_Recv agent_fec_packet Ipv4Header_new agent_example))) = 1"
proof -
  have "\<exists>flag s'. FecAgent_Recv agent_fec_packet Ipv4Header_new agent_example = Inr (flag, s') \<and> m_recover s' = m_recover agent_example + 1"
    using FecAgent_Recv_recovers [of agent_fec_packet "the (pkt_tag agent_fec_packet)" TcpHeader_new
        agent_example "hd (rtq agent_example)" "[]" "hd (gtq agent_example)" "[]"
        "[agent_entry 1 0 False, agent_entry 1002 0 True]" "[agent_entry 1 0 False]" Ipv4Header_new]
    by (fastforce simp: agent_example_defs gi_at_def missing_def lost_before_def word_less_nat_alt)
  then show ?thesis by (auto simp: agent_example_defs)
qed

section \<open>An empty window\<close>

text \<open>The window holds no packet, and the bound IN or the dynamic mode adapts the round to it.\<close>

definition empty_window :: "FecSocket \<Rightarrow> bool" where
  "empty_window t = (let s = sk_fec t in sk_cWnd t div m_segmentSize s = 0 \<and> m_segmentSize s \<noteq> 0 \<and> m_nGroups s \<noteq> 0 \<and>
    (m_boundMode s = IN \<or> m_fecMode s = Dynamic) \<and> m_fwin s * ucast (m_nGroups s) + ucast (m_nGroups s) \<noteq> 0 \<and>
    rtq s \<noteq> [] \<and> gtq s \<noteq> [])"

lemma choose_window_empty:
  assumes "m_nGroups s \<noteq> 0" "m_boundMode s = IN \<or> m_fecMode s = Dynamic"
    "m_fwin s * ucast (m_nGroups s) + ucast (m_nGroups s) \<noteq> 0"
  shows "fwin (choose_window 0 s) = 0"
proof -
  have "(0 :: 32 word) < ucast (m_nGroups s)" using assms(1) by (simp add: word_less_nat_alt unat_nG unat_gt_0)
  moreover have "0 < m_fwin s * ucast (m_nGroups s) + ucast (m_nGroups s)" using assms(3) by (simp add: word_gt_0)
  ultimately show ?thesis using assms(2)
    by (cases "m_fecMode s"; cases "m_boundMode s") (simp_all add: choose_window_def Let_def)
qed

lemma CreateFec_keeps:
  assumes "rtq s \<noteq> []" "gtq s \<noteq> []"
  shows "\<exists>p s'. FecAgent_CreateFecPacket s = Inr (p, s') \<and> rtq s' \<noteq> [] \<and> gtq s' \<noteq> [] \<and> m_segmentSize s' = m_segmentSize s \<and>
    m_nGroups s' = m_nGroups s \<and> m_fwin s' = m_fwin s \<and> m_boundMode s' = m_boundMode s \<and> m_fecMode s' = m_fecMode s"
  using assms
  by (auto simp: FecAgent_CreateFecPacket_def push_tables_def AddPacketTag_def Create_Packet_def Let_def)

lemma choose_window_conf:
  "m_segmentSize (choose_window w s) = m_segmentSize s \<and> m_nGroups (choose_window w s) = m_nGroups s \<and>
   m_fwin (choose_window w s) = m_fwin s \<and> m_boundMode (choose_window w s) = m_boundMode s \<and> m_fecMode (choose_window w s) = m_fecMode s"
  by (cases "m_fecMode s"; cases "m_boundMode s") (simp_all add: choose_window_def Let_def)

lemma empty_window_turn:
  assumes "empty_window t" "sk_fc t = 0"
  shows "\<exists>t1 t2. Tcp_SendFecPacket header t = Inr t1 \<and>
    (if sk_ic t1 - 1 = 0 then Tcp_RedundancyControl (sk_cWnd t1) (t1\<lparr>sk_ic := sk_ic t1 - 1\<rparr>)
     else Inr (t1\<lparr>sk_ic := sk_ic t1 - 1\<rparr>)) = Inr t2 \<and> empty_window t2 \<and> sk_fc t2 = 0"
proof -
  have s: "rtq (sk_fec t) \<noteq> []" "gtq (sk_fec t) \<noteq> []" using assms(1) by (simp_all add: empty_window_def Let_def)
  obtain p s' where c: "FecAgent_CreateFecPacket (sk_fec t) = Inr (p, s')" "rtq s' \<noteq> []" "gtq s' \<noteq> []"
      "m_segmentSize s' = m_segmentSize (sk_fec t)" "m_nGroups s' = m_nGroups (sk_fec t)" "m_fwin s' = m_fwin (sk_fec t)"
      "m_boundMode s' = m_boundMode (sk_fec t)" "m_fecMode s' = m_fecMode (sk_fec t)"
    using CreateFec_keeps [OF s] by blast
  obtain t1 where t1: "Tcp_SendFecPacket header t = Inr t1" "empty_window t1" "sk_fc t1 = 0"
    using c assms by (simp add: Tcp_SendFecPacket_def FecAgent_SetTcpDumpInfo_def empty_window_def Let_def)
  let ?t = "t1\<lparr>sk_ic := sk_ic t1 - 1\<rparr>"
  show ?thesis
  proof (cases "sk_ic t1 - 1 = 0")
    case True
    let ?s = "sk_fec t1"
    let ?c = "choose_window 0 ?s"
    have e: "sk_cWnd t1 div m_segmentSize ?s = 0" "\<not> divides_by_zero ?s" "m_nGroups ?s \<noteq> 0"
        "m_boundMode ?s = IN \<or> m_fecMode ?s = Dynamic" "m_fwin ?s * ucast (m_nGroups ?s) + ucast (m_nGroups ?s) \<noteq> 0"
      using t1(2) by (simp_all add: empty_window_def Let_def divides_by_zero_def)
    have "fwin ?c = 0" by (rule choose_window_empty [OF e(3-5)])
    then have "\<exists>t2. Tcp_RedundancyControl (sk_cWnd t1) ?t = Inr t2 \<and> empty_window t2 \<and> sk_fc t2 = 0"
      using e t1(2) choose_window_conf [of 0 ?s]
      by (simp add: Tcp_RedundancyControl_def FecAgent_RedundancyControl_def Let_def empty_window_def choose_window_frame)
    then show ?thesis using t1(1) True by auto
  next
    case False
    moreover have "empty_window ?t" "sk_fc ?t = 0" using t1(2,3) by (simp_all add: empty_window_def)
    ultimately show ?thesis using t1(1) by auto
  qed
qed

text \<open>
  Claim C39. When the congestion window holds less than one segment and the round is fitted to the
  window, the loop over the redundant packets in TcpSocketBase::SendDataPacket never ends: each new
  round RedundancyControl opens is empty, so the counter of data packets is 0 again and another
  redundant packet is sent.
\<close>
theorem empty_window_never_ends:
  assumes "empty_window t" "sk_fc t = 0"
  shows "Tcp_fec_loop header t = None"
proof -
  have "\<not> (empty_window t \<and> sk_fc t = 0)" if run: "Tcp_fec_loop header t = Some r" for r t
    using run
  proof (rule Tcp_fec_loop.raw_induct [rotated])
    fix loop header t r
    assume IH: "\<And>header t r. loop header t = Some r \<Longrightarrow> \<not> (empty_window t \<and> sk_fc t = 0)"
      and body: "(if sk_fc t = 0
        then (case Tcp_SendFecPacket header t of
            Inl err \<Rightarrow> Some (Inl err)
          | Inr t \<Rightarrow> (case (if sk_ic t - 1 = 0 then Tcp_RedundancyControl (sk_cWnd t) (t\<lparr>sk_ic := sk_ic t - 1\<rparr>)
                else Inr (t\<lparr>sk_ic := sk_ic t - 1\<rparr>)) of
              Inl err \<Rightarrow> Some (Inl err)
            | Inr t \<Rightarrow> loop header t))
        else Some (Inr t)) = Some r"
    show "\<not> (empty_window t \<and> sk_fc t = 0)"
    proof
      assume e: "empty_window t \<and> sk_fc t = 0"
      with empty_window_turn [of t header] obtain t1 t2 where "Tcp_SendFecPacket header t = Inr t1"
          "(if sk_ic t1 - 1 = 0 then Tcp_RedundancyControl (sk_cWnd t1) (t1\<lparr>sk_ic := sk_ic t1 - 1\<rparr>)
            else Inr (t1\<lparr>sk_ic := sk_ic t1 - 1\<rparr>)) = Inr t2" "empty_window t2" "sk_fc t2 = 0" by blast
      then have "loop header t2 = Some r" using body e by simp
      with IH \<open>empty_window t2\<close> \<open>sk_fc t2 = 0\<close> show False by blast
    qed
  qed
  then show ?thesis using assms by (metis not_None_eq)
qed

definition example_socket :: FecSocket where
  "example_socket = \<lparr>sk_fec = agent_example, sk_init = False, sk_fc = 0, sk_ic = 1, sk_rid = 1, sk_timeout = 0,
    sk_fastRecovery = 0, sk_retransmit = 0, sk_cWnd = 999, sk_ssThresh = 0, sk_lastAckedSeq = 0, sk_highTxMark = 0,
    sk_segmentSize = 1000, sk_sent = [], sk_up = []\<rparr>"

theorem empty_window_never_ends_witness: "Tcp_fec_loop TcpHeader_new example_socket = None"
  by (rule empty_window_never_ends) (simp_all add: empty_window_def example_socket_def agent_example_defs)

end
