(* ===== verification/Ppp_Fsm.thy ===== *)
theory Ppp_Fsm
  imports Prelude
begin

text \<open>
  The option negotiation automaton of PPP: \<open>nsc/lwip-1.3.0/src/netif/ppp/fsm.c\<close> and \<open>fsm.h\<close>, every function
  of the file.  LCP and IPCP each run one instance and plug their own code in as callbacks.

  The state of the model is the struct, the pending \<open>fsm_timeout\<close> (the macro \<open>TIMEOUT\<close> of \<open>ppp.h\<close> cancels
  an earlier one, so there is at most one), the frames given to \<open>pppWrite\<close>, and the state of the
  rest of the stack, a type variable.  A callback is a function on all of this: it may
  send, and it may even call back into the automaton.  A pointer to data and its length are a list
  of octets.  The counters are \<open>int\<close>; they stay between 0 and the configured maxima.
\<close>

section \<open>Constants and data\<close>

datatype link_state = LS_INITIAL | LS_STARTING | LS_CLOSED | LS_STOPPED | LS_CLOSING | LS_STOPPING
  | LS_REQSENT | LS_ACKRCVD | LS_ACKSENT | LS_OPENED

definition CONFREQ :: int where "CONFREQ = 1"
definition CONFACK :: int where "CONFACK = 2"
definition CONFNAK :: int where "CONFNAK = 3"
definition CONFREJ :: int where "CONFREJ = 4"
definition TERMREQ :: int where "TERMREQ = 5"
definition TERMACK :: int where "TERMACK = 6"
definition CODEREJ :: int where "CODEREJ = 7"

lemmas codes = CONFREQ_def CONFACK_def CONFNAK_def CONFREJ_def TERMREQ_def TERMACK_def CODEREJ_def

definition OPT_PASSIVE :: u32 where "OPT_PASSIVE = 1"
definition OPT_RESTART :: u32 where "OPT_RESTART = 2"
definition OPT_SILENT :: u32 where "OPT_SILENT = 4"

definition HEADERLEN :: nat where "HEADERLEN = 4"

record fsm =
  f_protocol :: u16
  f_state :: link_state
  f_flags :: u32
  f_id :: u8
  f_reqid :: u8
  f_seen_ack :: bool
  f_timeouttime :: int
  f_maxconfreqtransmits :: int
  f_retransmits :: int
  f_maxtermtransmits :: int
  f_nakloops :: int
  f_maxnakloops :: int
  f_term_reason :: "u8 list"

record 'w ppp =
  ppp_fsm :: fsm
  ppp_timer :: bool
  ppp_out :: "u8 list list"
  peer_mru :: nat
  ppp_env :: 'w

text \<open>
  A callback that is a null pointer is \<open>None\<close>.  \<open>cb_addci\<close> returns the octets it left in the buffer;
  \<open>cb_reqci\<close> gets the peer's options and whether to reject what it disagrees with, and returns the code
  of the answer and the options to answer with.
\<close>

record 'w fsm_callbacks =
  cb_resetci :: "('w ppp \<Rightarrow> 'w ppp) option"
  cb_cilen :: "('w ppp \<Rightarrow> nat \<times> 'w ppp) option"
  cb_addci :: "(nat \<Rightarrow> 'w ppp \<Rightarrow> u8 list \<times> 'w ppp) option"
  cb_ackci :: "(u8 list \<Rightarrow> 'w ppp \<Rightarrow> int \<times> 'w ppp) option"
  cb_nakci :: "(u8 list \<Rightarrow> 'w ppp \<Rightarrow> int \<times> 'w ppp) option"
  cb_rejci :: "(u8 list \<Rightarrow> 'w ppp \<Rightarrow> int \<times> 'w ppp) option"
  cb_reqci :: "(u8 list \<Rightarrow> bool \<Rightarrow> 'w ppp \<Rightarrow> (int \<times> u8 list) \<times> 'w ppp) option"
  cb_up :: "('w ppp \<Rightarrow> 'w ppp) option"
  cb_down :: "('w ppp \<Rightarrow> 'w ppp) option"
  cb_starting :: "('w ppp \<Rightarrow> 'w ppp) option"
  cb_finished :: "('w ppp \<Rightarrow> 'w ppp) option"
  cb_retransmit :: "('w ppp \<Rightarrow> 'w ppp) option"
  cb_extcode :: "(u8 \<Rightarrow> u8 \<Rightarrow> u8 list \<Rightarrow> 'w ppp \<Rightarrow> bool \<times> 'w ppp) option"

text \<open>Assignments to fields of the struct, and calls through a pointer that may be null.\<close>

abbreviation st :: "'w ppp \<Rightarrow> link_state" where "st s \<equiv> f_state (ppp_fsm s)"

definition fsm_set :: "(fsm \<Rightarrow> fsm) \<Rightarrow> 'w ppp \<Rightarrow> 'w ppp" where
  "fsm_set g s = s\<lparr>ppp_fsm := g (ppp_fsm s)\<rparr>"

definition set_st :: "link_state \<Rightarrow> 'w ppp \<Rightarrow> 'w ppp" where
  "set_st x = fsm_set (\<lambda>f. f\<lparr>f_state := x\<rparr>)"

definition invoke :: "('w ppp \<Rightarrow> 'w ppp) option \<Rightarrow> 'w ppp \<Rightarrow> 'w ppp" where
  "invoke cb s = (case cb of None \<Rightarrow> s | Some g \<Rightarrow> g s)"

definition TIMEOUT :: "'w ppp \<Rightarrow> 'w ppp" where "TIMEOUT s = s\<lparr>ppp_timer := True\<rparr>"

definition UNTIMEOUT :: "'w ppp \<Rightarrow> 'w ppp" where "UNTIMEOUT s = s\<lparr>ppp_timer := False\<rparr>"

section \<open>Sending\<close>

definition fsm_init :: "'w ppp \<Rightarrow> 'w ppp" where
  "fsm_init = fsm_set (\<lambda>f. f\<lparr>f_state := LS_INITIAL, f_flags := 0, f_id := 0, f_timeouttime := 6,
    f_maxconfreqtransmits := 10, f_maxtermtransmits := 2, f_maxnakloops := 5, f_term_reason := []\<rparr>)"

text \<open>The frame: address and control octets, protocol, code, identifier, length and data.  The length is
  cut to the peer's MRU, which LCP keeps at 128 or more.\<close>

definition fsm_sdata :: "int \<Rightarrow> u8 \<Rightarrow> u8 list \<Rightarrow> 'w ppp \<Rightarrow> 'w ppp" where
  "fsm_sdata code ident octets s =
    (let datalen = (if length octets > peer_mru s - HEADERLEN then peer_mru s - HEADERLEN else length octets);
         outlen = datalen + HEADERLEN;
         protocol = f_protocol (ppp_fsm s)
     in s\<lparr>ppp_out := ppp_out s @ [[0xff, 0x03, ucast (drop_bit 8 protocol), ucast protocol,
          word_of_int code, ident, of_nat (outlen div 256), of_nat outlen] @ take datalen octets]\<rparr>)"

text \<open>The options of a request, cut to the MRU: the middle of \<open>fsm_sconfreq\<close>.\<close>

definition fsm_options :: "'w fsm_callbacks \<Rightarrow> 'w ppp \<Rightarrow> u8 list \<times> 'w ppp" where
  "fsm_options cb s = (case (cb_cilen cb, cb_addci cb) of
      (Some cilen, Some addci) \<Rightarrow>
        (let (n, s) = cilen s; n = (if n > peer_mru s - HEADERLEN then peer_mru s - HEADERLEN else n) in addci n s)
    | _ \<Rightarrow> ([], s))"

definition fsm_sconfreq :: "'w fsm_callbacks \<Rightarrow> bool \<Rightarrow> 'w ppp \<Rightarrow> 'w ppp" where
  "fsm_sconfreq cb retransmit s =
    (let s = (if st s \<noteq> LS_REQSENT \<and> st s \<noteq> LS_ACKRCVD \<and> st s \<noteq> LS_ACKSENT
              then fsm_set (\<lambda>f. f\<lparr>f_nakloops := 0\<rparr>) (invoke (cb_resetci cb) s) else s);
         s = (if \<not> retransmit
              then fsm_set (\<lambda>f. f\<lparr>f_retransmits := f_maxconfreqtransmits f, f_id := f_id f + 1, f_reqid := f_id f + 1\<rparr>) s
              else s);
         s = fsm_set (\<lambda>f. f\<lparr>f_seen_ack := False\<rparr>) s;
         (ci, s) = fsm_options cb s;
         s = fsm_sdata CONFREQ (f_reqid (ppp_fsm s)) ci s;
         s = fsm_set (\<lambda>f. f\<lparr>f_retransmits := f_retransmits f - 1\<rparr>) s
     in TIMEOUT s)"

text \<open>Three places of the file send a Terminate-Request with these lines.\<close>

definition fsm_stermreq :: "'w ppp \<Rightarrow> 'w ppp" where
  "fsm_stermreq s =
    (let s = fsm_set (\<lambda>f. f\<lparr>f_id := f_id f + 1, f_reqid := f_id f + 1\<rparr>) s;
         s = fsm_sdata TERMREQ (f_reqid (ppp_fsm s)) (f_term_reason (ppp_fsm s)) s;
         s = TIMEOUT s
     in fsm_set (\<lambda>f. f\<lparr>f_retransmits := f_retransmits f - 1\<rparr>) s)"

section \<open>Events of the layers above and below\<close>

definition fsm_lowerup :: "'w fsm_callbacks \<Rightarrow> 'w ppp \<Rightarrow> 'w ppp" where
  "fsm_lowerup cb s = (case st s of
      LS_INITIAL \<Rightarrow> set_st LS_CLOSED s
    | LS_STARTING \<Rightarrow>
        if f_flags (ppp_fsm s) AND OPT_SILENT \<noteq> 0 then set_st LS_STOPPED s
        else set_st LS_REQSENT (fsm_sconfreq cb False s)
    | _ \<Rightarrow> s)"

definition fsm_lowerdown :: "'w fsm_callbacks \<Rightarrow> 'w ppp \<Rightarrow> 'w ppp" where
  "fsm_lowerdown cb s = (case st s of
      LS_CLOSED \<Rightarrow> set_st LS_INITIAL s
    | LS_STOPPED \<Rightarrow> invoke (cb_starting cb) (set_st LS_STARTING s)
    | LS_CLOSING \<Rightarrow> UNTIMEOUT (set_st LS_INITIAL s)
    | LS_STOPPING \<Rightarrow> UNTIMEOUT (set_st LS_STARTING s)
    | LS_REQSENT \<Rightarrow> UNTIMEOUT (set_st LS_STARTING s)
    | LS_ACKRCVD \<Rightarrow> UNTIMEOUT (set_st LS_STARTING s)
    | LS_ACKSENT \<Rightarrow> UNTIMEOUT (set_st LS_STARTING s)
    | LS_OPENED \<Rightarrow> set_st LS_STARTING (invoke (cb_down cb) s)
    | _ \<Rightarrow> s)"

definition fsm_restart :: "'w fsm_callbacks \<Rightarrow> 'w ppp \<Rightarrow> 'w ppp" where
  "fsm_restart cb s = (if f_flags (ppp_fsm s) AND OPT_RESTART \<noteq> 0 then fsm_lowerup cb (fsm_lowerdown cb s) else s)"

definition fsm_open :: "'w fsm_callbacks \<Rightarrow> 'w ppp \<Rightarrow> 'w ppp" where
  "fsm_open cb s = (case st s of
      LS_INITIAL \<Rightarrow> invoke (cb_starting cb) (set_st LS_STARTING s)
    | LS_CLOSED \<Rightarrow>
        if f_flags (ppp_fsm s) AND OPT_SILENT \<noteq> 0 then set_st LS_STOPPED s
        else set_st LS_REQSENT (fsm_sconfreq cb False s)
    | LS_CLOSING \<Rightarrow> fsm_restart cb (set_st LS_STOPPING s)
    | LS_STOPPED \<Rightarrow> fsm_restart cb s
    | LS_OPENED \<Rightarrow> fsm_restart cb s
    | _ \<Rightarrow> s)"

text \<open>The end of \<open>fsm_close\<close>, the same in the four states that end there.\<close>

definition fsm_close_running :: "'w ppp \<Rightarrow> 'w ppp" where
  "fsm_close_running s =
    set_st LS_CLOSING (fsm_stermreq (fsm_set (\<lambda>f. f\<lparr>f_retransmits := f_maxtermtransmits f\<rparr>) s))"

definition fsm_close :: "'w fsm_callbacks \<Rightarrow> u8 list \<Rightarrow> 'w ppp \<Rightarrow> 'w ppp" where
  "fsm_close cb reason s =
    (let s = fsm_set (\<lambda>f. f\<lparr>f_term_reason := reason\<rparr>) s in
     case st s of
       LS_STARTING \<Rightarrow> set_st LS_INITIAL s
     | LS_STOPPED \<Rightarrow> set_st LS_CLOSED s
     | LS_STOPPING \<Rightarrow> set_st LS_CLOSING s
     | LS_REQSENT \<Rightarrow> fsm_close_running (UNTIMEOUT s)
     | LS_ACKRCVD \<Rightarrow> fsm_close_running (UNTIMEOUT s)
     | LS_ACKSENT \<Rightarrow> fsm_close_running (UNTIMEOUT s)
     | LS_OPENED \<Rightarrow> fsm_close_running (invoke (cb_down cb) s)
     | _ \<Rightarrow> s)"

definition fsm_protreject :: "'w fsm_callbacks \<Rightarrow> 'w ppp \<Rightarrow> 'w ppp" where
  "fsm_protreject cb s = (case st s of
      LS_CLOSING \<Rightarrow> invoke (cb_finished cb) (set_st LS_CLOSED (UNTIMEOUT s))
    | LS_CLOSED \<Rightarrow> invoke (cb_finished cb) (set_st LS_CLOSED s)
    | LS_STOPPING \<Rightarrow> invoke (cb_finished cb) (set_st LS_STOPPED (UNTIMEOUT s))
    | LS_REQSENT \<Rightarrow> invoke (cb_finished cb) (set_st LS_STOPPED (UNTIMEOUT s))
    | LS_ACKRCVD \<Rightarrow> invoke (cb_finished cb) (set_st LS_STOPPED (UNTIMEOUT s))
    | LS_ACKSENT \<Rightarrow> invoke (cb_finished cb) (set_st LS_STOPPED (UNTIMEOUT s))
    | LS_STOPPED \<Rightarrow> invoke (cb_finished cb) (set_st LS_STOPPED s)
    | LS_OPENED \<Rightarrow>
        set_st LS_STOPPING (fsm_stermreq (fsm_set (\<lambda>f. f\<lparr>f_retransmits := f_maxtermtransmits f\<rparr>) (invoke (cb_down cb) s)))
    | _ \<Rightarrow> s)"

section \<open>The timer\<close>

definition fsm_timeout_term :: "'w fsm_callbacks \<Rightarrow> 'w ppp \<Rightarrow> 'w ppp" where
  "fsm_timeout_term cb s =
    (if f_retransmits (ppp_fsm s) \<le> 0
     then invoke (cb_finished cb) (set_st (if st s = LS_CLOSING then LS_CLOSED else LS_STOPPED) s)
     else fsm_stermreq s)"

definition fsm_timeout_conf :: "'w fsm_callbacks \<Rightarrow> 'w ppp \<Rightarrow> 'w ppp" where
  "fsm_timeout_conf cb s =
    (if f_retransmits (ppp_fsm s) \<le> 0
     then (let s = set_st LS_STOPPED s in
       if f_flags (ppp_fsm s) AND OPT_PASSIVE = 0 then invoke (cb_finished cb) s else s)
     else (let s = fsm_sconfreq cb True (invoke (cb_retransmit cb) s) in
       if st s = LS_ACKRCVD then set_st LS_REQSENT s else s))"

definition fsm_timeout :: "'w fsm_callbacks \<Rightarrow> 'w ppp \<Rightarrow> 'w ppp" where
  "fsm_timeout cb s = (case st s of
      LS_CLOSING \<Rightarrow> fsm_timeout_term cb s
    | LS_STOPPING \<Rightarrow> fsm_timeout_term cb s
    | LS_REQSENT \<Rightarrow> fsm_timeout_conf cb s
    | LS_ACKRCVD \<Rightarrow> fsm_timeout_conf cb s
    | LS_ACKSENT \<Rightarrow> fsm_timeout_conf cb s
    | _ \<Rightarrow> s)"

section \<open>Packets of the peer\<close>

text \<open>The part of \<open>fsm_rconfreq\<close> behind its switch: judge the peer's options and answer.\<close>

definition fsm_judge :: "'w fsm_callbacks \<Rightarrow> u8 list \<Rightarrow> 'w ppp \<Rightarrow> (int \<times> u8 list) \<times> 'w ppp" where
  "fsm_judge cb inp s = (case cb_reqci cb of
      Some reqci \<Rightarrow> reqci inp (f_nakloops (ppp_fsm s) \<ge> f_maxnakloops (ppp_fsm s)) s
    | None \<Rightarrow> ((if inp \<noteq> [] then CONFREJ else CONFACK, inp), s))"

definition fsm_answer :: "'w fsm_callbacks \<Rightarrow> u8 \<Rightarrow> u8 list \<Rightarrow> 'w ppp \<Rightarrow> 'w ppp" where
  "fsm_answer cb ident inp s =
    (let ((code, inp), s) = fsm_judge cb inp s;
         s = fsm_sdata code ident inp s
     in if code = CONFACK
        then fsm_set (\<lambda>f. f\<lparr>f_nakloops := 0\<rparr>)
          (if st s = LS_ACKRCVD then invoke (cb_up cb) (set_st LS_OPENED (UNTIMEOUT s)) else set_st LS_ACKSENT s)
        else
          (let s = (if st s \<noteq> LS_ACKRCVD then set_st LS_REQSENT s else s)
           in if code = CONFNAK then fsm_set (\<lambda>f. f\<lparr>f_nakloops := f_nakloops f + 1\<rparr>) s else s))"

definition fsm_rconfreq :: "'w fsm_callbacks \<Rightarrow> u8 \<Rightarrow> u8 list \<Rightarrow> 'w ppp \<Rightarrow> 'w ppp" where
  "fsm_rconfreq cb ident inp s = (case st s of
      LS_CLOSED \<Rightarrow> fsm_sdata TERMACK ident [] s
    | LS_CLOSING \<Rightarrow> s
    | LS_STOPPING \<Rightarrow> s
    | LS_OPENED \<Rightarrow> fsm_answer cb ident inp (fsm_sconfreq cb False (invoke (cb_down cb) s))
    | LS_STOPPED \<Rightarrow> fsm_answer cb ident inp (set_st LS_REQSENT (fsm_sconfreq cb False s))
    | _ \<Rightarrow> fsm_answer cb ident inp s)"

text \<open>The switch of \<open>fsm_rconfack\<close>, entered with a valid acknowledgement.\<close>

definition fsm_acked :: "'w fsm_callbacks \<Rightarrow> u8 \<Rightarrow> 'w ppp \<Rightarrow> 'w ppp" where
  "fsm_acked cb ident s = (case st s of
      LS_CLOSED \<Rightarrow> fsm_sdata TERMACK ident [] s
    | LS_STOPPED \<Rightarrow> fsm_sdata TERMACK ident [] s
    | LS_REQSENT \<Rightarrow> fsm_set (\<lambda>f. f\<lparr>f_retransmits := f_maxconfreqtransmits f\<rparr>) (set_st LS_ACKRCVD s)
    | LS_ACKRCVD \<Rightarrow> set_st LS_REQSENT (fsm_sconfreq cb False (UNTIMEOUT s))
    | LS_ACKSENT \<Rightarrow> invoke (cb_up cb)
        (fsm_set (\<lambda>f. f\<lparr>f_retransmits := f_maxconfreqtransmits f\<rparr>) (set_st LS_OPENED (UNTIMEOUT s)))
    | LS_OPENED \<Rightarrow> set_st LS_REQSENT (fsm_sconfreq cb False (invoke (cb_down cb) s))
    | _ \<Rightarrow> s)"

definition fsm_rconfack :: "'w fsm_callbacks \<Rightarrow> u8 \<Rightarrow> u8 list \<Rightarrow> 'w ppp \<Rightarrow> 'w ppp" where
  "fsm_rconfack cb ident inp s =
    (if ident \<noteq> f_reqid (ppp_fsm s) \<or> f_seen_ack (ppp_fsm s) then s
     else let (ok, s) = (case cb_ackci cb of
             Some ackci \<Rightarrow> ackci inp s | None \<Rightarrow> (if length inp = 0 then 1 else 0, s)) in
       if ok = 0 then s else fsm_acked cb ident (fsm_set (\<lambda>f. f\<lparr>f_seen_ack := True\<rparr>) s))"

text \<open>The switch of \<open>fsm_rconfnakrej\<close>; \<open>ret\<close> is what the callback returned.\<close>

definition fsm_nakked :: "'w fsm_callbacks \<Rightarrow> u8 \<Rightarrow> int \<Rightarrow> 'w ppp \<Rightarrow> 'w ppp" where
  "fsm_nakked cb ident ret s = (case st s of
      LS_CLOSED \<Rightarrow> fsm_sdata TERMACK ident [] s
    | LS_STOPPED \<Rightarrow> fsm_sdata TERMACK ident [] s
    | LS_REQSENT \<Rightarrow> if ret < 0 then set_st LS_STOPPED (UNTIMEOUT s) else fsm_sconfreq cb False (UNTIMEOUT s)
    | LS_ACKSENT \<Rightarrow> if ret < 0 then set_st LS_STOPPED (UNTIMEOUT s) else fsm_sconfreq cb False (UNTIMEOUT s)
    | LS_ACKRCVD \<Rightarrow> set_st LS_REQSENT (fsm_sconfreq cb False (UNTIMEOUT s))
    | LS_OPENED \<Rightarrow> set_st LS_REQSENT (fsm_sconfreq cb False (invoke (cb_down cb) s))
    | _ \<Rightarrow> s)"

definition fsm_rconfnakrej :: "'w fsm_callbacks \<Rightarrow> int \<Rightarrow> u8 \<Rightarrow> u8 list \<Rightarrow> 'w ppp \<Rightarrow> 'w ppp" where
  "fsm_rconfnakrej cb code ident inp s =
    (if ident \<noteq> f_reqid (ppp_fsm s) \<or> f_seen_ack (ppp_fsm s) then s
     else case (if code = CONFNAK then cb_nakci cb else cb_rejci cb) of
         None \<Rightarrow> s
       | Some proc \<Rightarrow> let (ret, s) = proc inp s in
           if ret = 0 then s else fsm_nakked cb ident ret (fsm_set (\<lambda>f. f\<lparr>f_seen_ack := True\<rparr>) s))"

definition fsm_rtermreq :: "'w fsm_callbacks \<Rightarrow> u8 \<Rightarrow> 'w ppp \<Rightarrow> 'w ppp" where
  "fsm_rtermreq cb ident s = fsm_sdata TERMACK ident [] (case st s of
      LS_ACKRCVD \<Rightarrow> set_st LS_REQSENT s
    | LS_ACKSENT \<Rightarrow> set_st LS_REQSENT s
    | LS_OPENED \<Rightarrow> TIMEOUT (set_st LS_STOPPING (fsm_set (\<lambda>f. f\<lparr>f_retransmits := 0\<rparr>) (invoke (cb_down cb) s)))
    | _ \<Rightarrow> s)"

definition fsm_rtermack :: "'w fsm_callbacks \<Rightarrow> 'w ppp \<Rightarrow> 'w ppp" where
  "fsm_rtermack cb s = (case st s of
      LS_CLOSING \<Rightarrow> invoke (cb_finished cb) (set_st LS_CLOSED (UNTIMEOUT s))
    | LS_STOPPING \<Rightarrow> invoke (cb_finished cb) (set_st LS_STOPPED (UNTIMEOUT s))
    | LS_ACKRCVD \<Rightarrow> set_st LS_REQSENT s
    | LS_OPENED \<Rightarrow> fsm_sconfreq cb False (invoke (cb_down cb) s)
    | _ \<Rightarrow> s)"

definition fsm_rcoderej :: "u8 list \<Rightarrow> 'w ppp \<Rightarrow> 'w ppp" where
  "fsm_rcoderej inp s = (if length inp < HEADERLEN then s
    else if st s = LS_ACKRCVD then set_st LS_REQSENT s else s)"

text \<open>\<open>fsm_input\<close>: the header is parsed first; the fields are the first four octets, the length big endian.\<close>

definition fsm_dispatch :: "'w fsm_callbacks \<Rightarrow> u8 list \<Rightarrow> u8 \<Rightarrow> u8 \<Rightarrow> u8 list \<Rightarrow> 'w ppp \<Rightarrow> 'w ppp" where
  "fsm_dispatch cb inpacket code ident inp s =
    (if uint code = CONFREQ then fsm_rconfreq cb ident inp s
     else if uint code = CONFACK then fsm_rconfack cb ident inp s
     else if uint code = CONFNAK \<or> uint code = CONFREJ then fsm_rconfnakrej cb (uint code) ident inp s
     else if uint code = TERMREQ then fsm_rtermreq cb ident s
     else if uint code = TERMACK then fsm_rtermack cb s
     else if uint code = CODEREJ then fsm_rcoderej inp s
     else let (known, s) = (case cb_extcode cb of None \<Rightarrow> (False, s) | Some extcode \<Rightarrow> extcode code ident inp s) in
       if known then s
       else let s = fsm_set (\<lambda>f. f\<lparr>f_id := f_id f + 1\<rparr>) s in
         fsm_sdata CODEREJ (f_id (ppp_fsm s)) (take (length inp + HEADERLEN) inpacket) s)"

definition fsm_input :: "'w fsm_callbacks \<Rightarrow> u8 list \<Rightarrow> 'w ppp \<Rightarrow> 'w ppp" where
  "fsm_input cb inpacket s = (case inpacket of
      code # ident # l1 # l0 # rest \<Rightarrow>
        let len = unat l1 * 256 + unat l0 in
        if len < HEADERLEN then s
        else if len > length inpacket then s
        else if st s = LS_INITIAL \<or> st s = LS_STARTING then s
        else fsm_dispatch cb inpacket code ident (take (len - HEADERLEN) rest) s
    | _ \<Rightarrow> s)"

section \<open>Runs\<close>

text \<open>What can happen to an automaton.  The timer is removed from the list before its handler runs.\<close>

datatype fsm_event = LowerUp | LowerDown | Open | Close "u8 list" | ProtReject | Timeout | Input "u8 list"

fun fsm_do :: "'w fsm_callbacks \<Rightarrow> fsm_event \<Rightarrow> 'w ppp \<Rightarrow> 'w ppp" where
  "fsm_do cb LowerUp s = fsm_lowerup cb s"
| "fsm_do cb LowerDown s = fsm_lowerdown cb s"
| "fsm_do cb Open s = fsm_open cb s"
| "fsm_do cb (Close reason) s = fsm_close cb reason s"
| "fsm_do cb ProtReject s = fsm_protreject cb s"
| "fsm_do cb Timeout s = (if ppp_timer s then fsm_timeout cb (s\<lparr>ppp_timer := False\<rparr>) else s)"
| "fsm_do cb (Input p) s = fsm_input cb p s"

inductive fsm_reach :: "'w fsm_callbacks \<Rightarrow> 'w ppp \<Rightarrow> bool" for cb :: "'w fsm_callbacks" where
  start: "\<not> ppp_timer s \<Longrightarrow> fsm_reach cb (fsm_init s)"
| event: "fsm_reach cb s \<Longrightarrow> fsm_reach cb (fsm_do cb ev s)"
| flags: "fsm_reach cb s \<Longrightarrow> fsm_reach cb (fsm_set (\<lambda>f. f\<lparr>f_flags := x\<rparr>) s)"

end
