(* ===== verification/Ppp_Fsm_Correct.thy ===== *)
theory Ppp_Fsm_Correct
  imports Ppp_Fsm
begin

text \<open>
  Correctness of the PPP automaton: it follows the transition table of RFC 1661, with three exceptions;
  a timer is pending in every state that waits for the peer, so that it always gets out of them; the link
  opens only after both sides have acknowledged each other's options.
\<close>

named_theorems fsm_simps \<open>effects of the building blocks of fsm.c\<close>

section \<open>Callbacks\<close>

text \<open>What RFC 1661 calls actions: notifications of the layers and packets.\<close>

datatype rfc_action = Tlu | Tld | Tls | Tlf | Scr | Sca | Scn | Str | Sta | Scj | Ser

text \<open>A callback that leaves the automaton and its timer alone, one that sends nothing for the automaton either, and one that
  is seen in a log kept by the rest of the stack.\<close>

definition aloof :: "('w ppp \<Rightarrow> 'w ppp) \<Rightarrow> bool" where
  "aloof g \<longleftrightarrow> (\<forall>s. ppp_fsm (g s) = ppp_fsm s \<and> ppp_timer (g s) = ppp_timer s)"

definition quiet :: "('w ppp \<Rightarrow> 'w ppp) \<Rightarrow> bool" where
  "quiet g \<longleftrightarrow> aloof g \<and> (\<forall>s. ppp_out (g s) = ppp_out s)"

definition logs :: "('w \<Rightarrow> rfc_action list) \<Rightarrow> rfc_action list \<Rightarrow> ('w ppp \<Rightarrow> 'w ppp) \<Rightarrow> bool" where
  "logs log acts g \<longleftrightarrow> (\<forall>s. log (ppp_env (g s)) = log (ppp_env s) @ acts)"

text \<open>A property of every callback but the one for further codes; the four notifications may have one of their own.\<close>

definition all_callbacks :: "(rfc_action list \<Rightarrow> ('w ppp \<Rightarrow> 'w ppp) \<Rightarrow> bool) \<Rightarrow> 'w fsm_callbacks \<Rightarrow> bool" where
  "all_callbacks P cb \<longleftrightarrow>
     pred_option (P []) (cb_resetci cb) \<and> pred_option (\<lambda>g. P [] (\<lambda>s. snd (g s))) (cb_cilen cb) \<and>
     pred_option (\<lambda>g. \<forall>n. P [] (\<lambda>s. snd (g n s))) (cb_addci cb) \<and>
     pred_option (\<lambda>g. \<forall>inp. P [] (\<lambda>s. snd (g inp s))) (cb_ackci cb) \<and>
     pred_option (\<lambda>g. \<forall>inp. P [] (\<lambda>s. snd (g inp s))) (cb_nakci cb) \<and>
     pred_option (\<lambda>g. \<forall>inp. P [] (\<lambda>s. snd (g inp s))) (cb_rejci cb) \<and>
     pred_option (\<lambda>g. \<forall>inp b. P [] (\<lambda>s. snd (g inp b s))) (cb_reqci cb) \<and>
     pred_option (P [Tlu]) (cb_up cb) \<and> pred_option (P [Tld]) (cb_down cb) \<and>
     pred_option (P [Tls]) (cb_starting cb) \<and> pred_option (P [Tlf]) (cb_finished cb) \<and>
     pred_option (P []) (cb_retransmit cb)"

text \<open>
  Callbacks that do not call back into this automaton; the one for further codes may answer the packet it is given.  Those of
  \<open>lcp.c\<close> are of this kind, but for a Protocol-Reject that makes \<open>lcp.c\<close> close itself.  In \<open>ipcp.c\<close>,
  \<open>ipcp_up\<close> calls \<open>fsm_close\<close> when the addresses are not acceptable, and \<open>ipcp_finished\<close> closes LCP when no other
  network protocol is left, which takes the layer below IPCP down; for these two cases the lemmas say nothing.
\<close>

definition callbacks_quiet :: "'w fsm_callbacks \<Rightarrow> bool" where
  "callbacks_quiet cb \<longleftrightarrow> all_callbacks (\<lambda>_. quiet) cb \<and>
     pred_option (\<lambda>g. \<forall>c i inp. aloof (\<lambda>s. snd (g c i inp s))) (cb_extcode cb)"

text \<open>The answers the automaton expects: an Ack, a Nak or a reject, and no error value from the two callbacks for
  Naks and rejects.\<close>

definition callbacks_answers :: "'w fsm_callbacks \<Rightarrow> bool" where
  "callbacks_answers cb \<longleftrightarrow>
     pred_option (\<lambda>g. \<forall>inp b s. fst (fst (g inp b s)) \<in> {CONFACK, CONFNAK, CONFREJ}) (cb_reqci cb) \<and>
     pred_option (\<lambda>g. \<forall>inp s. fst (g inp s) \<ge> 0) (cb_nakci cb) \<and>
     pred_option (\<lambda>g. \<forall>inp s. fst (g inp s) \<ge> 0) (cb_rejci cb)"

definition callbacks_log :: "('w \<Rightarrow> rfc_action list) \<Rightarrow> 'w fsm_callbacks \<Rightarrow> bool" where
  "callbacks_log log cb \<longleftrightarrow> all_callbacks (logs log) cb \<and>
     pred_option (\<lambda>g. \<forall>c i inp. logs log [] (\<lambda>s. snd (g c i inp s))) (cb_extcode cb)"

text \<open>The notifications for which a callback is plugged in: the pointer may be null.\<close>

definition plugged :: "'w fsm_callbacks \<Rightarrow> rfc_action \<Rightarrow> bool" where
  "plugged cb a = (case a of Tlu \<Rightarrow> cb_up cb \<noteq> None | Tld \<Rightarrow> cb_down cb \<noteq> None
     | Tls \<Rightarrow> cb_starting cb \<noteq> None | Tlf \<Rightarrow> cb_finished cb \<noteq> None | _ \<Rightarrow> False)"

lemma invoke_quiet [fsm_simps]:
  assumes "pred_option quiet cb"
  shows "ppp_fsm (invoke cb s) = ppp_fsm s" "ppp_timer (invoke cb s) = ppp_timer s"
    "ppp_out (invoke cb s) = ppp_out s"
  using assms by (auto simp: invoke_def quiet_def aloof_def split: option.splits)

lemma invoke_logs:
  "pred_option (logs log acts) cb \<Longrightarrow> cb \<noteq> None \<Longrightarrow> log (ppp_env (invoke cb s)) = log (ppp_env s) @ acts"
  "pred_option (logs log []) cb \<Longrightarrow> log (ppp_env (invoke cb s)) = log (ppp_env s)"
  by (auto simp: invoke_def logs_def split: option.splits)

lemma callbacks_quietD [fsm_simps]:
  assumes "callbacks_quiet cb"
  shows "pred_option quiet (cb_resetci cb)" "pred_option quiet (cb_up cb)" "pred_option quiet (cb_down cb)"
    "pred_option quiet (cb_starting cb)" "pred_option quiet (cb_finished cb)" "pred_option quiet (cb_retransmit cb)"
  using assms by (simp_all add: callbacks_quiet_def all_callbacks_def)

lemma callbacks_logD [fsm_simps]:
  assumes "callbacks_log log cb"
  shows "log (ppp_env (invoke (cb_resetci cb) s)) = log (ppp_env s)"
    "log (ppp_env (invoke (cb_up cb) s)) = log (ppp_env s) @ filter (plugged cb) [Tlu]"
    "log (ppp_env (invoke (cb_down cb) s)) = log (ppp_env s) @ filter (plugged cb) [Tld]"
    "log (ppp_env (invoke (cb_starting cb) s)) = log (ppp_env s) @ filter (plugged cb) [Tls]"
    "log (ppp_env (invoke (cb_finished cb) s)) = log (ppp_env s) @ filter (plugged cb) [Tlf]"
    "log (ppp_env (invoke (cb_retransmit cb) s)) = log (ppp_env s)"
  using assms
  by (simp_all add: callbacks_log_def all_callbacks_def invoke_logs plugged_def)

section \<open>Building blocks\<close>

text \<open>The codes of the packets sent so far.\<close>

definition sent :: "'w ppp \<Rightarrow> u8 list" where "sent s = map (\<lambda>p. p ! 4) (ppp_out s)"

lemma fsm_set_simps [fsm_simps]:
  "ppp_fsm (fsm_set g s) = g (ppp_fsm s)" "ppp_timer (fsm_set g s) = ppp_timer s" "sent (fsm_set g s) = sent s"
  "ppp_env (fsm_set g s) = ppp_env s" "ppp_out (fsm_set g s) = ppp_out s"
  by (simp_all add: fsm_set_def sent_def)

lemma set_st_simps [fsm_simps]:
  "ppp_fsm (set_st x s) = (ppp_fsm s)\<lparr>f_state := x\<rparr>" "ppp_timer (set_st x s) = ppp_timer s" "sent (set_st x s) = sent s"
  "ppp_env (set_st x s) = ppp_env s" "ppp_out (set_st x s) = ppp_out s"
  by (simp_all add: set_st_def fsm_simps)

lemma timer_simps [fsm_simps]:
  "ppp_fsm (TIMEOUT s) = ppp_fsm s" "ppp_timer (TIMEOUT s)" "sent (TIMEOUT s) = sent s" "ppp_env (TIMEOUT s) = ppp_env s"
  "ppp_fsm (UNTIMEOUT s) = ppp_fsm s" "\<not> ppp_timer (UNTIMEOUT s)" "sent (UNTIMEOUT s) = sent s"
  "ppp_env (UNTIMEOUT s) = ppp_env s"
  "sent (s\<lparr>ppp_timer := b\<rparr>) = sent s"
  by (simp_all add: TIMEOUT_def UNTIMEOUT_def sent_def)

lemma sent_invoke [fsm_simps]: "pred_option quiet cb \<Longrightarrow> sent (invoke cb s) = sent s"
  by (simp add: sent_def fsm_simps)

lemma fsm_sdata_simps [fsm_simps]:
  "ppp_fsm (fsm_sdata c i d s) = ppp_fsm s" "ppp_timer (fsm_sdata c i d s) = ppp_timer s"
  "sent (fsm_sdata c i d s) = sent s @ [word_of_int c]" "ppp_env (fsm_sdata c i d s) = ppp_env s"
  by (simp_all add: fsm_sdata_def sent_def Let_def)

lemma fsm_stermreq_simps [fsm_simps]:
  "ppp_fsm (fsm_stermreq s) = (ppp_fsm s)\<lparr>f_id := f_id (ppp_fsm s) + 1, f_reqid := f_id (ppp_fsm s) + 1,
     f_retransmits := f_retransmits (ppp_fsm s) - 1\<rparr>"
  "ppp_timer (fsm_stermreq s)" "sent (fsm_stermreq s) = sent s @ [5]" "ppp_env (fsm_stermreq s) = ppp_env s"
  by (simp_all add: fsm_stermreq_def Let_def fsm_simps codes)

lemma fsm_options_quiet:
  assumes "callbacks_quiet cb" "fsm_options cb s = (ci, s')"
  shows "ppp_fsm s' = ppp_fsm s" "ppp_timer s' = ppp_timer s" "sent s' = sent s"
proof -
  have "quiet (\<lambda>s. snd (fsm_options cb s))"
  proof (cases "cb_cilen cb"; cases "cb_addci cb")
    fix cilen addci assume some: "cb_cilen cb = Some cilen" "cb_addci cb = Some addci"
    then have "quiet (\<lambda>s. snd (cilen s))" "\<And>n. quiet (\<lambda>s. snd (addci n s))"
      using assms(1) by (simp_all add: callbacks_quiet_def all_callbacks_def)
    then show ?thesis using some by (simp add: quiet_def aloof_def fsm_options_def Let_def case_prod_beta)
  qed (simp_all add: quiet_def aloof_def fsm_options_def)
  then have "ppp_fsm (snd (fsm_options cb s)) = ppp_fsm s \<and> ppp_timer (snd (fsm_options cb s)) = ppp_timer s \<and>
      ppp_out (snd (fsm_options cb s)) = ppp_out s"
    unfolding quiet_def aloof_def by blast
  then show "ppp_fsm s' = ppp_fsm s" "ppp_timer s' = ppp_timer s" "sent s' = sent s"
    using assms(2) by (simp_all add: sent_def)
qed

lemma fsm_options_log:
  assumes "callbacks_log log cb" "fsm_options cb s = (ci, s')"
  shows "log (ppp_env s') = log (ppp_env s)"
proof -
  have "logs log [] (\<lambda>s. snd (fsm_options cb s))"
  proof (cases "cb_cilen cb"; cases "cb_addci cb")
    fix cilen addci assume some: "cb_cilen cb = Some cilen" "cb_addci cb = Some addci"
    then have "logs log [] (\<lambda>s. snd (cilen s))" "\<And>n. logs log [] (\<lambda>s. snd (addci n s))"
      using assms(1) by (simp_all add: callbacks_log_def all_callbacks_def)
    then show ?thesis using some by (simp add: logs_def fsm_options_def Let_def case_prod_beta)
  qed (simp_all add: logs_def fsm_options_def)
  then have "log (ppp_env (snd (fsm_options cb s))) = log (ppp_env s)" by (simp add: logs_def)
  then show ?thesis using assms(2) by simp
qed

text \<open>What a Configure-Request leaves behind.\<close>

lemma fsm_sconfreq_simps [fsm_simps]:
  assumes "callbacks_quiet cb"
  shows "f_state (ppp_fsm (fsm_sconfreq cb b s)) = st s" "ppp_timer (fsm_sconfreq cb b s)"
    "sent (fsm_sconfreq cb b s) = sent s @ [1]" "\<not> f_seen_ack (ppp_fsm (fsm_sconfreq cb b s))"
    "f_retransmits (ppp_fsm (fsm_sconfreq cb b s)) =
       (if b then f_retransmits (ppp_fsm s) else f_maxconfreqtransmits (ppp_fsm s)) - 1"
    "f_flags (ppp_fsm (fsm_sconfreq cb b s)) = f_flags (ppp_fsm s)"
    "f_maxconfreqtransmits (ppp_fsm (fsm_sconfreq cb b s)) = f_maxconfreqtransmits (ppp_fsm s)"
  using assms
  by (simp_all add: fsm_sconfreq_def Let_def fsm_simps codes fsm_options_quiet split: prod.splits)

lemma fsm_sconfreq_log [fsm_simps]:
  assumes "callbacks_log log cb"
  shows "log (ppp_env (fsm_sconfreq cb b s)) = log (ppp_env s)"
  using assms
  by (simp add: fsm_sconfreq_def Let_def fsm_simps fsm_options_log split: prod.splits)


section \<open>The table of RFC 1661\<close>

text \<open>
  The state transition table of section 4.1 of the RFC, less the two actions on the restart counter, irc and zrc.
  The entries the RFC leaves out change nothing.
\<close>

datatype rfc_event = Up | Down | Op | Cl | TOp | TOm | RCRp | RCRm | RCA | RCN | RTR | RTA | RUC | RXJp | RXJm | RXR

definition rfc1661 :: "rfc_event \<Rightarrow> link_state \<Rightarrow> rfc_action list \<times> link_state" where
  "rfc1661 e x = (case e of
     Up \<Rightarrow> (case x of LS_INITIAL \<Rightarrow> ([], LS_CLOSED) | LS_STARTING \<Rightarrow> ([Scr], LS_REQSENT) | _ \<Rightarrow> ([], x))
   | Down \<Rightarrow> (case x of LS_CLOSED \<Rightarrow> ([], LS_INITIAL) | LS_STOPPED \<Rightarrow> ([Tls], LS_STARTING) | LS_CLOSING \<Rightarrow> ([], LS_INITIAL)
       | LS_STOPPING \<Rightarrow> ([], LS_STARTING) | LS_REQSENT \<Rightarrow> ([], LS_STARTING) | LS_ACKRCVD \<Rightarrow> ([], LS_STARTING)
       | LS_ACKSENT \<Rightarrow> ([], LS_STARTING) | LS_OPENED \<Rightarrow> ([Tld], LS_STARTING) | _ \<Rightarrow> ([], x))
   | Op \<Rightarrow> (case x of LS_INITIAL \<Rightarrow> ([Tls], LS_STARTING) | LS_CLOSED \<Rightarrow> ([Scr], LS_REQSENT)
       | LS_CLOSING \<Rightarrow> ([], LS_STOPPING) | _ \<Rightarrow> ([], x))
   | Cl \<Rightarrow> (case x of LS_STARTING \<Rightarrow> ([Tlf], LS_INITIAL) | LS_STOPPED \<Rightarrow> ([], LS_CLOSED) | LS_STOPPING \<Rightarrow> ([], LS_CLOSING)
       | LS_REQSENT \<Rightarrow> ([Str], LS_CLOSING) | LS_ACKRCVD \<Rightarrow> ([Str], LS_CLOSING) | LS_ACKSENT \<Rightarrow> ([Str], LS_CLOSING)
       | LS_OPENED \<Rightarrow> ([Tld, Str], LS_CLOSING) | _ \<Rightarrow> ([], x))
   | TOp \<Rightarrow> (case x of LS_CLOSING \<Rightarrow> ([Str], x) | LS_STOPPING \<Rightarrow> ([Str], x) | LS_REQSENT \<Rightarrow> ([Scr], x)
       | LS_ACKRCVD \<Rightarrow> ([Scr], LS_REQSENT) | LS_ACKSENT \<Rightarrow> ([Scr], x) | _ \<Rightarrow> ([], x))
   | TOm \<Rightarrow> (case x of LS_CLOSING \<Rightarrow> ([Tlf], LS_CLOSED) | LS_STOPPING \<Rightarrow> ([Tlf], LS_STOPPED) | LS_REQSENT \<Rightarrow> ([Tlf], LS_STOPPED)
       | LS_ACKRCVD \<Rightarrow> ([Tlf], LS_STOPPED) | LS_ACKSENT \<Rightarrow> ([Tlf], LS_STOPPED) | _ \<Rightarrow> ([], x))
   | RCRp \<Rightarrow> (case x of LS_CLOSED \<Rightarrow> ([Sta], x) | LS_STOPPED \<Rightarrow> ([Scr, Sca], LS_ACKSENT) | LS_REQSENT \<Rightarrow> ([Sca], LS_ACKSENT)
       | LS_ACKRCVD \<Rightarrow> ([Sca, Tlu], LS_OPENED) | LS_ACKSENT \<Rightarrow> ([Sca], x) | LS_OPENED \<Rightarrow> ([Tld, Scr, Sca], LS_ACKSENT) | _ \<Rightarrow> ([], x))
   | RCRm \<Rightarrow> (case x of LS_CLOSED \<Rightarrow> ([Sta], x) | LS_STOPPED \<Rightarrow> ([Scr, Scn], LS_REQSENT) | LS_REQSENT \<Rightarrow> ([Scn], x)
       | LS_ACKRCVD \<Rightarrow> ([Scn], x) | LS_ACKSENT \<Rightarrow> ([Scn], LS_REQSENT) | LS_OPENED \<Rightarrow> ([Tld, Scr, Scn], LS_REQSENT) | _ \<Rightarrow> ([], x))
   | RCA \<Rightarrow> (case x of LS_CLOSED \<Rightarrow> ([Sta], x) | LS_STOPPED \<Rightarrow> ([Sta], x) | LS_REQSENT \<Rightarrow> ([], LS_ACKRCVD)
       | LS_ACKRCVD \<Rightarrow> ([Scr], LS_REQSENT) | LS_ACKSENT \<Rightarrow> ([Tlu], LS_OPENED) | LS_OPENED \<Rightarrow> ([Tld, Scr], LS_REQSENT) | _ \<Rightarrow> ([], x))
   | RCN \<Rightarrow> (case x of LS_CLOSED \<Rightarrow> ([Sta], x) | LS_STOPPED \<Rightarrow> ([Sta], x) | LS_REQSENT \<Rightarrow> ([Scr], x)
       | LS_ACKRCVD \<Rightarrow> ([Scr], LS_REQSENT) | LS_ACKSENT \<Rightarrow> ([Scr], x) | LS_OPENED \<Rightarrow> ([Tld, Scr], LS_REQSENT) | _ \<Rightarrow> ([], x))
   | RTR \<Rightarrow> (case x of LS_INITIAL \<Rightarrow> ([], x) | LS_STARTING \<Rightarrow> ([], x) | LS_ACKRCVD \<Rightarrow> ([Sta], LS_REQSENT)
       | LS_ACKSENT \<Rightarrow> ([Sta], LS_REQSENT) | LS_OPENED \<Rightarrow> ([Tld, Sta], LS_STOPPING) | _ \<Rightarrow> ([Sta], x))
   | RTA \<Rightarrow> (case x of LS_CLOSING \<Rightarrow> ([Tlf], LS_CLOSED) | LS_STOPPING \<Rightarrow> ([Tlf], LS_STOPPED) | LS_ACKRCVD \<Rightarrow> ([], LS_REQSENT)
       | LS_OPENED \<Rightarrow> ([Tld, Scr], LS_REQSENT) | _ \<Rightarrow> ([], x))
   | RUC \<Rightarrow> (case x of LS_INITIAL \<Rightarrow> ([], x) | LS_STARTING \<Rightarrow> ([], x) | _ \<Rightarrow> ([Scj], x))
   | RXJp \<Rightarrow> (case x of LS_ACKRCVD \<Rightarrow> ([], LS_REQSENT) | _ \<Rightarrow> ([], x))
   | RXJm \<Rightarrow> (case x of LS_CLOSED \<Rightarrow> ([Tlf], x) | LS_STOPPED \<Rightarrow> ([Tlf], x) | LS_CLOSING \<Rightarrow> ([Tlf], LS_CLOSED)
       | LS_STOPPING \<Rightarrow> ([Tlf], LS_STOPPED) | LS_REQSENT \<Rightarrow> ([Tlf], LS_STOPPED) | LS_ACKRCVD \<Rightarrow> ([Tlf], LS_STOPPED)
       | LS_ACKSENT \<Rightarrow> ([Tlf], LS_STOPPED) | LS_OPENED \<Rightarrow> ([Tld, Str], LS_STOPPING) | _ \<Rightarrow> ([], x))
   | RXR \<Rightarrow> (case x of LS_OPENED \<Rightarrow> ([Ser], x) | _ \<Rightarrow> ([], x)))"

text \<open>
  Which event of the RFC something that happens is: a request is RCR+ or RCR- as the callback judges it, in
  the state in which it is asked.  An acknowledgement, a Nak or a reject is out of sequence, and no event, when its
  identifier is wrong or our last request has been answered before, or when its callback refuses it; a malformed packet is no
  event either.  A Code-Reject is RXJ- when the rejected code is one of the seven that every peer must know (section 4.3 of the
  RFC: the rejected value is catastrophic), and RXJ+ otherwise.  What the callback for further codes
  recognises is RXR when it is an Echo-Request; other codes it recognises are its own business.
\<close>

definition ECHOREQ :: int where "ECHOREQ = 9"

definition before_judge :: "'w fsm_callbacks \<Rightarrow> 'w ppp \<Rightarrow> 'w ppp" where
  "before_judge cb s = (case st s of
      LS_OPENED \<Rightarrow> fsm_sconfreq cb False (invoke (cb_down cb) s)
    | LS_STOPPED \<Rightarrow> set_st LS_REQSENT (fsm_sconfreq cb False s)
    | _ \<Rightarrow> s)"

definition classify_code :: "'w fsm_callbacks \<Rightarrow> u8 \<Rightarrow> u8 \<Rightarrow> u8 list \<Rightarrow> 'w ppp \<Rightarrow> rfc_event option" where
  "classify_code cb code ident inp s =
    (let expected = ident = f_reqid (ppp_fsm s) \<and> \<not> f_seen_ack (ppp_fsm s) in
     if uint code = CONFREQ then Some (if fst (fst (fsm_judge cb inp (before_judge cb s))) = CONFACK then RCRp else RCRm)
     else if uint code = CONFACK then
       (if expected \<and> (case cb_ackci cb of Some g \<Rightarrow> fst (g inp s) \<noteq> 0 | None \<Rightarrow> inp = []) then Some RCA else None)
     else if uint code = CONFNAK \<or> uint code = CONFREJ then
       (if expected \<and> (case if uint code = CONFNAK then cb_nakci cb else cb_rejci cb of
           Some g \<Rightarrow> fst (g inp s) \<noteq> 0 | None \<Rightarrow> False) then Some RCN else None)
     else if uint code = TERMREQ then Some RTR
     else if uint code = TERMACK then Some RTA
     else if uint code = CODEREJ then (if length inp < HEADERLEN then None
       else if 1 \<le> uint (hd inp) \<and> uint (hd inp) \<le> 7 then Some RXJm else Some RXJp)
     else if (case cb_extcode cb of Some g \<Rightarrow> fst (g code ident inp s) | None \<Rightarrow> False)
       then (if uint code = ECHOREQ then Some RXR else None)
     else Some RUC)"

fun classify :: "'w fsm_callbacks \<Rightarrow> fsm_event \<Rightarrow> 'w ppp \<Rightarrow> rfc_event option" where
  "classify cb LowerUp s = Some Up"
| "classify cb LowerDown s = Some Down"
| "classify cb Open s = Some Op"
| "classify cb (Close reason) s = Some Cl"
| "classify cb ProtReject s = Some RXJm"
| "classify cb Timeout s = (if ppp_timer s then Some (if f_retransmits (ppp_fsm s) > 0 then TOp else TOm) else None)"
| "classify cb (Input p) s = (case p of
      code # ident # l1 # l0 # rest \<Rightarrow>
        (let len = unat l1 * 256 + unat l0 in
         if len < HEADERLEN \<or> len > length p \<or> st s = LS_INITIAL \<or> st s = LS_STARTING then None
         else classify_code cb code ident (take (len - HEADERLEN) rest) s)
    | _ \<Rightarrow> None)"

text \<open>The actions of a table entry that are packets, by code; a negative answer is a Nak or a reject.\<close>

definition is_packet :: "rfc_action \<Rightarrow> bool" where
  "is_packet a = (a \<in> {Scr, Sca, Scn, Str, Sta, Scj, Ser})"

fun packet_ok :: "rfc_action \<Rightarrow> u8 \<Rightarrow> bool" where
  "packet_ok Scr c = (c = 1)" | "packet_ok Sca c = (c = 2)" | "packet_ok Scn c = (c = 3 \<or> c = 4)"
| "packet_ok Str c = (c = 5)" | "packet_ok Sta c = (c = 6)" | "packet_ok Scj c = (c = 7)"
| "packet_ok Ser c = (c = 10)" | "packet_ok _ c = False"

definition matches :: "('w \<Rightarrow> rfc_action list) \<Rightarrow> 'w fsm_callbacks \<Rightarrow> 'w ppp \<Rightarrow> 'w ppp \<Rightarrow> rfc_action list \<times> link_state \<Rightarrow> bool" where
  "matches log cb s s' entry \<longleftrightarrow> st s' = snd entry \<and>
     log (ppp_env s') = log (ppp_env s) @ filter (plugged cb) (fst entry) \<and>
     (\<exists>cs. sent s' = sent s @ cs \<and> list_all2 packet_ok (filter is_packet (fst entry)) cs)"

text \<open>The callback for further codes answers an Echo-Request in the state Opened with one Echo-Reply and sends nothing else.\<close>

definition callbacks_echo :: "'w fsm_callbacks \<Rightarrow> bool" where
  "callbacks_echo cb \<longleftrightarrow> pred_option (\<lambda>g. \<forall>code ident inp s.
     sent (snd (g code ident inp s)) =
       sent s @ (if uint code = ECHOREQ \<and> fst (g code ident inp s) \<and> st s = LS_OPENED then [10] else [])) (cb_extcode cb)"

text \<open>The callbacks with results, by what they leave unchanged.\<close>

lemma quiet_snd:
  assumes "quiet (\<lambda>s. snd (g s))" "g s = (r, s')"
  shows "ppp_fsm s' = ppp_fsm s" "ppp_timer s' = ppp_timer s" "sent s' = sent s"
  using assms unfolding quiet_def aloof_def sent_def by (metis snd_conv)+

lemma logs_snd: "logs log [] (\<lambda>s. snd (g s)) \<Longrightarrow> g s = (r, s') \<Longrightarrow> log (ppp_env s') = log (ppp_env s)"
  unfolding logs_def by (metis append_Nil2 snd_conv)

lemma fsm_judge_quiet:
  assumes "callbacks_quiet cb" "fsm_judge cb inp s = (r, s')"
  shows "ppp_fsm s' = ppp_fsm s \<and> ppp_timer s' = ppp_timer s \<and> sent s' = sent s"
proof (cases "cb_reqci cb")
  case (Some g)
  then have "quiet (\<lambda>s. snd (g inp b s))" for b
    using assms(1) by (simp add: callbacks_quiet_def all_callbacks_def)
  from quiet_snd [OF this] show ?thesis using assms(2) Some by (simp add: fsm_judge_def)
qed (use assms in \<open>simp add: fsm_judge_def\<close>)

lemma fsm_judge_log:
  assumes "callbacks_log log cb" "fsm_judge cb inp s = (r, s')"
  shows "log (ppp_env s') = log (ppp_env s)"
proof (cases "cb_reqci cb")
  case (Some g)
  then have "logs log [] (\<lambda>s. snd (g inp b s))" for b
    using assms(1) by (simp add: callbacks_log_def all_callbacks_def)
  from logs_snd [OF this] show ?thesis using assms(2) Some by (simp add: fsm_judge_def)
qed (use assms in \<open>simp add: fsm_judge_def\<close>)

lemma fsm_judge_code:
  "callbacks_answers cb \<Longrightarrow> fst (fst (fsm_judge cb inp s)) \<in> {CONFACK, CONFNAK, CONFREJ}"
  by (cases "cb_reqci cb") (auto simp: fsm_judge_def callbacks_answers_def)

section \<open>Each event against the table\<close>

lemma plugged_packet [simp]:
  "\<not> plugged cb Scr" "\<not> plugged cb Sca" "\<not> plugged cb Scn" "\<not> plugged cb Str" "\<not> plugged cb Sta" "\<not> plugged cb Scj" "\<not> plugged cb Ser"
  by (simp_all add: plugged_def)

lemmas rfc_defs = rfc1661_def matches_def is_packet_def codes

lemma lowerup_rfc:
  assumes "callbacks_quiet cb" "callbacks_log log cb" "f_flags (ppp_fsm s) = 0"
  shows "matches log cb s (fsm_lowerup cb s) (rfc1661 Up (st s))"
  using assms by (cases "st s") (simp_all add: fsm_lowerup_def rfc_defs fsm_simps)

lemma lowerdown_rfc:
  assumes "callbacks_quiet cb" "callbacks_log log cb"
  shows "matches log cb s (fsm_lowerdown cb s) (rfc1661 Down (st s))"
  using assms by (cases "st s") (simp_all add: fsm_lowerdown_def rfc_defs fsm_simps)

lemma open_rfc:
  assumes "callbacks_quiet cb" "callbacks_log log cb" "f_flags (ppp_fsm s) = 0"
  shows "matches log cb s (fsm_open cb s) (rfc1661 Op (st s))"
  using assms by (cases "st s") (simp_all add: fsm_open_def fsm_restart_def rfc_defs fsm_simps)

lemma close_rfc:
  assumes "callbacks_quiet cb" "callbacks_log log cb"
  shows "matches log cb s (fsm_close cb reason s)
    (if st s = LS_STARTING then ([], LS_INITIAL) else rfc1661 Cl (st s))"
  using assms by (cases "st s") (simp_all add: fsm_close_def fsm_close_running_def Let_def rfc_defs fsm_simps)

lemma protreject_rfc:
  assumes "callbacks_quiet cb" "callbacks_log log cb"
  shows "matches log cb s (fsm_protreject cb s) (rfc1661 RXJm (st s))"
  using assms by (cases "st s") (simp_all add: fsm_protreject_def rfc_defs fsm_simps)

lemma timeout_rfc:
  assumes "callbacks_quiet cb" "callbacks_log log cb" "f_flags (ppp_fsm s) = 0"
  shows "matches log cb s (fsm_timeout cb s) (rfc1661 (if f_retransmits (ppp_fsm s) > 0 then TOp else TOm) (st s))"
  using assms
  by (cases "st s") (simp_all add: fsm_timeout_def fsm_timeout_term_def fsm_timeout_conf_def Let_def rfc_defs fsm_simps)

lemma rtermreq_rfc:
  assumes "callbacks_quiet cb" "callbacks_log log cb" "st s \<noteq> LS_INITIAL" "st s \<noteq> LS_STARTING"
  shows "matches log cb s (fsm_rtermreq cb ident s) (rfc1661 RTR (st s))"
  using assms by (cases "st s") (simp_all add: fsm_rtermreq_def rfc_defs fsm_simps)

lemma rtermack_rfc:
  assumes "callbacks_quiet cb" "callbacks_log log cb"
  shows "matches log cb s (fsm_rtermack cb s)
    (if st s = LS_OPENED then ([Tld, Scr], LS_OPENED) else rfc1661 RTA (st s))"
  using assms by (cases "st s") (simp_all add: fsm_rtermack_def rfc_defs fsm_simps)

lemma acked_rfc:
  assumes "callbacks_quiet cb" "callbacks_log log cb"
  shows "matches log cb s (fsm_acked cb ident s) (rfc1661 RCA (st s))"
  using assms by (cases "st s") (simp_all add: fsm_acked_def rfc_defs fsm_simps)

lemma nakked_rfc:
  assumes "callbacks_quiet cb" "callbacks_log log cb" "ret \<ge> 0"
  shows "matches log cb s (fsm_nakked cb ident ret s) (rfc1661 RCN (st s))"
  using assms by (cases "st s") (simp_all add: fsm_nakked_def rfc_defs fsm_simps)

text \<open>An answer sends the code the callback chose, and opens the link if it is an Ack that was still missing.\<close>

lemma answer_rfc:
  assumes "callbacks_quiet cb" "callbacks_log log cb" "fsm_judge cb inp s = ((code, inp'), s')"
  shows "st (fsm_answer cb ident inp s) = (if code = CONFACK then (if st s = LS_ACKRCVD then LS_OPENED else LS_ACKSENT)
      else if st s = LS_ACKRCVD then LS_ACKRCVD else LS_REQSENT)"
    "sent (fsm_answer cb ident inp s) = sent s @ [word_of_int code]"
    "log (ppp_env (fsm_answer cb ident inp s)) =
       log (ppp_env s) @ (if code = CONFACK \<and> st s = LS_ACKRCVD then filter (plugged cb) [Tlu] else [])"
  using assms fsm_judge_quiet [OF assms(1,3)] fsm_judge_log [OF assms(2,3)]
  by (simp_all add: fsm_answer_def Let_def fsm_simps)


lemma before_judge_simps:
  assumes "callbacks_quiet cb" "callbacks_log log cb"
  shows "st (before_judge cb s) = (if st s = LS_STOPPED then LS_REQSENT else st s)"
    "sent (before_judge cb s) = sent s @ (if st s = LS_OPENED \<or> st s = LS_STOPPED then [1] else [])"
    "log (ppp_env (before_judge cb s)) = log (ppp_env s) @ (if st s = LS_OPENED then filter (plugged cb) [Tld] else [])"
  using assms by (cases "st s"; simp add: before_judge_def fsm_simps)+

lemma rconfreq_eq:
  "fsm_rconfreq cb ident inp s = (case st s of
      LS_CLOSED \<Rightarrow> fsm_sdata TERMACK ident [] s
    | LS_CLOSING \<Rightarrow> s
    | LS_STOPPING \<Rightarrow> s
    | _ \<Rightarrow> fsm_answer cb ident inp (before_judge cb s))"
  by (cases "st s") (simp_all add: fsm_rconfreq_def before_judge_def)

lemma rconfreq_rfc:
  assumes "callbacks_quiet cb" "callbacks_log log cb" "callbacks_answers cb" "st s \<noteq> LS_INITIAL" "st s \<noteq> LS_STARTING"
  shows "matches log cb s (fsm_rconfreq cb ident inp s)
    (rfc1661 (if fst (fst (fsm_judge cb inp (before_judge cb s))) = CONFACK then RCRp else RCRm) (st s))"
proof -
  obtain code inp' s' where j: "fsm_judge cb inp (before_judge cb s) = ((code, inp'), s')" by (metis surj_pair)
  have code: "code \<in> {2, 3, 4}" using fsm_judge_code [OF assms(3), of inp "before_judge cb s"] by (simp add: j codes)
  show ?thesis
    using assms code answer_rfc [OF assms(1,2) j, of ident]
    by (cases "st s") (auto simp: rconfreq_eq j rfc_defs before_judge_simps fsm_simps)
qed

text \<open>Asking a callback that may be missing.\<close>

definition ask :: "('w ppp \<Rightarrow> 'r \<times> 'w ppp) option \<Rightarrow> 'r \<Rightarrow> 'w ppp \<Rightarrow> 'r \<times> 'w ppp" where
  "ask c d s = (case c of Some g \<Rightarrow> g s | None \<Rightarrow> (d, s))"

lemma ask_quiet:
  assumes "pred_option (\<lambda>g. quiet (\<lambda>s. snd (g s))) c" "ask c d s = (r, s1)"
  shows "ppp_fsm s1 = ppp_fsm s \<and> ppp_timer s1 = ppp_timer s \<and> sent s1 = sent s"
proof (cases c)
  case (Some g)
  then have "quiet (\<lambda>s. snd (g s))" "g s = (r, s1)" using assms by (simp_all add: ask_def)
  from quiet_snd [OF this] show ?thesis by simp
qed (use assms in \<open>simp add: ask_def\<close>)

lemma ask_aloof:
  assumes "pred_option (\<lambda>g. aloof (\<lambda>s. snd (g s))) c" "ask c d s = (r, s1)"
  shows "ppp_fsm s1 = ppp_fsm s \<and> ppp_timer s1 = ppp_timer s"
proof (cases c)
  case (Some g)
  then have "aloof (\<lambda>s. snd (g s))" "g s = (r, s1)" using assms by (simp_all add: ask_def)
  then show ?thesis unfolding aloof_def by (metis snd_conv)
qed (use assms in \<open>simp add: ask_def\<close>)

lemma ask_log:
  assumes "pred_option (\<lambda>g. logs log [] (\<lambda>s. snd (g s))) c" "ask c d s = (r, s1)"
  shows "log (ppp_env s1) = log (ppp_env s)"
proof (cases c)
  case (Some g)
  then have "logs log [] (\<lambda>s. snd (g s))" "g s = (r, s1)" using assms by (simp_all add: ask_def)
  from logs_snd [OF this] show ?thesis .
qed (use assms in \<open>simp add: ask_def\<close>)

lemma asked_quiet:
  assumes "callbacks_quiet cb"
  shows "pred_option (\<lambda>g. quiet (\<lambda>s. snd (g s))) (map_option (\<lambda>g. g inp) (cb_ackci cb))"
    "pred_option (\<lambda>g. quiet (\<lambda>s. snd (g s))) (map_option (\<lambda>g. g inp) (if b then cb_nakci cb else cb_rejci cb))"
    "pred_option (\<lambda>g. aloof (\<lambda>s. snd (g s))) (map_option (\<lambda>g. g code ident inp) (cb_extcode cb))"
  using assms by (auto simp: callbacks_quiet_def all_callbacks_def option.pred_set)

lemma asked_log:
  assumes "callbacks_log log cb"
  shows "pred_option (\<lambda>g. logs log [] (\<lambda>s. snd (g s))) (map_option (\<lambda>g. g inp) (cb_ackci cb))"
    "pred_option (\<lambda>g. logs log [] (\<lambda>s. snd (g s))) (map_option (\<lambda>g. g inp) (if b then cb_nakci cb else cb_rejci cb))"
    "pred_option (\<lambda>g. logs log [] (\<lambda>s. snd (g s))) (map_option (\<lambda>g. g code ident inp) (cb_extcode cb))"
  using assms by (auto simp: callbacks_log_def all_callbacks_def option.pred_set)

text \<open>The handlers that ask, by what they are told.\<close>

lemma rconfack_eq:
  assumes "ident = f_reqid (ppp_fsm s)" "\<not> f_seen_ack (ppp_fsm s)"
    "ask (map_option (\<lambda>g. g inp) (cb_ackci cb)) (if length inp = 0 then 1 else 0) s = (ok, s1)"
  shows "fsm_rconfack cb ident inp s = (if ok = 0 then s1 else fsm_acked cb ident (fsm_set (\<lambda>f. f\<lparr>f_seen_ack := True\<rparr>) s1))"
  using assms by (cases "cb_ackci cb") (auto simp: fsm_rconfack_def ask_def)

lemma rconfnakrej_eq:
  assumes "ident = f_reqid (ppp_fsm s)" "\<not> f_seen_ack (ppp_fsm s)" "proc = (if code = CONFNAK then cb_nakci cb else cb_rejci cb)"
    "ask (map_option (\<lambda>g. g inp) proc) 0 s = (ret, s1)"
  shows "fsm_rconfnakrej cb code ident inp s =
    (if ret = 0 then s1 else fsm_nakked cb ident ret (fsm_set (\<lambda>f. f\<lparr>f_seen_ack := True\<rparr>) s1))"
  using assms(1,2,4) unfolding fsm_rconfnakrej_def assms(3) [symmetric] by (cases proc) (simp_all add: ask_def)

lemma toss_eq:
  assumes "ident \<noteq> f_reqid (ppp_fsm s) \<or> f_seen_ack (ppp_fsm s)"
  shows "fsm_rconfack cb ident inp s = s" "fsm_rconfnakrej cb code ident inp s = s"
  using assms by (simp_all add: fsm_rconfack_def fsm_rconfnakrej_def)

lemma rconfack_rfc:
  assumes "callbacks_quiet cb" "callbacks_log log cb" "uint code = CONFACK"
  shows "matches log cb s (fsm_rconfack cb ident inp s)
    (case classify_code cb code ident inp s of None \<Rightarrow> ([], st s) | Some e \<Rightarrow> rfc1661 e (st s))"
proof (cases "ident \<noteq> f_reqid (ppp_fsm s) \<or> f_seen_ack (ppp_fsm s)")
  case True
  then show ?thesis using assms(3) by (auto simp: toss_eq classify_code_def codes matches_def)
next
  case False
  obtain ok s1 where r: "ask (map_option (\<lambda>g. g inp) (cb_ackci cb)) (if length inp = 0 then 1 else 0) s = (ok, s1)" by fastforce
  note q = ask_quiet [OF asked_quiet(1) [OF assms(1)] r] ask_log [OF asked_log(1) [OF assms(2)] r]
  have c: "classify_code cb code ident inp s = (if ok \<noteq> 0 then Some RCA else None)"
    using assms(3) False r by (auto simp: classify_code_def codes ask_def split: option.splits if_splits)
  have e: "fsm_rconfack cb ident inp s = (if ok = 0 then s1 else fsm_acked cb ident (fsm_set (\<lambda>f. f\<lparr>f_seen_ack := True\<rparr>) s1))"
    using False r by (intro rconfack_eq) simp_all
  show ?thesis
    using acked_rfc [OF assms(1,2), of "fsm_set (\<lambda>f. f\<lparr>f_seen_ack := True\<rparr>) s1" ident] q
    by (simp add: e c matches_def fsm_simps)
qed

lemma rconfnakrej_rfc:
  assumes "callbacks_quiet cb" "callbacks_log log cb" "callbacks_answers cb" "uint code = CONFNAK \<or> uint code = CONFREJ"
  shows "matches log cb s (fsm_rconfnakrej cb (uint code) ident inp s)
    (case classify_code cb code ident inp s of None \<Rightarrow> ([], st s) | Some e \<Rightarrow> rfc1661 e (st s))"
proof (cases "ident \<noteq> f_reqid (ppp_fsm s) \<or> f_seen_ack (ppp_fsm s)")
  case True
  then have "fsm_rconfnakrej cb (uint code) ident inp s = s" by (rule toss_eq)
  moreover have "classify_code cb code ident inp s = None"
    using assms(4) by (rule disjE) (use True in \<open>auto simp: classify_code_def codes Let_def\<close>)
  ultimately show ?thesis by (simp add: matches_def)
next
  case False
  define proc where "proc = (if uint code = CONFNAK then cb_nakci cb else cb_rejci cb)"
  obtain ret s1 where r: "ask (map_option (\<lambda>g. g inp) proc) 0 s = (ret, s1)" by fastforce
  note q = ask_quiet [OF asked_quiet(2) [OF assms(1)] r [unfolded proc_def]] ask_log [OF asked_log(2) [OF assms(2)] r [unfolded proc_def]]
  have "(case proc of Some g \<Rightarrow> fst (g inp s) \<noteq> 0 | None \<Rightarrow> False) = (ret \<noteq> 0)"
    using r by (auto simp: ask_def split: option.splits)
  then have c: "classify_code cb code ident inp s = (if ret \<noteq> 0 then Some RCN else None)"
    using assms(4) False unfolding classify_code_def proc_def codes by auto
  have "pred_option (\<lambda>g. \<forall>inp s. fst (g inp s) \<ge> 0) proc" using assms(3) by (simp add: callbacks_answers_def proc_def)
  then have "0 \<le> fst (ask (map_option (\<lambda>g. g inp) proc) 0 s)" unfolding ask_def by (cases proc) simp_all
  then have "ret \<ge> 0" by (simp add: r)
  moreover have e: "fsm_rconfnakrej cb (uint code) ident inp s =
      (if ret = 0 then s1 else fsm_nakked cb ident ret (fsm_set (\<lambda>f. f\<lparr>f_seen_ack := True\<rparr>) s1))"
    using False r by (intro rconfnakrej_eq [OF _ _ proc_def]) simp_all
  ultimately show ?thesis
    using nakked_rfc [OF assms(1,2), of ret "fsm_set (\<lambda>f. f\<lparr>f_seen_ack := True\<rparr>) s1" ident] q
    by (simp add: e c matches_def fsm_simps)
qed

text \<open>The entry of the table that the code implements, with its three deviations; a Protocol-Reject is handled as the RFC has it.\<close>

definition implemented :: "fsm_event \<Rightarrow> rfc_event \<Rightarrow> link_state \<Rightarrow> rfc_action list \<times> link_state" where
  "implemented ev e x = (if e = RXJm \<and> (\<exists>p. ev = Input p) then rfc1661 RXJp x
     else if e = RTA \<and> x = LS_OPENED then ([Tld, Scr], LS_OPENED)
     else if e = Cl \<and> x = LS_STARTING then ([], LS_INITIAL) else rfc1661 e x)"

lemma dispatch_rfc:
  assumes cb: "callbacks_quiet cb" "callbacks_log log cb" "callbacks_answers cb" "callbacks_echo cb"
    and x: "st s \<noteq> LS_INITIAL" "st s \<noteq> LS_STARTING"
  shows "matches log cb s (fsm_dispatch cb p code ident inp s)
    (case classify_code cb code ident inp s of None \<Rightarrow> ([], st s) | Some e \<Rightarrow> implemented (Input p) e (st s))"
proof -
  consider "uint code = CONFREQ" | "uint code = CONFACK" | "uint code = CONFNAK \<or> uint code = CONFREJ"
    | "uint code = TERMREQ" | "uint code = TERMACK" | "uint code = CODEREJ"
    | "uint code \<notin> {CONFREQ, CONFACK, CONFNAK, CONFREJ, TERMREQ, TERMACK, CODEREJ}" by blast
  then show ?thesis
  proof cases
    case 1
    then show ?thesis using rconfreq_rfc [OF cb(1-3) x, of ident inp]
      by (auto simp: fsm_dispatch_def classify_code_def implemented_def)
  next
    case 2
    then have "classify_code cb code ident inp s \<in> {None, Some RCA}" by (auto simp: classify_code_def codes)
    then show ?thesis using rconfack_rfc [OF cb(1,2) 2, of s ident inp] 2
      by (auto simp: fsm_dispatch_def implemented_def codes)
  next
    case 3
    then have "classify_code cb code ident inp s = None \<or> classify_code cb code ident inp s = Some RCN"
      by (elim disjE) (simp_all add: classify_code_def codes Let_def)
    moreover have e: "fsm_dispatch cb p code ident inp s = fsm_rconfnakrej cb (uint code) ident inp s"
      using 3 by (auto simp: fsm_dispatch_def codes)
    ultimately show ?thesis
      unfolding e using rconfnakrej_rfc [OF cb(1-3) 3, of s ident inp] by (elim disjE) (simp_all add: implemented_def)
  next
    case 4
    then show ?thesis using rtermreq_rfc [OF cb(1,2) x, of ident] by (simp add: fsm_dispatch_def classify_code_def implemented_def codes)
  next
    case 5
    then show ?thesis using rtermack_rfc [OF cb(1,2), of s] by (auto simp: fsm_dispatch_def classify_code_def implemented_def codes)
  next
    case 6
    then show ?thesis using x
      by (cases "st s") (simp_all add: fsm_dispatch_def classify_code_def implemented_def fsm_rcoderej_def rfc_defs fsm_simps)
  next
    case 7
    obtain known s1 where r: "ask (map_option (\<lambda>g. g code ident inp) (cb_extcode cb)) False s = (known, s1)" by fastforce
    note q = ask_aloof [OF asked_quiet(3) [OF cb(1)] r] ask_log [OF asked_log(3) [OF cb(2)] r]
    have c: "classify_code cb code ident inp s = (if known then if uint code = ECHOREQ then Some RXR else None else Some RUC)"
      using 7 r by (auto simp: classify_code_def ask_def split: option.splits)
    have o: "sent s1 = sent s @ (if uint code = ECHOREQ \<and> known \<and> st s = LS_OPENED then [10] else [])"
    proof (cases "cb_extcode cb")
      case (Some g)
      have "sent (snd (g code ident inp s)) =
          sent s @ (if uint code = ECHOREQ \<and> fst (g code ident inp s) \<and> st s = LS_OPENED then [10] else [])"
        using cb(4) by (simp only: callbacks_echo_def Some option.pred_inject)
      moreover have "g code ident inp s = (known, s1)" using r Some by (simp add: ask_def)
      ultimately show ?thesis by simp
    qed (use r in \<open>simp add: ask_def\<close>)
    have "fsm_dispatch cb p code ident inp s = (if known then s1 else
        let s = fsm_set (\<lambda>f. f\<lparr>f_id := f_id f + 1\<rparr>) s1 in fsm_sdata CODEREJ (f_id (ppp_fsm s)) (take (length inp + HEADERLEN) p) s)"
      using 7 r by (auto simp: fsm_dispatch_def ask_def split: option.splits)
    then show ?thesis using q o x c by (cases "st s") (simp_all add: implemented_def rfc_defs fsm_simps Let_def)
  qed
qed


text \<open>
  Claim C8. \<open>fsm.c\<close> implements the transition table of RFC 1661, but for the restart counter.  For an automaton without option
  flags, and callbacks that do not call back into it, answer as expected, reply to Echo-Requests in Opened only, and log the layer
  notifications they are plugged in for, every event leads to the state, causes the notifications and sends the packets of the
  table's entry for the event of the RFC it is; what is no event of the RFC changes none of the three.  There are three exceptions:
  a Code-Reject of one of the basic codes is treated like any other Code-Reject and does not take the automaton down, a
  Terminate-Ack in the state Opened leaves the automaton there, and a Close in the state Starting does not
  report that the layer is finished.  A second answer to the same request is out of sequence here and no event.
\<close>
theorem fsm_follows_rfc1661:
  assumes "callbacks_quiet cb" "callbacks_log log cb" "callbacks_answers cb" "callbacks_echo cb" "f_flags (ppp_fsm s) = 0"
  shows "matches log cb s (fsm_do cb ev s)
    (case classify cb ev s of None \<Rightarrow> ([], st s) | Some e \<Rightarrow>
      if e = RXJm \<and> (\<exists>p. ev = Input p) then rfc1661 RXJp (st s)
      else if e = RTA \<and> st s = LS_OPENED then ([Tld, Scr], LS_OPENED)
      else if e = Cl \<and> st s = LS_STARTING then ([], LS_INITIAL)
      else rfc1661 e (st s))"
proof -
  have "matches log cb s (fsm_do cb ev s) (case classify cb ev s of None \<Rightarrow> ([], st s) | Some e \<Rightarrow> implemented ev e (st s))"
  proof (cases ev)
    case Timeout
    then show ?thesis
      using timeout_rfc [OF assms(1,2), of "s\<lparr>ppp_timer := False\<rparr>"] assms(5)
      by (auto simp: implemented_def matches_def fsm_simps)
  next
    case (Input p)
    show ?thesis
    proof (cases "\<exists>code ident l1 l0 rest. p = code # ident # l1 # l0 # rest")
      case True
      then obtain code ident l1 l0 rest where p: "p = code # ident # l1 # l0 # rest" by blast
      then show ?thesis
        unfolding Input using dispatch_rfc [OF assms(1-4), of s p code ident "take (unat l1 * 256 + unat l0 - HEADERLEN) rest"]
        by (auto simp: fsm_input_def matches_def Let_def)
    next
      case False
      then show ?thesis by (auto simp: Input fsm_input_def matches_def split: list.splits)
    qed
  next
    case (Close reason)
    then show ?thesis using close_rfc [OF assms(1,2), of s reason] by (simp add: implemented_def split: if_splits)
  qed (simp_all add: implemented_def lowerup_rfc lowerdown_rfc open_rfc protreject_rfc assms)
  then show ?thesis unfolding implemented_def .
qed


text \<open>A stack that does nothing but log what it is told, and an automaton waiting for the last Ack.\<close>

definition log_callbacks :: "rfc_action list fsm_callbacks" where
  "log_callbacks = \<lparr>cb_resetci = None, cb_cilen = None, cb_addci = None, cb_ackci = None, cb_nakci = None, cb_rejci = None,
    cb_reqci = None, cb_up = Some (\<lambda>s. s\<lparr>ppp_env := ppp_env s @ [Tlu]\<rparr>), cb_down = Some (\<lambda>s. s\<lparr>ppp_env := ppp_env s @ [Tld]\<rparr>),
    cb_starting = Some (\<lambda>s. s\<lparr>ppp_env := ppp_env s @ [Tls]\<rparr>), cb_finished = Some (\<lambda>s. s\<lparr>ppp_env := ppp_env s @ [Tlf]\<rparr>),
    cb_retransmit = None, cb_extcode = None\<rparr>"

definition lcp_example :: "link_state \<Rightarrow> rfc_action list ppp" where
  "lcp_example x = \<lparr>ppp_fsm = \<lparr>f_protocol = 0xc021, f_state = x, f_flags = 0, f_id = 1, f_reqid = 1, f_seen_ack = False,
    f_timeouttime = 6, f_maxconfreqtransmits = 10, f_retransmits = 2, f_maxtermtransmits = 2, f_nakloops = 0, f_maxnakloops = 5,
    f_term_reason = []\<rparr>, ppp_timer = True, ppp_out = [], peer_mru = 1500, ppp_env = []\<rparr>"

lemma log_callbacks_ok:
  "callbacks_quiet log_callbacks" "callbacks_log (\<lambda>w. w) log_callbacks" "callbacks_answers log_callbacks"
  "callbacks_echo log_callbacks" "plugged log_callbacks Tlu" "plugged log_callbacks Tld"
  by (simp_all add: log_callbacks_def callbacks_quiet_def callbacks_log_def callbacks_answers_def callbacks_echo_def all_callbacks_def
      quiet_def aloof_def logs_def plugged_def)

theorem fsm_follows_rfc1661_witness:
  "st (fsm_do log_callbacks (Input [2, 1, 0, 4]) (lcp_example LS_ACKSENT)) = LS_OPENED \<and>
   ppp_env (fsm_do log_callbacks (Input [2, 1, 0, 4]) (lcp_example LS_ACKSENT)) = [Tlu]"
proof -
  have "classify log_callbacks (Input [2, 1, 0, 4]) (lcp_example LS_ACKSENT) = Some RCA"
    by (simp add: classify_code_def codes lcp_example_def log_callbacks_def HEADERLEN_def)
  then show ?thesis
    using fsm_follows_rfc1661 [OF log_callbacks_ok(1-4), of "lcp_example LS_ACKSENT" "Input [2, 1, 0, 4]"]
    by (simp add: matches_def rfc1661_def lcp_example_def is_packet_def log_callbacks_ok(5))
qed

section \<open>Invariants of a run\<close>

text \<open>The states in which the automaton waits for a packet of the peer.\<close>

definition waiting :: "link_state \<Rightarrow> bool" where
  "waiting x = (x \<in> {LS_CLOSING, LS_STOPPING, LS_REQSENT, LS_ACKRCVD, LS_ACKSENT})"

definition fsm_inv :: "'w ppp \<Rightarrow> bool" where
  "fsm_inv s \<longleftrightarrow> (waiting (st s) \<longrightarrow> ppp_timer s) \<and> (st s = LS_ACKRCVD \<longrightarrow> f_seen_ack (ppp_fsm s))"

lemmas inv_defs = fsm_inv_def waiting_def

lemma lowerup_inv: "callbacks_quiet cb \<Longrightarrow> fsm_inv s \<Longrightarrow> fsm_inv (fsm_lowerup cb s)"
  by (cases "st s") (simp_all add: fsm_lowerup_def inv_defs fsm_simps)

lemma lowerdown_inv: "callbacks_quiet cb \<Longrightarrow> fsm_inv s \<Longrightarrow> fsm_inv (fsm_lowerdown cb s)"
  by (cases "st s") (simp_all add: fsm_lowerdown_def inv_defs fsm_simps)

lemma restart_inv: "callbacks_quiet cb \<Longrightarrow> fsm_inv s \<Longrightarrow> fsm_inv (fsm_restart cb s)"
  by (simp add: fsm_restart_def lowerup_inv lowerdown_inv)

lemma open_inv:
  assumes "callbacks_quiet cb" "fsm_inv s"
  shows "fsm_inv (fsm_open cb s)"
proof -
  have "fsm_inv (set_st LS_STOPPING s)" if "st s = LS_CLOSING" using that assms(2) by (simp add: inv_defs fsm_simps)
  then show ?thesis
    using assms restart_inv [OF assms(1)] by (cases "st s") (simp_all add: fsm_open_def inv_defs fsm_simps)
qed

lemma close_inv: "callbacks_quiet cb \<Longrightarrow> fsm_inv s \<Longrightarrow> fsm_inv (fsm_close cb reason s)"
  by (cases "st s") (simp_all add: fsm_close_def fsm_close_running_def Let_def inv_defs fsm_simps)

lemma protreject_inv: "callbacks_quiet cb \<Longrightarrow> fsm_inv s \<Longrightarrow> fsm_inv (fsm_protreject cb s)"
  by (cases "st s") (simp_all add: fsm_protreject_def inv_defs fsm_simps)

lemma timeout_inv: "callbacks_quiet cb \<Longrightarrow> fsm_inv (fsm_timeout cb s)"
  by (cases "st s")
    (simp_all add: fsm_timeout_def fsm_timeout_term_def fsm_timeout_conf_def Let_def inv_defs fsm_simps)

lemma answer_inv:
  assumes "callbacks_quiet cb" "waiting (st s) \<or> st s = LS_OPENED" "ppp_timer s" "st s = LS_ACKRCVD \<longrightarrow> f_seen_ack (ppp_fsm s)"
  shows "fsm_inv (fsm_answer cb ident inp s)"
proof -
  obtain code inp' s' where "fsm_judge cb inp s = ((code, inp'), s')" by (metis surj_pair)
  then show ?thesis using assms fsm_judge_quiet [OF assms(1)] by (auto simp: fsm_answer_def Let_def inv_defs fsm_simps)
qed

lemma rconfreq_inv:
  assumes "callbacks_quiet cb" "fsm_inv s" "st s \<noteq> LS_INITIAL" "st s \<noteq> LS_STARTING"
  shows "fsm_inv (fsm_rconfreq cb ident inp s)"
proof -
  have "ppp_timer (before_judge cb s)" "st (before_judge cb s) = LS_ACKRCVD \<longrightarrow> f_seen_ack (ppp_fsm (before_judge cb s))"
    "waiting (st (before_judge cb s)) \<or> st (before_judge cb s) = LS_OPENED" if "st s \<noteq> LS_CLOSED"
    using assms that by (cases "st s"; simp add: before_judge_def inv_defs fsm_simps)+
  then show ?thesis
    using assms answer_inv [OF assms(1), of "before_judge cb s" ident inp]
    by (cases "st s") (simp_all add: rconfreq_eq, simp_all add: inv_defs fsm_simps)
qed

lemma acked_inv: "callbacks_quiet cb \<Longrightarrow> fsm_inv s \<Longrightarrow> f_seen_ack (ppp_fsm s) \<Longrightarrow> fsm_inv (fsm_acked cb ident s)"
  by (cases "st s") (simp_all add: fsm_acked_def inv_defs fsm_simps)

lemma nakked_inv: "callbacks_quiet cb \<Longrightarrow> fsm_inv s \<Longrightarrow> fsm_inv (fsm_nakked cb ident ret s)"
  by (cases "st s") (simp_all add: fsm_nakked_def inv_defs fsm_simps)

lemma rtermreq_inv: "callbacks_quiet cb \<Longrightarrow> fsm_inv s \<Longrightarrow> fsm_inv (fsm_rtermreq cb ident s)"
  by (cases "st s") (simp_all add: fsm_rtermreq_def inv_defs fsm_simps)

lemma rtermack_inv: "callbacks_quiet cb \<Longrightarrow> fsm_inv s \<Longrightarrow> fsm_inv (fsm_rtermack cb s)"
  by (cases "st s") (simp_all add: fsm_rtermack_def inv_defs fsm_simps)

lemma rcoderej_inv: "fsm_inv s \<Longrightarrow> fsm_inv (fsm_rcoderej inp s)"
  by (simp add: fsm_rcoderej_def inv_defs fsm_simps)


lemma rconfack_inv:
  assumes "callbacks_quiet cb" "fsm_inv s"
  shows "fsm_inv (fsm_rconfack cb ident inp s)"
proof (cases "ident \<noteq> f_reqid (ppp_fsm s) \<or> f_seen_ack (ppp_fsm s)")
  case False
  obtain ok s1 where r: "ask (map_option (\<lambda>g. g inp) (cb_ackci cb)) (if length inp = 0 then 1 else 0) s = (ok, s1)" by fastforce
  have "fsm_inv s1" "fsm_inv (fsm_set (\<lambda>f. f\<lparr>f_seen_ack := True\<rparr>) s1)"
    using ask_quiet [OF asked_quiet(1) [OF assms(1)] r] assms(2) by (simp_all add: inv_defs fsm_simps)
  then show ?thesis
    using rconfack_eq [OF _ _ r] acked_inv [OF assms(1), of "fsm_set (\<lambda>f. f\<lparr>f_seen_ack := True\<rparr>) s1"] False
    by (simp add: fsm_simps)
qed (simp add: toss_eq assms)

lemma rconfnakrej_inv:
  assumes "callbacks_quiet cb" "fsm_inv s"
  shows "fsm_inv (fsm_rconfnakrej cb code ident inp s)"
proof (cases "ident \<noteq> f_reqid (ppp_fsm s) \<or> f_seen_ack (ppp_fsm s)")
  case False
  obtain ret s1 where r: "ask (map_option (\<lambda>g. g inp) (if code = CONFNAK then cb_nakci cb else cb_rejci cb)) 0 s = (ret, s1)"
    by fastforce
  have "fsm_inv s1" "fsm_inv (fsm_set (\<lambda>f. f\<lparr>f_seen_ack := True\<rparr>) s1)"
    using ask_quiet [OF asked_quiet(2) [OF assms(1)] r] assms(2) by (simp_all add: inv_defs fsm_simps)
  then show ?thesis
    using rconfnakrej_eq [OF _ _ refl r] nakked_inv [OF assms(1)] False by simp
qed (simp add: toss_eq assms)

lemma dispatch_inv:
  assumes "callbacks_quiet cb" "fsm_inv s" "st s \<noteq> LS_INITIAL" "st s \<noteq> LS_STARTING"
  shows "fsm_inv (fsm_dispatch cb p code ident inp s)"
proof -
  obtain known s1 where r: "ask (map_option (\<lambda>g. g code ident inp) (cb_extcode cb)) False s = (known, s1)" by fastforce
  have e: "(case cb_extcode cb of None \<Rightarrow> (False, s) | Some extcode \<Rightarrow> extcode code ident inp s) = (known, s1)"
    using r by (simp add: ask_def split: option.splits)
  have "fsm_inv s1" using ask_aloof [OF asked_quiet(3) [OF assms(1)] r] assms(2) by (simp add: inv_defs)
  then have "fsm_inv (fsm_sdata CODEREJ i d (fsm_set (\<lambda>f. f\<lparr>f_id := f_id f + 1\<rparr>) s1))" for i d
    by (simp add: inv_defs fsm_simps)
  then show ?thesis
    unfolding fsm_dispatch_def e Let_def
    using assms \<open>fsm_inv s1\<close>
    by (simp add: rconfreq_inv rconfack_inv rconfnakrej_inv rtermreq_inv rtermack_inv rcoderej_inv)
qed

lemma input_inv: "callbacks_quiet cb \<Longrightarrow> fsm_inv s \<Longrightarrow> fsm_inv (fsm_input cb p s)"
  by (simp add: fsm_input_def Let_def dispatch_inv split: list.split)

lemma do_inv: "callbacks_quiet cb \<Longrightarrow> fsm_inv s \<Longrightarrow> fsm_inv (fsm_do cb ev s)"
  by (cases ev) (simp_all add: lowerup_inv lowerdown_inv open_inv close_inv protreject_inv timeout_inv input_inv)

lemma reach_inv: "fsm_reach cb s \<Longrightarrow> callbacks_quiet cb \<Longrightarrow> fsm_inv s"
  by (induction rule: fsm_reach.induct) (simp add: inv_defs fsm_init_def fsm_simps, simp add: do_inv, simp add: inv_defs fsm_simps)


text \<open>
  Claim C9. In every state that a run can reach, whatever happens in it: while the automaton waits for the peer, its timer is pending; and
  after our request has been acknowledged, a second Ack, a Nak or a reject is ignored, so
  that the branches of the handlers for these in the state Ack-Rcvd are never taken.
\<close>
theorem fsm_run_invariant:
  assumes "fsm_reach cb s" "callbacks_quiet cb"
  shows "(waiting (st s) \<longrightarrow> ppp_timer s) \<and>
    (st s = LS_ACKRCVD \<longrightarrow> (\<forall>code ident inp. fsm_rconfack cb ident inp s = s \<and> fsm_rconfnakrej cb code ident inp s = s))"
  using reach_inv [OF assms] by (simp add: fsm_inv_def toss_eq)

definition fsm_blank :: "rfc_action list ppp" where
  "fsm_blank = (lcp_example LS_INITIAL)\<lparr>ppp_timer := False\<rparr>"

text \<open>Opening an initialised automaton and bringing the line up leads to the first Configure-Request.\<close>

definition fsm_dialled :: "rfc_action list ppp" where
  "fsm_dialled = fsm_do log_callbacks LowerUp (fsm_do log_callbacks Open (fsm_init fsm_blank))"

lemma fsm_dialled_reach: "fsm_reach log_callbacks fsm_dialled"
  unfolding fsm_dialled_def by (intro fsm_reach.intros) (simp add: fsm_blank_def)

lemma fsm_dialled_simps:
  "st fsm_dialled = LS_REQSENT" "f_retransmits (ppp_fsm fsm_dialled) = 9" "sent fsm_dialled = [1]"
  by (simp_all add: fsm_dialled_def fsm_lowerup_def fsm_open_def fsm_init_def invoke_def log_callbacks_def fsm_blank_def
      lcp_example_def set_st_def fsm_set_def fsm_sconfreq_def fsm_options_def fsm_sdata_def TIMEOUT_def sent_def codes Let_def)

theorem fsm_run_invariant_witness: "ppp_timer fsm_dialled"
  using fsm_run_invariant [OF fsm_dialled_reach log_callbacks_ok(1)] by (simp add: fsm_dialled_simps waiting_def)

section \<open>A silent peer\<close>

text \<open>One timeout while waiting: the request is sent again, or the automaton gives up.\<close>

lemma timeout_gives_up:
  assumes "callbacks_quiet cb" "waiting (st s)" "ppp_timer s" "f_retransmits (ppp_fsm s) \<le> 0"
  shows "st (fsm_do cb Timeout s) = (if st s = LS_CLOSING then LS_CLOSED else LS_STOPPED)"
    "\<not> ppp_timer (fsm_do cb Timeout s)" "sent (fsm_do cb Timeout s) = sent s"
  using assms
  by (cases "st s"; simp add: waiting_def fsm_timeout_def fsm_timeout_term_def fsm_timeout_conf_def Let_def fsm_simps)+

lemma timeout_repeats:
  assumes "callbacks_quiet cb" "waiting (st s)" "ppp_timer s" "f_retransmits (ppp_fsm s) > 0"
  shows "st (fsm_do cb Timeout s) = (if st s = LS_ACKRCVD then LS_REQSENT else st s)"
    "ppp_timer (fsm_do cb Timeout s)" "f_retransmits (ppp_fsm (fsm_do cb Timeout s)) = f_retransmits (ppp_fsm s) - 1"
    "sent (fsm_do cb Timeout s) = sent s @ [if st s = LS_CLOSING \<or> st s = LS_STOPPING then 5 else 1]"
  using assms
  by (cases "st s"; simp add: waiting_def fsm_timeout_def fsm_timeout_term_def fsm_timeout_conf_def Let_def fsm_simps)+

lemma timeouts_end:
  assumes "callbacks_quiet cb" "waiting (st s)" "ppp_timer s" "nat (f_retransmits (ppp_fsm s)) = r"
  shows "st ((fsm_do cb Timeout ^^ Suc r) s) = (if st s = LS_CLOSING then LS_CLOSED else LS_STOPPED) \<and>
    \<not> ppp_timer ((fsm_do cb Timeout ^^ Suc r) s) \<and>
    sent ((fsm_do cb Timeout ^^ Suc r) s) = sent s @ replicate r (if st s = LS_CLOSING \<or> st s = LS_STOPPING then 5 else 1)"
  using assms(2-)
proof (induction r arbitrary: s)
  case 0
  then show ?case using timeout_gives_up [OF assms(1) 0(1,2)] by simp
next
  case (Suc r)
  let ?s = "fsm_do cb Timeout s"
  have pos: "f_retransmits (ppp_fsm s) > 0" using Suc.prems(3) by simp
  note step = timeout_repeats [OF assms(1) Suc.prems(1,2) pos]
  have "waiting (st ?s)" "nat (f_retransmits (ppp_fsm ?s)) = r"
    using Suc.prems pos by (simp_all only: step) (auto simp: waiting_def)
  from Suc.IH [OF this(1) step(2) this(2)] show ?case
    unfolding funpow_Suc_right [of "Suc r"] o_apply step(1,4)
    by (cases "st s") (simp_all del: fsm_do.simps funpow.simps)
qed

text \<open>
  Claim C24. The automaton never waits forever for a peer that does not answer: from any state of a run in which it
  waits, timeouts alone bring it to the state Closed, if it was closing, or Stopped. It sends its
  Terminate-Request or its Configure-Request again once for each retransmission it has left, and no timer is pending then.
\<close>
theorem fsm_silent_peer:
  assumes "fsm_reach cb s" "callbacks_quiet cb" "waiting (st s)" "r = nat (f_retransmits (ppp_fsm s))"
  shows "\<exists>s'. s' = (fsm_do cb Timeout ^^ Suc r) s \<and> st s' = (if st s = LS_CLOSING then LS_CLOSED else LS_STOPPED) \<and>
    \<not> ppp_timer s' \<and> sent s' = sent s @ replicate r (if st s = LS_CLOSING \<or> st s = LS_STOPPING then 5 else 1)"
proof -
  have "ppp_timer s" using reach_inv [OF assms(1,2)] assms(3) by (simp add: fsm_inv_def)
  from timeouts_end [OF assms(2,3) this] show ?thesis using assms(4) by blast
qed

theorem fsm_silent_peer_witness:
  "\<exists>s'. s' = (fsm_do log_callbacks Timeout ^^ 10) fsm_dialled \<and> st s' = LS_STOPPED \<and> sent s' = replicate 10 1"
proof -
  have "replicate 10 (1 :: u8) = [1] @ replicate 9 1" by (simp add: numeral_eq_Suc)
  then show ?thesis
    using fsm_silent_peer [OF fsm_dialled_reach log_callbacks_ok(1), of 9]
    by (simp add: fsm_dialled_simps waiting_def del: funpow.simps replicate.simps fsm_do.simps)
qed


section \<open>Opening the link\<close>

lemma acked_opens:
  "callbacks_quiet cb \<Longrightarrow> st (fsm_acked cb ident s) = LS_OPENED \<longleftrightarrow> st s = LS_ACKSENT"
  by (cases "st s") (simp_all add: fsm_acked_def fsm_simps)

lemma nakked_opens: "callbacks_quiet cb \<Longrightarrow> st s \<noteq> LS_OPENED \<Longrightarrow> st (fsm_nakked cb ident ret s) \<noteq> LS_OPENED"
  by (cases "st s") (simp_all add: fsm_nakked_def fsm_simps)

lemma rconfnakrej_opens:
  assumes "callbacks_quiet cb" "st s \<noteq> LS_OPENED"
  shows "st (fsm_rconfnakrej cb code ident inp s) \<noteq> LS_OPENED"
proof (cases "ident \<noteq> f_reqid (ppp_fsm s) \<or> f_seen_ack (ppp_fsm s)")
  case False
  obtain ret s1 where r: "ask (map_option (\<lambda>g. g inp) (if code = CONFNAK then cb_nakci cb else cb_rejci cb)) 0 s = (ret, s1)"
    by fastforce
  have "st s1 \<noteq> LS_OPENED" using ask_quiet [OF asked_quiet(2) [OF assms(1)] r] assms(2) by simp
  then show ?thesis
    using rconfnakrej_eq [OF _ _ refl r] nakked_opens [OF assms(1), of "fsm_set (\<lambda>f. f\<lparr>f_seen_ack := True\<rparr>) s1"] False
    by (simp add: fsm_simps)
qed (simp add: toss_eq assms)

lemma rconfack_opens:
  assumes "callbacks_quiet cb" "st s \<noteq> LS_OPENED" "st (fsm_rconfack cb ident inp s) = LS_OPENED"
  shows "st s = LS_ACKSENT \<and> ident = f_reqid (ppp_fsm s)"
proof (cases "ident \<noteq> f_reqid (ppp_fsm s) \<or> f_seen_ack (ppp_fsm s)")
  case False
  obtain ok s1 where r: "ask (map_option (\<lambda>g. g inp) (cb_ackci cb)) (if length inp = 0 then 1 else 0) s = (ok, s1)" by fastforce
  show ?thesis
    using ask_quiet [OF asked_quiet(1) [OF assms(1)] r] rconfack_eq [OF _ _ r] False assms acked_opens [OF assms(1)]
    by (auto simp: fsm_simps split: if_splits)
qed (use assms in \<open>simp add: toss_eq\<close>)

lemma rconfreq_opens:
  assumes "callbacks_quiet cb" "st s \<noteq> LS_OPENED" "st (fsm_rconfreq cb ident inp s) = LS_OPENED"
  shows "st s = LS_ACKRCVD \<and> sent (fsm_rconfreq cb ident inp s) = sent s @ [2]"
proof -
  obtain code inp' s' where j: "fsm_judge cb inp (before_judge cb s) = ((code, inp'), s')" by (metis surj_pair)
  have "st (fsm_answer cb ident inp (before_judge cb s)) = LS_OPENED \<Longrightarrow> st (before_judge cb s) = LS_ACKRCVD \<and>
      sent (fsm_answer cb ident inp (before_judge cb s)) = sent (before_judge cb s) @ [2]"
    using assms(1) fsm_judge_quiet [OF assms(1) j]
    by (auto simp: fsm_answer_def j Let_def fsm_simps codes split: if_splits)
  then show ?thesis
    using assms by (cases "st s") (simp_all add: rconfreq_eq fsm_simps before_judge_def)
qed

lemma dispatch_opens:
  assumes "callbacks_quiet cb" "st s \<noteq> LS_OPENED" "st (fsm_dispatch cb p code ident inp s) = LS_OPENED"
  shows "st s = LS_ACKSENT \<and> code = 2 \<and> ident = f_reqid (ppp_fsm s) \<or>
    st s = LS_ACKRCVD \<and> code = 1 \<and> sent (fsm_dispatch cb p code ident inp s) = sent s @ [2]"
proof -
  obtain known s1 where r: "ask (map_option (\<lambda>g. g code ident inp) (cb_extcode cb)) False s = (known, s1)" by fastforce
  have e: "(case cb_extcode cb of None \<Rightarrow> (False, s) | Some extcode \<Rightarrow> extcode code ident inp s) = (known, s1)"
    using r by (simp add: ask_def split: option.splits)
  have "st s1 \<noteq> LS_OPENED" using ask_aloof [OF asked_quiet(3) [OF assms(1)] r] assms(2) by simp
  moreover have "st (fsm_rtermreq cb ident s) \<noteq> LS_OPENED" "st (fsm_rtermack cb s) \<noteq> LS_OPENED" "st (fsm_rcoderej inp s) \<noteq> LS_OPENED"
    using assms(1,2) by (cases "st s"; simp add: fsm_rtermreq_def fsm_rtermack_def fsm_rcoderej_def fsm_simps)+
  moreover have "code = 1" if "uint code = CONFREQ" using that by (simp add: codes word_uint_eq_iff)
  moreover have "code = 2" if "uint code = CONFACK" using that by (simp add: codes word_uint_eq_iff)
  ultimately show ?thesis
    using assms rconfnakrej_opens [OF assms(1,2)] rconfack_opens [OF assms(1,2)] rconfreq_opens [OF assms(1,2)]
    unfolding fsm_dispatch_def e Let_def
    by (auto simp: fsm_simps codes split: if_splits)
qed

text \<open>
  Claim C25. The link opens only after both sides have acknowledged each other's options. Whatever event takes a run to the state
  Opened is a packet: a Configure-Ack with the identifier of our last request, after we have sent a Configure-Ack; or
  a Configure-Request that we answer with a Configure-Ack, after our own request has been
  acknowledged.
\<close>
theorem fsm_opens_after_handshake:
  assumes "fsm_reach cb s" "callbacks_quiet cb" "st s \<noteq> LS_OPENED" "st (fsm_do cb ev s) = LS_OPENED"
  shows "\<exists>code ident rest. ev = Input (code # ident # rest) \<and>
    (st s = LS_ACKSENT \<and> code = 2 \<and> ident = f_reqid (ppp_fsm s) \<or>
     st s = LS_ACKRCVD \<and> f_seen_ack (ppp_fsm s) \<and> code = 1 \<and> sent (fsm_do cb ev s) = sent s @ [2])"
proof (cases ev)
  case (Input p)
  have ack: "st s = LS_ACKRCVD \<Longrightarrow> f_seen_ack (ppp_fsm s)" using reach_inv [OF assms(1,2)] by (simp add: fsm_inv_def)
  show ?thesis
  proof (cases "\<exists>code ident l1 l0 rest. p = code # ident # l1 # l0 # rest")
    case True
    then obtain code ident l1 l0 rest where p: "p = code # ident # l1 # l0 # rest" by blast
    then have e: "fsm_do cb ev s = s \<or> fsm_do cb ev s = fsm_dispatch cb p code ident (take (unat l1 * 256 + unat l0 - HEADERLEN) rest) s"
      by (simp add: Input fsm_input_def Let_def)
    then show ?thesis
      using dispatch_opens [OF assms(2,3), of p code ident "take (unat l1 * 256 + unat l0 - HEADERLEN) rest"] assms(3,4) ack p
      by (auto simp: Input simp del: fsm_do.simps)
  next
    case False
    then show ?thesis using assms(3,4) by (auto simp: Input fsm_input_def split: list.splits)
  qed
next
  case LowerUp then show ?thesis using assms by (cases "st s") (simp_all add: fsm_lowerup_def fsm_simps split: if_splits)
next
  case LowerDown then show ?thesis using assms by (cases "st s") (simp_all add: fsm_lowerdown_def fsm_simps)
next
  case Open then show ?thesis using assms
    by (cases "st s") (simp_all add: fsm_open_def fsm_restart_def fsm_lowerup_def fsm_lowerdown_def fsm_simps split: if_splits)
next
  case (Close r) then show ?thesis using assms
    by (cases "st s") (simp_all add: fsm_close_def fsm_close_running_def Let_def fsm_simps)
next
  case ProtReject then show ?thesis using assms by (cases "st s") (simp_all add: fsm_protreject_def fsm_simps)
next
  case Timeout then show ?thesis using assms
    by (cases "st s") (simp_all add: fsm_timeout_def fsm_timeout_term_def fsm_timeout_conf_def Let_def fsm_simps split: if_splits)
qed


lemmas fsm_eval = fsm_lowerup_def fsm_open_def fsm_init_def invoke_def log_callbacks_def fsm_blank_def lcp_example_def
  set_st_def fsm_set_def fsm_sconfreq_def fsm_options_def fsm_sdata_def TIMEOUT_def UNTIMEOUT_def sent_def codes Let_def HEADERLEN_def
  fsm_input_def fsm_dispatch_def fsm_rconfreq_def fsm_rconfack_def fsm_acked_def fsm_answer_def fsm_judge_def

definition fsm_greeted :: "rfc_action list ppp" where
  "fsm_greeted = fsm_do log_callbacks (Input [1, 7, 0, 4]) fsm_dialled"

lemma fsm_greeted_simps: "st fsm_greeted = LS_ACKSENT" "st (fsm_do log_callbacks (Input [2, 1, 0, 4]) fsm_greeted) = LS_OPENED"
  by (simp_all add: fsm_greeted_def fsm_dialled_def fsm_eval)

theorem fsm_opens_after_handshake_witness: "st fsm_greeted = LS_ACKSENT \<and> f_reqid (ppp_fsm fsm_greeted) = 1"
proof -
  have "fsm_reach log_callbacks fsm_greeted" unfolding fsm_greeted_def by (rule fsm_reach.event [OF fsm_dialled_reach])
  from fsm_opens_after_handshake [OF this log_callbacks_ok(1) _ fsm_greeted_simps(2)] fsm_greeted_simps(1) show ?thesis by auto
qed

section \<open>A Terminate-Ack out of the blue\<close>

text \<open>
  Claim C33. A Terminate-Ack that arrives in the state Opened takes the link down for good without leaving that state.  The
  layer above is told that the link is down and a Configure-Request is sent, but the state stays
  Opened, where the timeout of the request does nothing: after it no timer is pending, the request is not
  repeated, and nothing the automaton does by itself reports the link as up again.  RFC 1661 has it enter
  the state Req-Sent.
\<close>
theorem fsm_termack_strands_link:
  assumes "callbacks_quiet cb" "callbacks_log log cb" "st s = LS_OPENED"
  shows "\<exists>s1 s2. s1 = fsm_do cb (Input [6, ident, 0, 4]) s \<and> s2 = fsm_do cb Timeout s1 \<and>
    st s2 = LS_OPENED \<and> \<not> ppp_timer s2 \<and> log (ppp_env s2) = log (ppp_env s) @ (if cb_down cb = None then [] else [Tld]) \<and> sent s2 = sent s @ [1] \<and>
    (\<forall>n. (fsm_do cb Timeout ^^ n) s2 = s2)"
proof -
  define s1 where "s1 = fsm_do cb (Input [6, ident, 0, 4]) s"
  define s2 where "s2 = fsm_do cb Timeout s1"
  have s1: "s1 = fsm_sconfreq cb False (invoke (cb_down cb) s)"
    using assms(3) by (simp add: s1_def fsm_input_def fsm_dispatch_def fsm_rtermack_def codes HEADERLEN_def)
  have s2: "s2 = s1\<lparr>ppp_timer := False\<rparr>"
    using assms by (simp add: s2_def s1 fsm_timeout_def fsm_simps)
  have "(fsm_do cb Timeout ^^ n) s2 = s2" for n by (induction n) (simp_all add: s2)
  moreover have "st s2 = LS_OPENED \<and> \<not> ppp_timer s2 \<and> log (ppp_env s2) = log (ppp_env s) @ (if cb_down cb = None then [] else [Tld]) \<and> sent s2 = sent s @ [1]"
    using assms by (simp add: s2 s1 fsm_simps plugged_def)
  ultimately show ?thesis using s1_def s2_def by blast
qed

theorem fsm_termack_strands_link_witness:
  "ppp_env (fsm_do log_callbacks Timeout (fsm_do log_callbacks (Input [6, 9, 0, 4]) (lcp_example LS_OPENED))) = [Tld]"
proof -
  have "st (lcp_example LS_OPENED) = LS_OPENED" "ppp_env (lcp_example LS_OPENED) = []" "cb_down log_callbacks \<noteq> None"
    by (simp_all add: lcp_example_def log_callbacks_def)
  then show ?thesis using fsm_termack_strands_link [OF log_callbacks_ok(1,2), of "lcp_example LS_OPENED" 9] by auto
qed

end
