(* ===== verification/Lwip_Pbuf.thy ===== *)
theory Lwip_Pbuf
  imports Lwip_Memp
begin

text \<open>
  Packet buffers: \<open>nsc/lwip-1.3.0/src/core/pbuf.c\<close>, every function of the file, and \<open>struct pbuf\<close> of
  \<open>include/lwip/pbuf.h\<close>.

  A \<open>struct pbuf *\<close> is an address, \<open>NULL\<close> being \<open>None\<close>; \<open>pm_pbuf\<close> holds the structs by address
  and \<open>pm_byte\<close> the octets of the payloads.  The memory comes from the pools of \<open>memp.c\<close> and the
  heap of \<open>mem.c\<close>, whose models are called here.  Following a null pointer is an outcome of its own.
  \<open>LWIP_ERROR\<close> runs its handler, as it does in this port, where the platform's assertion of a
  message never fails.  \<open>SYS_ARCH_PROTECT\<close> is empty without an operating system.  \<open>type\<close> and \<open>layer\<close>
  take only the enumerated values.
\<close>

section \<open>Data\<close>

datatype pbuf_layer = PBUF_TRANSPORT | PBUF_IP | PBUF_LINK | PBUF_RAW

datatype pbuf_type = PBUF_RAM | PBUF_ROM | PBUF_REF | PBUF_POOL

text \<open>\<open>payload\<close> is an address, 0 being \<open>NULL\<close>.\<close>

record pbuf =
  pb_next :: "int option"
  pb_payload :: int
  pb_tot_len :: u16
  pb_len :: u16
  pb_type :: pbuf_type
  pb_flags :: u8
  pb_ref :: u16

record pbuf_conf =
  pc_mem :: mem_conf
  pc_memp :: memp_conf
  MEMP_PBUF :: nat
  MEMP_PBUF_POOL :: nat
  PBUF_LINK_HLEN :: int
  PBUF_POOL_BUFSIZE :: int
  sizeof_pbuf :: int

record pbuf_mem =
  pm_heap :: heap
  pm_memp :: memp_state
  pm_pbuf :: "int \<Rightarrow> pbuf"
  pm_byte :: "int \<Rightarrow> u8"

definition ALIGN_SIZE :: "pbuf_conf \<Rightarrow> int \<Rightarrow> int" where "ALIGN_SIZE c = LWIP_MEM_ALIGN_SIZE (pc_mem c)"

definition SIZEOF_STRUCT_PBUF :: "pbuf_conf \<Rightarrow> int" where
  "SIZEOF_STRUCT_PBUF c = ALIGN_SIZE c (sizeof_pbuf c)"

definition PBUF_POOL_BUFSIZE_ALIGNED :: "pbuf_conf \<Rightarrow> int" where
  "PBUF_POOL_BUFSIZE_ALIGNED c = ALIGN_SIZE c (PBUF_POOL_BUFSIZE c)"

definition PBUF_TRANSPORT_HLEN :: int where "PBUF_TRANSPORT_HLEN = 20"

definition PBUF_IP_HLEN :: int where "PBUF_IP_HLEN = 20"

definition pb :: "int \<Rightarrow> (pbuf \<Rightarrow> pbuf) \<Rightarrow> pbuf_mem \<Rightarrow> pbuf_mem" where
  "pb p f s = s\<lparr>pm_pbuf := (pm_pbuf s)(p := f (pm_pbuf s p))\<rparr>"

text \<open>A loop whose body may fail, and that may not end.\<close>

definition lwip_run :: "'a lwip option \<Rightarrow> 'a lwip" where
  "lwip_run m = (case m of None \<Rightarrow> Inl Hang | Some r \<Rightarrow> r)"

section \<open>Freeing\<close>

text \<open>The memory a pbuf came from.\<close>

definition pbuf_release :: "pbuf_conf \<Rightarrow> pbuf_type \<Rightarrow> int \<Rightarrow> pbuf_mem \<Rightarrow> pbuf_mem lwip" where
  "pbuf_release c typ p s = (case typ of
      PBUF_POOL \<Rightarrow> lwip_bind (memp_free (pc_memp c) (MEMP_PBUF_POOL c) (Some p) (pm_memp s)) (\<lambda>m. Inr (s\<lparr>pm_memp := m\<rparr>))
    | PBUF_ROM \<Rightarrow> lwip_bind (memp_free (pc_memp c) (MEMP_PBUF c) (Some p) (pm_memp s)) (\<lambda>m. Inr (s\<lparr>pm_memp := m\<rparr>))
    | PBUF_REF \<Rightarrow> lwip_bind (memp_free (pc_memp c) (MEMP_PBUF c) (Some p) (pm_memp s)) (\<lambda>m. Inr (s\<lparr>pm_memp := m\<rparr>))
    | PBUF_RAM \<Rightarrow> lwip_bind (mem_free (pc_mem c) (Some p) (pm_heap s)) (\<lambda>h. Inr (s\<lparr>pm_heap := h\<rparr>)))"

partial_function (option) pbuf_free_loop ::
  "pbuf_conf \<Rightarrow> int option \<Rightarrow> u8 \<Rightarrow> pbuf_mem \<Rightarrow> (u8 \<times> pbuf_mem) lwip option" where
  "pbuf_free_loop c p count s = (case p of
      None \<Rightarrow> Some (Inr (count, s))
    | Some p \<Rightarrow>
        if pb_ref (pm_pbuf s p) > 0 then
          (let s = pb p (\<lambda>b. b\<lparr>pb_ref := pb_ref b - 1\<rparr>) s in
           if pb_ref (pm_pbuf s p) = 0 then
             (case pbuf_release c (pb_type (pm_pbuf s p)) p s of
                Inl e \<Rightarrow> Some (Inl e)
              | Inr s' \<Rightarrow> pbuf_free_loop c (pb_next (pm_pbuf s p)) (count + 1) s')
           else Some (Inr (count, s)))
        else Some (Inl (AssertFail ''pbuf_free: p->ref > 0'')))"

definition pbuf_free :: "pbuf_conf \<Rightarrow> int option \<Rightarrow> pbuf_mem \<Rightarrow> (u8 \<times> pbuf_mem) lwip" where
  "pbuf_free c p s = (case p of
      None \<Rightarrow> Inl (AssertFail ''p != NULL'')
    | Some _ \<Rightarrow> lwip_run (pbuf_free_loop c p 0 s))"

section \<open>Allocation\<close>

text \<open>The first switch of \<open>pbuf_alloc\<close>, with its fall-throughs.\<close>

definition pbuf_offset :: "pbuf_conf \<Rightarrow> pbuf_layer \<Rightarrow> int" where
  "pbuf_offset c layer = (case layer of
      PBUF_TRANSPORT \<Rightarrow> PBUF_TRANSPORT_HLEN + PBUF_IP_HLEN + PBUF_LINK_HLEN c
    | PBUF_IP \<Rightarrow> PBUF_IP_HLEN + PBUF_LINK_HLEN c
    | PBUF_LINK \<Rightarrow> PBUF_LINK_HLEN c
    | PBUF_RAW \<Rightarrow> 0)"

definition pool_malloc :: "pbuf_conf \<Rightarrow> nat \<Rightarrow> pbuf_mem \<Rightarrow> (pbuf_mem \<times> int option) lwip" where
  "pool_malloc c t s = lwip_bind (memp_malloc (pc_memp c) t (pm_memp s)) (\<lambda>(m, r). Inr (s\<lparr>pm_memp := m\<rparr>, r))"

definition ram_malloc :: "pbuf_conf \<Rightarrow> int \<Rightarrow> pbuf_mem \<Rightarrow> (pbuf_mem \<times> int option) lwip" where
  "ram_malloc c n s = lwip_bind (mem_malloc (pc_mem c) (mst n) (pm_heap s)) (\<lambda>(h, r). Inr (s\<lparr>pm_heap := h\<rparr>, r))"

text \<open>The loop for the tail of a chain of pool pbufs; \<open>r\<close> is the last pbuf so far, \<open>p\<close> the first.  It returns
  whether it succeeded.\<close>

partial_function (option) pbuf_alloc_tail ::
  "pbuf_conf \<Rightarrow> int \<Rightarrow> int \<Rightarrow> int \<Rightarrow> pbuf_mem \<Rightarrow> (bool \<times> pbuf_mem) lwip option" where
  "pbuf_alloc_tail c p r rem_len s = (if rem_len > 0 then
      (case pool_malloc c (MEMP_PBUF_POOL c) s of
         Inl e \<Rightarrow> Some (Inl e)
       | Inr (s, None) \<Rightarrow> Some (lwip_bind (pbuf_free c (Some p) s) (\<lambda>(_, s). Inr (False, s)))
       | Inr (s, Some q) \<Rightarrow>
           (let s = pb q (\<lambda>b. b\<lparr>pb_type := PBUF_POOL, pb_flags := 0, pb_next := None\<rparr>) s;
                s = pb r (\<lambda>b. b\<lparr>pb_next := Some q\<rparr>) s;
                len = min (rem_len mod 2 ^ 16) (PBUF_POOL_BUFSIZE_ALIGNED c);
                s = pb q (\<lambda>b. b\<lparr>pb_tot_len := word_of_int rem_len, pb_len := word_of_int len,
                      pb_payload := q + SIZEOF_STRUCT_PBUF c, pb_ref := 1\<rparr>) s
            in if \<not> rem_len < 0xffff then Some (Inl (AssertFail ''rem_len < max_u16_t''))
               else if (q + SIZEOF_STRUCT_PBUF c) mod MEM_ALIGNMENT (pc_mem c) \<noteq> 0
               then Some (Inl (AssertFail ''pbuf_alloc: pbuf q->payload properly aligned''))
               else if \<not> pb_payload (pm_pbuf s p) + uint (pb_len (pm_pbuf s p)) \<le> p + SIZEOF_STRUCT_PBUF c + PBUF_POOL_BUFSIZE_ALIGNED c
               then Some (Inl (AssertFail ''check p->payload + p->len does not overflow pbuf''))
               else pbuf_alloc_tail c p q (rem_len - uint (pb_len (pm_pbuf s q))) s))
    else Some (Inr (True, s)))"

definition pbuf_alloc_pool :: "pbuf_conf \<Rightarrow> int \<Rightarrow> u16 \<Rightarrow> pbuf_mem \<Rightarrow> (int option \<times> pbuf_mem) lwip" where
  "pbuf_alloc_pool c offset nbytes s =
    lwip_bind (pool_malloc c (MEMP_PBUF_POOL c) s) (\<lambda>(s, r). case r of
      None \<Rightarrow> Inr (None, s)
    | Some p \<Rightarrow>
        let payload = LWIP_MEM_ALIGN (pc_mem c) (p + (SIZEOF_STRUCT_PBUF c + offset));
            len = word_of_int (min (uint nbytes) (PBUF_POOL_BUFSIZE_ALIGNED c - ALIGN_SIZE c offset));
            s = pb p (\<lambda>b. b\<lparr>pb_type := PBUF_POOL, pb_next := None, pb_payload := payload, pb_tot_len := nbytes,
                  pb_len := len, pb_ref := 1\<rparr>) s
        in lwip_assert ''pbuf_alloc: pbuf p->payload properly aligned'' (payload mod MEM_ALIGNMENT (pc_mem c) = 0) (
           lwip_assert ''check p->payload + p->len does not overflow pbuf''
             (payload + uint len \<le> p + SIZEOF_STRUCT_PBUF c + PBUF_POOL_BUFSIZE_ALIGNED c) (
           lwip_bind (lwip_run (pbuf_alloc_tail c p p (uint nbytes - uint len) s)) (\<lambda>(ok, s).
           if ok then Inr (Some p, pb p (\<lambda>b. b\<lparr>pb_ref := 1, pb_flags := 0\<rparr>) s) else Inr (None, s)))))"

definition pbuf_alloc_ram :: "pbuf_conf \<Rightarrow> int \<Rightarrow> u16 \<Rightarrow> pbuf_mem \<Rightarrow> (int option \<times> pbuf_mem) lwip" where
  "pbuf_alloc_ram c offset nbytes s =
    lwip_bind (ram_malloc c (ALIGN_SIZE c (SIZEOF_STRUCT_PBUF c + offset) + ALIGN_SIZE c (uint nbytes)) s) (\<lambda>(s, r). case r of
      None \<Rightarrow> Inr (None, s)
    | Some p \<Rightarrow>
        let payload = LWIP_MEM_ALIGN (pc_mem c) (p + SIZEOF_STRUCT_PBUF c + offset);
            s = pb p (\<lambda>b. b\<lparr>pb_payload := payload, pb_len := nbytes, pb_tot_len := nbytes, pb_next := None, pb_type := PBUF_RAM\<rparr>) s
        in lwip_assert ''pbuf_alloc: pbuf->payload properly aligned'' (payload mod MEM_ALIGNMENT (pc_mem c) = 0) (
           Inr (Some p, pb p (\<lambda>b. b\<lparr>pb_ref := 1, pb_flags := 0\<rparr>) s)))"

definition pbuf_alloc_ref :: "pbuf_conf \<Rightarrow> pbuf_type \<Rightarrow> u16 \<Rightarrow> pbuf_mem \<Rightarrow> (int option \<times> pbuf_mem) lwip" where
  "pbuf_alloc_ref c typ nbytes s =
    lwip_bind (pool_malloc c (MEMP_PBUF c) s) (\<lambda>(s, r). case r of
      None \<Rightarrow> Inr (None, s)
    | Some p \<Rightarrow>
        let s = pb p (\<lambda>b. b\<lparr>pb_payload := 0, pb_len := nbytes, pb_tot_len := nbytes, pb_next := None, pb_type := typ\<rparr>) s
        in Inr (Some p, pb p (\<lambda>b. b\<lparr>pb_ref := 1, pb_flags := 0\<rparr>) s))"

definition pbuf_alloc :: "pbuf_conf \<Rightarrow> pbuf_layer \<Rightarrow> u16 \<Rightarrow> pbuf_type \<Rightarrow> pbuf_mem \<Rightarrow> (int option \<times> pbuf_mem) lwip" where
  "pbuf_alloc c layer nbytes typ s =
    (let offset = pbuf_offset c layer in
     case typ of
       PBUF_POOL \<Rightarrow> pbuf_alloc_pool c offset nbytes s
     | PBUF_RAM \<Rightarrow> pbuf_alloc_ram c offset nbytes s
     | PBUF_ROM \<Rightarrow> pbuf_alloc_ref c typ nbytes s
     | PBUF_REF \<Rightarrow> pbuf_alloc_ref c typ nbytes s)"

section \<open>References and chains\<close>

definition pbuf_ref :: "int option \<Rightarrow> pbuf_mem \<Rightarrow> pbuf_mem" where
  "pbuf_ref p s = (case p of None \<Rightarrow> s | Some p \<Rightarrow> pb p (\<lambda>b. b\<lparr>pb_ref := pb_ref b + 1\<rparr>) s)"

partial_function (option) pbuf_clen_loop :: "u8 \<Rightarrow> int option \<Rightarrow> pbuf_mem \<Rightarrow> u8 option" where
  "pbuf_clen_loop len p s = (case p of None \<Rightarrow> Some len | Some p \<Rightarrow> pbuf_clen_loop (len + 1) (pb_next (pm_pbuf s p)) s)"

definition pbuf_clen :: "int option \<Rightarrow> pbuf_mem \<Rightarrow> u8 lwip" where
  "pbuf_clen p s = lwip_loop (pbuf_clen_loop 0 p s) Inr"

text \<open>The loop of \<open>pbuf_cat\<close>: to the last pbuf of the chain, which it returns.\<close>

partial_function (option) pbuf_cat_loop :: "int \<Rightarrow> int \<Rightarrow> pbuf_mem \<Rightarrow> (int \<times> pbuf_mem) option" where
  "pbuf_cat_loop t p s = (case pb_next (pm_pbuf s p) of
      None \<Rightarrow> Some (p, s)
    | Some q \<Rightarrow> pbuf_cat_loop t q (pb p (\<lambda>b. b\<lparr>pb_tot_len := pb_tot_len b + pb_tot_len (pm_pbuf s t)\<rparr>) s))"

definition pbuf_cat :: "int option \<Rightarrow> int option \<Rightarrow> pbuf_mem \<Rightarrow> pbuf_mem lwip" where
  "pbuf_cat h t s = (case (h, t) of
      (Some h, Some t) \<Rightarrow> lwip_loop (pbuf_cat_loop t h s) (\<lambda>(p, s).
        lwip_assert ''p->tot_len == p->len (of last pbuf in chain)'' (pb_tot_len (pm_pbuf s p) = pb_len (pm_pbuf s p)) (
        lwip_assert ''p->next == NULL'' (pb_next (pm_pbuf s p) = None) (
        let s = pb p (\<lambda>b. b\<lparr>pb_tot_len := pb_tot_len b + pb_tot_len (pm_pbuf s t)\<rparr>) s
        in Inr (pb p (\<lambda>b. b\<lparr>pb_next := Some t\<rparr>) s))))
    | _ \<Rightarrow> Inr s)"

definition pbuf_chain :: "int option \<Rightarrow> int option \<Rightarrow> pbuf_mem \<Rightarrow> pbuf_mem lwip" where
  "pbuf_chain h t s = lwip_bind (pbuf_cat h t s) (\<lambda>s. Inr (pbuf_ref t s))"

definition pbuf_dechain :: "pbuf_conf \<Rightarrow> int \<Rightarrow> pbuf_mem \<Rightarrow> (int option \<times> pbuf_mem) lwip" where
  "pbuf_dechain c p s = (case pb_next (pm_pbuf s p) of
      None \<Rightarrow> lwip_assert ''p->tot_len == p->len'' (pb_tot_len (pm_pbuf s p) = pb_len (pm_pbuf s p)) (Inr (None, s))
    | Some q \<Rightarrow>
        lwip_assert ''p->tot_len == p->len + q->tot_len''
          (uint (pb_tot_len (pm_pbuf s q)) = uint (pb_tot_len (pm_pbuf s p)) - uint (pb_len (pm_pbuf s p))) (
        let s = pb q (\<lambda>b. b\<lparr>pb_tot_len := pb_tot_len (pm_pbuf s p) - pb_len (pm_pbuf s p)\<rparr>) s;
            s = pb p (\<lambda>b. b\<lparr>pb_next := None, pb_tot_len := pb_len b\<rparr>) s
        in lwip_bind (pbuf_free c (Some q) s) (\<lambda>(tail_gone, s).
           lwip_assert ''p->tot_len == p->len'' (pb_tot_len (pm_pbuf s p) = pb_len (pm_pbuf s p)) (
           Inr (if tail_gone > 0 then None else Some q, s)))))"

section \<open>Lengths\<close>

text \<open>The loop of \<open>pbuf_realloc\<close>: the pbufs that are kept as they are.\<close>

partial_function (option) pbuf_realloc_loop ::
  "u16 \<Rightarrow> int option \<Rightarrow> u16 \<Rightarrow> pbuf_mem \<Rightarrow> (int \<times> u16 \<times> pbuf_mem) lwip option" where
  "pbuf_realloc_loop grow q rem_len s = (case q of
      None \<Rightarrow> Some (Inl NullDeref)
    | Some q \<Rightarrow>
        if rem_len > pb_len (pm_pbuf s q)
        then pbuf_realloc_loop grow (pb_next (pm_pbuf s q)) (rem_len - pb_len (pm_pbuf s q))
               (pb q (\<lambda>b. b\<lparr>pb_tot_len := pb_tot_len b + grow\<rparr>) s)
        else Some (Inr (q, rem_len, s)))"

text \<open>\<open>grow\<close> is negative, so that its assertion holds; its conversion to \<open>u16_t\<close> wraps.\<close>

definition pbuf_realloc :: "pbuf_conf \<Rightarrow> int \<Rightarrow> u16 \<Rightarrow> pbuf_mem \<Rightarrow> pbuf_mem lwip" where
  "pbuf_realloc c p new_len s =
    (if new_len \<ge> pb_tot_len (pm_pbuf s p) then Inr s
     else
       lwip_bind (lwip_run (pbuf_realloc_loop (new_len - pb_tot_len (pm_pbuf s p)) (Some p) new_len s)) (\<lambda>(q, rem_len, s).
       lwip_bind (if pb_type (pm_pbuf s q) = PBUF_RAM \<and> rem_len \<noteq> pb_len (pm_pbuf s q)
           then lwip_bind (mem_realloc (pc_mem c) q (mst (pb_payload (pm_pbuf s q) - q + uint rem_len)) (pm_heap s)) (\<lambda>(h, r).
             lwip_assert ''mem_realloc give q == NULL'' (r \<noteq> None) (Inr (s\<lparr>pm_heap := h\<rparr>)))
           else Inr s) (\<lambda>s.
       let s = pb q (\<lambda>b. b\<lparr>pb_len := rem_len, pb_tot_len := rem_len\<rparr>) s in
       lwip_bind (case pb_next (pm_pbuf s q) of
           None \<Rightarrow> Inr s
         | Some n \<Rightarrow> lwip_bind (pbuf_free c (Some n) s) (\<lambda>(_, s). Inr s)) (\<lambda>s.
       Inr (pb q (\<lambda>b. b\<lparr>pb_next := None\<rparr>) s)))))"

text \<open>\<open>header_size_increment\<close> is an \<open>s16_t\<close>; the result is the status, 0 for success.\<close>

definition pbuf_header :: "pbuf_conf \<Rightarrow> int \<Rightarrow> 16 word \<Rightarrow> pbuf_mem \<Rightarrow> u8 \<times> pbuf_mem" where
  "pbuf_header c p header_size_increment s =
    (let b = pm_pbuf s p; inc = sint header_size_increment; increment_magnitude = \<bar>inc\<bar>;
         moved = pb p (\<lambda>b. b\<lparr>pb_payload := pb_payload b - inc, pb_len := pb_len b + header_size_increment,
           pb_tot_len := pb_tot_len b + header_size_increment\<rparr>) s
     in if inc = 0 then (0, s)
        else if inc < 0 \<and> \<not> increment_magnitude \<le> uint (pb_len b) then (1, s)
        else if pb_type b = PBUF_RAM \<or> pb_type b = PBUF_POOL
        then (if pb_payload b - inc < p + SIZEOF_STRUCT_PBUF c then (1, s) else (0, moved))
        else (if inc < 0 \<and> increment_magnitude \<le> uint (pb_len b) then (0, moved) else (1, s)))"

section \<open>Copying\<close>

definition MEMCPY :: "int \<Rightarrow> int \<Rightarrow> nat \<Rightarrow> pbuf_mem \<Rightarrow> pbuf_mem" where
  "MEMCPY dst src n s =
    s\<lparr>pm_byte := (\<lambda>a. if dst \<le> a \<and> a < dst + int n then pm_byte s (src + (a - dst)) else pm_byte s a)\<rparr>"

datatype err = ERR_OK | ERR_MEM | ERR_RTE | ERR_VAL | ERR_ARG

text \<open>One of the two \<open>LWIP_ERROR\<close> checks against packet queues at the end of the loop.\<close>

definition pbuf_queue :: "int option \<Rightarrow> pbuf_mem \<Rightarrow> bool" where
  "pbuf_queue p s = (case p of None \<Rightarrow> False
    | Some p \<Rightarrow> pb_len (pm_pbuf s p) = pb_tot_len (pm_pbuf s p) \<and> pb_next (pm_pbuf s p) \<noteq> None)"

partial_function (option) pbuf_copy_loop ::
  "int option \<Rightarrow> int \<Rightarrow> u16 \<Rightarrow> u16 \<Rightarrow> pbuf_mem \<Rightarrow> (err \<times> pbuf_mem) lwip option" where
  "pbuf_copy_loop p_to p_from offset_to offset_from s = (case p_to of
      None \<Rightarrow> Some (Inl (AssertFail ''p_to != NULL''))
    | Some t \<Rightarrow>
        let bt = pm_pbuf s t; bf = pm_pbuf s p_from;
            len = (if uint (pb_len bt) - uint offset_to \<ge> uint (pb_len bf) - uint offset_from
                   then pb_len bf - offset_from else pb_len bt - offset_to);
            s = MEMCPY (pb_payload bt + uint offset_to) (pb_payload bf + uint offset_from) (unat len) s;
            offset_to = offset_to + len; offset_from = offset_from + len
        in if \<not> offset_to \<le> pb_len bt then Some (Inl (AssertFail ''offset_to <= p_to->len''))
           else if \<not> offset_from \<le> pb_len bf then Some (Inl (AssertFail ''offset_from <= p_from->len''))
           else let (offset_to, p_to) = (if offset_to = pb_len bt then (0, pb_next bt) else (offset_to, Some t));
                    (offset_from, from) = (if offset_from \<ge> pb_len bf then (0, pb_next bf) else (offset_from, Some p_from))
             in if pbuf_queue from s \<or> pbuf_queue p_to s then Some (Inr (ERR_VAL, s))
                else case from of None \<Rightarrow> Some (Inr (ERR_OK, s)) | Some f \<Rightarrow> pbuf_copy_loop p_to f offset_to offset_from s)"

definition pbuf_copy :: "int option \<Rightarrow> int option \<Rightarrow> pbuf_mem \<Rightarrow> (err \<times> pbuf_mem) lwip" where
  "pbuf_copy p_to p_from s = (case (p_to, p_from) of
      (Some t, Some f) \<Rightarrow>
        if pb_tot_len (pm_pbuf s t) \<ge> pb_tot_len (pm_pbuf s f)
        then lwip_run (pbuf_copy_loop p_to f 0 0 s) else Inr (ERR_ARG, s)
    | _ \<Rightarrow> Inr (ERR_ARG, s))"

partial_function (option) pbuf_copy_partial_loop ::
  "int \<Rightarrow> int option \<Rightarrow> u16 \<Rightarrow> u16 \<Rightarrow> u16 \<Rightarrow> u16 \<Rightarrow> pbuf_mem \<Rightarrow> (u16 \<times> pbuf_mem) option" where
  "pbuf_copy_partial_loop dataptr p len offset left copied_total s = (case p of
      None \<Rightarrow> Some (copied_total, s)
    | Some p \<Rightarrow>
        let b = pm_pbuf s p in
        if len = 0 then Some (copied_total, s)
        else if offset \<noteq> 0 \<and> offset \<ge> pb_len b
        then pbuf_copy_partial_loop dataptr (pb_next b) len (offset - pb_len b) left copied_total s
        else
          let buf_copy_len = pb_len b - offset;
              buf_copy_len = (if buf_copy_len > len then len else buf_copy_len);
              s = MEMCPY (dataptr + uint left) (pb_payload b + uint offset) (unat buf_copy_len) s
          in pbuf_copy_partial_loop dataptr (pb_next b) (len - buf_copy_len) 0 (left + buf_copy_len)
               (copied_total + buf_copy_len) s)"

definition pbuf_copy_partial :: "int option \<Rightarrow> int option \<Rightarrow> u16 \<Rightarrow> u16 \<Rightarrow> pbuf_mem \<Rightarrow> (u16 \<times> pbuf_mem) lwip" where
  "pbuf_copy_partial buf dataptr len offset s = (case (buf, dataptr) of
      (Some p, Some d) \<Rightarrow> lwip_loop (pbuf_copy_partial_loop d (Some p) len offset 0 0 s) Inr
    | _ \<Rightarrow> Inr (0, s))"

end
