(* ===== verification/Ppp_Frame.thy ===== *)
theory Ppp_Frame
  imports Lwip_Pbuf
begin

text \<open>
  PPP over a serial line: the framing of \<open>nsc/lwip-1.3.0/src/netif/ppp/ppp.c\<close>, with the frame check sequence, character
  escaping, output through chains of pool pbufs and the input automaton, in the configuration of \<open>opt.h\<close> (no
  Ethernet, no header compression).

  The state is the control block of the one interface, the packet buffers, the statistics of the link, the octets
  written to the line, the pbufs posted to the thread of the stack and the calls of \<open>pppInput\<close> into the stack and the
  control protocols.  What lies behind the line and behind that thread is an argument: \<open>sio\<close> tells how many octets
  \<open>sio_write\<close> accepts, \<open>post\<close> whether \<open>tcpip_callback\<close> accepts another message; \<open>phase\<close> is
  \<open>lcp_phase\<close>, \<open>ppp_protocols\<close> lists number and enabled flag of the control protocols.  \<open>now\<close> are the
  results of \<open>sys_jiffies\<close>.  Octets to send are read before the frame is built, which makes no difference
  as the frame goes to memory of its own.  The random pool of \<open>magic.c\<close>, which \<open>pppInProc\<close> stirs after each call, is left out, and
  \<open>PPPDEBUG\<close> prints nothing.
\<close>

section \<open>Constants\<close>

definition PPP_ALLSTATIONS :: u8 where "PPP_ALLSTATIONS = 0xff"
definition PPP_UI :: u8 where "PPP_UI = 0x03"
definition PPP_FLAG :: u8 where "PPP_FLAG = 0x7e"
definition PPP_ESCAPE :: u8 where "PPP_ESCAPE = 0x7d"
definition PPP_TRANS :: u8 where "PPP_TRANS = 0x20"
definition PPP_IP :: u16 where "PPP_IP = 0x21"
definition PPP_LCP :: u16 where "PPP_LCP = 0xc021"
definition PPP_PAP :: u16 where "PPP_PAP = 0xc023"
definition PPP_LQR :: u16 where "PPP_LQR = 0xc025"
definition PPP_CHAP :: u16 where "PPP_CHAP = 0xc223"
definition PPP_VJC_COMP :: u16 where "PPP_VJC_COMP = 0x2d"
definition PPP_VJC_UNCOMP :: u16 where "PPP_VJC_UNCOMP = 0x2f"
definition PPP_INITFCS :: u16 where "PPP_INITFCS = 0xffff"
definition PPP_GOODFCS :: u16 where "PPP_GOODFCS = 0xf0b8"
definition PPP_MAXIDLEFLAG :: u64 where "PPP_MAXIDLEFLAG = 100"
definition NUM_PPP :: int where "NUM_PPP = 1"
definition PPPERR_NONE :: int where "PPPERR_NONE = 0"
definition PPPERR_ALLOC :: int where "PPPERR_ALLOC = - 4"

lemmas ppp_octets = PPP_ALLSTATIONS_def PPP_UI_def PPP_FLAG_def PPP_ESCAPE_def PPP_TRANS_def

definition fcstab :: "u16 list" where
  "fcstab =
    [0x0000, 0x1189, 0x2312, 0x329b, 0x4624, 0x57ad, 0x6536, 0x74bf, 0x8c48, 0x9dc1, 0xaf5a, 0xbed3, 0xca6c, 0xdbe5, 0xe97e, 0xf8f7,
     0x1081, 0x0108, 0x3393, 0x221a, 0x56a5, 0x472c, 0x75b7, 0x643e, 0x9cc9, 0x8d40, 0xbfdb, 0xae52, 0xdaed, 0xcb64, 0xf9ff, 0xe876,
     0x2102, 0x308b, 0x0210, 0x1399, 0x6726, 0x76af, 0x4434, 0x55bd, 0xad4a, 0xbcc3, 0x8e58, 0x9fd1, 0xeb6e, 0xfae7, 0xc87c, 0xd9f5,
     0x3183, 0x200a, 0x1291, 0x0318, 0x77a7, 0x662e, 0x54b5, 0x453c, 0xbdcb, 0xac42, 0x9ed9, 0x8f50, 0xfbef, 0xea66, 0xd8fd, 0xc974,
     0x4204, 0x538d, 0x6116, 0x709f, 0x0420, 0x15a9, 0x2732, 0x36bb, 0xce4c, 0xdfc5, 0xed5e, 0xfcd7, 0x8868, 0x99e1, 0xab7a, 0xbaf3,
     0x5285, 0x430c, 0x7197, 0x601e, 0x14a1, 0x0528, 0x37b3, 0x263a, 0xdecd, 0xcf44, 0xfddf, 0xec56, 0x98e9, 0x8960, 0xbbfb, 0xaa72,
     0x6306, 0x728f, 0x4014, 0x519d, 0x2522, 0x34ab, 0x0630, 0x17b9, 0xef4e, 0xfec7, 0xcc5c, 0xddd5, 0xa96a, 0xb8e3, 0x8a78, 0x9bf1,
     0x7387, 0x620e, 0x5095, 0x411c, 0x35a3, 0x242a, 0x16b1, 0x0738, 0xffcf, 0xee46, 0xdcdd, 0xcd54, 0xb9eb, 0xa862, 0x9af9, 0x8b70,
     0x8408, 0x9581, 0xa71a, 0xb693, 0xc22c, 0xd3a5, 0xe13e, 0xf0b7, 0x0840, 0x19c9, 0x2b52, 0x3adb, 0x4e64, 0x5fed, 0x6d76, 0x7cff,
     0x9489, 0x8500, 0xb79b, 0xa612, 0xd2ad, 0xc324, 0xf1bf, 0xe036, 0x18c1, 0x0948, 0x3bd3, 0x2a5a, 0x5ee5, 0x4f6c, 0x7df7, 0x6c7e,
     0xa50a, 0xb483, 0x8618, 0x9791, 0xe32e, 0xf2a7, 0xc03c, 0xd1b5, 0x2942, 0x38cb, 0x0a50, 0x1bd9, 0x6f66, 0x7eef, 0x4c74, 0x5dfd,
     0xb58b, 0xa402, 0x9699, 0x8710, 0xf3af, 0xe226, 0xd0bd, 0xc134, 0x39c3, 0x284a, 0x1ad1, 0x0b58, 0x7fe7, 0x6e6e, 0x5cf5, 0x4d7c,
     0xc60c, 0xd785, 0xe51e, 0xf497, 0x8028, 0x91a1, 0xa33a, 0xb2b3, 0x4a44, 0x5bcd, 0x6956, 0x78df, 0x0c60, 0x1de9, 0x2f72, 0x3efb,
     0xd68d, 0xc704, 0xf59f, 0xe416, 0x90a9, 0x8120, 0xb3bb, 0xa232, 0x5ac5, 0x4b4c, 0x79d7, 0x685e, 0x1ce1, 0x0d68, 0x3ff3, 0x2e7a,
     0xe70e, 0xf687, 0xc41c, 0xd595, 0xa12a, 0xb0a3, 0x8238, 0x93b1, 0x6b46, 0x7acf, 0x4854, 0x59dd, 0x2d62, 0x3ceb, 0x0e70, 0x1ff9,
     0xf78f, 0xe606, 0xd49d, 0xc514, 0xb1ab, 0xa022, 0x92b9, 0x8330, 0x7bc7, 0x6a4e, 0x58d5, 0x495c, 0x3de3, 0x2c6a, 0x1ef1, 0x0f78]"

text \<open>The macro works on an \<open>unsigned int\<close> when sending and on a \<open>u16_t\<close>, which is promoted, when receiving.\<close>

definition PPP_FCS :: "u32 \<Rightarrow> u8 \<Rightarrow> u32" where
  "PPP_FCS fcs c = drop_bit 8 fcs XOR ucast (fcstab ! unat ((fcs XOR ucast c) AND 0xff))"

section \<open>State\<close>

text \<open>An \<open>ext_accm\<close> has 32 octets, one bit for each character.\<close>

type_synonym ext_accm = "nat \<Rightarrow> u8"

definition pppACCMMask :: "u8 list" where "pppACCMMask = [0x01, 0x02, 0x04, 0x08, 0x10, 0x20, 0x40, 0x80]"

definition ESCAPE_P :: "ext_accm \<Rightarrow> u8 \<Rightarrow> bool" where
  "ESCAPE_P accm c \<longleftrightarrow> accm (unat (drop_bit 3 c)) AND pppACCMMask ! unat (c AND 0x07) \<noteq> 0"

datatype PPPDevStates = PDIDLE | PDSTART | PDADDRESS | PDCONTROL | PDPROTOCOL1 | PDPROTOCOL2 | PDDATA

record PPPControl =
  openFlag :: bool
  inHead :: "int option"
  inTail :: "int option"
  inState :: PPPDevStates
  inEscaped :: bool
  inProtocol :: u16
  inFCS :: u16
  pc_mtu :: int
  pcomp :: bool
  accomp :: bool
  lastXMit :: u64
  inACCM :: ext_accm
  outACCM :: ext_accm

datatype link_stat = XMIT | REXMIT | RECV | FW | DROP | CHKERR | LENERR | MEMERR | RTERR | PROTERR | OPTERR | ERR | CACHEHIT

datatype LinkPhase = PHASE_DEAD | PHASE_INITIALIZE | PHASE_ESTABLISH | PHASE_AUTHENTICATE | PHASE_CALLBACK | PHASE_NETWORK | PHASE_TERMINATE

text \<open>The calls into the stack and the control protocols: \<open>netif.input\<close>, the \<open>input\<close> of a protocol and \<open>lcp_sprotrej\<close>.\<close>

datatype upcall = Up_netif int | Up_protocol u16 int "u8 list" | Up_sprotrej int "u8 list"

record ppp_dev =
  dv_mem :: pbuf_mem
  dv_pc :: PPPControl
  dv_stats :: "link_stat \<Rightarrow> u16"
  dv_sent :: "u8 list"
  dv_mbox :: "int list"
  dv_up :: "upcall list"

definition LINK_STATS_INC :: "link_stat \<Rightarrow> ppp_dev \<Rightarrow> ppp_dev" where
  "LINK_STATS_INC x w = w\<lparr>dv_stats := (dv_stats w)(x := dv_stats w x + 1)\<rparr>"

text \<open>Assignments to the control block and to memory, and calls of \<open>pbuf.c\<close>.\<close>

definition pc_set :: "(PPPControl \<Rightarrow> PPPControl) \<Rightarrow> ppp_dev \<Rightarrow> ppp_dev" where
  "pc_set f w = w\<lparr>dv_pc := f (dv_pc w)\<rparr>"

definition mem_set :: "(pbuf_mem \<Rightarrow> pbuf_mem) \<Rightarrow> ppp_dev \<Rightarrow> ppp_dev" where
  "mem_set f w = w\<lparr>dv_mem := f (dv_mem w)\<rparr>"

definition on_mem :: "(pbuf_mem \<Rightarrow> ('a \<times> pbuf_mem) lwip) \<Rightarrow> ppp_dev \<Rightarrow> ('a \<times> ppp_dev) lwip" where
  "on_mem f w = lwip_bind (f (dv_mem w)) (\<lambda>(x, s). Inr (x, w\<lparr>dv_mem := s\<rparr>))"

definition in_mem :: "(pbuf_mem \<Rightarrow> pbuf_mem lwip) \<Rightarrow> ppp_dev \<Rightarrow> ppp_dev lwip" where
  "in_mem f w = lwip_bind (f (dv_mem w)) (\<lambda>s. Inr (w\<lparr>dv_mem := s\<rparr>))"

definition drop_pbuf :: "pbuf_conf \<Rightarrow> int \<Rightarrow> ppp_dev \<Rightarrow> ppp_dev lwip" where
  "drop_pbuf c p w = lwip_bind (on_mem (pbuf_free c (Some p)) w) (\<lambda>(_, w). Inr w)"

text \<open>\<open>((u_char* )p->payload)[p->len++] = x\<close>\<close>

definition store_char :: "int \<Rightarrow> u8 \<Rightarrow> pbuf_mem \<Rightarrow> pbuf_mem" where
  "store_char p x s =
    pb p (\<lambda>b. b\<lparr>pb_len := pb_len b + 1\<rparr>)
      (s\<lparr>pm_byte := (pm_byte s)(pb_payload (pm_pbuf s p) + uint (pb_len (pm_pbuf s p)) := x)\<rparr>)"

definition octets :: "pbuf_mem \<Rightarrow> int \<Rightarrow> nat \<Rightarrow> u8 list" where
  "octets s a n = map (\<lambda>i. pm_byte s (a + int i)) [0..<n]"

section \<open>Configuration of the interface\<close>

text \<open>The fields that \<open>pppOverSerialOpen\<close> sets before it starts the thread of the interface.\<close>

definition ppp_open :: "PPPControl \<Rightarrow> PPPControl" where
  "ppp_open pc = pc\<lparr>openFlag := True, inState := PDIDLE, inHead := None, inTail := None, inEscaped := False, lastXMit := 0,
     inACCM := (\<lambda>_. 0)(15 := 0x60), outACCM := (\<lambda>_. 0)(15 := 0x60)\<rparr>"

definition load_accm :: "u32 \<Rightarrow> ext_accm \<Rightarrow> ext_accm" where
  "load_accm asyncmap accm = (\<lambda>i. if i < 4 then ucast (drop_bit (8 * i) asyncmap AND 0xff) else accm i)"

definition ppp_send_config :: "int \<Rightarrow> u32 \<Rightarrow> bool \<Rightarrow> bool \<Rightarrow> PPPControl \<Rightarrow> PPPControl" where
  "ppp_send_config mtu asyncmap pcompression accompression pc =
    pc\<lparr>pc_mtu := mtu, pcomp := pcompression, accomp := accompression, outACCM := load_accm asyncmap (outACCM pc)\<rparr>"

definition ppp_set_xaccm :: "ext_accm \<Rightarrow> PPPControl \<Rightarrow> PPPControl" where
  "ppp_set_xaccm accm pc = pc\<lparr>outACCM := accm\<rparr>"

definition ppp_recv_config :: "u32 \<Rightarrow> PPPControl \<Rightarrow> PPPControl" where
  "ppp_recv_config asyncmap pc = pc\<lparr>inACCM := load_accm asyncmap (inACCM pc)\<rparr>"

section \<open>Output\<close>

partial_function (option) nPut_loop :: "(u8 list \<Rightarrow> u8 list \<Rightarrow> nat) \<Rightarrow> int option \<Rightarrow> ppp_dev \<Rightarrow> ppp_dev option" where
  "nPut_loop sio b w = (case b of
      None \<Rightarrow> Some w
    | Some b \<Rightarrow>
        let pbuf = pm_pbuf (dv_mem w) b;
            data = octets (dv_mem w) (pb_payload pbuf) (unat (pb_len pbuf));
            c = sio (dv_sent w) data;
            w = w\<lparr>dv_sent := dv_sent w @ take c data\<rparr>
        in if c \<noteq> unat (pb_len pbuf)
           then Some (pc_set (\<lambda>pc. pc\<lparr>lastXMit := 0\<rparr>) (LINK_STATS_INC ERR w))
           else nPut_loop sio (pb_next pbuf) w)"

definition nPut :: "pbuf_conf \<Rightarrow> (u8 list \<Rightarrow> u8 list \<Rightarrow> nat) \<Rightarrow> int \<Rightarrow> ppp_dev \<Rightarrow> ppp_dev lwip" where
  "nPut c sio nb w = lwip_loop (nPut_loop sio (Some nb) w) (\<lambda>w.
    lwip_bind (drop_pbuf c nb w) (\<lambda>w. Inr (LINK_STATS_INC XMIT w)))"

text \<open>The returned pbuf is the one the character went to, or \<open>NULL\<close>.\<close>

definition pppAppend :: "pbuf_conf \<Rightarrow> u8 \<Rightarrow> int option \<Rightarrow> ext_accm option \<Rightarrow> ppp_dev \<Rightarrow> (int option \<times> ppp_dev) lwip" where
  "pppAppend c x nb accm w =
    lwip_bind (case nb of
        None \<Rightarrow> Inr (None, w)
      | Some b \<Rightarrow>
          if PBUF_POOL_BUFSIZE c - uint (pb_len (pm_pbuf (dv_mem w) b)) < 2 then
            lwip_bind (on_mem (pbuf_alloc c PBUF_RAW 0 PBUF_POOL) w) (\<lambda>(tb, w). case tb of
                Some t \<Rightarrow> Inr (Some t, mem_set (pb b (\<lambda>b. b\<lparr>pb_next := Some t\<rparr>)) w)
              | None \<Rightarrow> Inr (None, LINK_STATS_INC MEMERR w))
          else Inr (Some b, w)) (\<lambda>(nb, w).
    Inr (nb, case nb of
        None \<Rightarrow> w
      | Some b \<Rightarrow>
          (case accm of
             None \<Rightarrow> mem_set (store_char b x) w
           | Some accm \<Rightarrow>
               if ESCAPE_P accm x then mem_set (store_char b (x XOR PPP_TRANS)) (mem_set (store_char b PPP_ESCAPE) w)
               else mem_set (store_char b x) w)))"

text \<open>The loops over the octets to send.  Each updates the check sequence before the octet is escaped.\<close>

fun ppp_load :: "pbuf_conf \<Rightarrow> u8 list \<Rightarrow> u32 \<Rightarrow> int option \<Rightarrow> ppp_dev \<Rightarrow> (u32 \<times> int option \<times> ppp_dev) lwip" where
  "ppp_load c [] fcsOut tailMB w = Inr (fcsOut, tailMB, w)"
| "ppp_load c (x # xs) fcsOut tailMB w =
    lwip_bind (pppAppend c x tailMB (Some (outACCM (dv_pc w))) w) (\<lambda>(tailMB, w). ppp_load c xs (PPP_FCS fcsOut x) tailMB w)"

text \<open>The flag that flushes the line when it has been idle.\<close>

definition ppp_idle_flag :: "pbuf_conf \<Rightarrow> u32 \<times> u32 \<Rightarrow> int \<Rightarrow> ppp_dev \<Rightarrow> (int option \<times> ppp_dev) lwip" where
  "ppp_idle_flag c now headMB w =
    lwip_bind (if ucast (fst now) - lastXMit (dv_pc w) \<ge> PPP_MAXIDLEFLAG then pppAppend c PPP_FLAG (Some headMB) None w
               else Inr (Some headMB, w)) (\<lambda>(tailMB, w).
    Inr (tailMB, pc_set (\<lambda>pc. pc\<lparr>lastXMit := ucast (snd now)\<rparr>) w))"

text \<open>The check sequence, low octet first, and the flag.\<close>

definition ppp_trailer :: "pbuf_conf \<Rightarrow> u32 \<Rightarrow> int option \<Rightarrow> ppp_dev \<Rightarrow> (int option \<times> ppp_dev) lwip" where
  "ppp_trailer c fcsOut tailMB w =
    lwip_bind (pppAppend c (ucast (NOT fcsOut AND 0xff)) tailMB (Some (outACCM (dv_pc w))) w) (\<lambda>(tailMB, w).
    lwip_bind (pppAppend c (ucast (drop_bit 8 (NOT fcsOut) AND 0xff)) tailMB (Some (outACCM (dv_pc w))) w) (\<lambda>(tailMB, w).
    pppAppend c PPP_FLAG tailMB None w))"

definition pppWrite :: "pbuf_conf \<Rightarrow> (u8 list \<Rightarrow> u8 list \<Rightarrow> nat) \<Rightarrow> u32 \<times> u32 \<Rightarrow> u8 list \<Rightarrow> ppp_dev \<Rightarrow> (int \<times> ppp_dev) lwip" where
  "pppWrite c sio now s w =
    lwip_bind (on_mem (pbuf_alloc c PBUF_RAW 0 PBUF_POOL) w) (\<lambda>(headMB, w). case headMB of
      None \<Rightarrow> Inr (PPPERR_ALLOC, LINK_STATS_INC PROTERR (LINK_STATS_INC MEMERR w))
    | Some headMB \<Rightarrow>
        lwip_bind (ppp_idle_flag c now headMB w) (\<lambda>(tailMB, w).
        lwip_bind (ppp_load c s (ucast PPP_INITFCS) tailMB w) (\<lambda>(fcsOut, tailMB, w).
        lwip_bind (ppp_trailer c fcsOut tailMB w) (\<lambda>(tailMB, w).
        case tailMB of
          None \<Rightarrow> lwip_bind (drop_pbuf c headMB w) (\<lambda>w. Inr (PPPERR_ALLOC, LINK_STATS_INC PROTERR (LINK_STATS_INC MEMERR w)))
        | Some _ \<Rightarrow> lwip_bind (nPut c sio headMB w) (\<lambda>w. Inr (PPPERR_NONE, w))))))"

text \<open>The loop of \<open>pppifOutput\<close> over the pbufs of a packet.\<close>

partial_function (option) ppp_load_chain ::
  "pbuf_conf \<Rightarrow> int option \<Rightarrow> u32 \<Rightarrow> int option \<Rightarrow> ppp_dev \<Rightarrow> (u32 \<times> int option \<times> ppp_dev) lwip option" where
  "ppp_load_chain c p fcsOut tailMB w = (case p of
      None \<Rightarrow> Some (Inr (fcsOut, tailMB, w))
    | Some p \<Rightarrow>
        let b = pm_pbuf (dv_mem w) p
        in (case ppp_load c (octets (dv_mem w) (pb_payload b) (unat (pb_len b))) fcsOut tailMB w of
              Inl e \<Rightarrow> Some (Inl e)
            | Inr (fcsOut, tailMB, w) \<Rightarrow> ppp_load_chain c (pb_next (pm_pbuf (dv_mem w) p)) fcsOut tailMB w))"

text \<open>The address, control and protocol fields, compressed as the peer accepts it.\<close>

definition ppp_header :: "PPPControl \<Rightarrow> u16 \<Rightarrow> u8 list" where
  "ppp_header pc protocol =
    (if \<not> accomp pc then [PPP_ALLSTATIONS, PPP_UI] else []) @
    (if \<not> pcomp pc \<or> protocol > 0xff then [ucast (drop_bit 8 protocol AND 0xff)] else []) @
    [ucast (protocol AND 0xff)]"

definition pppifOutput ::
  "pbuf_conf \<Rightarrow> (u8 list \<Rightarrow> u8 list \<Rightarrow> nat) \<Rightarrow> u32 \<times> u32 \<Rightarrow> bool \<Rightarrow> int \<Rightarrow> int option \<Rightarrow> ppp_dev \<Rightarrow> (err \<times> ppp_dev) lwip" where
  "pppifOutput c sio now phase_dead pd packet w =
    (if pd < 0 \<or> pd \<ge> NUM_PPP \<or> \<not> openFlag (dv_pc w) \<or> packet = None
     then Inr (ERR_ARG, LINK_STATS_INC DROP (LINK_STATS_INC OPTERR w))
     else if phase_dead then Inr (ERR_RTE, LINK_STATS_INC DROP (LINK_STATS_INC RTERR w))
     else lwip_bind (on_mem (pbuf_alloc c PBUF_RAW 0 PBUF_POOL) w) (\<lambda>(headMB, w). case headMB of
       None \<Rightarrow> Inr (ERR_MEM, LINK_STATS_INC DROP (LINK_STATS_INC MEMERR w))
     | Some headMB \<Rightarrow>
         lwip_bind (ppp_idle_flag c now headMB w) (\<lambda>(tailMB, w).
         lwip_bind (ppp_load c (ppp_header (dv_pc w) PPP_IP) (ucast PPP_INITFCS) tailMB w) (\<lambda>(fcsOut, tailMB, w).
         lwip_bind (lwip_run (ppp_load_chain c packet fcsOut tailMB w)) (\<lambda>(fcsOut, tailMB, w).
         lwip_bind (ppp_trailer c fcsOut tailMB w) (\<lambda>(tailMB, w).
         case tailMB of
           None \<Rightarrow> lwip_bind (drop_pbuf c headMB w) (\<lambda>w. Inr (ERR_MEM, LINK_STATS_INC DROP (LINK_STATS_INC MEMERR w)))
         | Some _ \<Rightarrow> lwip_bind (nPut c sio headMB w) (\<lambda>w. Inr (ERR_OK, w))))))))"

section \<open>Input\<close>

definition pppDrop :: "pbuf_conf \<Rightarrow> ppp_dev \<Rightarrow> ppp_dev lwip" where
  "pppDrop c w =
    lwip_bind (case inHead (dv_pc w) of
        None \<Rightarrow> Inr w
      | Some h \<Rightarrow>
          lwip_bind (case inTail (dv_pc w) of
              None \<Rightarrow> Inr w
            | Some t \<Rightarrow> if t \<noteq> h then drop_pbuf c t w else Inr w) (\<lambda>w.
          lwip_bind (drop_pbuf c h w) (\<lambda>w. Inr (pc_set (\<lambda>pc. pc\<lparr>inHead := None, inTail := None\<rparr>) w)))) (\<lambda>w.
    Inr (LINK_STATS_INC DROP w))"

text \<open>The last pbuf gets its total length and joins the others.  The code does this in three places.\<close>

definition ppp_join :: "int \<Rightarrow> ppp_dev \<Rightarrow> ppp_dev lwip" where
  "ppp_join t w =
    (let w = mem_set (pb t (\<lambda>b. b\<lparr>pb_tot_len := pb_len b\<rparr>)) w
     in if inHead (dv_pc w) \<noteq> Some t then in_mem (pbuf_cat (inHead (dv_pc w)) (Some t)) w else Inr w)"

text \<open>A complete packet: the check sequence is trimmed off and the packet is passed on.\<close>

definition ppp_deliver :: "pbuf_conf \<Rightarrow> (int list \<Rightarrow> bool) \<Rightarrow> ppp_dev \<Rightarrow> ppp_dev lwip" where
  "ppp_deliver c post w = (case inTail (dv_pc w) of
      None \<Rightarrow> Inl NullDeref
    | Some t \<Rightarrow>
        lwip_bind (if pb_len (pm_pbuf (dv_mem w) t) \<ge> 2
            then ppp_join t (mem_set (pb t (\<lambda>b. b\<lparr>pb_len := pb_len b - 2\<rparr>)) w)
            else lwip_bind (ppp_join t w) (\<lambda>w. case inHead (dv_pc w) of
                None \<Rightarrow> Inl NullDeref
              | Some h \<Rightarrow> in_mem (pbuf_realloc c h (pb_tot_len (pm_pbuf (dv_mem w) h) - 2)) w)) (\<lambda>w.
        lwip_bind (case inHead (dv_pc w) of
            None \<Rightarrow> Inl NullDeref
          | Some h \<Rightarrow>
              if post (dv_mbox w) then Inr (w\<lparr>dv_mbox := dv_mbox w @ [h]\<rparr>)
              else lwip_bind (drop_pbuf c h w) (\<lambda>w. Inr (LINK_STATS_INC DROP w))) (\<lambda>w.
        Inr (pc_set (\<lambda>pc. pc\<lparr>inHead := None, inTail := None\<rparr>) w))))"

definition ppp_flag :: "pbuf_conf \<Rightarrow> (int list \<Rightarrow> bool) \<Rightarrow> ppp_dev \<Rightarrow> ppp_dev lwip" where
  "ppp_flag c post w =
    lwip_bind (if inState (dv_pc w) \<in> {PDIDLE, PDSTART, PDADDRESS} then Inr w
       else if inState (dv_pc w) \<noteq> PDDATA then pppDrop c (LINK_STATS_INC LENERR w)
       else if inFCS (dv_pc w) \<noteq> PPP_GOODFCS then pppDrop c (LINK_STATS_INC CHKERR w)
       else ppp_deliver c post w) (\<lambda>w.
    Inr (pc_set (\<lambda>pc. pc\<lparr>inFCS := PPP_INITFCS, inState := PDADDRESS, inEscaped := False\<rparr>) w))"

text \<open>The cases of the switch for the header fields, which fall through from one to the next.\<close>

definition in_protocol1 :: "u8 \<Rightarrow> PPPControl \<Rightarrow> PPPControl" where
  "in_protocol1 x pc = (if x AND 1 \<noteq> 0 then pc\<lparr>inProtocol := ucast x, inState := PDDATA\<rparr>
     else pc\<lparr>inProtocol := push_bit 8 (ucast x), inState := PDPROTOCOL2\<rparr>)"

definition in_control :: "u8 \<Rightarrow> PPPControl \<Rightarrow> PPPControl" where
  "in_control x pc = (if x = PPP_UI then pc\<lparr>inState := PDPROTOCOL1\<rparr> else in_protocol1 x pc)"

definition in_address :: "u8 \<Rightarrow> PPPControl \<Rightarrow> PPPControl" where
  "in_address x pc = (if x = PPP_ALLSTATIONS then pc\<lparr>inState := PDCONTROL\<rparr> else in_control x pc)"

definition in_start :: "u8 \<Rightarrow> PPPControl \<Rightarrow> PPPControl" where
  "in_start x pc = in_address x (pc\<lparr>inFCS := PPP_INITFCS\<rparr>)"

definition in_idle :: "u8 \<Rightarrow> PPPControl \<Rightarrow> PPPControl" where
  "in_idle x pc = (if x \<noteq> PPP_ALLSTATIONS then pc else in_start x pc)"

text \<open>The header that passes unit and protocol on to \<open>pppInput\<close>, in front of the data of the first pbuf: an \<open>int\<close>, a \<open>u16_t\<close>
  and two octets of padding.\<close>

definition pih_octet :: "int \<Rightarrow> u16 \<Rightarrow> nat \<Rightarrow> u8" where
  "pih_octet pd proto i =
    (if i < 4 then ucast (drop_bit (8 * i) (word_of_int pd :: u32)) else ucast (drop_bit (8 * (i - 4)) proto))"

definition store_pih :: "int \<Rightarrow> int \<Rightarrow> u16 \<Rightarrow> pbuf_mem \<Rightarrow> pbuf_mem" where
  "store_pih p pd proto s =
    pb p (\<lambda>b. b\<lparr>pb_len := pb_len b + 8\<rparr>)
      (s\<lparr>pm_byte := (\<lambda>a. let i = a - pb_payload (pm_pbuf s p) in if 0 \<le> i \<and> i < 6 then pih_octet pd proto (nat i) else pm_byte s a)\<rparr>)"

text \<open>The case \<open>PDDATA\<close>.\<close>

definition ppp_data :: "pbuf_conf \<Rightarrow> int \<Rightarrow> u8 \<Rightarrow> ppp_dev \<Rightarrow> ppp_dev lwip" where
  "ppp_data c pd x w =
    (let full = (case inTail (dv_pc w) of None \<Rightarrow> True
         | Some t \<Rightarrow> uint (pb_len (pm_pbuf (dv_mem w) t)) = PBUF_POOL_BUFSIZE c)
     in if full then
       lwip_bind (case inTail (dv_pc w) of None \<Rightarrow> Inr w | Some t \<Rightarrow> ppp_join t w) (\<lambda>w.
       lwip_bind (on_mem (pbuf_alloc c PBUF_RAW 0 PBUF_POOL) w) (\<lambda>(nextNBuf, w). case nextNBuf of
         None \<Rightarrow> lwip_bind (pppDrop c (LINK_STATS_INC MEMERR w)) (\<lambda>w. Inr (pc_set (\<lambda>pc. pc\<lparr>inState := PDSTART\<rparr>) w))
       | Some n \<Rightarrow>
           let w = (if inHead (dv_pc w) = None
                    then pc_set (\<lambda>pc. pc\<lparr>inHead := Some n\<rparr>) (mem_set (store_pih n pd (inProtocol (dv_pc w))) w) else w);
               w = pc_set (\<lambda>pc. pc\<lparr>inTail := Some n\<rparr>) w
           in Inr (mem_set (store_char n x) w)))
     else case inTail (dv_pc w) of None \<Rightarrow> Inl NullDeref | Some t \<Rightarrow> Inr (mem_set (store_char t x) w))"

text \<open>An octet that is not special, and the octet of the line.\<close>

definition ppp_octet :: "pbuf_conf \<Rightarrow> int \<Rightarrow> u8 \<Rightarrow> ppp_dev \<Rightarrow> ppp_dev lwip" where
  "ppp_octet c pd x w =
    (let (x, w) = (if inEscaped (dv_pc w) then (x XOR PPP_TRANS, pc_set (\<lambda>pc. pc\<lparr>inEscaped := False\<rparr>) w) else (x, w))
     in lwip_bind (case inState (dv_pc w) of
          PDIDLE \<Rightarrow> Inr (pc_set (in_idle x) w)
        | PDSTART \<Rightarrow> Inr (pc_set (in_start x) w)
        | PDADDRESS \<Rightarrow> Inr (pc_set (in_address x) w)
        | PDCONTROL \<Rightarrow> Inr (pc_set (in_control x) w)
        | PDPROTOCOL1 \<Rightarrow> Inr (pc_set (in_protocol1 x) w)
        | PDPROTOCOL2 \<Rightarrow> Inr (pc_set (\<lambda>pc. pc\<lparr>inProtocol := inProtocol pc OR ucast x, inState := PDDATA\<rparr>) w)
        | PDDATA \<Rightarrow> ppp_data c pd x w) (\<lambda>w.
        Inr (pc_set (\<lambda>pc. pc\<lparr>inFCS := ucast (PPP_FCS (ucast (inFCS pc)) x)\<rparr>) w)))"

definition ppp_char :: "pbuf_conf \<Rightarrow> (int list \<Rightarrow> bool) \<Rightarrow> int \<Rightarrow> u8 \<Rightarrow> ppp_dev \<Rightarrow> ppp_dev lwip" where
  "ppp_char c post pd x w =
    (if ESCAPE_P (inACCM (dv_pc w)) x then
       (if x = PPP_ESCAPE then Inr (pc_set (\<lambda>pc. pc\<lparr>inEscaped := True\<rparr>) w)
        else if x = PPP_FLAG then ppp_flag c post w
        else Inr w)
     else ppp_octet c pd x w)"

fun pppInProc :: "pbuf_conf \<Rightarrow> (int list \<Rightarrow> bool) \<Rightarrow> int \<Rightarrow> u8 list \<Rightarrow> ppp_dev \<Rightarrow> ppp_dev lwip" where
  "pppInProc c post pd [] w = Inr w"
| "pppInProc c post pd (x # xs) w = lwip_bind (ppp_char c post pd x w) (pppInProc c post pd xs)"

section \<open>Packets from the line to their handlers\<close>

text \<open>One pbuf with the octets of a chain, if there is memory for it.\<close>

partial_function (option) pppSingleBuf_loop :: "int option \<Rightarrow> int \<Rightarrow> pbuf_mem \<Rightarrow> pbuf_mem option" where
  "pppSingleBuf_loop b pl s = (case b of
      None \<Rightarrow> Some s
    | Some b \<Rightarrow>
        let n = unat (pb_len (pm_pbuf s b)); s = MEMCPY pl (pb_payload (pm_pbuf s b)) n s
        in pppSingleBuf_loop (pb_next (pm_pbuf s b)) (pl + int n) s)"

definition pppSingleBuf :: "pbuf_conf \<Rightarrow> int \<Rightarrow> pbuf_mem \<Rightarrow> (int \<times> pbuf_mem) lwip" where
  "pppSingleBuf c p s =
    (if pb_tot_len (pm_pbuf s p) = pb_len (pm_pbuf s p) then Inr (p, s)
     else lwip_bind (pbuf_alloc c PBUF_RAW (pb_tot_len (pm_pbuf s p)) PBUF_RAM s) (\<lambda>(q, s). case q of
         None \<Rightarrow> Inr (p, s)
       | Some q \<Rightarrow> lwip_loop (pppSingleBuf_loop (Some p) (pb_payload (pm_pbuf s q)) s) (\<lambda>s.
           lwip_bind (pbuf_free c (Some p) s) (\<lambda>(_, s). Inr (q, s)))))"

text \<open>The fields of the header that \<open>pppInProc\<close> put in front.\<close>

definition pih_unit :: "pbuf_mem \<Rightarrow> int \<Rightarrow> int" where
  "pih_unit s a = sint (ucast (pm_byte s a) OR push_bit 8 (ucast (pm_byte s (a + 1))) OR
     push_bit 16 (ucast (pm_byte s (a + 2))) OR push_bit 24 (ucast (pm_byte s (a + 3))) :: u32)"

definition pih_proto :: "pbuf_mem \<Rightarrow> int \<Rightarrow> u16" where
  "pih_proto s a = ucast (pm_byte s (a + 4)) OR push_bit 8 (ucast (pm_byte s (a + 5)))"

text \<open>The packets that are discarded before the network phase.\<close>

definition ppp_discards :: "LinkPhase \<Rightarrow> u16 \<Rightarrow> bool" where
  "ppp_discards phase protocol \<longleftrightarrow>
     phase \<in> {PHASE_DEAD, PHASE_INITIALIZE, PHASE_ESTABLISH, PHASE_AUTHENTICATE} \<and> protocol \<noteq> PPP_LCP \<and>
     (\<not> (protocol = PPP_LQR \<or> protocol = PPP_PAP \<or> protocol = PPP_CHAP) \<or> phase \<noteq> PHASE_AUTHENTICATE)"

text \<open>The end of the function: \<open>drop\<close> counts the packet, \<open>out\<close> frees it.\<close>

definition ppp_out :: "pbuf_conf \<Rightarrow> int \<Rightarrow> ppp_dev \<Rightarrow> ppp_dev lwip" where
  "ppp_out c nb w = drop_pbuf c nb w"

definition ppp_drop_out :: "pbuf_conf \<Rightarrow> int \<Rightarrow> ppp_dev \<Rightarrow> ppp_dev lwip" where
  "ppp_drop_out c nb w = ppp_out c nb (LINK_STATS_INC DROP w)"

definition ppp_up :: "upcall \<Rightarrow> ppp_dev \<Rightarrow> ppp_dev" where
  "ppp_up u w = w\<lparr>dv_up := dv_up w @ [u]\<rparr>"

definition ppp_protrej :: "pbuf_conf \<Rightarrow> int \<Rightarrow> u16 \<Rightarrow> int \<Rightarrow> ppp_dev \<Rightarrow> ppp_dev lwip" where
  "ppp_protrej c pd protocol nb w =
    (let (r, s) = pbuf_header c nb 2 (dv_mem w) in
     if r \<noteq> 0 then Inl (AssertFail ''pbuf_header failed'')
     else
       let a = pb_payload (pm_pbuf s nb);
           s = s\<lparr>pm_byte := (pm_byte s)(a := ucast (drop_bit 8 protocol), a + 1 := ucast protocol)\<rparr>;
           w = w\<lparr>dv_mem := s\<rparr>
       in ppp_drop_out c nb (ppp_up (Up_sprotrej pd (octets s a (unat (pb_len (pm_pbuf s nb))))) w))"

definition pppInput :: "pbuf_conf \<Rightarrow> LinkPhase \<Rightarrow> bool \<Rightarrow> (u16 \<times> bool) list \<Rightarrow> int \<Rightarrow> ppp_dev \<Rightarrow> ppp_dev lwip" where
  "pppInput c phase netif_input ppp_protocols nb w =
    (let a = pb_payload (pm_pbuf (dv_mem w) nb); pd = pih_unit (dv_mem w) a; protocol = pih_proto (dv_mem w) a;
         (r, s) = pbuf_header c nb (- 8) (dv_mem w)
     in if r \<noteq> 0 then Inl (AssertFail ''pbuf_header failed'')
     else
       let w = LINK_STATS_INC RECV (w\<lparr>dv_mem := s\<rparr>)
       in if ppp_discards phase protocol then ppp_drop_out c nb w
       else if protocol = PPP_VJC_COMP \<or> protocol = PPP_VJC_UNCOMP then ppp_drop_out c nb w
       else if protocol = PPP_IP then
         (if netif_input then Inr (ppp_up (Up_netif nb) w) else ppp_drop_out c nb w)
       else if (protocol, True) \<in> set ppp_protocols then
         lwip_bind (on_mem (\<lambda>s. pppSingleBuf c nb s) w) (\<lambda>(nb, w).
         let b = pm_pbuf (dv_mem w) nb
         in ppp_out c nb (ppp_up (Up_protocol protocol pd (octets (dv_mem w) (pb_payload b) (unat (pb_len b)))) w))
       else ppp_protrej c pd protocol nb w)"

end
