(* ===== verification/Ppp_Fcs.thy ===== *)
theory Ppp_Fcs
  imports Ppp_Frame
begin

text \<open>
  The frame check sequence: the table-driven macro of \<open>ppp.c\<close> computes the cyclic redundancy check of RFC 1662 bit by
  bit, the transmitted complement leaves the constant that the receiver compares with, and one changed octet is always
  noticed.
\<close>

section \<open>The check sequence bit by bit\<close>

definition crc_step :: "u16 \<Rightarrow> u16" where
  "crc_step x = (if bit x 0 then drop_bit 1 x XOR 0x8408 else drop_bit 1 x)"

definition crc_octet :: "u16 \<Rightarrow> u8 \<Rightarrow> u16" where
  "crc_octet f x = (crc_step ^^ 8) (f XOR ucast x)"

lemma crc_step_xor: "crc_step (a XOR b) = crc_step a XOR crc_step b"
proof -
  have "drop_bit 1 (a XOR b) = drop_bit 1 a XOR drop_bit 1 b" by (simp add: drop_bit_xor)
  then show ?thesis by (simp add: crc_step_def bit_xor_iff ac_simps)
qed

lemma crc_steps_xor: "(crc_step ^^ n) (a XOR b) = (crc_step ^^ n) a XOR (crc_step ^^ n) b"
  by (induction n) (simp_all add: crc_step_xor)

text \<open>Zero bits are only shifted out.\<close>

lemma crc_steps_zeros: "(\<forall>i<n. \<not> bit x i) \<Longrightarrow> (crc_step ^^ n) x = drop_bit n x"
proof (induction n arbitrary: x)
  case (Suc n)
  then have "crc_step x = drop_bit 1 x" by (simp add: crc_step_def)
  moreover have "\<forall>i<n. \<not> bit (drop_bit 1 x) i" using Suc.prems by (simp add: bit_drop_bit_eq)
  ultimately show ?case using Suc.IH [of "drop_bit 1 x"] by (simp add: funpow_swap1 drop_bit_drop_bit)
qed simp

text \<open>A table for \<open>n + 1\<close> bits from the one for \<open>n\<close> bits.\<close>

definition crc_table :: "nat \<Rightarrow> u16 list" where
  "crc_table n = map (\<lambda>i. (crc_step ^^ 8) (of_nat i)) [0..<2 ^ n]"

lemma crc_table_Suc:
  assumes "n < 8"
  shows "crc_table (Suc n) = crc_table n @ map (\<lambda>x. x XOR (crc_step ^^ 8) (2 ^ n)) (crc_table n)"
proof -
  have split: "(of_nat (2 ^ n + i) :: u16) = of_nat i XOR 2 ^ n" if "i < 2 ^ n" for i
  proof -
    have "\<not> bit (of_nat i :: u16) n" using that by (simp add: bit_simps bit_iff_odd [where ?'a = nat])
    then have "of_nat i AND (2 ^ n :: u16) = 0" by (simp add: and_exp_eq_0_iff_not_bit)
    then show ?thesis by (simp add: disjunctive_add_eq_xor [symmetric] add.commute)
  qed
  have "[0..<2 ^ Suc n] = [0..<2 ^ n] @ map (\<lambda>i. 2 ^ n + i) [0..<2 ^ n]"
    using upt_add_eq_append [of 0 "2 ^ n" "2 ^ n"] map_add_upt [of "2 ^ n" "2 ^ n"] by (simp add: mult_2 add.commute)
  then show ?thesis by (simp add: crc_table_def split crc_steps_xor del: funpow.simps upt_Suc of_nat_add)
qed

lemma crc_basis:
  "(crc_step ^^ 8) 1 = 0x1189" "(crc_step ^^ 8) 2 = 0x2312" "(crc_step ^^ 8) 4 = 0x4624" "(crc_step ^^ 8) 8 = 0x8c48"
  "(crc_step ^^ 8) 16 = 0x1081" "(crc_step ^^ 8) 32 = 0x2102" "(crc_step ^^ 8) 64 = 0x4204" "(crc_step ^^ 8) 128 = 0x8408"
  by code_simp+

lemma fcstab_crc: "fcstab = crc_table 8"
proof -
  have t0: "crc_table 0 = [0]" by (simp add: crc_table_def crc_steps_zeros)
  note [simp del] = funpow.simps
  have t1: "crc_table 1 = [0x0000, 0x1189]" using crc_table_Suc [of 0] by (simp add: t0 crc_basis)
  have t2: "crc_table 2 = [0x0000, 0x1189, 0x2312, 0x329b]" using crc_table_Suc [of 1] by (simp add: t1 [simplified] crc_basis numeral_2_eq_2)
  have t3: "crc_table 3 = crc_table 2 @ [0x4624, 0x57ad, 0x6536, 0x74bf]" using crc_table_Suc [of 2] by (simp add: t2 crc_basis)
  show ?thesis
   using crc_table_Suc [of 3] crc_table_Suc [of 4] crc_table_Suc [of 5] crc_table_Suc [of 6] crc_table_Suc [of 7]
  by (simp add: fcstab_def t2 t3 crc_basis)
qed

lemma length_fcstab: "length fcstab = 256"
  by (simp add: fcstab_def)

section \<open>The macro\<close>

lemma octet_mask: "(y :: u16) AND 0xff = take_bit 8 y" "(z :: u32) AND 0xff = take_bit 8 z"
  using take_bit_eq_mask [of 8 y] take_bit_eq_mask [of 8 z] by (simp_all add: mask_eq_exp_minus_1 and.commute)

lemma fcstab_lookup: "fcstab ! unat (take_bit 8 y) = (crc_step ^^ 8) (take_bit 8 (y :: u16))"
proof -
  have "unat (take_bit 8 y) < 2 ^ 8" unfolding unsigned_take_bit_eq by (rule take_bit_nat_less_exp)
  then show ?thesis by (simp add: fcstab_crc crc_table_def del: funpow.simps)
qed

lemma PPP_FCS_octet: "PPP_FCS (ucast f) x = ucast (crc_octet f x)"
proof -
  define y where "y = f XOR ucast x"
  have idx: "unat ((ucast f XOR ucast x :: u32) AND 0xff) = unat (take_bit 8 y)"
  proof -
    have "(ucast f XOR ucast x :: u32) AND 0xff = ucast (take_bit 8 y)"
      by (rule bit_eqI) (auto simp: y_def octet_mask bit_simps)
    moreover have "unat (take_bit 8 y) < 2 ^ 32" using unat_lt2p [of "take_bit 8 y"] by simp
    ultimately show ?thesis by (simp add: unsigned_ucast_eq take_bit_nat_eq_self)
  qed
  have parts: "y = take_bit 8 y XOR (y AND NOT (mask 8))" by (rule bit_eqI) (auto simp: bit_simps)
  have "(crc_step ^^ 8) (y AND NOT (mask 8)) = drop_bit 8 (y AND NOT (mask 8))"
    by (rule crc_steps_zeros) (simp add: bit_simps)
  also have "\<dots> = drop_bit 8 f" by (rule bit_eqI) (auto simp: y_def bit_simps dest: bit_imp_le_length)
  finally have "crc_octet f x = fcstab ! unat (take_bit 8 y) XOR drop_bit 8 f"
    unfolding crc_octet_def y_def [symmetric] by (subst parts) (simp only: crc_steps_xor fcstab_lookup)
  moreover have "drop_bit 8 (ucast f :: u32) = ucast (drop_bit 8 f)" by (rule bit_eqI) (auto simp: bit_simps dest: bit_imp_le_length)
  moreover have "(ucast (a XOR b) :: u32) = ucast a XOR ucast b" for a b :: u16 by (rule bit_eqI) (auto simp: bit_simps)
  ultimately show ?thesis by (simp add: PPP_FCS_def idx xor.commute)
qed

text \<open>The receiver keeps 16 bits, the sender 32, of which the upper half stays zero.\<close>

lemma fcs_receive: "ucast (PPP_FCS (ucast f) x) = crc_octet f x"
  unfolding PPP_FCS_octet by (rule bit_eqI) (auto simp: bit_simps)

text \<open>The complement that the sender appends, low octet first.\<close>

definition fcs_octets :: "u16 \<Rightarrow> u8 list" where
  "fcs_octets f = [ucast (NOT f), ucast (drop_bit 8 (NOT f))]"

lemma fcs_send:
  "ucast (NOT (ucast f :: u32) AND 0xff) = fcs_octets f ! 0" "ucast (drop_bit 8 (NOT (ucast f :: u32)) AND 0xff) = fcs_octets f ! 1"
  unfolding fcs_octets_def octet_mask by (auto intro!: bit_eqI simp: bit_simps)

definition fcs_of :: "u8 list \<Rightarrow> u16" where
  "fcs_of xs = foldl crc_octet PPP_INITFCS xs"

lemma good_fcs: "foldl crc_octet f (fcs_octets f) = PPP_GOODFCS"
proof -
  have ff: "(0xff :: u16) = mask 8" by (simp add: mask_eq_exp_minus_1)
  have hi: "drop_bit 8 (f AND NOT (mask 8)) = drop_bit 8 f" by (rule bit_eqI) (auto simp: bit_simps dest: bit_imp_le_length)
  have "f XOR ucast (ucast (NOT f) :: u8) = 0xff XOR (f AND NOT (mask 8))"
    unfolding ff by (rule bit_eqI) (auto simp: bit_simps)
  then have "crc_octet f (ucast (NOT f)) = (crc_step ^^ 8) 0xff XOR drop_bit 8 (f AND NOT (mask 8))"
    unfolding crc_octet_def by (simp only: crc_steps_xor) (subst crc_steps_zeros [of 8 "f AND NOT (mask 8)"]; simp add: bit_simps)
  also have "(crc_step ^^ 8) 0xff = 0x0f78" by code_simp
  finally have lo: "crc_octet f (ucast (NOT f)) = 0x0f78 XOR drop_bit 8 f" by (simp only: hi)
  have "drop_bit 8 f XOR ucast (ucast (drop_bit 8 (NOT f)) :: u8) = 0xff"
    unfolding ff by (rule bit_eqI) (auto simp: bit_simps dest: bit_imp_le_length)
  then have "crc_octet (0x0f78 XOR drop_bit 8 f) (ucast (drop_bit 8 (NOT f))) = (crc_step ^^ 8) (0x0f78 XOR 0xff)"
    unfolding crc_octet_def by (simp only: xor.assoc)
  also have "\<dots> = PPP_GOODFCS" by (simp add: PPP_GOODFCS_def del: funpow.simps) code_simp
  finally show ?thesis by (simp add: fcs_octets_def lo)
qed

section \<open>Detection of errors\<close>

text \<open>
  What a receiver relies on of a running check value: different octets and different values so far lead to different
  values.
\<close>

locale check_sequence =
  fixes upd :: "'f \<Rightarrow> 'o \<Rightarrow> 'f"
  assumes octet_counts: "upd f x = upd f y \<Longrightarrow> x = y"
    and history_counts: "upd f x = upd g x \<Longrightarrow> f = g"
begin

lemma foldl_inj: "foldl upd f xs = foldl upd g xs \<Longrightarrow> f = g"
  by (induction xs arbitrary: f g) (auto dest: history_counts)

lemma one_change: "x \<noteq> y \<Longrightarrow> foldl upd f (us @ x # vs) \<noteq> foldl upd f (us @ y # vs)"
  by (auto dest: foldl_inj octet_counts)

end

lemma ucast_ucast_octet: "(ucast (ucast x :: u16) :: u8) = x"
  by (rule bit_eqI) (auto simp: bit_simps)

lemma xor_right_cancel: "a XOR c = b XOR c \<Longrightarrow> a = (b :: 'a :: len word)"
  by (metis xor.assoc xor.right_neutral xor_self_eq)

lemma crc_step_inj: "crc_step x = crc_step y \<Longrightarrow> x = y"
proof -
  assume eq: "crc_step x = crc_step y"
  have top: "bit (crc_step z) 15 = bit z 0" for z using bit_imp_le_length [of z 16] by (auto simp: crc_step_def bit_simps)
  have low: "bit x 0 = bit y 0" using top [of x] top [of y] eq by simp
  then have "drop_bit 1 x = drop_bit 1 y" using eq by (auto simp: crc_step_def split: if_splits dest: xor_right_cancel)
  then have "bit x (Suc i) = bit y (Suc i)" for i by (metis bit_drop_bit_eq comp_apply plus_1_eq_Suc)
  then show "x = y" using low by (intro bit_eqI) (metis not0_implies_Suc)
qed

interpretation fcs: check_sequence crc_octet
proof
  have inj: "(crc_step ^^ n) x = (crc_step ^^ n) y \<Longrightarrow> x = y" for n x y by (induction n) (auto dest: crc_step_inj)
  fix f g :: u16 and x y :: u8
  { assume "crc_octet f x = crc_octet f y"
    then have "f XOR ucast x = f XOR ucast y" unfolding crc_octet_def by (rule inj)
    then have "(ucast x :: u16) = ucast y" by (metis xor.commute xor_right_cancel)
    then have "(ucast (ucast x :: u16) :: u8) = ucast (ucast y :: u16)" by simp
    then show "x = y" by (simp add: ucast_ucast_octet) }
  { assume "crc_octet f x = crc_octet g x"
    then have "f XOR ucast x = g XOR ucast x" unfolding crc_octet_def by (rule inj)
    then show "f = g" by (rule xor_right_cancel) }
qed

end
