(* ===== verification/Lwip_Pbuf_Mem.thy ===== *)
theory Lwip_Pbuf_Mem
  imports Lwip_Pbuf
begin

text \<open>
  The memory behind the packet buffers: two pools of \<open>memp.c\<close> and the heap of \<open>mem.c\<close>, taken together.
  The contracts of the two allocators are combined into what \<open>pbuf.c\<close> relies on: an area it gets overlaps
  no area of either allocator, and giving one back changes nothing else.
\<close>

section \<open>All areas\<close>

text \<open>The allocator that serves a type of pbuf: the heap or one of the pools.\<close>

definition pbuf_class :: "pbuf_conf \<Rightarrow> pbuf_type \<Rightarrow> nat option" where
  "pbuf_class c typ = (case typ of PBUF_RAM \<Rightarrow> None | PBUF_POOL \<Rightarrow> Some (MEMP_PBUF_POOL c) | _ \<Rightarrow> Some (MEMP_PBUF c))"

definition areas :: "pbuf_conf \<Rightarrow> int \<Rightarrow> nat option \<Rightarrow> pbuf_mem \<Rightarrow> (int \<times> int) set" where
  "areas c base k s = (case k of
      None \<Rightarrow> allocated (pc_mem c) (pm_heap s)
    | Some t \<Rightarrow> pool_areas (pc_memp c) base t (pm_memp s))"

definition class_ok :: "pbuf_conf \<Rightarrow> nat option \<Rightarrow> bool" where
  "class_ok c k \<longleftrightarrow> pred_option (\<lambda>t. t < MEMP_MAX (pc_memp c)) k"

text \<open>
  A usable configuration: pools for both kinds of pbuf, big enough for them, as \<open>memp_std.h\<close> sets them up, and room for
  every header in a pool pbuf.
\<close>

definition pbuf_conf_ok :: "pbuf_conf \<Rightarrow> bool" where
  "pbuf_conf_ok c \<longleftrightarrow> conf_ok (pc_mem c) \<and> memp_conf_ok (pc_memp c) \<and> memp_alignment (pc_memp c) = MEM_ALIGNMENT (pc_mem c) \<and>
     MEMP_PBUF c < MEMP_MAX (pc_memp c) \<and> MEMP_PBUF_POOL c < MEMP_MAX (pc_memp c) \<and> MEMP_PBUF c \<noteq> MEMP_PBUF_POOL c \<and>
     memp_sizes (pc_memp c) ! MEMP_PBUF c = SIZEOF_STRUCT_PBUF c \<and>
     memp_sizes (pc_memp c) ! MEMP_PBUF_POOL c = SIZEOF_STRUCT_PBUF c + PBUF_POOL_BUFSIZE_ALIGNED c \<and>
     0 < sizeof_pbuf c \<and> sizeof_pbuf c \<le> 64 \<and> 0 \<le> PBUF_LINK_HLEN c \<and> PBUF_LINK_HLEN c \<le> 64 \<and>
     ALIGN_SIZE c (PBUF_TRANSPORT_HLEN + PBUF_IP_HLEN + PBUF_LINK_HLEN c) < PBUF_POOL_BUFSIZE_ALIGNED c \<and>
     PBUF_POOL_BUFSIZE_ALIGNED c < 65536"

lemma pbuf_conf_okD:
  assumes "pbuf_conf_ok c"
  shows "conf_ok (pc_mem c)" "memp_conf_ok (pc_memp c)" "memp_alignment (pc_memp c) = MEM_ALIGNMENT (pc_mem c)"
    "class_ok c (pbuf_class c typ)"
  using assms by (auto simp: pbuf_conf_ok_def class_ok_def pbuf_class_def split: pbuf_type.split)

text \<open>The static arrays of the two allocators do not overlap.\<close>

definition apart :: "pbuf_conf \<Rightarrow> int \<Rightarrow> pbuf_mem \<Rightarrow> bool" where
  "apart c base s \<longleftrightarrow> ram (pm_heap s) + MEM_SIZE_ALIGNED (pc_mem c) \<le> base \<or>
     base + pool_offset (pc_memp c) (MEMP_MAX (pc_memp c)) \<le> ram (pm_heap s)"

definition mem_wf :: "pbuf_conf \<Rightarrow> int \<Rightarrow> pbuf_mem \<Rightarrow> bool" where
  "mem_wf c base s \<longleftrightarrow> pbuf_conf_ok c \<and> heap_inv (pc_mem c) (pm_heap s) \<and> memp_inv (pc_memp c) base (pm_memp s) \<and> apart c base s"

lemma pool_area_bounds:
  assumes cf: "memp_conf_ok cf" and t: "t < MEMP_MAX cf" and a: "(p, n) \<in> pool_areas cf base t s"
  shows "base \<le> p" "0 < n" "p + n \<le> base + pool_offset cf (MEMP_MAX cf)"
proof -
  have p: "p \<in> pool_elems cf base t" "n = memp_sizes cf ! t" using a by (auto simp: pool_areas_def)
  show "0 < n" using cf t p(2) by (auto simp: memp_conf_ok_def MEMP_MAX_def)
  have "pool_offset cf i \<le> pool_offset cf j" if "i \<le> j" "j \<le> MEMP_MAX cf" for i j
    using that
  proof (induction j)
    case (Suc j)
    have "0 \<le> memp_sizes cf ! j * int (memp_num cf ! j)"
      using cf Suc.prems by (intro mult_nonneg_nonneg) (auto simp: memp_conf_ok_def MEMP_MAX_def less_imp_le)
    then show ?case using Suc pool_offset_Suc [OF cf, of j] by (cases "i = Suc j") auto
  qed simp
  from this [of 0 t] this [of "Suc t" "MEMP_MAX cf"] show "base \<le> p" "p + n \<le> base + pool_offset cf (MEMP_MAX cf)"
    using pool_elem_bounds [OF cf t p(1)] pool_offset_Suc [OF cf t] p(2) t by (auto simp: pool_offset_def)
qed

lemma areas_apart:
  assumes wf: "mem_wf c base s" and k: "class_ok c k" "class_ok c k'"
    and a: "(p, n) \<in> areas c base k s" "(q, m) \<in> areas c base k' s" "p \<noteq> q \<or> k \<noteq> k'"
  shows "p + n \<le> q \<or> q + m \<le> p"
proof -
  note cf = pbuf_conf_okD(1,2) [of c]
  have ok: "conf_ok (pc_mem c)" "memp_conf_ok (pc_memp c)" "heap_inv (pc_mem c) (pm_heap s)" using wf cf by (auto simp: mem_wf_def)
  have heap: "ram (pm_heap s) \<le> x \<and> x + i \<le> ram (pm_heap s) + MEM_SIZE_ALIGNED (pc_mem c)" if "(x, i) \<in> allocated (pc_mem c) (pm_heap s)" for x i
    using allocated_safe(2) [OF ok(1,3)] that by fastforce
  have pool: "base \<le> x \<and> x + i \<le> base + pool_offset (pc_memp c) (MEMP_MAX (pc_memp c))"
    if "(x, i) \<in> pool_areas (pc_memp c) base t (pm_memp s)" "t < MEMP_MAX (pc_memp c)" for x i t
    using pool_area_bounds [OF ok(2) that(2,1)] by simp
  have same: "p + n \<le> q \<or> q + m \<le> p" if "separate A" "(p, n) \<in> A" "(q, m) \<in> A" "p \<noteq> q" for A
    using that by (fastforce simp: separate_def)
  show ?thesis
  proof (cases k; cases k')
    fix t u assume tu: "k = Some t" "k' = Some u"
    then have lt: "t < MEMP_MAX (pc_memp c)" "u < MEMP_MAX (pc_memp c)" using k by (simp_all add: class_ok_def)
    show ?thesis
    proof (cases "t = u")
      case True
      then show ?thesis using a tu lt same [OF pool_areas_separate [OF ok(2) lt(1)]] by (auto simp: areas_def)
    next
      case False
      then show ?thesis using pool_elems_disjoint [OF ok(2) lt, of p base q] a tu by (auto simp: areas_def pool_areas_def)
    qed
  next
    assume "k = None" "k' = None"
    then show ?thesis using a same [OF allocated_safe(1) [OF ok(1,3)]] by (auto simp: areas_def)
  next
    fix u assume "k = None" "k' = Some u"
    then show ?thesis using heap [of p n] pool [of q m u] a k wf by (auto simp: areas_def class_ok_def mem_wf_def apart_def)
  next
    fix t assume "k = Some t" "k' = None"
    then show ?thesis using heap [of q m] pool [of p n t] a k wf by (auto simp: areas_def class_ok_def mem_wf_def apart_def)
  qed
qed

lemma areas_pos: "mem_wf c base s \<Longrightarrow> class_ok c k \<Longrightarrow> (p, n) \<in> areas c base k s \<Longrightarrow> 0 < n"
  using allocated_safe(2) [of "pc_mem c" "pm_heap s"] pool_area_bounds(2)
  by (fastforce simp: mem_wf_def areas_def class_ok_def pbuf_conf_ok_def split: option.splits)

lemma areas_unique:
  assumes "mem_wf c base s" "class_ok c k" "class_ok c k'" "(p, n) \<in> areas c base k s" "(p, m) \<in> areas c base k' s"
  shows "k = k' \<and> n = m"
proof -
  have "0 < n" "0 < m" using areas_pos assms by blast+
  then have "k = k'" using areas_apart [OF assms(1-5)] by fastforce
  moreover have "n = m"
  proof (cases k)
    case None
    have "separate (allocated (pc_mem c) (pm_heap s))"
      using assms(1) pbuf_conf_okD(1) [of c] allocated_safe(1) by (auto simp: mem_wf_def)
    moreover have "(p, n) \<in> allocated (pc_mem c) (pm_heap s)" "(p, m) \<in> allocated (pc_mem c) (pm_heap s)"
      using assms(4,5) \<open>k = k'\<close> None by (simp_all add: areas_def)
    ultimately show ?thesis using \<open>0 < n\<close> \<open>0 < m\<close> by (fastforce simp: separate_def)
  next
    case (Some t)
    then show ?thesis using assms \<open>k = k'\<close> by (auto simp: areas_def pool_areas_def)
  qed
  ultimately show ?thesis by simp
qed


section \<open>The contract with the packet buffers\<close>

text \<open>What an operation of an allocator did to the areas, the structs and the octets staying as they are.\<close>

definition same_contents :: "pbuf_mem \<Rightarrow> pbuf_mem \<Rightarrow> bool" where
  "same_contents s s' \<longleftrightarrow> pm_pbuf s' = pm_pbuf s \<and> pm_byte s' = pm_byte s"

definition mem_kept :: "pbuf_conf \<Rightarrow> int \<Rightarrow> pbuf_mem \<Rightarrow> pbuf_mem \<Rightarrow> bool" where
  "mem_kept c base s s' \<longleftrightarrow> mem_wf c base s' \<and> same_contents s s' \<and> (\<forall>k. class_ok c k \<longrightarrow> areas c base k s' = areas c base k s)"

definition mem_taken :: "pbuf_conf \<Rightarrow> int \<Rightarrow> nat option \<Rightarrow> int \<Rightarrow> int \<Rightarrow> pbuf_mem \<Rightarrow> pbuf_mem \<Rightarrow> bool" where
  "mem_taken c base k p n s s' \<longleftrightarrow> mem_wf c base s' \<and> same_contents s s' \<and> MEM_ALIGNMENT (pc_mem c) dvd p \<and>
     (\<forall>k'. class_ok c k' \<longrightarrow> p \<notin> fst ` areas c base k' s \<and>
        areas c base k' s' = (if k' = k then insert (p, n) (areas c base k' s) else areas c base k' s))"

definition mem_given :: "pbuf_conf \<Rightarrow> int \<Rightarrow> nat option \<Rightarrow> int \<Rightarrow> int \<Rightarrow> pbuf_mem \<Rightarrow> pbuf_mem \<Rightarrow> bool" where
  "mem_given c base k p n s s' \<longleftrightarrow> mem_wf c base s' \<and> same_contents s s' \<and>
     (\<forall>k'. class_ok c k' \<longrightarrow> areas c base k' s' = (if k' = k then areas c base k' s - {(p, n)} else areas c base k' s))"

text \<open>The new area is in no class, because it is apart from all areas afterwards.\<close>

lemma mem_takenI:
  assumes wf: "mem_wf c base s'" and k: "class_ok c k" and "same_contents s s'" "MEM_ALIGNMENT (pc_mem c) dvd p"
    and fresh: "p \<notin> fst ` areas c base k s"
    and eq: "\<And>k'. class_ok c k' \<Longrightarrow> areas c base k' s' = (if k' = k then insert (p, n) (areas c base k' s) else areas c base k' s)"
  shows "mem_taken c base k p n s s'"
proof -
  have "p \<notin> fst ` areas c base k' s" if k': "class_ok c k'" for k'
  proof
    assume "p \<in> fst ` areas c base k' s"
    then obtain m where m: "(p, m) \<in> areas c base k' s" by auto
    show False
    proof (cases "k' = k")
      case True then show False using fresh m by force
    next
      case False
      then have "(p, m) \<in> areas c base k' s'" "(p, n) \<in> areas c base k s'" using eq k k' m by auto
      then show False using areas_unique [OF wf k' k] False by blast
    qed
  qed
  then show ?thesis using assms by (simp add: mem_taken_def)
qed

lemma pool_malloc_cases:
  assumes wf: "mem_wf c base s" and t: "t < MEMP_MAX (pc_memp c)"
  obtains (null) s' where "pool_malloc c t s = Inr (s', None)" "mem_kept c base s s'"
  | (some) s' p where "pool_malloc c t s = Inr (s', Some p)" "mem_taken c base (Some t) p (memp_sizes (pc_memp c) ! t) s s'"
proof -
  let ?cf = "pc_memp c"
  have ok: "memp_conf_ok ?cf" "memp_inv ?cf base (pm_memp s)" "memp_alignment ?cf = MEM_ALIGNMENT (pc_mem c)"
    using wf pbuf_conf_okD(2,3) [of c] by (simp_all add: mem_wf_def)
  note fr = memp_malloc_frame [OF ok(1) t ok(2)]
  from ok(1) t ok(2) show thesis
  proof (cases rule: memp_malloc_cases)
    case (null m)
    have "mem_kept c base s (s\<lparr>pm_memp := m\<rparr>)"
      using wf null fr [OF null(1)]
      by (auto simp: mem_kept_def mem_wf_def same_contents_def apart_def areas_def class_ok_def split: option.split)
    then show thesis using null(1) that(1) by (simp add: pool_malloc_def)
  next
    case (some m p)
    have al: "MEM_ALIGNMENT (pc_mem c) dvd p"
      using some(1) ok(3) by (auto simp: memp_malloc_def Let_def lwip_outcome split: option.splits)
    have "mem_taken c base (Some t) p (memp_sizes ?cf ! t) s (s\<lparr>pm_memp := m\<rparr>)"
    proof (rule mem_takenI [OF _ _ _ al])
      show "mem_wf c base (s\<lparr>pm_memp := m\<rparr>)" using wf some by (simp add: mem_wf_def apart_def)
      fix k' assume "class_ok c k'"
      then show "areas c base k' (s\<lparr>pm_memp := m\<rparr>) =
          (if k' = Some t then insert (p, memp_sizes ?cf ! t) (areas c base k' s) else areas c base k' s)"
        using some fr [OF some(1)] by (auto simp: areas_def class_ok_def split: option.split)
    qed (use some t in \<open>simp_all add: class_ok_def same_contents_def areas_def\<close>)
    then show thesis using some(1) that(2) by (simp add: pool_malloc_def)
  qed
qed

lemma ram_malloc_cases:
  assumes wf: "mem_wf c base s" and n: "legal_size (pc_mem c) n"
  obtains (null) s' where "ram_malloc c n s = Inr (s', None)" "mem_kept c base s s'"
  | (some) s' p m where "ram_malloc c n s = Inr (s', Some p)" "n \<le> m" "mem_taken c base None p m s s'"
proof -
  have ok: "conf_ok (pc_mem c)" "heap_inv (pc_mem c) (pm_heap s)"
    using wf pbuf_conf_okD(1) [of c] by (simp_all add: mem_wf_def)
  have mst: "mst n = n"
    using n ok(1) by (intro mst_id) (auto simp: legal_size_def conf_ok_def)
  from ok n show thesis
  proof (cases rule: mem_malloc_cases)
    case (null h)
    have "mem_kept c base s (s\<lparr>pm_heap := h\<rparr>)"
      using wf null mem_malloc_ram [OF null(1)]
      by (auto simp: mem_kept_def mem_wf_def same_contents_def apart_def areas_def class_ok_def split: option.split)
    then show thesis using null(1) that(1) by (simp add: ram_malloc_def mst)
  next
    case (some h p m)
    have "mem_taken c base None p m s (s\<lparr>pm_heap := h\<rparr>)"
    proof (rule mem_takenI [OF _ _ _ some(4)])
      show "mem_wf c base (s\<lparr>pm_heap := h\<rparr>)" using wf some mem_malloc_ram [OF some(1)] by (simp add: mem_wf_def apart_def)
    qed (use some in \<open>auto simp: class_ok_def same_contents_def areas_def split: option.split\<close>)
    then show thesis using some(1,3) that(2) by (simp add: ram_malloc_def mst)
  qed
qed

lemma pbuf_release_ok:
  assumes wf: "mem_wf c base s" and a: "(p, n) \<in> areas c base (pbuf_class c typ) s"
  obtains s' where "pbuf_release c typ p s = Inr s'" "mem_given c base (pbuf_class c typ) p n s s'"
proof (cases "pbuf_class c typ")
  case None
  then have ram: "typ = PBUF_RAM" by (auto simp: pbuf_class_def split: pbuf_type.splits)
  have ok: "conf_ok (pc_mem c)" "heap_inv (pc_mem c) (pm_heap s)" "(p, n) \<in> allocated (pc_mem c) (pm_heap s)"
    using wf pbuf_conf_okD(1) [of c] a None by (simp_all add: mem_wf_def areas_def)
  then obtain h where h: "mem_free (pc_mem c) (Some p) (pm_heap s) = Inr h" "heap_inv (pc_mem c) h"
      "allocated (pc_mem c) h = allocated (pc_mem c) (pm_heap s) - {(p, n)}" by (rule mem_free_cases)
  then have "mem_given c base None p n s (s\<lparr>pm_heap := h\<rparr>)"
    using wf mem_free_ram [OF h(1)]
    by (auto simp: mem_given_def mem_wf_def same_contents_def apart_def areas_def split: option.split)
  then show thesis using that h(1) None by (simp add: pbuf_release_def ram)
next
  case (Some t)
  let ?cf = "pc_memp c"
  have ok: "memp_conf_ok ?cf" "t < MEMP_MAX ?cf" "memp_inv ?cf base (pm_memp s)" "(p, n) \<in> pool_areas ?cf base t (pm_memp s)"
    using wf pbuf_conf_okD(1-3) [of c] pbuf_conf_okD(4) [of c "typ"] a Some by (simp_all add: mem_wf_def areas_def class_ok_def)
  then obtain m where m: "memp_free ?cf t (Some p) (pm_memp s) = Inr m" "memp_inv ?cf base m"
      "pool_areas ?cf base t m = pool_areas ?cf base t (pm_memp s) - {(p, n)}" by (rule memp_free_cases)
  then have "mem_given c base (Some t) p n s (s\<lparr>pm_memp := m\<rparr>)"
    using wf memp_free_frame [OF ok m(1)]
    by (auto simp: mem_given_def mem_wf_def same_contents_def apart_def areas_def class_ok_def split: option.split)
  moreover have "pbuf_release c typ p s = Inr (s\<lparr>pm_memp := m\<rparr>)"
    using m(1) Some by (auto simp: pbuf_release_def pbuf_class_def split: pbuf_type.splits)
  ultimately show thesis using that Some by simp
qed

end
