(* ===== verification/Lwip_Pbuf_Refs.thy ===== *)
theory Lwip_Pbuf_Refs
  imports Lwip_Pbuf_Mem
begin

text \<open>
  Reference counting of packet buffers.  \<open>L\<close> is the set of live pbufs and \<open>ext p\<close> the number of
  references to \<open>p\<close> held outside of chains.  The invariant says what the comment in \<open>pbuf.h\<close> says of the field
  \<open>ref\<close>: it is the number of pointers that refer to the pbuf, from chains and from outside.
\<close>

named_theorems pbuf_simps \<open>fields after an assignment\<close>

section \<open>Assignments\<close>

abbreviation nxt :: "pbuf_mem \<Rightarrow> int \<Rightarrow> int option" where "nxt s p \<equiv> pb_next (pm_pbuf s p)"

lemma pb_simps [pbuf_simps]:
  "pm_pbuf (pb p f s) = (pm_pbuf s)(p := f (pm_pbuf s p))" "pm_byte (pb p f s) = pm_byte s"
  "pm_heap (pb p f s) = pm_heap s" "pm_memp (pb p f s) = pm_memp s"
  by (simp_all add: pb_def)

lemma pb_mem [pbuf_simps]:
  "areas c base k (pb p f s) = areas c base k s" "mem_wf c base (pb p f s) = mem_wf c base s"
  by (simp_all add: areas_def mem_wf_def apart_def pb_simps split: option.split)

section \<open>Chains\<close>

lemma lst_Some: "lst nx (Some p) ps \<Longrightarrow> \<exists>qs. ps = p # qs \<and> lst nx (nx p) qs"
  by (cases ps) auto

lemma lst_app: "lst nx p (xs @ ys) \<longleftrightarrow> (\<exists>q. lst nx q ys \<and> (xs = [] \<longrightarrow> q = p) \<and>
    (xs \<noteq> [] \<longrightarrow> nx (last xs) = q \<and> p = Some (hd xs) \<and> successively (\<lambda>a b. nx a = Some b) xs))"
  by (induction xs arbitrary: p) (auto simp: successively_Cons)

lemma lst_suffix: "lst nx p ps \<Longrightarrow> x \<in> set ps \<Longrightarrow> \<exists>xs ys. ps = xs @ x # ys \<and> lst nx (Some x) (x # ys)"
  by (induction ps arbitrary: p) (auto intro: exI [of _ "[]"], metis append_Cons)

lemma lst_distinct: "lst nx p ps \<Longrightarrow> distinct ps"
proof (induction ps arbitrary: p)
  case (Cons a ps)
  have "a \<notin> set ps"
  proof
    assume "a \<in> set ps"
    then obtain xs ys where "ps = xs @ a # ys" "lst nx (Some a) (a # ys)" using lst_suffix Cons.prems by fastforce
    then show False using lst_unique [of nx "Some a" "a # ys" "a # ps"] Cons.prems by auto
  qed
  then show ?case using Cons by auto
qed simp

lemma lst_last: "lst nx p ps \<Longrightarrow> ps \<noteq> [] \<Longrightarrow> nx (last ps) = None"
  by (induction ps arbitrary: p) auto

lemma lst_pred: "lst nx (Some x) ps \<Longrightarrow> p \<in> set ps \<Longrightarrow> p \<noteq> x \<Longrightarrow> \<exists>q\<in>set ps. nx q = Some p"
proof (induction ps arbitrary: x)
  case (Cons a ps)
  then have "p \<in> set ps" by auto
  then obtain b qs where ps: "ps = b # qs" by (cases ps) auto
  then have "nx a = Some b" "lst nx (Some b) ps" using Cons.prems(1) by auto
  then show ?case using Cons.IH [of b] \<open>p \<in> set ps\<close> by (cases "p = b") auto
qed simp

section \<open>The invariant\<close>

text \<open>A live pbuf is an area of the right allocator, and a payload of its own lies inside, behind the struct.\<close>

definition pbuf_owned :: "pbuf_conf \<Rightarrow> int \<Rightarrow> pbuf_mem \<Rightarrow> int \<Rightarrow> bool" where
  "pbuf_owned c base s p \<longleftrightarrow> (\<exists>n. (p, n) \<in> areas c base (pbuf_class c (pb_type (pm_pbuf s p))) s \<and>
     (pb_type (pm_pbuf s p) \<in> {PBUF_RAM, PBUF_POOL} \<longrightarrow>
        p + SIZEOF_STRUCT_PBUF c \<le> pb_payload (pm_pbuf s p) \<and>
        pb_payload (pm_pbuf s p) + uint (pb_len (pm_pbuf s p)) \<le> p + n))"

definition ptrs :: "int set \<Rightarrow> pbuf_mem \<Rightarrow> int \<Rightarrow> int set" where
  "ptrs L s p = {q \<in> L. nxt s q = Some p}"

definition pbuf_inv :: "pbuf_conf \<Rightarrow> int \<Rightarrow> int set \<Rightarrow> (int \<Rightarrow> nat) \<Rightarrow> pbuf_mem \<Rightarrow> bool" where
  "pbuf_inv c base L ext s \<longleftrightarrow> mem_wf c base s \<and> finite L \<and> (\<forall>p. p \<notin> L \<longrightarrow> ext p = 0) \<and>
     (\<forall>p\<in>L. pbuf_owned c base s p \<and> (\<exists>ps. lst (nxt s) (Some p) ps \<and> set ps \<subseteq> L) \<and>
        unat (pb_ref (pm_pbuf s p)) = card (ptrs L s p) + ext p \<and> 0 < pb_ref (pm_pbuf s p))"

lemma pbuf_invD:
  assumes "pbuf_inv c base L ext s"
  shows "mem_wf c base s" "finite L" "p \<notin> L \<Longrightarrow> ext p = 0"
    "p \<in> L \<Longrightarrow> pbuf_owned c base s p" "p \<in> L \<Longrightarrow> unat (pb_ref (pm_pbuf s p)) = card (ptrs L s p) + ext p"
    "p \<in> L \<Longrightarrow> 0 < pb_ref (pm_pbuf s p)"
  using assms by (auto simp: pbuf_inv_def)

lemma pbuf_inv_chain:
  assumes "pbuf_inv c base L ext s" "p \<in> L"
  obtains ps where "lst (nxt s) (Some p) ps" "set ps \<subseteq> L"
  using assms by (auto simp: pbuf_inv_def)

text \<open>What \<open>pbuf_free\<close> leaves of the pbufs that stay: only reference counts change, and the areas of the
  others are given back.\<close>

definition freed :: "pbuf_conf \<Rightarrow> int \<Rightarrow> int set \<Rightarrow> pbuf_mem \<Rightarrow> pbuf_mem \<Rightarrow> bool" where
  "freed c base F s s' \<longleftrightarrow> pm_byte s' = pm_byte s \<and>
     (\<forall>q. (pm_pbuf s' q)\<lparr>pb_ref := 0\<rparr> = (pm_pbuf s q)\<lparr>pb_ref := 0\<rparr>) \<and>
     (\<forall>k. class_ok c k \<longrightarrow> areas c base k s' = {a \<in> areas c base k s. fst a \<notin> F})"

lemma freedD:
  assumes "freed c base F s s'"
  shows "pb_next (pm_pbuf s' q) = pb_next (pm_pbuf s q)" "pb_payload (pm_pbuf s' q) = pb_payload (pm_pbuf s q)"
    "pb_len (pm_pbuf s' q) = pb_len (pm_pbuf s q)" "pb_tot_len (pm_pbuf s' q) = pb_tot_len (pm_pbuf s q)"
    "pb_type (pm_pbuf s' q) = pb_type (pm_pbuf s q)"
proof -
  have "(pm_pbuf s' q)\<lparr>pb_ref := 0\<rparr> = (pm_pbuf s q)\<lparr>pb_ref := 0\<rparr>" using assms by (simp add: freed_def)
  then show "pb_next (pm_pbuf s' q) = pb_next (pm_pbuf s q)" "pb_payload (pm_pbuf s' q) = pb_payload (pm_pbuf s q)"
    "pb_len (pm_pbuf s' q) = pb_len (pm_pbuf s q)" "pb_tot_len (pm_pbuf s' q) = pb_tot_len (pm_pbuf s q)"
    "pb_type (pm_pbuf s' q) = pb_type (pm_pbuf s q)"
    by (cases "pm_pbuf s' q"; cases "pm_pbuf s q"; simp)+
qed

lemma freed_trans: "freed c base F s s' \<Longrightarrow> freed c base G s' s'' \<Longrightarrow> freed c base (F \<union> G) s s''"
  by (auto simp: freed_def)


section \<open>Freeing\<close>

text \<open>Decrementing the count of a pbuf that stays.\<close>

lemma pbuf_inv_decrement:
  assumes inv: "pbuf_inv c base L ext s" and p: "0 < ext p" and r: "1 < unat (pb_ref (pm_pbuf s p))"
  shows "pbuf_inv c base L (ext(p := ext p - 1)) (pb p (\<lambda>b. b\<lparr>pb_ref := pb_ref b - 1\<rparr>) s)"
proof -
  let ?s = "pb p (\<lambda>b. b\<lparr>pb_ref := pb_ref b - 1\<rparr>) s"
  have pL: "p \<in> L" using pbuf_invD(3) [OF inv, of p] p by auto
  have ref: "unat (pb_ref (pm_pbuf s p) - 1) = unat (pb_ref (pm_pbuf s p)) - 1" using r by (intro unat_minus_one) auto
  have nx: "nxt ?s = nxt s" by (auto simp: pbuf_simps)
  have own: "pbuf_owned c base ?s q = pbuf_owned c base s q" for q by (simp add: pbuf_owned_def pbuf_simps)
  have "ptrs L ?s = ptrs L s" by (auto simp: ptrs_def pbuf_simps fun_eq_iff)
  then show ?thesis
    using inv pL p r ref unfolding pbuf_inv_def nx own
    by (auto simp: pbuf_simps word_less_nat_alt)
qed

text \<open>Removing a pbuf to which nothing points any more.  Its own pointer to the next one becomes a reference from
  outside.\<close>

lemma ptrs_remove:
  assumes "finite L" "p \<in> L" "q \<in> L"
  shows "card (ptrs L s q) = card (ptrs (L - {p}) s q) + (if nxt s p = Some q then 1 else 0)"
proof (cases "nxt s p = Some q")
  case True
  then have "ptrs L s q = insert p (ptrs (L - {p}) s q)" "p \<notin> ptrs (L - {p}) s q" using assms(2) by (auto simp: ptrs_def)
  moreover have "finite (ptrs (L - {p}) s q)" using assms(1) by (simp add: ptrs_def)
  ultimately show ?thesis using True by simp
next
  case False
  then have "ptrs L s q = ptrs (L - {p}) s q" by (auto simp: ptrs_def)
  then show ?thesis using False by simp
qed

lemma pbuf_inv_remove:
  assumes inv: "pbuf_inv c base L ext s" and p: "p \<in> L" "ext p = 1" "ptrs L s p = {}"
    and s': "mem_given c base (pbuf_class c (pb_type (pm_pbuf s p))) p n (pb p (\<lambda>b. b\<lparr>pb_ref := 0\<rparr>) s) s'"
    and n: "(p, n) \<in> areas c base (pbuf_class c (pb_type (pm_pbuf s p))) s"
  shows "pbuf_inv c base (L - {p}) (\<lambda>q. if q = p then 0 else if nxt s p = Some q then ext q + 1 else ext q) s' \<and>
    freed c base {p} s s'"
proof -
  have wf: "mem_wf c base s" using pbuf_invD(1) [OF inv] .
  have conf: "pbuf_conf_ok c" using wf by (simp add: mem_wf_def)
  have pb: "pm_pbuf s' = (pm_pbuf s)(p := (pm_pbuf s p)\<lparr>pb_ref := 0\<rparr>)" "pm_byte s' = pm_byte s"
    using s' by (simp_all add: mem_given_def same_contents_def pbuf_simps)
  have nx: "nxt s' = nxt s" by (auto simp: pb)
  have pt: "ptrs M s' q = ptrs M s q" for M q by (auto simp: ptrs_def pb)
  have area: "areas c base k s' = {a \<in> areas c base k s. fst a \<notin> {p}}" if k: "class_ok c k" for k
  proof -
    define K where "K = pbuf_class c (pb_type (pm_pbuf s p))"
    have u: "k = K \<and> m = n" if "(p, m) \<in> areas c base k s" for m
      using areas_unique [OF wf k pbuf_conf_okD(4) [OF conf] that n] unfolding K_def .
    have e: "areas c base k s' = (if k = K then areas c base k s - {(p, n)} else areas c base k s)"
      using s' k unfolding K_def by (simp add: mem_given_def pbuf_simps)
    show ?thesis
    proof (rule set_eqI)
      fix a show "a \<in> areas c base k s' \<longleftrightarrow> a \<in> {a \<in> areas c base k s. fst a \<notin> {p}}"
        using u [of "snd a"] n unfolding e K_def [symmetric] by (cases a) (auto split: if_splits)
    qed
  qed
  then have fr: "freed c base {p} s s'" by (simp add: freed_def pb)
  have "pbuf_owned c base s' q" if "q \<in> L - {p}" for q
  proof -
    have "pbuf_owned c base s q" using that pbuf_invD(4) [OF inv] by simp
    then show ?thesis using that area [OF pbuf_conf_okD(4) [OF conf]] by (auto simp: pbuf_owned_def pb)
  qed
  moreover have "\<exists>ps. lst (nxt s') (Some q) ps \<and> set ps \<subseteq> L - {p}" if q: "q \<in> L - {p}" for q
  proof -
    obtain ps where ps: "lst (nxt s) (Some q) ps" "set ps \<subseteq> L" using pbuf_inv_chain [OF inv] q by blast
    have "p \<notin> set ps" using lst_pred [OF ps(1), of p] q ps(2) p(3) by (auto simp: ptrs_def)
    then show ?thesis using ps nx by auto
  qed
  moreover have "unat (pb_ref (pm_pbuf s' q)) = card (ptrs (L - {p}) s' q) + (if nxt s p = Some q then ext q + 1 else ext q)"
    "0 < pb_ref (pm_pbuf s' q)" if "q \<in> L - {p}" for q
    using that ptrs_remove [OF pbuf_invD(2) [OF inv] p(1), of q s] pbuf_invD(5,6) [OF inv, of q]
    by (auto simp: pt pb)
  moreover have "nxt s p = Some q \<Longrightarrow> q \<in> L - {p}" for q
  proof -
    assume q: "nxt s p = Some q"
    obtain ps where ps: "lst (nxt s) (Some p) ps" "set ps \<subseteq> L" using pbuf_inv_chain [OF inv p(1)] by blast
    obtain qs where "ps = p # qs" "lst (nxt s) (Some q) qs" using lst_Some [OF ps(1)] q by auto
    then have "q \<in> set ps" by (auto dest: lst_Some)
    then show "q \<in> L - {p}" using q p(1,3) ps(2) by (auto simp: ptrs_def)
  qed
  ultimately show ?thesis
    using s' fr pbuf_invD(2,3) [OF inv] by (auto simp: pbuf_inv_def mem_given_def)
qed


text \<open>The pbufs of a chain that only their predecessor refers to, up to the first one with another reference.\<close>

definition sole :: "pbuf_mem \<Rightarrow> int list \<Rightarrow> int list" where
  "sole s ps = takeWhile (\<lambda>q. pb_ref (pm_pbuf s q) = 1) ps"

lemma pbuf_free_loop_ok:
  assumes "lst (nxt s) (Some p) ps" "pbuf_inv c base L ext s" "0 < ext p"
  shows "\<exists>s'. pbuf_free_loop c (Some p) count s = Some (Inr (count + of_nat (length (sole s ps)), s')) \<and>
    pbuf_inv c base (L - set (sole s ps)) (ext(p := ext p - 1)) s' \<and> freed c base (set (sole s ps)) s s'"
  using assms
proof (induction ps arbitrary: p L ext s count)
  case (Cons a ps)
  note inv = Cons.prems(2)
  have a: "a = p" "lst (nxt s) (nxt s p) ps" using Cons.prems(1) by auto
  have dist: "p \<notin> set ps" using lst_distinct [OF Cons.prems(1)] a(1) by simp
  have pL: "p \<in> L" using pbuf_invD(3) [OF inv, of p] Cons.prems(3) by auto
  note ref = pbuf_invD(5,6) [OF inv pL]
  let ?s = "pb p (\<lambda>b. b\<lparr>pb_ref := pb_ref b - 1\<rparr>) s"
  show ?case
  proof (cases "pb_ref (pm_pbuf s p) = 1")
    case False
    then have "pb_ref (pm_pbuf s p) - 1 \<noteq> 0" by simp
    moreover from False have "1 < unat (pb_ref (pm_pbuf s p))"
      using ref(2) by (metis One_nat_def Suc_lessI unat_1 unat_gt_0 word_less_nat_alt word_neq_0_conv word_unat_eq_iff)
    ultimately show ?thesis
      using pbuf_inv_decrement [OF inv Cons.prems(3)] ref(2) False a(1)
      by (subst pbuf_free_loop.simps) (simp add: pbuf_simps Let_def sole_def freed_def)
  next
    case True
    then have "card (ptrs L s p) = 0" "ext p = 1" using ref(1) Cons.prems(3) by simp_all
    moreover have "finite (ptrs L s p)" using pbuf_invD(2) [OF inv] by (simp add: ptrs_def)
    ultimately have ext: "ext p = 1" "ptrs L s p = {}" by simp_all
    have s0: "?s = pb p (\<lambda>b. b\<lparr>pb_ref := 0\<rparr>) s" by (simp add: pb_def True)
    obtain n where n: "(p, n) \<in> areas c base (pbuf_class c (pb_type (pm_pbuf s p))) s"
      using pbuf_invD(4) [OF inv pL] by (auto simp: pbuf_owned_def)
    have wf: "mem_wf c base ?s" and n': "(p, n) \<in> areas c base (pbuf_class c (pb_type (pm_pbuf ?s p))) ?s"
      using pbuf_invD(1) [OF inv] n by (simp_all add: pbuf_simps)
    obtain s2 where s2: "pbuf_release c (pb_type (pm_pbuf ?s p)) p ?s = Inr s2"
        "mem_given c base (pbuf_class c (pb_type (pm_pbuf ?s p))) p n ?s s2"
      using pbuf_release_ok [OF wf n'] by blast
    have rm: "pbuf_inv c base (L - {p}) (\<lambda>q. if q = p then 0 else if nxt s p = Some q then ext q + 1 else ext q) s2"
        "freed c base {p} s s2"
      using pbuf_inv_remove [OF inv pL ext, of n s2] s2(2) n by (simp_all add: s0 pbuf_simps)
    have step: "pbuf_free_loop c (Some p) count s = pbuf_free_loop c (nxt s p) (count + 1) s2"
      using ref(2) s2(1) True by (subst pbuf_free_loop.simps) (simp add: pbuf_simps Let_def)
    have same: "pm_pbuf s2 q = pm_pbuf s q" if "q \<noteq> p" for q
      using s2(2) that by (simp add: mem_given_def same_contents_def pbuf_simps)
    have so: "sole s (a # ps) = p # sole s ps" by (simp add: sole_def a(1) True)
    have "pm_pbuf s2 q = pm_pbuf s q" if "q \<in> set ps" for q using same [of q] dist that by auto
    then have so2: "sole s2 ps = sole s ps" unfolding sole_def by (intro takeWhile_cong) simp_all
    show ?thesis
    proof (cases "nxt s p")
      case None
      then have e: "ps = []" using a(2) by (cases ps) auto
      have "(\<lambda>q. if q = p then 0 else if nxt s p = Some q then ext q + 1 else ext q) = ext(p := ext p - 1)"
        using ext(1) None by auto
      then have "pbuf_inv c base (L - {p}) (ext(p := ext p - 1)) s2" using rm(1) by simp
      moreover have "pbuf_free_loop c None (count + 1) s2 = Some (Inr (count + 1, s2))" by (subst pbuf_free_loop.simps) simp
      moreover have "sole s (a # ps) = [p]" unfolding so by (simp add: e sole_def)
      ultimately show ?thesis using rm(2) unfolding step None by (simp add: fun_upd_def)
    next
      case (Some q)
      let ?ext = "\<lambda>q. if q = p then 0 else if nxt s p = Some q then ext q + 1 else ext q"
      have "(nxt s2) = (nxt s)" using freedD(1) [OF rm(2)] by auto
      then have "lst (nxt s2) (Some q) ps" using a(2) Some by simp
      moreover have qp: "q \<noteq> p" using a(2) Some dist by (auto dest: lst_Some)
      moreover have "0 < ?ext q" using qp Some by simp
      ultimately obtain s' where s': "pbuf_free_loop c (Some q) (count + 1) s2 = Some (Inr (count + 1 + of_nat (length (sole s2 ps)), s'))"
          "pbuf_inv c base (L - {p} - set (sole s2 ps)) (?ext(q := ?ext q - 1)) s'" "freed c base (set (sole s2 ps)) s2 s'"
        using Cons.IH [OF _ rm(1), of q "count + 1"] by blast
      have "?ext(q := ?ext q - 1) = ext(p := ext p - 1)" using ext(1) Some qp by auto
      moreover have "L - {p} - set (sole s2 ps) = L - set (sole s (a # ps))" by (auto simp: so so2)
      ultimately have "pbuf_inv c base (L - set (sole s (a # ps))) (ext(p := ext p - 1)) s'" using s'(2) by metis
      then show ?thesis
        using s'(1) freed_trans [OF rm(2) s'(3)] Some by (simp add: step so so2 add.assoc fun_upd_def)
    qed
  qed
qed simp

text \<open>
  Freeing a reference that is held from outside never fails: it gives back the pbufs at the head of the chain that have no other reference,
  returns their number, and takes one reference from the pbuf behind them, if any.
\<close>

lemma pbuf_free_ok:
  assumes "pbuf_inv c base L ext s" "0 < ext p" "lst (nxt s) (Some p) ps"
  obtains s' where "pbuf_free c (Some p) s = Inr (of_nat (length (sole s ps)), s')"
    "pbuf_inv c base (L - set (sole s ps)) (ext(p := ext p - 1)) s'" "freed c base (set (sole s ps)) s s'"
  using pbuf_free_loop_ok [OF assms(3,1,2), of 0] by (auto simp: pbuf_free_def lwip_run_def)


section \<open>References and chains\<close>

text \<open>The total length of each pbuf of a packet, as the comment in \<open>pbuf.h\<close> has it.\<close>

definition lens_ok :: "int set \<Rightarrow> pbuf_mem \<Rightarrow> bool" where
  "lens_ok L s \<longleftrightarrow> (\<forall>p\<in>L. unat (pb_tot_len (pm_pbuf s p)) = unat (pb_len (pm_pbuf s p)) +
     (case nxt s p of None \<Rightarrow> 0 | Some q \<Rightarrow> unat (pb_tot_len (pm_pbuf s q))))"

lemma freed_lens: "freed c base F s s' \<Longrightarrow> lens_ok L s \<Longrightarrow> lens_ok (L - F) s'"
  by (auto simp: lens_ok_def freedD split: option.split)

lemma chain_in:
  assumes "pbuf_inv c base L ext s" "lst (nxt s) (Some p) ps" "p \<in> L"
  shows "set ps \<subseteq> L"
  using pbuf_inv_chain [OF assms(1,3)] lst_unique [OF assms(2)] by metis

text \<open>One more reference from outside.\<close>

lemma pbuf_ref_ok:
  assumes inv: "pbuf_inv c base L ext s" and p: "p \<in> L" "unat (pb_ref (pm_pbuf s p)) < 65535"
  shows "pbuf_inv c base L (ext(p := ext p + 1)) (pbuf_ref (Some p) s)"
proof -
  let ?s = "pbuf_ref (Some p) s"
  have s: "?s = pb p (\<lambda>b. b\<lparr>pb_ref := pb_ref b + 1\<rparr>) s" by (simp add: pbuf_ref_def)
  have ref: "unat (pb_ref (pm_pbuf s p) + 1) = unat (pb_ref (pm_pbuf s p)) + 1"
    using p(2) by (subst unat_add_lt) simp_all
  have nx: "nxt ?s = nxt s" by (auto simp: s pbuf_simps)
  have own: "pbuf_owned c base ?s q = pbuf_owned c base s q" for q by (simp add: s pbuf_owned_def pbuf_simps)
  have pt: "ptrs L ?s = ptrs L s" by (auto simp: ptrs_def s pbuf_simps fun_eq_iff)
  show ?thesis
    using inv p ref unfolding pbuf_inv_def nx own pt
    by (auto simp: s pbuf_simps word_less_nat_alt)
qed

lemma pbuf_ref_lens: "lens_ok L s \<Longrightarrow> lens_ok L (pbuf_ref p s)"
  by (auto simp: lens_ok_def pbuf_ref_def pbuf_simps split: option.splits)

text \<open>The loop of \<open>pbuf_cat\<close> adds the length of the tail to every pbuf but the last.\<close>

lemma pbuf_cat_loop_ok:
  assumes "lst (nxt s) (Some h) hs" "t \<notin> set hs"
  shows "pbuf_cat_loop t h s = Some (last hs, s\<lparr>pm_pbuf := (\<lambda>x. if x \<in> set (butlast hs)
    then (pm_pbuf s x)\<lparr>pb_tot_len := pb_tot_len (pm_pbuf s x) + pb_tot_len (pm_pbuf s t)\<rparr> else pm_pbuf s x)\<rparr>)"
  using assms
proof (induction hs arbitrary: h s)
  case (Cons a hs)
  show ?case
  proof (cases hs)
    case Nil
    then show ?thesis using Cons.prems by (subst pbuf_cat_loop.simps) simp
  next
    case (Cons b bs)
    let ?s = "pb h (\<lambda>b. b\<lparr>pb_tot_len := pb_tot_len b + pb_tot_len (pm_pbuf s t)\<rparr>) s"
    have a: "a = h" "nxt s h = Some b" "t \<noteq> h" using Cons.prems Cons by auto
    have h: "h \<notin> set hs" using lst_distinct [OF Cons.prems(1)] a(1) by simp
    have "nxt ?s = nxt s" by (auto simp: pbuf_simps)
    then have "lst (nxt ?s) (Some b) hs" using Cons.prems(1) a by simp
    note ih = Cons.IH [OF this]
    have hb: "h \<notin> set (butlast hs)" using h by (auto dest: in_set_butlastD)
    have "(\<lambda>x. if x \<in> set (butlast hs) then (pm_pbuf ?s x)\<lparr>pb_tot_len := pb_tot_len (pm_pbuf ?s x) + pb_tot_len (pm_pbuf ?s t)\<rparr>
          else pm_pbuf ?s x) =
        (\<lambda>x. if x \<in> set (butlast (a # hs)) then (pm_pbuf s x)\<lparr>pb_tot_len := pb_tot_len (pm_pbuf s x) + pb_tot_len (pm_pbuf s t)\<rparr>
          else pm_pbuf s x)" (is "?l = ?r")
    proof
      fix x show "?l x = ?r x" using a hb Cons by (cases "x = h") (simp_all add: pbuf_simps)
    qed
    then have "?s\<lparr>pm_pbuf := ?l\<rparr> = s\<lparr>pm_pbuf := ?r\<rparr>" by (simp add: pb_def)
    then show ?thesis
      using ih Cons.prems(2) a Cons by (subst pbuf_cat_loop.simps) simp
  qed
qed simp

text \<open>The state after \<open>pbuf_cat\<close>: total lengths along the first chain, and the link at its end.\<close>

definition catted :: "int list \<Rightarrow> int \<Rightarrow> pbuf_mem \<Rightarrow> pbuf_mem" where
  "catted hs t s = s\<lparr>pm_pbuf := (\<lambda>x. if x \<in> set hs
    then (pm_pbuf s x)\<lparr>pb_tot_len := pb_tot_len (pm_pbuf s x) + pb_tot_len (pm_pbuf s t),
      pb_next := if x = last hs then Some t else nxt s x\<rparr> else pm_pbuf s x)\<rparr>"

lemma pbuf_cat_ok:
  assumes "lst (nxt s) (Some h) hs" "t \<notin> set hs" "pb_tot_len (pm_pbuf s (last hs)) = pb_len (pm_pbuf s (last hs))"
  shows "pbuf_cat (Some h) (Some t) s = Inr (catted hs t s)"
proof -
  have ne: "hs \<noteq> []" and dist: "distinct hs" using assms(1) lst_distinct by auto
  have l: "last hs \<notin> set (butlast hs)" using ne dist by (cases hs rule: rev_cases) auto
  have set: "set hs = insert (last hs) (set (butlast hs))" using ne by (cases hs rule: rev_cases) auto
  have nl: "nxt s (last hs) = None" using lst_last [OF assms(1) ne] .
  have t: "t \<notin> set (butlast hs)" "t \<noteq> last hs" using assms(2) set by auto
  show ?thesis
    unfolding pbuf_cat_def using pbuf_cat_loop_ok [OF assms(1,2)] l nl assms(3) t
    by (simp add: Let_def pb_def catted_def set fun_eq_iff)
qed


lemma lst_link:
  "lst nx p (us @ [l]) \<Longrightarrow> l \<notin> set us \<Longrightarrow> l \<notin> set ts \<Longrightarrow> lst nx (Some t) ts \<Longrightarrow> lst (nx(l := Some t)) p (us @ l # ts)"
  by (induction us arbitrary: p) auto

text \<open>Chains that share a pbuf share the last one.\<close>

lemma lst_share:
  assumes "lst nx (Some h) hs" "lst nx (Some t) ts" "x \<in> set hs" "x \<in> set ts"
  shows "last hs = last ts"
proof -
  obtain us ys where "hs = us @ x # ys" "lst nx (Some x) (x # ys)" using lst_suffix [OF assms(1,3)] by blast
  moreover obtain vs zs where "ts = vs @ x # zs" "lst nx (Some x) (x # zs)" using lst_suffix [OF assms(2,4)] by blast
  ultimately show ?thesis using lst_unique by fastforce
qed

lemma nxt_catted: "hs \<noteq> [] \<Longrightarrow> nxt (catted hs t s) = (nxt s)(last hs := Some t)"
  by (auto simp: catted_def)

text \<open>A pointer from the end of one chain to a pbuf takes over one of its references from outside.\<close>

lemma pbuf_inv_link:
  assumes inv: "pbuf_inv c base L ext s" and l: "l \<in> L" "nxt s l = None"
    and t: "0 < ext t" "lst (nxt s) (Some t) ts" "l \<notin> set ts"
    and mem: "mem_wf c base s'" and own: "\<And>x. x \<in> L \<Longrightarrow> pbuf_owned c base s' x"
    and ref: "\<And>x. pb_ref (pm_pbuf s' x) = pb_ref (pm_pbuf s x)" and nx: "nxt s' = (nxt s)(l := Some t)"
  shows "pbuf_inv c base L (ext(t := ext t - 1)) s'"
proof -
  have tL: "t \<in> L" using pbuf_invD(3) [OF inv, of t] t(1) by auto
  have pt: "ptrs L s' x = (if x = t then insert l (ptrs L s x) else ptrs L s x)" for x
    using l by (auto simp: ptrs_def fun_cong [OF nx])
  have fin: "finite (ptrs L s x)" "l \<notin> ptrs L s x" for x using pbuf_invD(2) [OF inv] l(2) by (simp_all add: ptrs_def)
  have "\<exists>ps. lst (nxt s') (Some x) ps \<and> set ps \<subseteq> L" if xL: "x \<in> L" for x
  proof -
    obtain ps where ps: "lst (nxt s) (Some x) ps" "set ps \<subseteq> L" using pbuf_inv_chain [OF inv xL] by blast
    show ?thesis
    proof (cases "l \<in> set ps")
      case True
      obtain us ys where d: "ps = us @ l # ys" "lst (nxt s) (Some l) (l # ys)" using lst_suffix [OF ps(1) True] by blast
      then have "ys = []" using l(2) by (cases ys) auto
      moreover have "l \<notin> set us" using lst_distinct [OF ps(1)] d(1) by auto
      ultimately have "lst (nxt s') (Some x) (us @ l # ts)" unfolding nx using lst_link [OF _ _ t(3,2)] ps(1) d(1) by simp
      moreover have "set ts \<subseteq> L" using chain_in [OF inv t(2) tL] .
      ultimately show ?thesis using ps(2) d(1) by (intro exI [of _ "us @ l # ts"]) auto
    next
      case False
      then show ?thesis using ps unfolding nx by (intro exI [of _ ps]) simp
    qed
  qed
  moreover have "unat (pb_ref (pm_pbuf s x)) = card (ptrs L s' x) + (ext(t := ext t - 1)) x" if "x \<in> L" for x
    using pbuf_invD(5) [OF inv that] fin t(1) by (auto simp: pt)
  ultimately show ?thesis
    using inv tL mem own unfolding pbuf_inv_def ref by simp
qed

lemma catted_inv:
  assumes inv: "pbuf_inv c base L ext s" and h: "h \<in> L" "lst (nxt s) (Some h) hs"
    and t: "0 < ext t" "lst (nxt s) (Some t) ts" "last hs \<notin> set ts"
  shows "pbuf_inv c base L (ext(t := ext t - 1)) (catted hs t s)"
proof -
  have ne: "hs \<noteq> []" using h(2) by auto
  have mem: "areas c base k (catted hs t s) = areas c base k s" "mem_wf c base (catted hs t s) = mem_wf c base s" for k
    by (simp_all add: catted_def areas_def mem_wf_def apart_def split: option.split)
  show ?thesis
  proof (rule pbuf_inv_link [OF inv _ _ t])
    show "last hs \<in> L" using chain_in [OF inv h(2,1)] ne by auto
    show "nxt s (last hs) = None" using lst_last [OF h(2) ne] .
    show "nxt (catted hs t s) = (nxt s)(last hs := Some t)" using nxt_catted [OF ne] .
    show "mem_wf c base (catted hs t s)" using pbuf_invD(1) [OF inv] mem by simp
    fix x show "pb_ref (pm_pbuf (catted hs t s) x) = pb_ref (pm_pbuf s x)" by (simp add: catted_def)
    assume "x \<in> L"
    then show "pbuf_owned c base (catted hs t s) x"
      using pbuf_invD(4) [OF inv] unfolding pbuf_owned_def mem by (simp add: catted_def)
  qed
qed

text \<open>Total lengths do not grow along a chain.\<close>

lemma tot_len_chain:
  "lens_ok L s \<Longrightarrow> lst (nxt s) (Some h) hs \<Longrightarrow> set hs \<subseteq> L \<Longrightarrow> x \<in> set hs \<Longrightarrow>
    unat (pb_tot_len (pm_pbuf s x)) \<le> unat (pb_tot_len (pm_pbuf s h))"
proof (induction hs arbitrary: h)
  case (Cons a hs)
  show ?case
  proof (cases "x = h")
    case False
    then have "x \<in> set hs" "a = h" using Cons.prems by auto
    then obtain b where b: "nxt s h = Some b" using Cons.prems by (cases hs) auto
    then have "unat (pb_tot_len (pm_pbuf s x)) \<le> unat (pb_tot_len (pm_pbuf s b))"
      using Cons \<open>x \<in> set hs\<close> \<open>a = h\<close> by simp
    then show ?thesis using Cons.prems(1,3) b \<open>a = h\<close> by (force simp: lens_ok_def)
  qed simp
qed simp

lemma catted_lens:
  assumes len: "lens_ok L s" and hs: "lst (nxt s) (Some h) hs" "set hs \<subseteq> L"
    and priv: "\<forall>q\<in>L. \<forall>x\<in>set hs. nxt s q = Some x \<longrightarrow> q \<in> set hs"
    and t: "t \<notin> set hs" "unat (pb_tot_len (pm_pbuf s h)) + unat (pb_tot_len (pm_pbuf s t)) < 65536"
  shows "lens_ok L (catted hs t s)"
  unfolding lens_ok_def
proof
  fix p assume p: "p \<in> L"
  have ne: "hs \<noteq> []" using hs(1) by auto
  have tot: "unat (pb_tot_len (pm_pbuf (catted hs t s) x)) =
      unat (pb_tot_len (pm_pbuf s x)) + (if x \<in> set hs then unat (pb_tot_len (pm_pbuf s t)) else 0)" for x
  proof (cases "x \<in> set hs")
    case True
    have "unat (pb_tot_len (pm_pbuf s x) + pb_tot_len (pm_pbuf s t)) = unat (pb_tot_len (pm_pbuf s x)) + unat (pb_tot_len (pm_pbuf s t))"
      using tot_len_chain [OF len hs True] t(2) by (subst unat_add_lt) simp_all
    then show ?thesis using True by (simp add: catted_def)
  qed (simp add: catted_def)
  have l: "pb_len (pm_pbuf (catted hs t s) p) = pb_len (pm_pbuf s p)" by (simp add: catted_def)
  have old: "unat (pb_tot_len (pm_pbuf s p)) = unat (pb_len (pm_pbuf s p)) +
      (case nxt s p of None \<Rightarrow> 0 | Some q \<Rightarrow> unat (pb_tot_len (pm_pbuf s q)))" using len p by (simp add: lens_ok_def)
  have inner: "q \<in> set hs" if q: "nxt s p = Some q" "p \<in> set hs" for q
  proof -
    obtain us ys where "hs = us @ p # ys" "lst (nxt s) (Some p) (p # ys)" using lst_suffix [OF hs(1) q(2)] by blast
    then show ?thesis using q(1) by (auto dest!: lst_Some)
  qed
  have nl: "nxt s (last hs) = None" using lst_last [OF hs(1) ne] .
  show "unat (pb_tot_len (pm_pbuf (catted hs t s) p)) = unat (pb_len (pm_pbuf (catted hs t s) p)) +
      (case nxt (catted hs t s) p of None \<Rightarrow> 0 | Some q \<Rightarrow> unat (pb_tot_len (pm_pbuf (catted hs t s) q)))"
    unfolding l tot fun_cong [OF nxt_catted [OF ne]]
  proof (cases "p = last hs")
    case True
    then show "unat (pb_tot_len (pm_pbuf s p)) + (if p \<in> set hs then unat (pb_tot_len (pm_pbuf s t)) else 0) = unat (pb_len (pm_pbuf s p)) +
      (case ((nxt s)(last hs := Some t)) p of None \<Rightarrow> 0
       | Some q \<Rightarrow> unat (pb_tot_len (pm_pbuf s q)) + (if q \<in> set hs then unat (pb_tot_len (pm_pbuf s t)) else 0))"
      using old nl t(1) ne by simp
  next
    case False
    then show "unat (pb_tot_len (pm_pbuf s p)) + (if p \<in> set hs then unat (pb_tot_len (pm_pbuf s t)) else 0) = unat (pb_len (pm_pbuf s p)) +
      (case ((nxt s)(last hs := Some t)) p of None \<Rightarrow> 0
       | Some q \<Rightarrow> unat (pb_tot_len (pm_pbuf s q)) + (if q \<in> set hs then unat (pb_tot_len (pm_pbuf s t)) else 0))"
    proof (cases "nxt s p")
      case None
      have "p \<notin> set hs"
      proof
        assume "p \<in> set hs"
        then obtain us ys where d: "hs = us @ p # ys" "lst (nxt s) (Some p) (p # ys)" using lst_suffix [OF hs(1)] by blast
        then have "ys = []" using None by (cases ys) auto
        then show False using d(1) False by simp
      qed
      then show ?thesis using old None False by simp
    next
      case (Some q)
      then show ?thesis using old False inner priv p by auto
    qed
  qed
qed

end
