(* ===== verification/Lwip_Pbuf_Alloc.thy ===== *)
theory Lwip_Pbuf_Alloc
  imports Lwip_Pbuf_Refs
begin

text \<open>
  Allocation of packet buffers.  \<open>pbuf_alloc\<close> either fails, and then all memory it took on the way has been given
  back, or returns a chain of fresh pbufs, each referred to once, of the requested length in total, with room for the
  headers of the layer in front of the first payload.
\<close>

section \<open>New pbufs\<close>

lemma live_area:
  assumes "pbuf_inv c base L ext s" "p \<in> L"
  shows "p \<in> fst ` areas c base (pbuf_class c (pb_type (pm_pbuf s p))) s"
  using pbuf_invD(4) [OF assms] by (force simp: pbuf_owned_def)

lemma pbuf_inv_kept:
  assumes inv: "pbuf_inv c base L ext s" and k: "mem_kept c base s s'"
  shows "pbuf_inv c base L ext s'"
proof -
  have pb: "pm_pbuf s' = pm_pbuf s" and wf: "mem_wf c base s'" using k by (simp_all add: mem_kept_def same_contents_def)
  then have "areas c base (pbuf_class c y) s' = areas c base (pbuf_class c y) s" for y
    using k pbuf_conf_okD(4) by (simp add: mem_kept_def mem_wf_def)
  then show ?thesis using inv wf by (simp add: pbuf_inv_def pbuf_owned_def pb ptrs_def)
qed

lemma taken_fresh:
  assumes inv: "pbuf_inv c base L ext s" and m: "mem_taken c base k p n s s'"
  shows "p \<notin> L"
proof
  assume p: "p \<in> L"
  have "pbuf_conf_ok c" using pbuf_invD(1) [OF inv] by (simp add: mem_wf_def)
  then have "class_ok c (pbuf_class c (pb_type (pm_pbuf s p)))" by (rule pbuf_conf_okD(4))
  then show False using live_area [OF inv p] m by (auto simp: mem_taken_def)
qed

text \<open>A pbuf in memory just taken, with its one reference held outside.\<close>

lemma pbuf_inv_add:
  assumes inv: "pbuf_inv c base L ext s" and m: "mem_taken c base (pbuf_class c (pb_type b)) p n s s1"
    and b: "pb_next b = None" "pb_ref b = 1"
    and pay: "pb_type b \<in> {PBUF_RAM, PBUF_POOL} \<Longrightarrow>
      p + SIZEOF_STRUCT_PBUF c \<le> pb_payload b \<and> pb_payload b + uint (pb_len b) \<le> p + n"
  shows "pbuf_inv c base (insert p L) (ext(p := 1)) (s1\<lparr>pm_pbuf := (pm_pbuf s)(p := b)\<rparr>)" (is "pbuf_inv _ _ _ _ ?s")
proof -
  have fresh: "p \<notin> L" using taken_fresh [OF inv m] .
  have conf: "pbuf_conf_ok c" using pbuf_invD(1) [OF inv] by (simp add: mem_wf_def)
  have mem: "areas c base k ?s = areas c base k s1" "mem_wf c base ?s = mem_wf c base s1" for k
    by (simp_all add: areas_def mem_wf_def apart_def split: option.split)
  have ar: "areas c base k s1 = (if k = pbuf_class c (pb_type b) then insert (p, n) (areas c base k s) else areas c base k s)"
    if "class_ok c k" for k using m that by (simp add: mem_taken_def)
  note ok = pbuf_conf_okD(4) [OF conf]
  have "pbuf_owned c base ?s x" if "x \<in> insert p L" for x
  proof (cases "x = p")
    case True
    then show ?thesis using pay ar [OF ok, of "pb_type b"] unfolding pbuf_owned_def mem by (intro exI [of _ n]) simp
  next
    case False
    then have "pbuf_owned c base s x" using that pbuf_invD(4) [OF inv] by simp
    then show ?thesis using False ar [OF ok, of "pb_type (pm_pbuf s x)"] unfolding pbuf_owned_def mem by (auto split: if_splits)
  qed
  moreover have "\<exists>ps. lst (nxt ?s) (Some x) ps \<and> set ps \<subseteq> insert p L" if x: "x \<in> insert p L" for x
  proof (cases "x = p")
    case True
    then show ?thesis using b(1) by (intro exI [of _ "[p]"]) simp
  next
    case False
    then obtain ps where ps: "lst (nxt s) (Some x) ps" "set ps \<subseteq> L" using x pbuf_inv_chain [OF inv] by blast
    have "lst (nxt ?s) (Some x) ps = lst (nxt s) (Some x) ps" using ps(2) fresh by (intro lst_cong) auto
    then show ?thesis using ps by auto
  qed
  moreover have "ptrs (insert p L) ?s x = (if x = p then {} else ptrs L s x)" if "x \<in> insert p L" for x
  proof -
    have "nxt s y \<noteq> Some p" if "y \<in> L" for y
    proof
      assume y: "nxt s y = Some p"
      obtain ps where ps: "lst (nxt s) (Some y) ps" "set ps \<subseteq> L" using pbuf_inv_chain [OF inv \<open>y \<in> L\<close>] by blast
      then show False using y fresh by (cases ps; cases "tl ps") auto
    qed
    then show ?thesis using b(1) fresh by (auto simp: ptrs_def)
  qed
  ultimately show ?thesis
    using inv m b(2) fresh unfolding pbuf_inv_def mem by (auto simp: mem_taken_def)
qed


section \<open>The chain under construction\<close>

text \<open>
  \<open>ps\<close> are the pbufs allocated since the state \<open>s0\<close>, in their order in the chain; \<open>rest\<close> is the part of the
  requested length that they do not hold yet.
\<close>

definition grown :: "pbuf_conf \<Rightarrow> int \<Rightarrow> int set \<Rightarrow> (int \<Rightarrow> nat) \<Rightarrow> pbuf_mem \<Rightarrow> pbuf_type \<Rightarrow> int list \<Rightarrow> nat \<Rightarrow> pbuf_mem \<Rightarrow> bool" where
  "grown c base L ext s0 ty ps rest s \<longleftrightarrow> ps \<noteq> [] \<and> set ps \<inter> L = {} \<and>
     pbuf_inv c base (L \<union> set ps) (ext(hd ps := 1)) s \<and> lst (nxt s) (Some (hd ps)) ps \<and>
     (\<forall>x\<in>set ps. pb_ref (pm_pbuf s x) = 1 \<and> pb_type (pm_pbuf s x) = ty \<and> MEM_ALIGNMENT (pc_mem c) dvd pb_payload (pm_pbuf s x) \<and>
        unat (pb_tot_len (pm_pbuf s x)) = unat (pb_len (pm_pbuf s x)) +
          (case nxt s x of None \<Rightarrow> rest | Some y \<Rightarrow> unat (pb_tot_len (pm_pbuf s y)))) \<and>
     (\<forall>x. x \<notin> set ps \<longrightarrow> pm_pbuf s x = pm_pbuf s0 x) \<and> pm_byte s = pm_byte s0 \<and>
     (\<forall>k. class_ok c k \<longrightarrow> {a \<in> areas c base k s. fst a \<notin> set ps} = areas c base k s0)"

text \<open>A failure leaves everything as it was, but for the structs in memory that is free again.\<close>

definition unchanged :: "pbuf_conf \<Rightarrow> int \<Rightarrow> int set \<Rightarrow> pbuf_mem \<Rightarrow> pbuf_mem \<Rightarrow> bool" where
  "unchanged c base L s s' \<longleftrightarrow> (\<forall>x\<in>L. pm_pbuf s' x = pm_pbuf s x) \<and> pm_byte s' = pm_byte s \<and>
     (\<forall>k. class_ok c k \<longrightarrow> areas c base k s' = areas c base k s)"

lemma grown_start:
  assumes inv: "pbuf_inv c base L ext s" and m: "mem_taken c base (pbuf_class c (pb_type b)) p n s s1"
    and b: "pb_next b = None" "pb_ref b = 1" "unat (pb_tot_len b) = unat (pb_len b) + rest" "MEM_ALIGNMENT (pc_mem c) dvd pb_payload b"
    and pay: "pb_type b \<in> {PBUF_RAM, PBUF_POOL} \<Longrightarrow>
      p + SIZEOF_STRUCT_PBUF c \<le> pb_payload b \<and> pb_payload b + uint (pb_len b) \<le> p + n"
  shows "grown c base L ext s (pb_type b) [p] rest (s1\<lparr>pm_pbuf := (pm_pbuf s)(p := b)\<rparr>)"
proof -
  have "pbuf_inv c base (insert p L) (ext(p := 1)) (s1\<lparr>pm_pbuf := (pm_pbuf s)(p := b)\<rparr>)"
    using pay by (intro pbuf_inv_add [OF inv m b(1,2)]) simp
  moreover have "areas c base k (s1\<lparr>pm_pbuf := f\<rparr>) = areas c base k s1" for k f by (simp add: areas_def split: option.split)
  moreover have "{a \<in> areas c base k s1. fst a \<notin> {p}} = areas c base k s" if "class_ok c k" for k
    using m that by (force simp: mem_taken_def)
  ultimately show ?thesis
    using b m taken_fresh [OF inv m] by (simp add: grown_def mem_taken_def same_contents_def)
qed

lemma lst_inner:
  assumes "lst nx p ps" "x \<in> set ps" "x \<noteq> last ps"
  obtains y where "nx x = Some y" "y \<in> set ps"
proof -
  obtain us ys where d: "ps = us @ x # ys" "lst nx (Some x) (x # ys)" using lst_suffix [OF assms(1,2)] by blast
  then show thesis using assms(3) that by (cases ys) auto
qed

lemma grown_link:
  assumes g: "grown c base L ext s0 PBUF_POOL ps rest s" and m: "mem_taken c base (Some (MEMP_PBUF_POOL c)) q n s s1"
    and b: "pb_type b = PBUF_POOL" "pb_next b = None" "pb_ref b = 1" "unat (pb_tot_len b) = rest" "unat (pb_len b) \<le> rest"
      "MEM_ALIGNMENT (pc_mem c) dvd pb_payload b"
    and pay: "q + SIZEOF_STRUCT_PBUF c \<le> pb_payload b" "pb_payload b + uint (pb_len b) \<le> q + n"
    and s': "s' = s1\<lparr>pm_pbuf := (pm_pbuf s)(q := b, last ps := (pm_pbuf s (last ps))\<lparr>pb_next := Some q\<rparr>)\<rparr>"
  shows "grown c base L ext s0 PBUF_POOL (ps @ [q]) (rest - unat (pb_len b)) s'"
proof -
  let ?s2 = "s1\<lparr>pm_pbuf := (pm_pbuf s)(q := b)\<rparr>" and ?l = "last ps"
  have inv: "pbuf_inv c base (L \<union> set ps) (ext(hd ps := 1)) s" and ne: "ps \<noteq> []" and ch: "lst (nxt s) (Some (hd ps)) ps"
    using g by (auto simp: grown_def)
  have cl: "pbuf_class c (pb_type b) = Some (MEMP_PBUF_POOL c)" by (simp add: b(1) pbuf_class_def)
  have fresh: "q \<notin> L \<union> set ps" using taken_fresh [OF inv m] .
  have inv2: "pbuf_inv c base (insert q (L \<union> set ps)) (ext(hd ps := 1, q := 1)) ?s2"
    using pay m by (intro pbuf_inv_add [OF inv _ b(2,3)]) (simp_all add: cl)
  have l: "?l \<in> set ps" "?l \<noteq> q" using ne fresh by auto
  have nl: "nxt s ?l = None" using lst_last [OF ch ne] .
  have mem: "areas c base k s' = areas c base k ?s2" "mem_wf c base s' = mem_wf c base ?s2" for k
    by (simp_all add: s' areas_def mem_wf_def apart_def split: option.split)
  have "pbuf_inv c base (insert q (L \<union> set ps)) ((ext(hd ps := 1, q := 1))(q := (ext(hd ps := 1, q := 1)) q - 1)) s'"
  proof (rule pbuf_inv_link [OF inv2, where l = ?l and ts = "[q]"])
    fix x assume "x \<in> insert q (L \<union> set ps)"
    then have "pbuf_owned c base ?s2 x" using pbuf_invD(4) [OF inv2] by simp
    then show "pbuf_owned c base s' x" using l unfolding pbuf_owned_def mem by (cases "x = ?l") (simp_all add: s')
  qed (use l nl b(2) pbuf_invD(1) [OF inv2] mem in \<open>simp_all add: s' fun_eq_iff\<close>)
  moreover have "ext q = 0" "hd ps \<noteq> q" using pbuf_invD(3) [OF inv, of q] fresh ne by (auto split: if_splits)
  ultimately have "pbuf_inv c base (L \<union> set (ps @ [q])) (ext(hd ps := 1)) s'" by (simp add: fun_upd_twist fun_upd_idem)
  moreover have "lst (nxt s') (Some (hd ps)) (ps @ [q])"
  proof -
    have d: "ps = butlast ps @ [?l]" "?l \<notin> set (butlast ps)" using ne lst_distinct [OF ch] by (cases ps rule: rev_cases; simp)+
    have "lst (nxt ?s2) (Some (hd ps)) ps = lst (nxt s) (Some (hd ps)) ps" using fresh by (intro lst_cong) auto
    then have "lst ((nxt ?s2)(?l := Some q)) (Some (hd ps)) (butlast ps @ ?l # [q])"
      using ch d l b(2) by (intro lst_link) simp_all
    moreover have "(nxt ?s2)(?l := Some q) = nxt s'" using l by (auto simp: s')
    ultimately show ?thesis using d(1) by (metis append_Cons append_Nil append_assoc)
  qed
  moreover have "{a \<in> areas c base k s'. fst a \<notin> set (ps @ [q])} = areas c base k s0" if k: "class_ok c k" for k
  proof -
    have "areas c base k s' = areas c base k s1" using mem by (simp add: areas_def split: option.split)
    moreover have "{a \<in> areas c base k s1. fst a \<noteq> q} = areas c base k s" using m k by (force simp: mem_taken_def)
    moreover have "{a \<in> areas c base k s. fst a \<notin> set ps} = areas c base k s0" using g k by (simp add: grown_def)
    ultimately show ?thesis by auto
  qed
  moreover have "unat (pb_tot_len (pm_pbuf s' x)) = unat (pb_len (pm_pbuf s' x)) +
      (case nxt s' x of None \<Rightarrow> rest - unat (pb_len b) | Some y \<Rightarrow> unat (pb_tot_len (pm_pbuf s' y)))"
    if x: "x \<in> set (ps @ [q])" for x
  proof -
    have old: "unat (pb_tot_len (pm_pbuf s x)) = unat (pb_len (pm_pbuf s x)) +
        (case nxt s x of None \<Rightarrow> rest | Some y \<Rightarrow> unat (pb_tot_len (pm_pbuf s y)))" if "x \<in> set ps"
      using g that by (simp add: grown_def)
    have at: "pm_pbuf s' ?l = (pm_pbuf s ?l)\<lparr>pb_next := Some q\<rparr>" "pm_pbuf s' q = b"
        "z \<noteq> ?l \<Longrightarrow> z \<noteq> q \<Longrightarrow> pm_pbuf s' z = pm_pbuf s z" for z
      using l(2) by (simp_all add: s')
    have tot: "pb_tot_len (pm_pbuf s' z) = pb_tot_len (pm_pbuf s z)" if "z \<in> set ps" for z using that fresh by (auto simp: s')
    consider "x = q" | "x = ?l" | "x \<in> set ps" "x \<noteq> ?l" "x \<noteq> q" using x fresh by auto
    then show ?thesis
    proof cases
      case 1
      then show ?thesis using b(2,4,5) by (simp add: at(2))
    next
      case 2
      then show ?thesis using old l(1) nl b(4) by (simp add: at(1,2))
    next
      case 3
      then obtain y where y: "nxt s x = Some y" "y \<in> set ps" using lst_inner [OF ch] by blast
      then show ?thesis using old 3 tot [OF y(2)] by (simp add: at(3))
    qed
  qed
  moreover have "pb_ref (pm_pbuf s' x) = 1 \<and> pb_type (pm_pbuf s' x) = PBUF_POOL \<and> MEM_ALIGNMENT (pc_mem c) dvd pb_payload (pm_pbuf s' x)"
    if "x \<in> set (ps @ [q])" for x
    using g b(1,3,6) that l(1) by (auto simp: grown_def s')
  moreover have "pm_pbuf s' x = pm_pbuf s0 x" if "x \<notin> set (ps @ [q])" for x using g that l(1) by (auto simp: grown_def s')
  moreover have "pm_byte s' = pm_byte s0" using g m by (simp add: grown_def s' mem_taken_def same_contents_def)
  moreover have "set (ps @ [q]) \<inter> L = {}" "hd (ps @ [q]) = hd ps" using g fresh ne by (auto simp: grown_def)
  ultimately show ?thesis unfolding grown_def by simp
qed

text \<open>When the pool is exhausted, freeing the first pbuf gives back all of them.\<close>

lemma grown_free:
  assumes inv0: "pbuf_inv c base L ext s0" and g: "grown c base L ext s0 ty ps rest s" and k: "mem_kept c base s s1"
  obtains count s' where "pbuf_free c (Some (hd ps)) s1 = Inr (count, s')" "pbuf_inv c base L ext s'" "unchanged c base L s0 s'"
proof -
  let ?p = "hd ps"
  have pb1: "pm_pbuf s1 = pm_pbuf s" "pm_byte s1 = pm_byte s" using k by (simp_all add: mem_kept_def same_contents_def)
  have ne: "ps \<noteq> []" and ch: "lst (nxt s1) (Some ?p) ps" and dis: "set ps \<inter> L = {}" using g by (auto simp: grown_def pb1)
  have inv: "pbuf_inv c base (L \<union> set ps) (ext(?p := 1)) s1" using g k by (auto simp: grown_def intro: pbuf_inv_kept)
  have sole: "sole s1 ps = ps" using g by (auto simp: sole_def grown_def pb1)
  obtain s' where s': "pbuf_free c (Some ?p) s1 = Inr (of_nat (length ps), s')"
      "pbuf_inv c base (L \<union> set ps - set ps) ((ext(?p := 1))(?p := (ext(?p := 1)) ?p - 1)) s'" "freed c base (set ps) s1 s'"
    using pbuf_free_ok [OF inv _ ch] unfolding sole by auto
  have "?p \<notin> L" using hd_in_set [OF ne] dis by blast
  then have "ext ?p = 0" using pbuf_invD(3) [OF inv0] by simp
  moreover have "L \<union> set ps - set ps = L" using dis by auto
  ultimately have inv': "pbuf_inv c base L ext s'" using s'(2) by (simp add: fun_upd_idem)
  have "pm_pbuf s' x = pm_pbuf s0 x" if x: "x \<in> L" for x
  proof -
    have eq: "(pm_pbuf s' y)\<lparr>pb_ref := 0\<rparr> = (pm_pbuf s0 y)\<lparr>pb_ref := 0\<rparr>" if "y \<in> L" for y
      using s'(3) g that dis by (auto simp: freed_def grown_def pb1)
    have "nxt s' y = nxt s0 y" if "y \<in> L" for y using arg_cong [OF eq [OF that], of pb_next] by simp
    then have "ptrs L s' x = ptrs L s0 x" by (auto simp: ptrs_def)
    then have "pb_ref (pm_pbuf s' x) = pb_ref (pm_pbuf s0 x)"
      using pbuf_invD(5) [OF inv' x] pbuf_invD(5) [OF inv0 x] by (simp add: word_unat_eq_iff)
    then show ?thesis using eq [OF x] by (cases "pm_pbuf s' x"; cases "pm_pbuf s0 x") simp
  qed
  moreover have "pm_byte s' = pm_byte s0" using s'(3) g by (simp add: freed_def grown_def pb1)
  moreover have "areas c base y s' = areas c base y s0" if "class_ok c y" for y
    using s'(3) g k that by (simp add: freed_def grown_def mem_kept_def)
  ultimately show thesis using that s'(1) inv' by (simp add: unchanged_def)
qed

section \<open>Sizes\<close>

lemma pbuf_sizes:
  assumes "pbuf_conf_ok c"
  shows "MEM_ALIGNMENT (pc_mem c) dvd SIZEOF_STRUCT_PBUF c" "0 < SIZEOF_STRUCT_PBUF c" "SIZEOF_STRUCT_PBUF c < 72"
    "0 < PBUF_POOL_BUFSIZE_ALIGNED c" "PBUF_POOL_BUFSIZE_ALIGNED c < 65536"
    "MEMP_PBUF c < MEMP_MAX (pc_memp c)" "MEMP_PBUF_POOL c < MEMP_MAX (pc_memp c)"
    "memp_sizes (pc_memp c) ! MEMP_PBUF_POOL c = SIZEOF_STRUCT_PBUF c + PBUF_POOL_BUFSIZE_ALIGNED c"
proof -
  have cf: "conf_ok (pc_mem c)" using assms by (rule pbuf_conf_okD)
  then have al: "MEM_ALIGNMENT (pc_mem c) \<le> 8" by (auto simp: conf_ok_def)
  note a = align_bounds [OF cf] align_dvd [OF cf]
  show "MEM_ALIGNMENT (pc_mem c) dvd SIZEOF_STRUCT_PBUF c" by (simp add: SIZEOF_STRUCT_PBUF_def ALIGN_SIZE_def a)
  show "0 < SIZEOF_STRUCT_PBUF c" "SIZEOF_STRUCT_PBUF c < 72"
    using a(1,2) [of "sizeof_pbuf c"] al assms by (simp_all add: SIZEOF_STRUCT_PBUF_def ALIGN_SIZE_def pbuf_conf_ok_def)
  have "0 \<le> ALIGN_SIZE c (PBUF_TRANSPORT_HLEN + PBUF_IP_HLEN + PBUF_LINK_HLEN c)"
    using a(1) [of "PBUF_TRANSPORT_HLEN + PBUF_IP_HLEN + PBUF_LINK_HLEN c"] assms
    by (simp add: ALIGN_SIZE_def PBUF_TRANSPORT_HLEN_def PBUF_IP_HLEN_def pbuf_conf_ok_def)
  then show "0 < PBUF_POOL_BUFSIZE_ALIGNED c" using assms by (simp add: pbuf_conf_ok_def)
qed (use assms in \<open>simp_all add: pbuf_conf_ok_def\<close>)

section \<open>The tail of a chain\<close>

text \<open>One turn of the loop: the pool has another pbuf, and its fields are set.\<close>

definition tail_pbuf :: "pbuf_conf \<Rightarrow> int \<Rightarrow> int \<Rightarrow> pbuf" where
  "tail_pbuf c rem_len q = \<lparr>pb_next = None, pb_payload = q + SIZEOF_STRUCT_PBUF c, pb_tot_len = word_of_int rem_len,
     pb_len = word_of_int (min (rem_len mod 2 ^ 16) (PBUF_POOL_BUFSIZE_ALIGNED c)), pb_type = PBUF_POOL, pb_flags = 0, pb_ref = 1\<rparr>"

lemma tail_pbuf_lens:
  assumes "pbuf_conf_ok c" "0 < rem_len" "rem_len < 65535"
  shows "unat (pb_tot_len (tail_pbuf c rem_len q)) = nat rem_len" "0 < uint (pb_len (tail_pbuf c rem_len q))"
    "uint (pb_len (tail_pbuf c rem_len q)) \<le> rem_len" "uint (pb_len (tail_pbuf c rem_len q)) \<le> PBUF_POOL_BUFSIZE_ALIGNED c"
    "unat (pb_len (tail_pbuf c rem_len q)) \<le> nat rem_len"
proof -
  let ?m = "min rem_len (PBUF_POOL_BUFSIZE_ALIGNED c)"
  have "uint (word_of_int rem_len :: u16) = rem_len" using assms by (simp add: uint_word_of_int)
  then show "unat (pb_tot_len (tail_pbuf c rem_len q)) = nat rem_len" by (simp add: tail_pbuf_def unat_eq_nat_uint del: uint_word_of_int_eq)
  have u: "uint (pb_len (tail_pbuf c rem_len q)) = ?m"
    using assms pbuf_sizes(4,5) [OF assms(1)] by (simp add: tail_pbuf_def uint_word_of_int)
  then show "0 < uint (pb_len (tail_pbuf c rem_len q))" "uint (pb_len (tail_pbuf c rem_len q)) \<le> rem_len"
    "uint (pb_len (tail_pbuf c rem_len q)) \<le> PBUF_POOL_BUFSIZE_ALIGNED c" "unat (pb_len (tail_pbuf c rem_len q)) \<le> nat rem_len"
    using assms pbuf_sizes(4) [OF assms(1)] by (simp_all add: unat_eq_nat_uint)
qed

lemma tail_step:
  assumes conf: "pbuf_conf_ok c" and pool: "pool_malloc c (MEMP_PBUF_POOL c) s = Inr (s1, Some q)"
    and m: "mem_taken c base (Some (MEMP_PBUF_POOL c)) q n s s1"
    and r: "0 < rem_len" "rem_len < 65535" "q \<noteq> r" "q \<noteq> p"
    and p: "pb_payload (pm_pbuf s p) + uint (pb_len (pm_pbuf s p)) \<le> p + SIZEOF_STRUCT_PBUF c + PBUF_POOL_BUFSIZE_ALIGNED c"
    and s': "s' = s1\<lparr>pm_pbuf := (pm_pbuf s)(q := tail_pbuf c rem_len q, r := (pm_pbuf s r)\<lparr>pb_next := Some q\<rparr>)\<rparr>"
  shows "pbuf_alloc_tail c p r rem_len s = pbuf_alloc_tail c p q (rem_len - uint (pb_len (tail_pbuf c rem_len q))) s'"
proof -
  have same: "pm_pbuf s1 = pm_pbuf s" and al: "MEM_ALIGNMENT (pc_mem c) dvd q" using m by (simp_all add: mem_taken_def same_contents_def)
  have "MEM_ALIGNMENT (pc_mem c) dvd q + SIZEOF_STRUCT_PBUF c" using al pbuf_sizes(1) [OF conf] by (rule dvd_add)
  then have d: "(q + SIZEOF_STRUCT_PBUF c) mod MEM_ALIGNMENT (pc_mem c) = 0" by simp
  define s2 where "s2 = pb q (\<lambda>b. b\<lparr>pb_tot_len := word_of_int rem_len,
      pb_len := word_of_int (min rem_len (PBUF_POOL_BUFSIZE_ALIGNED c)), pb_payload := q + SIZEOF_STRUCT_PBUF c, pb_ref := 1\<rparr>)
      (pb r (\<lambda>b. b\<lparr>pb_next := Some q\<rparr>) (pb q (\<lambda>b. b\<lparr>pb_type := PBUF_POOL, pb_flags := 0, pb_next := None\<rparr>) s1))"
  have "pm_pbuf s2 = pm_pbuf s'" using r(1-3) by (auto simp: s2_def s' pb_def same tail_pbuf_def fun_eq_iff)
  then have s2: "s2 = s'" by (simp add: s2_def s' pb_def)
  have fields: "pb_payload (pm_pbuf s' p) = pb_payload (pm_pbuf s p)" "pb_len (pm_pbuf s' p) = pb_len (pm_pbuf s p)"
    "pm_pbuf s' q = tail_pbuf c rem_len q"
    using r(3,4) by (simp_all add: s')
  show ?thesis
    using r pool d p
    by (subst pbuf_alloc_tail.simps) (simp add: Let_def s2_def [symmetric] s2 fields)
qed

lemma pbuf_alloc_tail_ok:
  assumes inv0: "pbuf_inv c base L ext s0" and "grown c base L ext s0 PBUF_POOL ps (nat rem_len) s" "0 \<le> rem_len" "rem_len < 65535"
    "pb_payload (pm_pbuf s (hd ps)) + uint (pb_len (pm_pbuf s (hd ps))) \<le> hd ps + SIZEOF_STRUCT_PBUF c + PBUF_POOL_BUFSIZE_ALIGNED c"
  shows "\<exists>s'. pbuf_alloc_tail c (hd ps) (last ps) rem_len s = Some (Inr (False, s')) \<and> pbuf_inv c base L ext s' \<and> unchanged c base L s0 s' \<or>
    (\<exists>qs. pbuf_alloc_tail c (hd ps) (last ps) rem_len s = Some (Inr (True, s')) \<and> grown c base L ext s0 PBUF_POOL (ps @ qs) 0 s' \<and>
      pb_payload (pm_pbuf s' (hd ps)) = pb_payload (pm_pbuf s (hd ps)) \<and> pb_tot_len (pm_pbuf s' (hd ps)) = pb_tot_len (pm_pbuf s (hd ps)))"
  using assms(2-5)
proof (induction "nat rem_len" arbitrary: ps rem_len s rule: less_induct)
  case less
  note g = less.prems(1) and rem = less.prems(2,3) and pay = less.prems(4)
  have conf: "pbuf_conf_ok c" using pbuf_invD(1) [OF inv0] by (simp add: mem_wf_def)
  have inv: "pbuf_inv c base (L \<union> set ps) (ext(hd ps := 1)) s" and ne: "ps \<noteq> []" using g by (auto simp: grown_def)
  show ?case
  proof (cases "rem_len = 0")
    case True
    then have "pbuf_alloc_tail c (hd ps) (last ps) rem_len s = Some (Inr (True, s))" by (subst pbuf_alloc_tail.simps) simp
    then show ?thesis using g True by (intro exI [of _ s] disjI2 exI [of _ "[]"]) simp
  next
    case False
    then have r: "0 < rem_len" using rem by simp
    from pbuf_invD(1) [OF inv] pbuf_sizes(7) [OF conf] show ?thesis
    proof (cases rule: pool_malloc_cases)
      case (null s1)
      obtain count s' where s': "pbuf_free c (Some (hd ps)) s1 = Inr (count, s')" "pbuf_inv c base L ext s'" "unchanged c base L s0 s'"
        using grown_free [OF inv0 g null(2)] by blast
      then have "pbuf_alloc_tail c (hd ps) (last ps) rem_len s = Some (Inr (False, s'))"
        using null(1) r by (subst pbuf_alloc_tail.simps) simp
      then show ?thesis using s' by blast
    next
      case (some s1 q)
      let ?b = "tail_pbuf c rem_len q"
      define s2 where "s2 = s1\<lparr>pm_pbuf := (pm_pbuf s)(q := ?b, last ps := (pm_pbuf s (last ps))\<lparr>pb_next := Some q\<rparr>)\<rparr>"
      note b = tail_pbuf_lens [OF conf r rem(2), of q]
      have f: "pb_type ?b = PBUF_POOL" "pb_next ?b = None" "pb_ref ?b = 1" "pb_payload ?b = q + SIZEOF_STRUCT_PBUF c"
        by (simp_all add: tail_pbuf_def)
      have fresh: "q \<notin> L \<union> set ps" using taken_fresh [OF inv some(2)] .
      then have q: "q \<noteq> last ps" "q \<noteq> hd ps" using ne by auto
      have "MEM_ALIGNMENT (pc_mem c) dvd q" using some(2) by (simp add: mem_taken_def)
      then have al: "MEM_ALIGNMENT (pc_mem c) dvd pb_payload ?b" unfolding f using pbuf_sizes(1) [OF conf] by (rule dvd_add)
      have "q + SIZEOF_STRUCT_PBUF c \<le> pb_payload ?b" by (simp add: f(4))
      moreover have "pb_payload ?b + uint (pb_len ?b) \<le> q + memp_sizes (pc_memp c) ! MEMP_PBUF_POOL c"
        unfolding f pbuf_sizes(8) [OF conf] using b(4) by simp
      ultimately have "grown c base L ext s0 PBUF_POOL (ps @ [q]) (nat rem_len - unat (pb_len ?b)) s2"
        by (rule grown_link [OF g some(2) f(1-3) b(1,5) al _ _ s2_def])
      moreover have "nat rem_len - unat (pb_len ?b) = nat (rem_len - uint (pb_len ?b))"
        using r by (subst nat_diff_distrib') simp_all
      ultimately have g2: "grown c base L ext s0 PBUF_POOL (ps @ [q]) (nat (rem_len - uint (pb_len ?b))) s2" by simp
      have hd: "hd (ps @ [q]) = hd ps" "last (ps @ [q]) = q" using ne by simp_all
      have same: "pb_payload (pm_pbuf s2 (hd ps)) = pb_payload (pm_pbuf s (hd ps))" "pb_len (pm_pbuf s2 (hd ps)) = pb_len (pm_pbuf s (hd ps))"
          "pb_tot_len (pm_pbuf s2 (hd ps)) = pb_tot_len (pm_pbuf s (hd ps))"
        using q by (simp_all add: s2_def)
      note step = tail_step [OF conf some r rem(2) q pay s2_def]
      show ?thesis
        using less.hyps [OF _ g2] b(2,3) rem r pay unfolding hd step same append_assoc by fastforce
    qed
  qed
qed

section \<open>Allocation\<close>

lemma align_shift: "conf_ok cf \<Longrightarrow> MEM_ALIGNMENT cf dvd p \<Longrightarrow> LWIP_MEM_ALIGN cf (p + y) = p + LWIP_MEM_ALIGN_SIZE cf y"
proof -
  assume cf: "conf_ok cf" and "MEM_ALIGNMENT cf dvd p"
  then obtain k where k: "p = MEM_ALIGNMENT cf * k" by auto
  have a: "0 < MEM_ALIGNMENT cf" using cf by (auto simp: conf_ok_def)
  have eq: "p + y + MEM_ALIGNMENT cf - 1 = MEM_ALIGNMENT cf * k + (y + MEM_ALIGNMENT cf - 1)" by (simp add: k)
  have "(p + y + MEM_ALIGNMENT cf - 1) div MEM_ALIGNMENT cf = k + (y + MEM_ALIGNMENT cf - 1) div MEM_ALIGNMENT cf"
    unfolding eq by (rule div_mult_self4) (use a in simp)
  then show ?thesis by (simp add: align_size [OF cf] k algebra_simps)
qed

text \<open>The last assignments of \<open>pbuf_alloc\<close> set fields that the invariant does not need or that are so already.\<close>

lemma grown_finish:
  assumes g: "grown c base L ext s0 ty ps rest s"
  shows "grown c base L ext s0 ty ps rest (pb (hd ps) (\<lambda>b. b\<lparr>pb_ref := 1, pb_flags := 0\<rparr>) s)" (is "grown _ _ _ _ _ _ _ _ ?s")
proof -
  have h: "hd ps \<in> set ps" using g by (simp add: grown_def)
  then have "pb_ref (pm_pbuf s (hd ps)) = 1" using g by (simp add: grown_def)
  then have f: "pb_next (pm_pbuf ?s x) = pb_next (pm_pbuf s x)" "pb_ref (pm_pbuf ?s x) = pb_ref (pm_pbuf s x)"
    "pb_type (pm_pbuf ?s x) = pb_type (pm_pbuf s x)" "pb_payload (pm_pbuf ?s x) = pb_payload (pm_pbuf s x)"
    "pb_len (pm_pbuf ?s x) = pb_len (pm_pbuf s x)" "pb_tot_len (pm_pbuf ?s x) = pb_tot_len (pm_pbuf s x)" for x
    by (auto simp: pbuf_simps)
  have "pm_pbuf ?s x = pm_pbuf s x" if "x \<notin> set ps" for x using that h by (auto simp: pbuf_simps)
  then show ?thesis
    using g unfolding grown_def pbuf_inv_def pbuf_owned_def ptrs_def f by (simp add: pbuf_simps(2-))
qed

text \<open>The request to the heap that fits its size type.\<close>

definition ram_fits :: "pbuf_conf \<Rightarrow> pbuf_layer \<Rightarrow> u16 \<Rightarrow> bool" where
  "ram_fits c layer nbytes \<longleftrightarrow>
     legal_size (pc_mem c) (ALIGN_SIZE c (SIZEOF_STRUCT_PBUF c + pbuf_offset c layer) + ALIGN_SIZE c (uint nbytes))"

definition alloc_done ::
  "pbuf_conf \<Rightarrow> int \<Rightarrow> int set \<Rightarrow> (int \<Rightarrow> nat) \<Rightarrow> pbuf_mem \<Rightarrow> pbuf_layer \<Rightarrow> u16 \<Rightarrow> pbuf_type \<Rightarrow> int list \<Rightarrow> pbuf_mem \<Rightarrow> bool" where
  "alloc_done c base L ext s layer nbytes ty ps s' \<longleftrightarrow> grown c base L ext s ty ps 0 s' \<and>
     pb_tot_len (pm_pbuf s' (hd ps)) = nbytes \<and>
     (ty \<in> {PBUF_RAM, PBUF_POOL} \<longrightarrow> hd ps + SIZEOF_STRUCT_PBUF c + pbuf_offset c layer \<le> pb_payload (pm_pbuf s' (hd ps)))"

lemma kept_unchanged: "mem_kept c base s s' \<Longrightarrow> unchanged c base L s s'"
  by (simp add: mem_kept_def unchanged_def same_contents_def)

lemma pbuf_alloc_ref_ok:
  assumes inv: "pbuf_inv c base L ext s" and ty: "ty \<in> {PBUF_ROM, PBUF_REF}"
  obtains (null) s' where "pbuf_alloc c layer nbytes ty s = Inr (None, s')" "pbuf_inv c base L ext s'" "unchanged c base L s s'"
  | (some) ps s' where "pbuf_alloc c layer nbytes ty s = Inr (Some (hd ps), s')" "alloc_done c base L ext s layer nbytes ty ps s'"
proof -
  have conf: "pbuf_conf_ok c" using pbuf_invD(1) [OF inv] by (simp add: mem_wf_def)
  have a: "pbuf_alloc c layer nbytes ty s = pbuf_alloc_ref c ty nbytes s" using ty by (auto simp: pbuf_alloc_def)
  from pbuf_invD(1) [OF inv] pbuf_sizes(6) [OF conf] show thesis
  proof (cases rule: pool_malloc_cases)
    case (null s')
    then show thesis using that(1) pbuf_inv_kept [OF inv] kept_unchanged by (simp add: a pbuf_alloc_ref_def)
  next
    case (some s1 p)
    let ?b = "(pm_pbuf s p)\<lparr>pb_payload := 0, pb_len := nbytes, pb_tot_len := nbytes, pb_next := None, pb_type := ty, pb_ref := 1, pb_flags := 0\<rparr>"
    have cl: "pbuf_class c (pb_type ?b) = Some (MEMP_PBUF c)" using ty by (auto simp: pbuf_class_def)
    have "grown c base L ext s (pb_type ?b) [p] 0 (s1\<lparr>pm_pbuf := (pm_pbuf s)(p := ?b)\<rparr>)"
      using some(2) ty unfolding cl [symmetric] by (intro grown_start [OF inv]) auto
    moreover have "pbuf_alloc_ref c ty nbytes s = Inr (Some p, s1\<lparr>pm_pbuf := (pm_pbuf s)(p := ?b)\<rparr>)"
      using some by (simp add: pbuf_alloc_ref_def Let_def pb_def mem_taken_def same_contents_def)
    ultimately show thesis using that(2) [of "[p]"] ty by (auto simp: a alloc_done_def)
  qed
qed

lemma pbuf_alloc_ram_ok:
  assumes inv: "pbuf_inv c base L ext s" and size: "ram_fits c layer nbytes"
  obtains (null) s' where "pbuf_alloc c layer nbytes PBUF_RAM s = Inr (None, s')" "pbuf_inv c base L ext s'" "unchanged c base L s s'"
  | (some) ps s' where "pbuf_alloc c layer nbytes PBUF_RAM s = Inr (Some (hd ps), s')" "alloc_done c base L ext s layer nbytes PBUF_RAM ps s'"
proof -
  let ?off = "pbuf_offset c layer" and ?n = "ALIGN_SIZE c (SIZEOF_STRUCT_PBUF c + pbuf_offset c layer)"
  have cf: "conf_ok (pc_mem c)" using pbuf_invD(1) [OF inv] pbuf_conf_okD(1) by (simp add: mem_wf_def)
  note al = align_bounds [OF cf] align_dvd [OF cf]
  have off: "0 \<le> ?off" using pbuf_invD(1) [OF inv]
    by (auto simp: pbuf_offset_def mem_wf_def pbuf_conf_ok_def PBUF_TRANSPORT_HLEN_def PBUF_IP_HLEN_def split: pbuf_layer.split)
  have a: "pbuf_alloc c layer nbytes PBUF_RAM s = pbuf_alloc_ram c ?off nbytes s" by (simp add: pbuf_alloc_def)
  from pbuf_invD(1) [OF inv] size [unfolded ram_fits_def] show thesis
  proof (cases rule: ram_malloc_cases)
    case (null s')
    then show thesis using that(1) pbuf_inv_kept [OF inv] kept_unchanged by (simp add: a pbuf_alloc_ram_def)
  next
    case (some s1 p m)
    have p: "MEM_ALIGNMENT (pc_mem c) dvd p" using some(3) by (simp add: mem_taken_def)
    have pay: "LWIP_MEM_ALIGN (pc_mem c) (p + SIZEOF_STRUCT_PBUF c + ?off) = p + ?n"
      using align_shift [OF cf p, of "SIZEOF_STRUCT_PBUF c + ?off"] by (simp add: ALIGN_SIZE_def add.assoc)
    let ?b = "(pm_pbuf s p)\<lparr>pb_payload := p + ?n, pb_len := nbytes, pb_tot_len := nbytes, pb_next := None, pb_type := PBUF_RAM, pb_ref := 1, pb_flags := 0\<rparr>"
    have d: "MEM_ALIGNMENT (pc_mem c) dvd p + ?n" using p al(3) by (simp add: ALIGN_SIZE_def)
    have b: "SIZEOF_STRUCT_PBUF c + ?off \<le> ?n" "?n + uint nbytes \<le> m"
      using al(1) [of "SIZEOF_STRUCT_PBUF c + ?off"] al(1) [of "uint nbytes"] some(2) by (simp_all add: ALIGN_SIZE_def)
    have "grown c base L ext s (pb_type ?b) [p] 0 (s1\<lparr>pm_pbuf := (pm_pbuf s)(p := ?b)\<rparr>)"
      using some(3) d b off by (intro grown_start [OF inv, where n = m]) (simp_all add: pbuf_class_def)
    moreover have "pbuf_alloc_ram c ?off nbytes s = Inr (Some p, s1\<lparr>pm_pbuf := (pm_pbuf s)(p := ?b)\<rparr>)"
      using some d by (simp add: pbuf_alloc_ram_def Let_def pb_def mem_taken_def same_contents_def pay)
    ultimately show thesis using that(2) [of "[p]"] b(1) by (auto simp: a alloc_done_def)
  qed
qed

lemma pbuf_offset_fits:
  assumes "pbuf_conf_ok c"
  shows "pbuf_offset c layer \<le> ALIGN_SIZE c (pbuf_offset c layer)" "0 \<le> ALIGN_SIZE c (pbuf_offset c layer)"
    "ALIGN_SIZE c (pbuf_offset c layer) < PBUF_POOL_BUFSIZE_ALIGNED c" "PBUF_POOL_BUFSIZE_ALIGNED c < 65536"
proof -
  have cf: "conf_ok (pc_mem c)" using assms by (rule pbuf_conf_okD)
  have a: "0 < MEM_ALIGNMENT (pc_mem c)" using cf by (auto simp: conf_ok_def)
  let ?m = "PBUF_TRANSPORT_HLEN + PBUF_IP_HLEN + PBUF_LINK_HLEN c"
  have o: "0 \<le> pbuf_offset c layer" "pbuf_offset c layer \<le> ?m"
    using assms by (auto simp: pbuf_offset_def pbuf_conf_ok_def PBUF_TRANSPORT_HLEN_def PBUF_IP_HLEN_def split: pbuf_layer.split)
  show le: "pbuf_offset c layer \<le> ALIGN_SIZE c (pbuf_offset c layer)" using align_bounds(1) [OF cf] by (simp add: ALIGN_SIZE_def)
  then show "0 \<le> ALIGN_SIZE c (pbuf_offset c layer)" using o(1) by simp
  have "ALIGN_SIZE c (pbuf_offset c layer) \<le> ALIGN_SIZE c ?m"
    using a o(2) by (auto simp: ALIGN_SIZE_def align_size [OF cf] intro!: mult_right_mono zdiv_mono1)
  then show "ALIGN_SIZE c (pbuf_offset c layer) < PBUF_POOL_BUFSIZE_ALIGNED c" "PBUF_POOL_BUFSIZE_ALIGNED c < 65536"
    using assms by (simp_all add: pbuf_conf_ok_def)
qed

lemma pbuf_alloc_pool_ok:
  assumes inv: "pbuf_inv c base L ext s"
  obtains (null) s' where "pbuf_alloc c layer nbytes PBUF_POOL s = Inr (None, s')" "pbuf_inv c base L ext s'" "unchanged c base L s s'"
  | (some) ps s' where "pbuf_alloc c layer nbytes PBUF_POOL s = Inr (Some (hd ps), s')" "alloc_done c base L ext s layer nbytes PBUF_POOL ps s'"
proof -
  let ?off = "pbuf_offset c layer" and ?S = "SIZEOF_STRUCT_PBUF c" and ?B = "PBUF_POOL_BUFSIZE_ALIGNED c"
  have conf: "pbuf_conf_ok c" and cf: "conf_ok (pc_mem c)" using pbuf_invD(1) [OF inv] pbuf_conf_okD(1) by (simp_all add: mem_wf_def)
  let ?o = "ALIGN_SIZE c ?off"
  have off: "?off \<le> ?o" "0 \<le> ?o" "?o < ?B" "?B < 65536" by (rule pbuf_offset_fits [OF conf])+
  have a: "pbuf_alloc c layer nbytes PBUF_POOL s = pbuf_alloc_pool c ?off nbytes s" by (simp add: pbuf_alloc_def)
  from pbuf_invD(1) [OF inv] pbuf_sizes(7) [OF conf] show thesis
  proof (cases rule: pool_malloc_cases)
    case (null s')
    then show thesis using that(1) pbuf_inv_kept [OF inv] kept_unchanged by (simp add: a pbuf_alloc_pool_def)
  next
    case (some s1 p)
    have p: "MEM_ALIGNMENT (pc_mem c) dvd p" using some(2) by (simp add: mem_taken_def)
    have pS: "MEM_ALIGNMENT (pc_mem c) dvd p + ?S" using p pbuf_sizes(1) [OF conf] by (rule dvd_add)
    have pay: "LWIP_MEM_ALIGN (pc_mem c) (p + (?S + ?off)) = p + ?S + ?o"
      using align_shift [OF cf pS, of ?off] by (simp add: ALIGN_SIZE_def add.assoc)
    define len :: u16 where "len = word_of_int (min (uint nbytes) (?B - ?o))"
    have len: "uint len = min (uint nbytes) (?B - ?o)" using off(2-4) by (simp add: len_def uint_word_of_int)
    define b where "b = (pm_pbuf s p)\<lparr>pb_type := PBUF_POOL, pb_next := None, pb_payload := p + ?S + ?o, pb_tot_len := nbytes, pb_len := len, pb_ref := 1\<rparr>"
    define s2 where "s2 = s1\<lparr>pm_pbuf := (pm_pbuf s)(p := b)\<rparr>"
    have same: "pm_pbuf s1 = pm_pbuf s" using some(2) by (simp add: mem_taken_def same_contents_def)
    have bf: "pb_type b = PBUF_POOL" "pb_next b = None" "pb_payload b = p + ?S + ?o" "pb_tot_len b = nbytes" "pb_len b = len" "pb_ref b = 1"
      by (simp_all add: b_def)
    have d: "MEM_ALIGNMENT (pc_mem c) dvd p + ?S + ?o" using pS align_dvd [OF cf] by (simp add: ALIGN_SIZE_def)
    have fit: "p + ?S + ?o + uint len \<le> p + ?S + ?B" using len by simp
    have rem: "0 \<le> uint nbytes - uint len" "uint nbytes - uint len < 65535"
      using len off(2,3) uint_range_size [of nbytes] by (auto simp: word_size min_def)
    have "unat nbytes = unat len + nat (uint nbytes - uint len)"
      using rem(1) nat_mono [of "uint len" "uint nbytes"] by (subst nat_diff_distrib') simp_all
    then have "grown c base L ext s (pb_type b) [p] (nat (uint nbytes - uint len)) (s1\<lparr>pm_pbuf := (pm_pbuf s)(p := b)\<rparr>)"
      using some(2) d fit off(2) pbuf_sizes(8) [OF conf] by (intro grown_start [OF inv, where n = "?S + ?B"]) (simp_all add: bf pbuf_class_def)
    then have g: "grown c base L ext s PBUF_POOL [p] (nat (uint nbytes - uint len)) s2" by (simp add: bf s2_def)
    have at: "pm_pbuf s2 p = b" by (simp add: s2_def)
    have step: "pbuf_alloc_pool c ?off nbytes s = lwip_bind (lwip_run (pbuf_alloc_tail c p p (uint nbytes - uint len) s2)) (\<lambda>(ok, s).
        if ok then Inr (Some p, pb p (\<lambda>b. b\<lparr>pb_ref := 1, pb_flags := 0\<rparr>) s) else Inr (None, s))"
    proof -
      have "pb p (\<lambda>b. b\<lparr>pb_type := PBUF_POOL, pb_next := None, pb_payload := p + ?S + ?o, pb_tot_len := nbytes, pb_len := len, pb_ref := 1\<rparr>) s1 = s2"
        by (simp add: pb_def s2_def b_def same)
      then show ?thesis using some(1) d fit by (simp add: pbuf_alloc_pool_def Let_def pay len_def [symmetric])
    qed
    let ?tail = "pbuf_alloc_tail c p p (uint nbytes - uint len) s2"
    obtain s3 where "?tail = Some (Inr (False, s3)) \<and> pbuf_inv c base L ext s3 \<and> unchanged c base L s s3 \<or>
        (\<exists>qs. ?tail = Some (Inr (True, s3)) \<and> grown c base L ext s PBUF_POOL (p # qs) 0 s3 \<and>
          pb_payload (pm_pbuf s3 p) = p + ?S + ?o \<and> pb_tot_len (pm_pbuf s3 p) = nbytes)"
      using pbuf_alloc_tail_ok [OF inv g rem] fit by (auto simp: at bf)
    then show thesis
    proof (elim disjE exE conjE)
      assume "?tail = Some (Inr (False, s3))" "pbuf_inv c base L ext s3" "unchanged c base L s s3"
      then show thesis using that(1) by (simp add: a step lwip_run_def)
    next
      fix qs assume t: "?tail = Some (Inr (True, s3))" and g3: "grown c base L ext s PBUF_POOL (p # qs) 0 s3"
        and f3: "pb_payload (pm_pbuf s3 p) = p + ?S + ?o" "pb_tot_len (pm_pbuf s3 p) = nbytes"
      have "alloc_done c base L ext s layer nbytes PBUF_POOL (p # qs) (pb p (\<lambda>b. b\<lparr>pb_ref := 1, pb_flags := 0\<rparr>) s3)"
        using grown_finish [OF g3] f3 off(1) by (simp add: alloc_done_def pbuf_simps(1))
      then show thesis using that(2) [of "p # qs"] t by (simp add: a step lwip_run_def)
    qed
  qed
qed

lemma pbuf_alloc_ok:
  assumes inv: "pbuf_inv c base L ext s" and size: "ty = PBUF_RAM \<longrightarrow> ram_fits c layer nbytes"
  obtains (null) s' where "pbuf_alloc c layer nbytes ty s = Inr (None, s')" "pbuf_inv c base L ext s'" "unchanged c base L s s'"
  | (some) ps s' where "pbuf_alloc c layer nbytes ty s = Inr (Some (hd ps), s')" "alloc_done c base L ext s layer nbytes ty ps s'"
proof (cases ty)
  case PBUF_RAM
  then show thesis using that pbuf_alloc_ram_ok [OF inv] size by metis
next
  case PBUF_POOL
  then show thesis using that pbuf_alloc_pool_ok [OF inv] by metis
next
  case PBUF_ROM
  then have "ty \<in> {PBUF_ROM, PBUF_REF}" by simp
  then show thesis using that by (rule pbuf_alloc_ref_ok [OF inv])
next
  case PBUF_REF
  then have "ty \<in> {PBUF_ROM, PBUF_REF}" by simp
  then show thesis using that by (rule pbuf_alloc_ref_ok [OF inv])
qed

end
