(* ===== verification/Lwip_Pbuf_Ops.thy ===== *)
theory Lwip_Pbuf_Ops
  imports Lwip_Pbuf_Alloc
begin

text \<open>
  The other operations on packet buffers under the invariant of reference counts and lengths: \<open>pbuf_dechain\<close>,
  \<open>pbuf_header\<close> and \<open>pbuf_copy_partial\<close>.
\<close>

section \<open>Lengths after an allocation\<close>

lemma nxt_in:
  assumes inv: "pbuf_inv c base L ext s" and p: "p \<in> L" "nxt s p = Some q"
  shows "q \<in> L"
proof -
  obtain ps where ps: "lst (nxt s) (Some p) ps" "set ps \<subseteq> L" using pbuf_inv_chain [OF inv p(1)] by blast
  then show ?thesis using p(2) by (cases ps; cases "tl ps") auto
qed

lemma alloc_lens:
  assumes inv: "pbuf_inv c base L ext s" and len: "lens_ok L s" and a: "alloc_done c base L ext s layer nbytes ty ps s'"
  shows "lens_ok (L \<union> set ps) s'"
  unfolding lens_ok_def
proof
  fix x assume x: "x \<in> L \<union> set ps"
  have g: "grown c base L ext s ty ps 0 s'" using a by (simp add: alloc_done_def)
  show "unat (pb_tot_len (pm_pbuf s' x)) = unat (pb_len (pm_pbuf s' x)) +
      (case nxt s' x of None \<Rightarrow> 0 | Some q \<Rightarrow> unat (pb_tot_len (pm_pbuf s' q)))"
  proof (cases "x \<in> set ps")
    case True
    then show ?thesis using g by (simp add: grown_def)
  next
    case False
    then have xL: "x \<in> L" using x by simp
    have same: "pm_pbuf s' y = pm_pbuf s y" if "y \<in> L" for y using g that by (auto simp: grown_def)
    have "pm_pbuf s' y = pm_pbuf s y" if "nxt s x = Some y" for y using same nxt_in [OF inv xL that] by simp
    then show ?thesis using len xL by (auto simp: lens_ok_def same split: option.split)
  qed
qed

lemma unchanged_lens:
  assumes inv: "pbuf_inv c base L ext s" and len: "lens_ok L s" and u: "unchanged c base L s s'"
  shows "lens_ok L s'"
proof -
  have same: "pm_pbuf s' y = pm_pbuf s y" if "y \<in> L" for y using u that by (simp add: unchanged_def)
  have "pm_pbuf s' y = pm_pbuf s y" if "nxt s x = Some y" "x \<in> L" for x y using same nxt_in [OF inv that(2,1)] by simp
  then show ?thesis using len by (auto simp: lens_ok_def same split: option.split)
qed

text \<open>The total length of a pbuf is the sum over its chain.\<close>

lemma lens_sum:
  "lens_ok L s \<Longrightarrow> lst (nxt s) (Some p) ps \<Longrightarrow> set ps \<subseteq> L \<Longrightarrow>
    (\<Sum>x\<leftarrow>ps. unat (pb_len (pm_pbuf s x))) = unat (pb_tot_len (pm_pbuf s p))"
proof (induction ps arbitrary: p)
  case (Cons a ps)
  then have a: "a = p" "p \<in> L" "lst (nxt s) (nxt s p) ps" "set ps \<subseteq> L" by auto
  have t: "unat (pb_tot_len (pm_pbuf s p)) = unat (pb_len (pm_pbuf s p)) +
      (case nxt s p of None \<Rightarrow> 0 | Some q \<Rightarrow> unat (pb_tot_len (pm_pbuf s q)))" using Cons.prems(1) a(2) by (simp add: lens_ok_def)
  show ?case
  proof (cases "nxt s p")
    case None
    then show ?thesis using a t by (cases ps) auto
  next
    case (Some q)
    then show ?thesis using a t Cons.IH [of q] Cons.prems(1) by simp
  qed
qed simp

section \<open>Taking a chain apart\<close>

lemma lst_leave:
  assumes ch: "lst nx p (fs @ ys)" and y: "y \<in> set fs" "nx y = Some x" "x \<notin> set fs"
  shows "ys \<noteq> [] \<and> y = last fs \<and> x = hd ys"
proof -
  obtain us vs where d: "fs = us @ y # vs" using split_list [OF y(1)] by blast
  then obtain q where "lst nx q (y # vs @ ys)" using ch lst_app [of nx p us "y # vs @ ys"] by auto
  then have l: "lst nx (Some x) (vs @ ys)" using y(2) by simp
  have "vs = []" using l y(3) d by (cases vs) auto
  then show ?thesis using l d by (cases ys) auto
qed

lemma lst_cut:
  assumes "lst nx p (us @ l # ys)"
  shows "lst (nx(l := None)) p (us @ [l])"
proof -
  have "l \<notin> set us" using lst_distinct [OF assms] by auto
  then show ?thesis using assms by (induction us arbitrary: p) auto
qed

text \<open>Clearing a pointer turns it into a reference from outside.\<close>

lemma pbuf_inv_unlink:
  assumes inv: "pbuf_inv c base L ext s" and p: "p \<in> L" "nxt s p = Some q"
    and mem: "mem_wf c base s'" and own: "\<And>x. x \<in> L \<Longrightarrow> pbuf_owned c base s' x"
    and ref: "\<And>x. pb_ref (pm_pbuf s' x) = pb_ref (pm_pbuf s x)" and nx: "nxt s' = (nxt s)(p := None)"
  shows "pbuf_inv c base L (ext(q := ext q + 1)) s'"
proof -
  have qL: "q \<in> L" using nxt_in [OF inv p] .
  have pt: "ptrs L s x = (if x = q then insert p (ptrs L s' x) else ptrs L s' x)" "p \<notin> ptrs L s' x" for x
    using p by (auto simp: ptrs_def fun_cong [OF nx])
  have fin: "finite (ptrs L s' x)" for x using pbuf_invD(2) [OF inv] by (simp add: ptrs_def)
  have "\<exists>ps. lst (nxt s') (Some x) ps \<and> set ps \<subseteq> L" if xL: "x \<in> L" for x
  proof -
    obtain ps where ps: "lst (nxt s) (Some x) ps" "set ps \<subseteq> L" using pbuf_inv_chain [OF inv xL] by blast
    show ?thesis
    proof (cases "p \<in> set ps")
      case True
      then obtain us ys where d: "ps = us @ p # ys" using split_list by metis
      then show ?thesis using ps lst_cut unfolding nx by (intro exI [of _ "us @ [p]"]) auto
    next
      case False
      then show ?thesis using ps unfolding nx by (intro exI [of _ ps]) simp
    qed
  qed
  moreover have "unat (pb_ref (pm_pbuf s x)) = card (ptrs L s' x) + (ext(q := ext q + 1)) x" if "x \<in> L" for x
    using pbuf_invD(5) [OF inv that] fin pt by auto
  ultimately show ?thesis
    using inv qL mem own unfolding pbuf_inv_def ref by simp
qed

lemma pbuf_dechain_ok:
  assumes inv: "pbuf_inv c base L ext s" and len: "lens_ok L s" and p: "p \<in> L" "ptrs L s p = {}"
    and q: "nxt s p = Some q" "lst (nxt s) (Some q) qs"
  obtains s' where "pbuf_dechain c p s = Inr (if (of_nat (length (sole s qs)) :: u8) > 0 then None else Some q, s')"
    "pbuf_inv c base (L - set (sole s qs)) ext s'" "lens_ok (L - set (sole s qs)) s'"
    "freed c base (set (sole s qs)) (pb p (\<lambda>b. b\<lparr>pb_next := None, pb_tot_len := pb_len b\<rparr>) s) s'"
proof -
  let ?s = "pb p (\<lambda>b. b\<lparr>pb_next := None, pb_tot_len := pb_len b\<rparr>) s"
  have "lst (nxt s) (Some p) (p # qs)" using q by simp
  then have pq: "p \<notin> set qs" using lst_distinct by fastforce
  have qq: "q \<in> set qs" using q(2) by (auto dest: lst_Some)
  then have ne: "q \<noteq> p" using pq by auto
  have tot: "unat (pb_tot_len (pm_pbuf s p)) = unat (pb_len (pm_pbuf s p)) + unat (pb_tot_len (pm_pbuf s q))"
    using len p(1) q(1) by (simp add: lens_ok_def)
  then have "uint (pb_tot_len (pm_pbuf s q)) = uint (pb_tot_len (pm_pbuf s p)) - uint (pb_len (pm_pbuf s p))"
    using arg_cong [OF tot, of int] by simp
  moreover have eq: "pb_tot_len (pm_pbuf s p) - pb_len (pm_pbuf s p) = pb_tot_len (pm_pbuf s q)"
    using tot by (simp add: word_unat_eq_iff unat_sub word_le_nat_alt)
  moreover have "pb p (\<lambda>b. b\<lparr>pb_next := None, pb_tot_len := pb_len b\<rparr>) (pb q (\<lambda>b. b\<lparr>pb_tot_len := pb_tot_len (pm_pbuf s q)\<rparr>) s) = ?s"
    using ne by (simp add: pb_def fun_upd_idem)
  ultimately have step: "pbuf_dechain c p s = lwip_bind (pbuf_free c (Some q) ?s) (\<lambda>(tail_gone, s).
      lwip_assert ''p->tot_len == p->len'' (pb_tot_len (pm_pbuf s p) = pb_len (pm_pbuf s p)) (Inr (if tail_gone > 0 then None else Some q, s)))"
    using q(1) by (simp add: pbuf_dechain_def Let_def)
  have inv1: "pbuf_inv c base L (ext(q := ext q + 1)) ?s"
  proof (rule pbuf_inv_unlink [OF inv p(1) q(1)])
    fix x assume "x \<in> L"
    then have "pbuf_owned c base s x" using pbuf_invD(4) [OF inv] by simp
    then show "pbuf_owned c base ?s x" unfolding pbuf_owned_def by (cases "x = p") (simp_all add: pbuf_simps)
  qed (use pbuf_invD(1) [OF inv] in \<open>simp_all add: pbuf_simps fun_eq_iff\<close>)
  have "lst (nxt ?s) (Some q) qs = lst (nxt s) (Some q) qs" using pq by (intro lst_cong) (auto simp: pbuf_simps)
  then have ch: "lst (nxt ?s) (Some q) qs" using q(2) by simp
  have so: "sole ?s qs = sole s qs" unfolding sole_def using pq by (intro takeWhile_cong) (auto simp: pbuf_simps)
  obtain s' where s': "pbuf_free c (Some q) ?s = Inr (of_nat (length (sole s qs)), s')"
      "pbuf_inv c base (L - set (sole s qs)) ((ext(q := ext q + 1))(q := (ext(q := ext q + 1)) q - 1)) s'"
      "freed c base (set (sole s qs)) ?s s'"
    using pbuf_free_ok [OF inv1 _ ch] unfolding so by auto
  have "lens_ok L ?s"
    unfolding lens_ok_def
  proof
    fix x assume x: "x \<in> L"
    have "nxt s x \<noteq> Some p" using p(2) x by (auto simp: ptrs_def)
    then show "unat (pb_tot_len (pm_pbuf ?s x)) = unat (pb_len (pm_pbuf ?s x)) +
        (case nxt ?s x of None \<Rightarrow> 0 | Some q \<Rightarrow> unat (pb_tot_len (pm_pbuf ?s q)))"
      using len x by (cases "x = p") (auto simp: lens_ok_def pbuf_simps split: option.splits)
  qed
  then have "lens_ok (L - set (sole s qs)) s'" using freed_lens [OF s'(3)] by simp
  moreover have "pbuf_inv c base (L - set (sole s qs)) ext s'" using s'(2) by simp
  moreover have "pb_tot_len (pm_pbuf s' p) = pb_len (pm_pbuf s' p)" using freedD [OF s'(3)] by (simp add: pbuf_simps)
  ultimately show thesis using that s'(1,3) by (simp add: step)
qed

section \<open>Moving the payload\<close>

lemma uint_add_signed:
  fixes x w :: u16
  assumes "0 \<le> uint x + sint w" "uint x + sint w < 65536"
  shows "uint (x + w) = uint x + sint w"
proof -
  have "x + w = word_of_int (uint x + sint w)" by simp
  then have "uint (x + w) = (uint x + sint w) mod 65536" by (simp only: uint_word_of_int) simp
  then show ?thesis using assms by simp
qed

text \<open>The pbuf after its payload has been moved by \<open>w\<close> octets.\<close>

definition moved :: "int \<Rightarrow> 16 word \<Rightarrow> pbuf_mem \<Rightarrow> pbuf_mem" where
  "moved p w s = pb p (\<lambda>b. b\<lparr>pb_payload := pb_payload b - sint w, pb_len := pb_len b + w, pb_tot_len := pb_tot_len b + w\<rparr>) s"

text \<open>When it fits: there are the octets to strip, or there is room for a header behind the struct.\<close>

definition header_fits :: "pbuf_conf \<Rightarrow> int \<Rightarrow> 16 word \<Rightarrow> pbuf_mem \<Rightarrow> bool" where
  "header_fits c p w s \<longleftrightarrow> w = 0 \<or> (sint w < 0 \<longrightarrow> - sint w \<le> uint (pb_len (pm_pbuf s p))) \<and>
     (if pb_type (pm_pbuf s p) \<in> {PBUF_RAM, PBUF_POOL} then p + SIZEOF_STRUCT_PBUF c \<le> pb_payload (pm_pbuf s p) - sint w else sint w < 0)"

lemma sint_zero_iff: "sint (w :: 16 word) = 0 \<longleftrightarrow> w = 0"
  by (rule signed_eq_0_iff)

lemma moved_0: "moved p 0 s = s"
  by (simp add: moved_def pb_def)

lemma pbuf_header_eq: "pbuf_header c p w s = (if header_fits c p w s then (0, moved p w s) else (1, s))"
  by (auto simp: pbuf_header_def Let_def header_fits_def moved_def [symmetric] sint_zero_iff moved_0)

lemma moved_ok:
  assumes inv: "pbuf_inv c base L ext s" and len: "lens_ok L s" and p: "p \<in> L" "ptrs L s p = {}"
    and fits: "header_fits c p w s" "uint (pb_tot_len (pm_pbuf s p)) + sint w < 65536"
  shows "pbuf_inv c base L ext (moved p w s)" "lens_ok L (moved p w s)"
    "uint (pb_len (pm_pbuf (moved p w s) p)) = uint (pb_len (pm_pbuf s p)) + sint w"
    "uint (pb_tot_len (pm_pbuf (moved p w s) p)) = uint (pb_tot_len (pm_pbuf s p)) + sint w"
proof -
  let ?s = "moved p w s" and ?b = "pm_pbuf s p"
  have old: "unat (pb_tot_len (pm_pbuf s x)) = unat (pb_len (pm_pbuf s x)) +
      (case nxt s x of None \<Rightarrow> 0 | Some q \<Rightarrow> unat (pb_tot_len (pm_pbuf s q)))" if "x \<in> L" for x using len that by (simp add: lens_ok_def)
  have "unat (pb_len ?b) \<le> unat (pb_tot_len ?b)" using old [OF p(1)] by simp
  then have le: "uint (pb_len ?b) \<le> uint (pb_tot_len ?b)" by (simp add: word_le_nat_alt [symmetric] word_le_def)
  have lo: "0 \<le> uint (pb_len ?b) + sint w" using fits(1) by (auto simp: header_fits_def)
  show l: "uint (pb_len (pm_pbuf ?s p)) = uint (pb_len ?b) + sint w"
    using uint_add_signed [OF lo] le fits(2) by (simp add: moved_def pbuf_simps)
  show t: "uint (pb_tot_len (pm_pbuf ?s p)) = uint (pb_tot_len ?b) + sint w"
    using uint_add_signed [of "pb_tot_len ?b" w] lo le fits(2) by (simp add: moved_def pbuf_simps)
  have f: "pb_next (pm_pbuf ?s x) = pb_next (pm_pbuf s x)" "pb_ref (pm_pbuf ?s x) = pb_ref (pm_pbuf s x)"
    "pb_type (pm_pbuf ?s x) = pb_type (pm_pbuf s x)" "x \<noteq> p \<Longrightarrow> pm_pbuf ?s x = pm_pbuf s x"
    "pb_payload (pm_pbuf ?s p) = pb_payload ?b - sint w" for x by (auto simp: moved_def pbuf_simps)
  have mem: "areas c base k ?s = areas c base k s" "mem_wf c base ?s = mem_wf c base s" for k by (simp_all add: moved_def pbuf_simps)
  have "pbuf_owned c base ?s x" if "x \<in> L" for x
  proof (cases "x = p")
    case True
    obtain n where n: "(p, n) \<in> areas c base (pbuf_class c (pb_type ?b)) s" "pb_type ?b \<in> {PBUF_RAM, PBUF_POOL} \<longrightarrow>
        p + SIZEOF_STRUCT_PBUF c \<le> pb_payload ?b \<and> pb_payload ?b + uint (pb_len ?b) \<le> p + n"
      using pbuf_invD(4) [OF inv p(1)] by (auto simp: pbuf_owned_def)
    have "p + SIZEOF_STRUCT_PBUF c \<le> pb_payload ?b - sint w" if "pb_type ?b \<in> {PBUF_RAM, PBUF_POOL}"
      using fits(1) n(2) that by (auto simp: header_fits_def)
    then show ?thesis unfolding True pbuf_owned_def mem f l using n by (intro exI [of _ n]) auto
  next
    case False
    then show ?thesis using pbuf_invD(4) [OF inv that] unfolding pbuf_owned_def mem by (simp add: f(4))
  qed
  then show "pbuf_inv c base L ext ?s" using inv unfolding pbuf_inv_def ptrs_def f mem by simp
  show "lens_ok L ?s"
    unfolding lens_ok_def
  proof
    fix x assume x: "x \<in> L"
    show "unat (pb_tot_len (pm_pbuf ?s x)) = unat (pb_len (pm_pbuf ?s x)) +
        (case nxt ?s x of None \<Rightarrow> 0 | Some q \<Rightarrow> unat (pb_tot_len (pm_pbuf ?s q)))"
    proof (cases "x = p")
      case True
      have same: "pb_tot_len (pm_pbuf ?s y) = pb_tot_len (pm_pbuf s y)" if "nxt s p = Some y" for y
        using that p by (cases "y = p") (auto simp: ptrs_def f(4))
      have "int (unat (pb_tot_len (pm_pbuf ?s p))) = int (unat (pb_len (pm_pbuf ?s p)) +
          (case nxt s p of None \<Rightarrow> 0 | Some q \<Rightarrow> unat (pb_tot_len (pm_pbuf s q))))"
        using arg_cong [OF old [OF p(1)], of int] l t by (auto split: option.splits)
      then show ?thesis unfolding True f(1) int_int_eq using same by (auto split: option.splits)
    next
      case False
      then have "nxt s x \<noteq> Some p" using p(2) x by (auto simp: ptrs_def)
      then show ?thesis using old [OF x] False by (auto simp: f(4) split: option.splits)
    qed
  qed
qed

lemma sint_minus:
  fixes w :: "16 word"
  assumes "w \<noteq> 0x8000"
  shows "sint (- w) = - sint w"
proof -
  have "sint w \<noteq> sint (0x8000 :: 16 word)" using assms signed_word_eqI by blast
  then have "- 32768 < sint w" "sint w < 32768" using sint_ge [of w] sint_lt [of w] by simp_all
  moreover have "- w = word_of_int (- sint w)" by simp
  ultimately show ?thesis by (simp only: sint_sbintrunc') (simp add: signed_take_bit_int_eq_self)
qed

lemma moved_back: "w \<noteq> 0x8000 \<Longrightarrow> moved p (- w) (moved p w s) = s"
  by (simp add: moved_def pb_def sint_minus)

section \<open>Copying out\<close>

text \<open>The octets of a pbuf and of a chain, and a list of octets written to memory.\<close>

definition pbuf_bytes :: "pbuf_mem \<Rightarrow> int \<Rightarrow> u8 list" where
  "pbuf_bytes s p = map (\<lambda>i. pm_byte s (pb_payload (pm_pbuf s p) + int i)) [0..<unat (pb_len (pm_pbuf s p))]"

definition chain_bytes :: "pbuf_mem \<Rightarrow> int list \<Rightarrow> u8 list" where
  "chain_bytes s ps = concat (map (pbuf_bytes s) ps)"

definition put :: "int \<Rightarrow> u8 list \<Rightarrow> pbuf_mem \<Rightarrow> pbuf_mem" where
  "put d bs s = s\<lparr>pm_byte := (\<lambda>a. if d \<le> a \<and> a < d + int (length bs) then bs ! nat (a - d) else pm_byte s a)\<rparr>"

text \<open>The destination, of \<open>n\<close> octets, overlaps no payload of the chain.\<close>

definition clear_of :: "int \<Rightarrow> nat \<Rightarrow> pbuf_mem \<Rightarrow> int list \<Rightarrow> bool" where
  "clear_of d n s ps \<longleftrightarrow> (\<forall>x\<in>set ps. d + int n \<le> pb_payload (pm_pbuf s x) \<or> pb_payload (pm_pbuf s x) + uint (pb_len (pm_pbuf s x)) \<le> d)"

lemma length_pbuf_bytes [simp]: "length (pbuf_bytes s p) = unat (pb_len (pm_pbuf s p))"
  by (simp add: pbuf_bytes_def)

lemma pm_byte_eqI: "(\<And>a. f a = g a) \<Longrightarrow> s\<lparr>pm_byte := f\<rparr> = s\<lparr>pm_byte := g\<rparr>"
  by presburger

lemma put_Nil [simp]: "put d [] s = s"
proof -
  have "(\<lambda>a. if d \<le> a \<and> a < d then [] ! nat (a - d) else pm_byte s a) = pm_byte s" by (rule ext) auto
  then show ?thesis by (simp add: put_def)
qed

lemma put_put: "put (d + int (length xs)) ys (put d xs s) = put d (xs @ ys) s"
proof -
  have i: "nat (a - d) - length xs = nat (a - (d + int (length xs)))" for a by simp
  have "(if d + int (length xs) \<le> a \<and> a < d + int (length xs) + int (length ys) then ys ! nat (a - (d + int (length xs)))
      else if d \<le> a \<and> a < d + int (length xs) then xs ! nat (a - d) else pm_byte s a) =
    (if d \<le> a \<and> a < d + int (length (xs @ ys)) then (xs @ ys) ! nat (a - d) else pm_byte s a)" for a
    by (auto simp: nth_append nat_less_iff i simp del: nat_diff_distrib)
  then show ?thesis by (simp add: put_def cong: if_cong)
qed

lemma MEMCPY_put:
  assumes "off + n \<le> unat (pb_len (pm_pbuf s p))"
  shows "MEMCPY d (pb_payload (pm_pbuf s p) + int off) n s = put d (take n (drop off (pbuf_bytes s p))) s"
proof -
  have e: "take n (drop off (pbuf_bytes s p)) ! nat (a - d) = pm_byte s (pb_payload (pm_pbuf s p) + int off + (a - d))"
    if "d \<le> a" "a < d + int n" for a
  proof -
    have "nat (a - d) < n" "off + nat (a - d) < unat (pb_len (pm_pbuf s p))" using that assms by auto
    then show ?thesis using that(1) by (simp add: pbuf_bytes_def algebra_simps)
  qed
  have l: "length (take n (drop off (pbuf_bytes s p))) = n" using assms by simp
  show ?thesis unfolding MEMCPY_def put_def l by (intro pm_byte_eqI if_cong refl e [symmetric]) simp_all
qed

lemma put_fields [simp]: "pm_pbuf (put d bs s) = pm_pbuf s"
  by (simp add: put_def)

lemma put_clear:
  assumes "clear_of d n s ps" "length bs \<le> n"
  shows "chain_bytes (put d bs s) ps = chain_bytes s ps"
proof -
  have "pbuf_bytes (put d bs s) x = pbuf_bytes s x" if "x \<in> set ps" for x
  proof -
    have d: "d + int n \<le> pb_payload (pm_pbuf s x) \<or> pb_payload (pm_pbuf s x) + uint (pb_len (pm_pbuf s x)) \<le> d"
      using assms(1) that by (simp add: clear_of_def)
    have "int i < uint (pb_len (pm_pbuf s x))" if "i < unat (pb_len (pm_pbuf s x))" for i using that by (metis uint_nat of_nat_less_iff)
    then show ?thesis using d assms(2) by (fastforce simp: pbuf_bytes_def put_def)
  qed
  then show ?thesis by (simp add: chain_bytes_def cong: map_cong)
qed

lemma pbuf_copy_partial_loop_ok:
  assumes "lst (nxt s) p ps" "clear_of (d + uint left) (unat len) s ps" "unat left + unat len < 65536"
  shows "pbuf_copy_partial_loop d p len off left left s =
    Some (left + of_nat (length (take (unat len) (drop (unat off) (chain_bytes s ps)))),
      put (d + uint left) (take (unat len) (drop (unat off) (chain_bytes s ps))) s)"
  using assms
proof (induction ps arbitrary: p len off left s)
  case Nil
  then show ?case by (subst pbuf_copy_partial_loop.simps) (simp add: chain_bytes_def)
next
  case (Cons x ps)
  have p: "p = Some x" "lst (nxt s) (nxt s x) ps" using Cons.prems(1) by auto
  let ?l = "pb_len (pm_pbuf s x)" and ?B = "chain_bytes s ps"
  have cb: "chain_bytes s (x # ps) = pbuf_bytes s x @ ?B" by (simp add: chain_bytes_def)
  have cl: "clear_of (d + uint left) (unat len) s ps" using Cons.prems(2) by (simp add: clear_of_def)
  show ?case
  proof (cases "len = 0")
    case True
    then show ?thesis by (subst pbuf_copy_partial_loop.simps) (simp add: p(1))
  next
    case False
    show ?thesis
    proof (cases "off \<noteq> 0 \<and> off \<ge> ?l")
      case True
      then have "unat (off - ?l) = unat off - unat ?l" "unat ?l \<le> unat off" by (simp_all add: unat_sub word_le_nat_alt)
      then have "drop (unat off) (chain_bytes s (x # ps)) = drop (unat (off - ?l)) ?B" by (simp add: cb)
      moreover have "pbuf_copy_partial_loop d p len off left left s = pbuf_copy_partial_loop d (nxt s x) len (off - ?l) left left s"
        using True False by (subst pbuf_copy_partial_loop.simps) (simp add: p(1) Let_def)
      ultimately show ?thesis using Cons.IH [OF p(2) cl Cons.prems(3), of "off - ?l"] by simp
    next
      case skip: False
      then have le: "off \<le> ?l" by (auto simp: not_le)
      then have d: "unat (?l - off) = unat ?l - unat off" "unat off \<le> unat ?l" by (simp_all add: unat_sub word_le_nat_alt)
      define n where "n = (if ?l - off > len then len else ?l - off)"
      have n: "unat n = min (unat len) (unat ?l - unat off)" by (simp add: n_def word_less_nat_alt d(1))
      have nl: "n \<le> len" "unat (len - n) = unat len - unat n" using n by (simp_all add: word_le_nat_alt unat_sub)
      have ln: "unat (left + n) = unat left + unat n" using n Cons.prems(3) by (subst unat_add_lt) simp_all
      then have lnu: "uint (left + n) = uint left + int (unat n)" by (metis uint_nat of_nat_add)
      let ?xs = "take (unat n) (drop (unat off) (pbuf_bytes s x))"
      let ?s = "put (d + uint left) ?xs s"
      have lx: "length ?xs = unat n" using n d(2) by simp
      have s1: "MEMCPY (d + uint left) (pb_payload (pm_pbuf s x) + uint off) (unat n) s = ?s"
        using MEMCPY_put [of "unat off" "unat n" s x "d + uint left"] n d(2) by simp
      have step: "pbuf_copy_partial_loop d p len off left left s = pbuf_copy_partial_loop d (nxt s x) (len - n) 0 (left + n) (left + n) ?s"
        using False by (subst pbuf_copy_partial_loop.simps) (simp add: p(1) Let_def n_def [symmetric] s1 if_not_P [OF skip] del: not_not de_Morgan_conj)
      have ch: "chain_bytes ?s ps = ?B" using put_clear [OF cl, of ?xs] n lx by simp
      have "lst (nxt ?s) (nxt s x) ps" using p(2) by simp
      moreover have "clear_of (d + uint (left + n)) (unat (len - n)) ?s ps"
        using cl n nl(2) unfolding clear_of_def lnu by (fastforce simp: of_nat_diff)
      moreover have "unat (left + n) + unat (len - n) < 65536" using ln nl(2) n Cons.prems(3) by simp
      ultimately have ih: "pbuf_copy_partial_loop d (nxt s x) (len - n) 0 (left + n) (left + n) ?s =
          Some (left + n + of_nat (length (take (unat len - unat n) ?B)), put (d + uint left + int (unat n)) (take (unat len - unat n) ?B) ?s)"
        using Cons.IH [of ?s "nxt s x" "left + n" "len - n" 0] unfolding ch nl(2) lnu by (simp add: add.assoc)
      have bs: "take (unat len) (drop (unat off) (chain_bytes s (x # ps))) = ?xs @ take (unat len - unat n) ?B"
      proof (cases "unat len \<le> unat ?l - unat off")
        case True
        then show ?thesis using n d(2) by (simp add: cb)
      next
        case False
        then show ?thesis using n d(2) by (simp add: cb)
      qed
      have "left + n + of_nat (length (take (unat len - unat n) ?B)) = left + of_nat (length (?xs @ take (unat len - unat n) ?B))"
        using lx by simp
      moreover have "put (d + uint left + int (unat n)) (take (unat len - unat n) ?B) ?s = put (d + uint left) (?xs @ take (unat len - unat n) ?B) s"
        using put_put [of "d + uint left" ?xs] lx by simp
      ultimately show ?thesis unfolding step ih bs by simp
    qed
  qed
qed

lemma pbuf_copy_partial_eq:
  assumes "lst (nxt s) (Some p) ps" "clear_of d (unat len) s ps"
  shows "pbuf_copy_partial (Some p) (Some d) len off s =
    Inr (of_nat (length (take (unat len) (drop (unat off) (chain_bytes s ps)))), put d (take (unat len) (drop (unat off) (chain_bytes s ps))) s)"
  using pbuf_copy_partial_loop_ok [of s "Some p" ps d 0 len off] assms unat_lt2p [of len]
  by (simp add: pbuf_copy_partial_def lwip_loop_def)

end
