(* ===== verification/Lwip_Pbuf_Realloc.thy ===== *)
theory Lwip_Pbuf_Realloc
  imports Lwip_Pbuf_Ops
begin

text \<open>
  Shrinking a packet.  \<open>pbuf_realloc\<close> keeps the pbufs up to the new length, corrects their total lengths, shrinks the
  memory of the last one if it came from the heap, and frees the rest of the chain.
\<close>

section \<open>Shrinking an area of the heap\<close>

lemma mem_realloc_cases:
  assumes cf: "conf_ok cf" and h: "heap_inv cf h" and a: "(p, n) \<in> allocated cf h" and sz: "0 < sz" "sz \<le> n"
  obtains h' m where "mem_realloc cf p sz h = Inr (h', Some p)" "heap_inv cf h'" "sz \<le> m"
    "allocated cf h' = insert (p, m) (allocated cf h - {(p, n)})" "sz + MEM_ALIGNMENT cf \<le> 65536"
proof -
  obtain os where os: "heap_ok cf h os" using h by (auto simp: heap_inv_def)
  note al = allocated_eq [OF cf]
  have v: "(p, n) \<in> live cf h os" using a al [OF os] by simp
  obtain xs x b ys where d: "os = xs @ x # b # ys" "n = b - x - HDR cf" "0 \<le> x" "b \<le> HEND cf" "x + HDR cf + MINB cf \<le> b" "MEM_ALIGNMENT cf dvd x"
    using live_cases [OF cf os v] by metis
  note cfs = conf_facts [OF cf]
  have l: "links cf (blk h) os" using os by (simp add: heap_ok_def heap_pre_def)
  have "MEM_ALIGNMENT cf dvd b" using links_bounds(3) [OF cf l] d(1) by simp
  then have n: "MEM_ALIGNMENT cf dvd n" using d(2,6) cfs(8) by simp
  have A: "0 < MEM_ALIGNMENT cf" "MEM_ALIGNMENT cf \<le> 8" using cf by (auto simp: conf_ok_def)
  obtain i j where ij: "LWIP_MEM_ALIGN_SIZE cf sz = MEM_ALIGNMENT cf * i" "n = MEM_ALIGNMENT cf * j" using align_dvd [OF cf] n by (meson dvd_def)
  have "MEM_ALIGNMENT cf * i < MEM_ALIGNMENT cf * (j + 1)" using align_bounds(2) [OF cf, of sz] sz(2) ij by (simp add: algebra_simps)
  then have "i \<le> j" using A(1) by simp
  then have "LWIP_MEM_ALIGN_SIZE cf sz \<le> n" using ij A(1) by simp
  then have fits: "request cf sz \<le> n" using d(2,5) by (simp add: request_def)
  have "HEND cf < MEM_SIZE cf + MEM_ALIGNMENT cf" using align_bounds(2) [OF cf] by (simp add: MEM_SIZE_ALIGNED_def)
  then have le: "sz + MEM_ALIGNMENT cf \<le> 65536" using sz(2) d(2-4) A cf cfs(4) by (simp add: conf_ok_def)
  have "sz \<le> shrunk cf h p n sz" using request_facts(2) [OF cf sz(1) le] sz(2) by (simp add: shrunk_def)
  moreover from mem_realloc_ok [OF cf os v sz(1) le fits] obtain h' os' where "mem_realloc cf p sz h = Inr (h', Some p)" "heap_ok cf h' os'"
      "live cf h' os' = insert (p, shrunk cf h p n sz) (live cf h os - {(p, n)})" by blast
  ultimately show thesis using that le os al by (metis heap_inv_def)
qed

text \<open>The effect on all areas.\<close>

lemma ram_realloc_ok:
  assumes wf: "mem_wf c base s" and a: "(q, n) \<in> areas c base None s" and sz: "0 < sz" "sz \<le> n"
  obtains h m where "mem_realloc (pc_mem c) q (mst sz) (pm_heap s) = Inr (h, Some q)" "mem_wf c base (s\<lparr>pm_heap := h\<rparr>)" "sz \<le> m"
    "\<And>k. areas c base k (s\<lparr>pm_heap := h\<rparr>) = (if k = None then insert (q, m) (areas c base k s - {(q, n)}) else areas c base k s)"
proof -
  have ok: "conf_ok (pc_mem c)" "heap_inv (pc_mem c) (pm_heap s)" "(q, n) \<in> allocated (pc_mem c) (pm_heap s)"
    using wf pbuf_conf_okD(1) [of c] a by (simp_all add: mem_wf_def areas_def)
  obtain h m where h: "mem_realloc (pc_mem c) q sz (pm_heap s) = Inr (h, Some q)" "heap_inv (pc_mem c) h" "sz \<le> m"
      "allocated (pc_mem c) h = insert (q, m) (allocated (pc_mem c) (pm_heap s) - {(q, n)})" "sz + MEM_ALIGNMENT (pc_mem c) \<le> 65536"
    by (rule mem_realloc_cases [OF ok sz])
  have "mst sz = sz" using h(5) sz(1) ok(1) by (intro mst_id) (auto simp: conf_ok_def)
  moreover have "mem_wf c base (s\<lparr>pm_heap := h\<rparr>)" using wf h(2) mem_realloc_ram [OF h(1)] by (simp add: mem_wf_def apart_def)
  ultimately show thesis using that [of h m] h by (auto simp: areas_def split: option.split)
qed

section \<open>The loop\<close>

text \<open>The total lengths of the pbufs that are stepped over.\<close>

definition cut_tot :: "int list \<Rightarrow> u16 \<Rightarrow> pbuf_mem \<Rightarrow> pbuf_mem" where
  "cut_tot us g s = s\<lparr>pm_pbuf := (\<lambda>x. if x \<in> set us then (pm_pbuf s x)\<lparr>pb_tot_len := pb_tot_len (pm_pbuf s x) + g\<rparr> else pm_pbuf s x)\<rparr>"

definition lens_of :: "pbuf_mem \<Rightarrow> int list \<Rightarrow> nat" where
  "lens_of s ps = (\<Sum>x\<leftarrow>ps. unat (pb_len (pm_pbuf s x)))"

lemma pbuf_realloc_loop_ok:
  assumes "lst (nxt s) (Some p) ps" "unat rm \<le> lens_of s ps"
  shows "\<exists>us q ys rm'. ps = us @ q # ys \<and> pbuf_realloc_loop g (Some p) rm s = Some (Inr (q, rm', cut_tot us g s)) \<and>
    unat rm = lens_of s us + unat rm' \<and> rm' \<le> pb_len (pm_pbuf s q)"
  using assms
proof (induction ps arbitrary: p rm s)
  case (Cons a ps)
  have a: "a = p" "lst (nxt s) (nxt s p) ps" using Cons.prems(1) by auto
  show ?case
  proof (cases "rm > pb_len (pm_pbuf s p)")
    case False
    then have "pbuf_realloc_loop g (Some p) rm s = Some (Inr (p, rm, cut_tot [] g s))"
      by (subst pbuf_realloc_loop.simps) (simp add: cut_tot_def)
    then show ?thesis using False a(1) by (intro exI [of _ "[]"] exI [of _ p] exI [of _ ps] exI [of _ rm]) (simp add: lens_of_def)
  next
    case True
    let ?s = "pb p (\<lambda>b. b\<lparr>pb_tot_len := pb_tot_len b + g\<rparr>) s" and ?r = "rm - pb_len (pm_pbuf s p)"
    have r: "unat ?r = unat rm - unat (pb_len (pm_pbuf s p))" "unat (pb_len (pm_pbuf s p)) < unat rm"
      using True by (simp_all add: unat_sub word_less_nat_alt word_le_nat_alt)
    have same: "pb_len (pm_pbuf ?s x) = pb_len (pm_pbuf s x)" "nxt ?s x = nxt s x" for x by (simp_all add: pbuf_simps)
    have lens: "lens_of ?s xs = lens_of s xs" for xs by (simp add: lens_of_def same)
    have "unat ?r \<le> lens_of ?s ps" unfolding lens using Cons.prems(2) r a(1) by (simp add: lens_of_def)
    moreover have "0 < unat ?r" using r by simp
    ultimately have "ps \<noteq> []" by (auto simp: lens_of_def)
    then obtain p' where p': "nxt s p = Some p'" using a(2) by (cases ps) auto
    have "lst (nxt ?s) (Some p') ps" using a(2) p' by (simp add: same)
    from Cons.IH [OF this \<open>unat ?r \<le> lens_of ?s ps\<close>] obtain us q ys rm' where ih: "ps = us @ q # ys"
        "pbuf_realloc_loop g (Some p') ?r ?s = Some (Inr (q, rm', cut_tot us g ?s))" "unat ?r = lens_of ?s us + unat rm'"
        "rm' \<le> pb_len (pm_pbuf ?s q)" by blast
    have "p \<notin> set us" using lst_distinct [OF Cons.prems(1)] a(1) ih(1) by auto
    then have "cut_tot us g ?s = cut_tot (p # us) g s" by (auto simp: cut_tot_def pb_def fun_eq_iff)
    moreover have "pbuf_realloc_loop g (Some p) rm s = pbuf_realloc_loop g (Some p') ?r ?s"
      using True p' by (subst pbuf_realloc_loop.simps) simp
    ultimately have "pbuf_realloc_loop g (Some p) rm s = Some (Inr (q, rm', cut_tot (p # us) g s))" using ih(2) by simp
    moreover have "unat rm = lens_of s (p # us) + unat rm'" using ih(3) r lens by (simp add: lens_of_def)
    ultimately show ?thesis
      using ih(1,4) a(1) same(1) by (intro exI [of _ "p # us"] exI [of _ q] exI [of _ ys] exI [of _ rm']) simp
  qed
qed simp

section \<open>Freeing the rest\<close>

text \<open>\<open>pbuf_free\<close> does not look at pbufs outside of the chain it frees, so the pointer to it can as well be cleared first.\<close>

lemma pbuf_release_pb: "pbuf_release c ty p (pb q f s) = map_sum id (pb q f) (pbuf_release c ty p s)"
  by (cases ty) (auto simp: pbuf_release_def pb_def lwip_bind_def split: sum.splits)

lemma pbuf_release_frame: "pbuf_release c ty p s = Inr s' \<Longrightarrow> pm_pbuf s' = pm_pbuf s"
  by (cases ty) (auto simp: pbuf_release_def lwip_outcome)

lemma pbuf_free_loop_pb:
  assumes "lst (nxt s) p ps" "q \<notin> set ps"
  shows "pbuf_free_loop c p n (pb q f s) = map_option (map_sum id (map_prod id (pb q f))) (pbuf_free_loop c p n s)"
  using assms
proof (induction ps arbitrary: p n s)
  case Nil
  then show ?case by (simp add: pbuf_free_loop.simps)
next
  case (Cons a ps)
  have p: "p = Some a" "lst (nxt s) (nxt s a) ps" "q \<noteq> a" using Cons.prems by auto
  let ?g = "\<lambda>b. b\<lparr>pb_ref := pb_ref b - 1\<rparr>"
  have sw: "pb a ?g (pb q f s) = pb q f (pb a ?g s)" using p(3) by (simp add: pb_def fun_upd_twist)
  have at: "pm_pbuf (pb q f s') a = pm_pbuf s' a" for s' using p(3) by (simp add: pbuf_simps)
  show ?case
  proof (cases "pb_ref (pm_pbuf s a) > 0 \<and> pb_ref (pm_pbuf s a) = 1")
    case False
    have eq: "pbuf_free_loop c p n s' = Some (if pb_ref (pm_pbuf s' a) > 0 then Inr (n, pb a ?g s') else Inl (AssertFail ''pbuf_free: p->ref > 0''))"
      if "pm_pbuf s' a = pm_pbuf s a" for s'
      unfolding p(1) using that False by (subst pbuf_free_loop.simps) (auto simp: Let_def pbuf_simps)
    show ?thesis by (simp add: eq at sw)
  next
    case True
    then have step: "pbuf_free_loop c p n s' = (case pbuf_release c (pb_type (pm_pbuf s' a)) a (pb a ?g s') of Inl e \<Rightarrow> Some (Inl e)
        | Inr s'' \<Rightarrow> pbuf_free_loop c (nxt s' a) (n + 1) s'')" if "pm_pbuf s' a = pm_pbuf s a" for s'
      unfolding p(1) using that by (subst pbuf_free_loop.simps) (simp add: Let_def pbuf_simps cong: sum.case_cong)
    show ?thesis
    proof (cases "pbuf_release c (pb_type (pm_pbuf s a)) a (pb a ?g s)")
      case (Inl e)
      then show ?thesis by (simp add: step at sw pbuf_release_pb)
    next
      case (Inr s'')
      have "pm_pbuf s'' = pm_pbuf (pb a ?g s)" using pbuf_release_frame [OF Inr] .
      then have "nxt s'' = nxt s" by (auto simp: pbuf_simps)
      then have "lst (nxt s'') (nxt s a) ps" using p(2) by simp
      then show ?thesis using Inr Cons.IH [of s'' "nxt s a" "n + 1"] Cons.prems(2) by (simp add: step at sw pbuf_release_pb)
    qed
  qed
qed

section \<open>The new last pbuf\<close>

lemma pbuf_inv_same:
  assumes inv: "pbuf_inv c base L ext s" and mem: "mem_wf c base s'" and own: "\<And>x. x \<in> L \<Longrightarrow> pbuf_owned c base s' x"
    and ref: "\<And>x. pb_ref (pm_pbuf s' x) = pb_ref (pm_pbuf s x)" and nx: "nxt s' = nxt s"
  shows "pbuf_inv c base L ext s'"
  using inv mem own unfolding pbuf_inv_def ptrs_def ref fun_cong [OF nx] by (simp add: nx)

text \<open>The state before the rest of the chain is freed, with the pointer to it cleared.\<close>

definition shrunk :: "int list \<Rightarrow> int \<Rightarrow> u16 \<Rightarrow> u16 \<Rightarrow> heap \<Rightarrow> pbuf_mem \<Rightarrow> pbuf_mem" where
  "shrunk us q g rm h s = pb q (\<lambda>b. b\<lparr>pb_len := rm, pb_tot_len := rm, pb_next := None\<rparr>) ((cut_tot us g s)\<lparr>pm_heap := h\<rparr>)"

lemma shrunk_fields:
  assumes "q \<notin> set us"
  shows "pm_pbuf (shrunk us q g rm h s) q = (pm_pbuf s q)\<lparr>pb_len := rm, pb_tot_len := rm, pb_next := None\<rparr>"
    "x \<in> set us \<Longrightarrow> pm_pbuf (shrunk us q g rm h s) x = (pm_pbuf s x)\<lparr>pb_tot_len := pb_tot_len (pm_pbuf s x) + g\<rparr>"
    "x \<noteq> q \<Longrightarrow> x \<notin> set us \<Longrightarrow> pm_pbuf (shrunk us q g rm h s) x = pm_pbuf s x"
    "areas c base k (shrunk us q g rm h s) = areas c base k (s\<lparr>pm_heap := h\<rparr>)" "mem_wf c base (shrunk us q g rm h s) = mem_wf c base (s\<lparr>pm_heap := h\<rparr>)"
    "pb_ref (pm_pbuf (shrunk us q g rm h s) x) = pb_ref (pm_pbuf s x)" "nxt (shrunk us q g rm h s) = (nxt s)(q := None)"
  using assms by (auto simp: shrunk_def cut_tot_def pb_def areas_def mem_wf_def apart_def fun_eq_iff split: option.split)

text \<open>Total lengths: what was cut off is missing in every pbuf that is kept.\<close>

lemma shrunk_lens:
  assumes inv: "pbuf_inv c base L ext s" and len: "lens_ok L s" and ch: "lst (nxt s) (Some p) (us @ q # ys)" and p: "p \<in> L"
    and priv: "\<forall>y\<in>L. \<forall>x\<in>set (us @ q # ys). nxt s y = Some x \<longrightarrow> y \<in> set (us @ q # ys)"
    and new: "new_len < pb_tot_len (pm_pbuf s p)" "unat new_len = lens_of s us + unat rm"
  shows "lens_ok L (shrunk us q (new_len - pb_tot_len (pm_pbuf s p)) rm h s)" (is "lens_ok L ?t")
  unfolding lens_ok_def
proof
  fix x assume x: "x \<in> L"
  let ?g = "new_len - pb_tot_len (pm_pbuf s p)" and ?tot = "\<lambda>y. unat (pb_tot_len (pm_pbuf s y))"
  define D where "D = ?tot p - unat new_len"
  have dist: "distinct (us @ q # ys)" using lst_distinct [OF ch] .
  then have qu: "q \<notin> set us" by simp
  note f = shrunk_fields [OF qu]
  have sub: "set (us @ q # ys) \<subseteq> L" using chain_in [OF inv ch p] .
  have new': "unat new_len < ?tot p" using new(1) by (simp add: word_less_nat_alt)
  have tail: "lst (nxt s) (Some y) (y # vs)" if "us @ q # ys = u1 @ y # vs" for u1 y vs
    using ch lst_app [of "nxt s" "Some p" u1 "y # vs"] that by auto
  have sum_at: "?tot y = lens_of s (y # vs)" if "us @ q # ys = u1 @ y # vs" for u1 y vs
    using lens_sum [OF len tail [OF that]] sub that by (simp add: lens_of_def)
  have totp: "?tot p = lens_of s (us @ q # ys)" using lens_sum [OF len ch sub] by (simp add: lens_of_def)
  have totq: "?tot q = lens_of s (q # ys)" using sum_at [of us q ys] by simp
  have rm: "?tot q = unat rm + D" using totp totq new' new(2) by (simp add: D_def lens_of_def)
  have geD: "D \<le> ?tot y" if y: "y \<in> set us" for y
  proof -
    obtain u1 u2 where "us = u1 @ y # u2" using split_list [OF y] by blast
    then have "?tot y = lens_of s (y # u2 @ q # ys)" using sum_at [of u1 y "u2 @ q # ys"] by simp
    then show ?thesis using rm totq by (simp add: lens_of_def)
  qed
  have "unat (pb_tot_len (pm_pbuf s p) - new_len) = D" using new' by (simp add: D_def unat_sub word_le_nat_alt)
  then have cut: "unat (pb_tot_len (pm_pbuf s y) + ?g) = ?tot y - D" if "y \<in> set us" for y
    using geD [OF that] unat_sub [of "pb_tot_len (pm_pbuf s p) - new_len" "pb_tot_len (pm_pbuf s y)"]
    by (simp add: word_le_nat_alt algebra_simps)
  have new_tot: "unat (pb_tot_len (pm_pbuf ?t y)) = ?tot y - D" "D \<le> ?tot y" if "y \<in> insert q (set us)" for y
    using that cut geD rm f(1,2) by auto
  have old: "?tot x = unat (pb_len (pm_pbuf s x)) + (case nxt s x of None \<Rightarrow> 0 | Some y \<Rightarrow> ?tot y)" using len x by (simp add: lens_ok_def)
  consider (q) "x = q" | (us) "x \<in> set us" "x \<noteq> q" | (other) "x \<notin> set us" "x \<noteq> q" by blast
  then show "unat (pb_tot_len (pm_pbuf ?t x)) = unat (pb_len (pm_pbuf ?t x)) +
      (case nxt ?t x of None \<Rightarrow> 0 | Some y \<Rightarrow> unat (pb_tot_len (pm_pbuf ?t y)))"
  proof cases
    case q
    then show ?thesis by (simp add: f(1))
  next
    case us
    have "x \<noteq> last (us @ q # ys)" using us dist by auto
    then obtain y where y: "nxt s x = Some y" using lst_inner [OF ch] us(1) by auto
    have "y \<in> insert q (set us)" using lst_leave [OF ch us(1) y] by auto
    then show ?thesis using us y old new_tot [of y] cut [OF us(1)] by (simp add: f(2))
  next
    case other
    have "y \<notin> set us \<and> y \<noteq> q" if y: "nxt s x = Some y" for y
    proof (rule ccontr)
      assume "\<not> (y \<notin> set us \<and> y \<noteq> q)"
      then have y': "y \<in> insert q (set us)" by auto
      then have "x \<in> set ys" using priv x y other by auto
      then obtain v w where v: "ys = v @ x # w" using split_list by metis
      then have "lst (nxt s) (Some x) (x # w)" using tail [of "us @ q # v" x w] by simp
      then have "y \<in> set w" using y by (cases w) auto
      then show False using y' dist v by auto
    qed
    then show ?thesis using other old by (auto simp: f(3) split: option.split)
  qed
qed

text \<open>The memory of the new last pbuf is shrunk when it is on the heap.\<close>

definition shrink_heap :: "pbuf_conf \<Rightarrow> int \<Rightarrow> u16 \<Rightarrow> pbuf_mem \<Rightarrow> pbuf_mem lwip" where
  "shrink_heap c q rm s = (if pb_type (pm_pbuf s q) = PBUF_RAM \<and> rm \<noteq> pb_len (pm_pbuf s q)
     then lwip_bind (mem_realloc (pc_mem c) q (mst (pb_payload (pm_pbuf s q) - q + uint rm)) (pm_heap s)) (\<lambda>(h, r).
       lwip_assert ''mem_realloc give q == NULL'' (r \<noteq> None) (Inr (s\<lparr>pm_heap := h\<rparr>)))
     else Inr s)"

lemma shrink_heap_ok:
  assumes inv: "pbuf_inv c base L ext s" and q: "q \<in> L" and rm: "rm \<le> pb_len (pm_pbuf s q)" and us: "q \<notin> set us"
  obtains h m where "shrink_heap c q rm (cut_tot us g s) = Inr ((cut_tot us g s)\<lparr>pm_heap := h\<rparr>)" "mem_wf c base (s\<lparr>pm_heap := h\<rparr>)"
    "(q, m) \<in> areas c base (pbuf_class c (pb_type (pm_pbuf s q))) (s\<lparr>pm_heap := h\<rparr>)"
    "pb_type (pm_pbuf s q) \<in> {PBUF_RAM, PBUF_POOL} \<Longrightarrow>
       q + SIZEOF_STRUCT_PBUF c \<le> pb_payload (pm_pbuf s q) \<and> pb_payload (pm_pbuf s q) + uint rm \<le> q + m"
    "\<And>x i k. x \<noteq> q \<Longrightarrow> (x, i) \<in> areas c base k (s\<lparr>pm_heap := h\<rparr>) \<longleftrightarrow> (x, i) \<in> areas c base k s"
proof -
  let ?b = "pm_pbuf s q"
  have wf: "mem_wf c base s" using pbuf_invD(1) [OF inv] .
  then have S: "0 < SIZEOF_STRUCT_PBUF c" using pbuf_sizes(2) by (simp add: mem_wf_def)
  have at: "pm_pbuf (cut_tot us g s) q = ?b" "pm_heap (cut_tot us g s) = pm_heap s" using us by (simp_all add: cut_tot_def)
  obtain n where n: "(q, n) \<in> areas c base (pbuf_class c (pb_type ?b)) s" "pb_type ?b \<in> {PBUF_RAM, PBUF_POOL} \<longrightarrow>
      q + SIZEOF_STRUCT_PBUF c \<le> pb_payload ?b \<and> pb_payload ?b + uint (pb_len ?b) \<le> q + n"
    using pbuf_invD(4) [OF inv q] by (auto simp: pbuf_owned_def)
  have le: "uint rm \<le> uint (pb_len ?b)" using rm by (simp add: word_le_def)
  show thesis
  proof (cases "pb_type ?b = PBUF_RAM \<and> rm \<noteq> pb_len ?b")
    case True
    let ?sz = "pb_payload ?b - q + uint rm"
    have a: "(q, n) \<in> areas c base None s" using n(1) True by (simp add: pbuf_class_def)
    have pay: "q + SIZEOF_STRUCT_PBUF c \<le> pb_payload ?b" "pb_payload ?b + uint (pb_len ?b) \<le> q + n" using n(2) True by simp_all
    have "0 \<le> uint rm" by simp
    then have sz: "0 < ?sz" "?sz \<le> n" using pay S le by linarith+
    obtain h m where h: "mem_realloc (pc_mem c) q (mst ?sz) (pm_heap s) = Inr (h, Some q)" "mem_wf c base (s\<lparr>pm_heap := h\<rparr>)" "?sz \<le> m"
        "\<And>k. areas c base k (s\<lparr>pm_heap := h\<rparr>) = (if k = None then insert (q, m) (areas c base k s - {(q, n)}) else areas c base k s)"
      using ram_realloc_ok [OF wf a sz] by metis
    have "shrink_heap c q rm (cut_tot us g s) = Inr ((cut_tot us g s)\<lparr>pm_heap := h\<rparr>)" using True h(1) by (simp add: shrink_heap_def at)
    then show thesis using that [of h m] h n(2) True by (simp add: pbuf_class_def)
  next
    case False
    then have "shrink_heap c q rm (cut_tot us g s) = Inr ((cut_tot us g s)\<lparr>pm_heap := pm_heap s\<rparr>)"
      by (auto simp: shrink_heap_def at cut_tot_def)
    moreover have "pb_type ?b \<in> {PBUF_RAM, PBUF_POOL} \<Longrightarrow>
        q + SIZEOF_STRUCT_PBUF c \<le> pb_payload ?b \<and> pb_payload ?b + uint rm \<le> q + n" using n(2) le by auto
    ultimately show thesis using n(1) wf by (intro that [of "pm_heap s" n]) simp_all
  qed
qed

lemma shrunk_owned:
  assumes inv: "pbuf_inv c base L ext s" and us: "q \<notin> set us" and x: "x \<in> L"
    and q: "(q, m) \<in> areas c base (pbuf_class c (pb_type (pm_pbuf s q))) (s\<lparr>pm_heap := h\<rparr>)"
      "pb_type (pm_pbuf s q) \<in> {PBUF_RAM, PBUF_POOL} \<Longrightarrow>
         q + SIZEOF_STRUCT_PBUF c \<le> pb_payload (pm_pbuf s q) \<and> pb_payload (pm_pbuf s q) + uint rm \<le> q + m"
    and other: "\<And>x i k. x \<noteq> q \<Longrightarrow> (x, i) \<in> areas c base k (s\<lparr>pm_heap := h\<rparr>) \<longleftrightarrow> (x, i) \<in> areas c base k s"
  shows "pbuf_owned c base (shrunk us q g rm h s) x"
proof (cases "x = q")
  case True
  then show ?thesis using q unfolding pbuf_owned_def shrunk_fields(4) [OF us] by (intro exI [of _ m]) (simp add: shrunk_fields(1) [OF us])
next
  case False
  have "pb_type (pm_pbuf (shrunk us q g rm h s) x) = pb_type (pm_pbuf s x)" "pb_payload (pm_pbuf (shrunk us q g rm h s) x) = pb_payload (pm_pbuf s x)"
      "pb_len (pm_pbuf (shrunk us q g rm h s) x) = pb_len (pm_pbuf s x)"
    using False by (simp_all add: shrunk_def cut_tot_def pbuf_simps)
  then show ?thesis using pbuf_invD(4) [OF inv x] other [OF False] unfolding pbuf_owned_def shrunk_fields(4) [OF us] by simp
qed

section \<open>Shrinking a packet\<close>

lemma pbuf_realloc_steps:
  assumes ch: "lst (nxt s) (Some p) (us @ q # ys)" and new: "new_len < pb_tot_len (pm_pbuf s p)"
    and loop: "pbuf_realloc_loop (new_len - pb_tot_len (pm_pbuf s p)) (Some p) new_len s =
      Some (Inr (q, rm, cut_tot us (new_len - pb_tot_len (pm_pbuf s p)) s))"
    and heap: "shrink_heap c q rm (cut_tot us (new_len - pb_tot_len (pm_pbuf s p)) s) =
      Inr ((cut_tot us (new_len - pb_tot_len (pm_pbuf s p)) s)\<lparr>pm_heap := h\<rparr>)"
    and t: "t = shrunk us q (new_len - pb_tot_len (pm_pbuf s p)) rm h s"
  shows "ys = [] \<Longrightarrow> pbuf_realloc c p new_len s = Inr t"
    "ys = y # zs \<Longrightarrow> pbuf_free c (Some y) t = Inr (n, t') \<Longrightarrow> pbuf_realloc c p new_len s = Inr t'"
proof -
  let ?g = "new_len - pb_tot_len (pm_pbuf s p)"
  define s3 where "s3 = pb q (\<lambda>b. b\<lparr>pb_len := rm, pb_tot_len := rm\<rparr>) ((cut_tot us ?g s)\<lparr>pm_heap := h\<rparr>)"
  have dist: "distinct (us @ q # ys)" using lst_distinct [OF ch] .
  have lq: "lst (nxt s) (Some q) (q # ys)" using ch lst_app [of "nxt s" "Some p" us "q # ys"] by auto
  have t3: "t = pb q (\<lambda>b. b\<lparr>pb_next := None\<rparr>) s3" by (simp add: t shrunk_def s3_def pb_def)
  have nq: "nxt s3 x = nxt s x" for x by (simp add: s3_def cut_tot_def pb_def)
  have run: "pbuf_realloc c p new_len s = lwip_bind (case nxt s q of None \<Rightarrow> Inr s3
      | Some n \<Rightarrow> lwip_bind (pbuf_free c (Some n) s3) (\<lambda>(_, s). Inr s)) (\<lambda>s. Inr (pb q (\<lambda>b. b\<lparr>pb_next := None\<rparr>) s))"
    using loop heap not_le [THEN iffD2, OF new] unfolding pbuf_realloc_def shrink_heap_def [symmetric]
    by (cases "nxt s q") (simp_all add: lwip_run_def Let_def s3_def [symmetric] nq)
  show "pbuf_realloc c p new_len s = Inr t" if "ys = []" using lq that by (simp add: run t3)
  assume ys: "ys = y # zs" and free: "pbuf_free c (Some y) t = Inr (n, t')"
  have "lst (nxt s) (Some y) ys" using lq ys by auto
  then have "lst (nxt s3) (Some y) ys" using nq by (simp add: fun_eq_iff)
  from pbuf_free_loop_pb [OF this, of q c 0 "\<lambda>b. b\<lparr>pb_next := None\<rparr>"] dist
  have "pbuf_free_loop c (Some y) 0 t = map_option (map_sum id (map_prod id (pb q (\<lambda>b. b\<lparr>pb_next := None\<rparr>)))) (pbuf_free_loop c (Some y) 0 s3)"
    by (simp add: t3)
  then obtain s4 where "pbuf_free c (Some y) s3 = Inr (n, s4)" "t' = pb q (\<lambda>b. b\<lparr>pb_next := None\<rparr>) s4"
    using free by (auto simp: pbuf_free_def lwip_run_def split: option.splits)
      (auto simp: map_sum_def split: sum.splits)
  moreover have "nxt s q = Some y" using lq ys by simp
  ultimately show "pbuf_realloc c p new_len s = Inr t'" by (simp add: run)
qed

lemma pbuf_realloc_cut:
  assumes inv: "pbuf_inv c base L ext s" and len: "lens_ok L s" and p: "p \<in> L" and ch: "lst (nxt s) (Some p) ps"
    and priv: "\<forall>y\<in>L. \<forall>x\<in>set ps. nxt s y = Some x \<longrightarrow> y \<in> set ps" and new: "new_len < pb_tot_len (pm_pbuf s p)"
  obtains s' us q ys rm where "pbuf_realloc c p new_len s = Inr s'" "ps = us @ q # ys"
    "unat new_len = lens_of s us + unat rm" "rm \<le> pb_len (pm_pbuf s q)"
    "pbuf_inv c base (L - set (sole s ys)) ext s'" "lens_ok (L - set (sole s ys)) s'"
    "\<And>k. class_ok c k \<Longrightarrow> {a \<in> areas c base k s'. fst a \<notin> L - set (sole s ys)} = {a \<in> areas c base k s. fst a \<notin> L}"
    "pm_byte s' = pm_byte s" "nxt s' = (nxt s)(q := None)" "\<And>x. pb_payload (pm_pbuf s' x) = pb_payload (pm_pbuf s x)"
    "\<And>x. pb_len (pm_pbuf s' x) = (if x = q then rm else pb_len (pm_pbuf s x))"
    "\<And>x. x \<in> L - set ps \<Longrightarrow> (pm_pbuf s' x)\<lparr>pb_ref := 0\<rparr> = (pm_pbuf s x)\<lparr>pb_ref := 0\<rparr>"
proof -
  let ?g = "new_len - pb_tot_len (pm_pbuf s p)"
  have sub: "set ps \<subseteq> L" using chain_in [OF inv ch p] .
  have "lens_of s ps = unat (pb_tot_len (pm_pbuf s p))" using lens_sum [OF len ch sub] by (simp add: lens_of_def)
  then have "unat new_len \<le> lens_of s ps" using new by (simp add: word_less_nat_alt)
  from pbuf_realloc_loop_ok [OF ch this, of ?g] obtain us q ys rm where ps: "ps = us @ q # ys"
      and loop: "pbuf_realloc_loop ?g (Some p) new_len s = Some (Inr (q, rm, cut_tot us ?g s))"
      and rm: "unat new_len = lens_of s us + unat rm" "rm \<le> pb_len (pm_pbuf s q)" by blast
  have dist: "distinct (us @ q # ys)" using lst_distinct [OF ch] ps by simp
  then have us: "q \<notin> set us" by simp
  have qL: "q \<in> L" using sub ps by simp
  obtain h m where h: "shrink_heap c q rm (cut_tot us ?g s) = Inr ((cut_tot us ?g s)\<lparr>pm_heap := h\<rparr>)" "mem_wf c base (s\<lparr>pm_heap := h\<rparr>)"
    and area: "(q, m) \<in> areas c base (pbuf_class c (pb_type (pm_pbuf s q))) (s\<lparr>pm_heap := h\<rparr>)"
      "pb_type (pm_pbuf s q) \<in> {PBUF_RAM, PBUF_POOL} \<Longrightarrow>
        q + SIZEOF_STRUCT_PBUF c \<le> pb_payload (pm_pbuf s q) \<and> pb_payload (pm_pbuf s q) + uint rm \<le> q + m"
    and other: "\<And>x i k. x \<noteq> q \<Longrightarrow> (x, i) \<in> areas c base k (s\<lparr>pm_heap := h\<rparr>) \<longleftrightarrow> (x, i) \<in> areas c base k s"
    using shrink_heap_ok [OF inv qL rm(2) us, of ?g] by blast
  define t where "t = shrunk us q ?g rm h s"
  note f = shrunk_fields [OF us, where g = ?g and rm = rm and h = h and s = s, folded t_def]
  note ch' = ch [unfolded ps] and steps = pbuf_realloc_steps [OF ch [unfolded ps] new loop h(1) t_def]
  have wf: "mem_wf c base t" using h(2) by (simp add: f)
  have own: "pbuf_owned c base t x" if "x \<in> L" for x unfolding t_def using shrunk_owned [OF inv us that area other] .
  have lens: "lens_ok L t" unfolding t_def using shrunk_lens [OF inv len ch' p _ new rm(1)] priv ps by simp
  have sole: "sole t ys = sole s ys" by (simp add: sole_def f(6))
  have fields: "pm_byte t = pm_byte s" "pb_payload (pm_pbuf t x) = pb_payload (pm_pbuf s x)"
    "pb_len (pm_pbuf t x) = (if x = q then rm else pb_len (pm_pbuf s x))" "x \<in> L - set ps \<Longrightarrow> pm_pbuf t x = pm_pbuf s x" for x
    using us ps by (auto simp: t_def shrunk_def cut_tot_def pb_def)
  have acc: "{a \<in> areas c base k t. fst a \<notin> L} = {a \<in> areas c base k s. fst a \<notin> L}" for k
  proof (rule set_eqI)
    fix a show "a \<in> {a \<in> areas c base k t. fst a \<notin> L} \<longleftrightarrow> a \<in> {a \<in> areas c base k s. fst a \<notin> L}"
      using other [of "fst a" "snd a" k] qL by (cases a) (auto simp: f(4))
  qed
  show thesis
  proof (cases ys)
    case Nil
    then have "nxt s q = None" using ch' lst_app [of "nxt s" "Some p" us "[q]"] by auto
    then have "nxt t = nxt s" by (simp add: f(7) fun_upd_idem)
    then have "pbuf_inv c base L ext t" using pbuf_inv_same [OF inv wf own] f(6) by blast
    moreover have "sole s ys = []" using Nil by (simp add: sole_def)
    ultimately show thesis using steps(1) Nil lens acc fields f(7) by (intro that [of t us q ys rm, OF _ ps rm]) simp_all
  next
    case (Cons y zs)
    have lq: "lst (nxt s) (Some q) (q # ys)" using ch' lst_app [of "nxt s" "Some p" us "q # ys"] by auto
    then have nq: "nxt s q = Some y" and ly: "lst (nxt s) (Some y) ys" using Cons by auto
    have inv': "pbuf_inv c base L (ext(y := ext y + 1)) t" using pbuf_inv_unlink [OF inv qL nq wf own f(6) f(7)] .
    have lt: "lst (nxt t) (Some y) ys" using ly dist by (simp add: f(7))
    have "0 < (ext(y := ext y + 1)) y" by simp
    then obtain t' where t': "pbuf_free c (Some y) t = Inr (of_nat (length (sole s ys)), t')"
        "pbuf_inv c base (L - set (sole s ys)) ((ext(y := ext y + 1))(y := (ext(y := ext y + 1)) y - 1)) t'" "freed c base (set (sole s ys)) t t'"
      using pbuf_free_ok [OF inv' _ lt] unfolding sole by blast
    have "set (sole s ys) \<subseteq> L" using sub ps by (auto simp: sole_def dest: set_takeWhileD)
    then have "{a \<in> areas c base k t'. fst a \<notin> L - set (sole s ys)} = {a \<in> areas c base k s. fst a \<notin> L}" if "class_ok c k" for k
      using t'(3) that acc [of k] by (auto simp: freed_def)
    moreover have "nxt t' = (nxt s)(q := None)" by (simp add: freedD(1) [OF t'(3)] f(7))
    moreover have "pm_byte t' = pm_byte t" using t'(3) by (simp add: freed_def)
    moreover have "(pm_pbuf t' x)\<lparr>pb_ref := 0\<rparr> = (pm_pbuf t x)\<lparr>pb_ref := 0\<rparr>" for x using t'(3) by (simp add: freed_def)
    ultimately show thesis
      using t'(2) freed_lens [OF t'(3) lens] steps(2) [OF Cons t'(1)] fields freedD(2,3) [OF t'(3)] by (intro that [of t' us q ys rm, OF _ ps rm]) simp_all
  qed
qed

lemma pbuf_realloc_ok:
  assumes inv: "pbuf_inv c base L ext s" and len: "lens_ok L s" and p: "p \<in> L" and ch: "lst (nxt s) (Some p) ps"
    and priv: "\<forall>y\<in>L. \<forall>x\<in>set ps. nxt s y = Some x \<longrightarrow> y \<in> set ps"
  obtains s' F where "pbuf_realloc c p new_len s = Inr s'" "F \<subseteq> L" "pbuf_inv c base (L - F) ext s'" "lens_ok (L - F) s'"
    "\<And>k. class_ok c k \<Longrightarrow> {a \<in> areas c base k s'. fst a \<notin> L - F} = {a \<in> areas c base k s. fst a \<notin> L}"
proof (cases "pb_tot_len (pm_pbuf s p) \<le> new_len")
  case True
  then have "pbuf_realloc c p new_len s = Inr s" by (simp add: pbuf_realloc_def)
  then show thesis using that [of s "{}"] inv len by simp
next
  case False
  then have new: "new_len < pb_tot_len (pm_pbuf s p)" by simp
  show thesis
  proof (rule pbuf_realloc_cut [OF inv len p ch priv new])
    fix s' us q ys and rm :: u16
    assume "pbuf_realloc c p new_len s = Inr s'" "ps = us @ q # ys" "pbuf_inv c base (L - set (sole s ys)) ext s'"
      "lens_ok (L - set (sole s ys)) s'"
      "\<And>k. class_ok c k \<Longrightarrow> {a \<in> areas c base k s'. fst a \<notin> L - set (sole s ys)} = {a \<in> areas c base k s. fst a \<notin> L}"
    moreover have "set (sole s ys) \<subseteq> set ps" using calculation(2) by (auto simp: sole_def dest: set_takeWhileD)
    then have "set (sole s ys) \<subseteq> L" using chain_in [OF inv ch p] by blast
    ultimately show thesis using that by blast
  qed
qed

end
