(* ===== verification/Lwip_Pbuf_Correct.thy ===== *)
theory Lwip_Pbuf_Correct
  imports Lwip_Pbuf_Realloc
begin

text \<open>
  Sequences of operations on packet buffers.  A client holds references, counted by \<open>ext\<close>: a successful
  \<open>pbuf_alloc\<close> gives it one, \<open>pbuf_ref\<close> another, \<open>pbuf_free\<close> takes one back, \<open>pbuf_cat\<close> passes the reference
  to the tail on to the chain, \<open>pbuf_chain\<close> does not.  As long as the client uses what it holds references to, no
  operation fails, and once it has released everything all memory is back in the pools and in the heap.
\<close>

section \<open>Pbufs in use\<close>

text \<open>What can be reached from the references that are held.\<close>

definition held :: "(int \<Rightarrow> nat) \<Rightarrow> pbuf_mem \<Rightarrow> int set" where
  "held ext s = {x. \<exists>p ps. 0 < ext p \<and> lst (nxt s) (Some p) ps \<and> x \<in> set ps}"

text \<open>The live pbufs are exactly those: a pbuf that nothing outside refers to has a predecessor, and chains do not grow for ever.\<close>

lemma live_held:
  assumes inv: "pbuf_inv c base L ext s" and x: "x \<in> L" "lst (nxt s) (Some x) xs"
  shows "\<exists>p us. 0 < ext p \<and> lst (nxt s) (Some p) (us @ xs)"
  using x
proof (induction "card L - length xs" arbitrary: x xs rule: less_induct)
  case less
  show ?case
  proof (cases "0 < ext x")
    case True
    then show ?thesis using less.prems(2) by (intro exI [of _ x] exI [of _ "[]"]) simp
  next
    case False
    then have "card (ptrs L s x) \<noteq> 0" using pbuf_invD(5,6) [OF inv less.prems(1)] by (auto simp: word_less_nat_alt)
    then obtain y where y: "y \<in> L" "nxt s y = Some x" by (auto simp: ptrs_def card_eq_0_iff)
    then have ch: "lst (nxt s) (Some y) (y # xs)" using less.prems(2) by simp
    have "length (y # xs) \<le> card L"
      using chain_in [OF inv ch y(1)] lst_distinct [OF ch] pbuf_invD(2) [OF inv] by (metis card_mono distinct_card)
    then have "card L - length (y # xs) < card L - length xs" by simp
    from less.hyps [OF this y(1) ch] obtain p us where "0 < ext p" "lst (nxt s) (Some p) (us @ y # xs)" by blast
    then show ?thesis by (intro exI [of _ p] exI [of _ "us @ [y]"]) simp
  qed
qed

lemma held_eq:
  assumes inv: "pbuf_inv c base L ext s"
  shows "held ext s = L"
proof
  show "held ext s \<subseteq> L"
  proof
    fix x assume "x \<in> held ext s"
    then obtain p ps where p: "0 < ext p" "lst (nxt s) (Some p) ps" "x \<in> set ps" by (auto simp: held_def)
    have "p \<in> L" using pbuf_invD(3) [OF inv, of p] p(1) by auto
    then show "x \<in> L" using chain_in [OF inv p(2)] p(3) by auto
  qed
  show "L \<subseteq> held ext s"
  proof
    fix x assume x: "x \<in> L"
    obtain xs where xs: "lst (nxt s) (Some x) xs" using pbuf_inv_chain [OF inv x] by blast
    then have "x \<in> set xs" by (auto dest: lst_Some)
    then show "x \<in> held ext s" using live_held [OF inv x xs] by (fastforce simp: held_def)
  qed
qed

section \<open>Operations of a client\<close>

datatype pbuf_op =
    Alloc pbuf_layer u16 pbuf_type
  | Free int
  | Ref int
  | Cat int int
  | Chain int int
  | Dechain int
  | Header int "16 word"
  | Realloc int u16

text \<open>The result of an operation is a pointer or \<open>NULL\<close>.\<close>

fun pbuf_do :: "pbuf_conf \<Rightarrow> pbuf_op \<Rightarrow> pbuf_mem \<Rightarrow> (int option \<times> pbuf_mem) lwip" where
  "pbuf_do c (Alloc layer nbytes ty) s = pbuf_alloc c layer nbytes ty s"
| "pbuf_do c (Free p) s = lwip_bind (pbuf_free c (Some p) s) (\<lambda>(_, s). Inr (None, s))"
| "pbuf_do c (Ref p) s = Inr (None, pbuf_ref (Some p) s)"
| "pbuf_do c (Cat h t) s = lwip_bind (pbuf_cat (Some h) (Some t) s) (\<lambda>s. Inr (None, s))"
| "pbuf_do c (Chain h t) s = lwip_bind (pbuf_chain (Some h) (Some t) s) (\<lambda>s. Inr (None, s))"
| "pbuf_do c (Dechain p) s = pbuf_dechain c p s"
| "pbuf_do c (Header p w) s = Inr (None, snd (pbuf_header c p w s))"
| "pbuf_do c (Realloc p new_len) s = lwip_bind (pbuf_realloc c p new_len s) (\<lambda>s. Inr (None, s))"

text \<open>The references the client holds afterwards.\<close>

fun refs_after :: "pbuf_op \<Rightarrow> int option \<Rightarrow> (int \<Rightarrow> nat) \<Rightarrow> int \<Rightarrow> nat" where
  "refs_after (Alloc _ _ _) r ext = (case r of None \<Rightarrow> ext | Some p \<Rightarrow> ext(p := 1))"
| "refs_after (Free p) _ ext = ext(p := ext p - 1)"
| "refs_after (Ref p) _ ext = ext(p := ext p + 1)"
| "refs_after (Cat _ t) _ ext = ext(t := ext t - 1)"
| "refs_after (Chain _ _) _ ext = ext"
| "refs_after (Dechain _) _ ext = ext"
| "refs_after (Header _ _) _ ext = ext"
| "refs_after (Realloc _ _) _ ext = ext"

text \<open>
  A packet: a chain that no other pbuf points into.  \<open>pbuf_cat\<close>, \<open>pbuf_dechain\<close>, \<open>pbuf_header\<close> and \<open>pbuf_realloc\<close> change total lengths,
  so they are for the first pbuf of a packet.
\<close>

definition packet :: "(int \<Rightarrow> nat) \<Rightarrow> pbuf_mem \<Rightarrow> int \<Rightarrow> int list \<Rightarrow> bool" where
  "packet ext s h hs \<longleftrightarrow> 0 < ext h \<and> lst (nxt s) (Some h) hs \<and> (\<forall>q \<in> held ext s. \<forall>x \<in> set hs. nxt s q = Some x \<longrightarrow> q \<in> set hs)"

definition tot :: "pbuf_mem \<Rightarrow> int \<Rightarrow> int" where "tot s p = uint (pb_tot_len (pm_pbuf s p))"

definition can_join :: "(int \<Rightarrow> nat) \<Rightarrow> pbuf_mem \<Rightarrow> int \<Rightarrow> int \<Rightarrow> bool" where
  "can_join ext s h t \<longleftrightarrow> 0 < ext t \<and> tot s h + tot s t < 65536 \<and>
     (\<exists>hs ts. packet ext s h hs \<and> lst (nxt s) (Some t) ts \<and> set hs \<inter> set ts = {})"

fun allowed :: "pbuf_conf \<Rightarrow> (int \<Rightarrow> nat) \<Rightarrow> pbuf_mem \<Rightarrow> pbuf_op \<Rightarrow> bool" where
  "allowed c ext s (Alloc layer nbytes ty) = (ty = PBUF_RAM \<longrightarrow> ram_fits c layer nbytes)"
| "allowed c ext s (Free p) = (0 < ext p)"
| "allowed c ext s (Ref p) = (p \<in> held ext s \<and> pb_ref (pm_pbuf s p) < 65535)"
| "allowed c ext s (Cat h t) = can_join ext s h t"
| "allowed c ext s (Chain h t) = (can_join ext s h t \<and> pb_ref (pm_pbuf s t) < 65535)"
| "allowed c ext s (Dechain p) = (\<exists>ps. packet ext s p ps)"
| "allowed c ext s (Header p w) = ((\<exists>ps. packet ext s p ps) \<and> tot s p + sint w < 65536)"
| "allowed c ext s (Realloc p new_len) = (\<exists>ps. packet ext s p ps)"

text \<open>The invariant of a run: what is outside the live pbufs is what was allocated at the start.\<close>

definition pbuf_state :: "pbuf_conf \<Rightarrow> int \<Rightarrow> pbuf_mem \<Rightarrow> (int \<Rightarrow> nat) \<Rightarrow> pbuf_mem \<Rightarrow> bool" where
  "pbuf_state c base s0 ext s \<longleftrightarrow> pbuf_inv c base (held ext s) ext s \<and> lens_ok (held ext s) s \<and>
     (\<forall>k. class_ok c k \<longrightarrow> {a \<in> areas c base k s. fst a \<notin> held ext s} = areas c base k s0)"

lemma pbuf_stateI:
  assumes "pbuf_inv c base L ext s" "lens_ok L s" "\<And>k. class_ok c k \<Longrightarrow> {a \<in> areas c base k s. fst a \<notin> L} = areas c base k s0"
  shows "pbuf_state c base s0 ext s"
  using assms held_eq [OF assms(1)] by (simp add: pbuf_state_def)

lemma packet_head:
  assumes inv: "pbuf_inv c base (held ext s) ext s" and p: "packet ext s p ps"
  shows "p \<in> held ext s" "ptrs (held ext s) s p = {}"
proof -
  have ch: "lst (nxt s) (Some p) ps" using p by (simp add: packet_def)
  then have "p \<in> set ps" by (auto dest: lst_Some)
  then show "p \<in> held ext s" using p by (auto simp: held_def packet_def)
  show "ptrs (held ext s) s p = {}"
  proof (rule ccontr)
    assume "ptrs (held ext s) s p \<noteq> {}"
    then obtain q where q: "q \<in> held ext s" "nxt s q = Some p" by (auto simp: ptrs_def)
    then have "q \<in> set ps" using p \<open>p \<in> set ps\<close> by (auto simp: packet_def)
    then obtain us ys where d: "ps = us @ q # ys" "lst (nxt s) (Some q) (q # ys)" using lst_suffix [OF ch] by blast
    then have "ys = ps" using q(2) ch lst_unique by fastforce
    then show False using d(1) by simp
  qed
qed

section \<open>Every allowed operation succeeds\<close>

definition op_ok :: "pbuf_conf \<Rightarrow> int \<Rightarrow> pbuf_mem \<Rightarrow> (int \<Rightarrow> nat) \<Rightarrow> pbuf_mem \<Rightarrow> pbuf_op \<Rightarrow> bool" where
  "op_ok c base s0 ext s op \<longleftrightarrow> (\<exists>r s'. pbuf_do c op s = Inr (r, s') \<and> pbuf_state c base s0 (refs_after op r ext) s')"

lemma op_okI: "pbuf_do c op s = Inr (r, s') \<Longrightarrow> pbuf_state c base s0 (refs_after op r ext) s' \<Longrightarrow> op_ok c base s0 ext s op"
  by (auto simp: op_ok_def)

lemma pbuf_stateD:
  assumes "pbuf_state c base s0 ext s"
  shows "pbuf_inv c base (held ext s) ext s" "lens_ok (held ext s) s"
    "class_ok c k \<Longrightarrow> {a \<in> areas c base k s. fst a \<notin> held ext s} = areas c base k s0"
  using assms by (simp_all add: pbuf_state_def)

lemma sole_set: "set (sole s ps) \<subseteq> set ps"
  by (auto simp: sole_def dest: set_takeWhileD)

text \<open>The accounts after pbufs were freed.\<close>

lemma freed_account:
  assumes "freed c base F s s'" "F \<subseteq> L" "class_ok c k" "{a \<in> areas c base k s. fst a \<notin> L} = A"
  shows "{a \<in> areas c base k s'. fst a \<notin> L - F} = A"
  using assms by (auto simp: freed_def)

lemma alloc_op:
  assumes st: "pbuf_state c base s0 ext s" and "allowed c ext s (Alloc layer nbytes ty)"
  shows "op_ok c base s0 ext s (Alloc layer nbytes ty)"
proof -
  note inv = pbuf_stateD(1) [OF st] and len = pbuf_stateD(2) [OF st] and acc = pbuf_stateD(3) [OF st]
  have size: "ty = PBUF_RAM \<longrightarrow> ram_fits c layer nbytes" using assms(2) by simp
  from inv size show ?thesis
  proof (cases rule: pbuf_alloc_ok)
    case (null s')
    have "{a \<in> areas c base k s'. fst a \<notin> held ext s} = areas c base k s0" if "class_ok c k" for k
      using acc null(3) that by (simp add: unchanged_def)
    then have "pbuf_state c base s0 ext s'" using pbuf_stateI [OF null(2) unchanged_lens [OF inv len null(3)]] by blast
    then show ?thesis using null(1) by (intro op_okI [of _ _ _ None s']) simp_all
  next
    case (some ps s')
    then have g: "grown c base (held ext s) ext s ty ps 0 s'" by (simp add: alloc_done_def)
    have "{a \<in> areas c base k s'. fst a \<notin> held ext s \<union> set ps} = areas c base k s0" if "class_ok c k" for k
    proof -
      have "{a \<in> areas c base k s'. fst a \<notin> set ps} = areas c base k s" using g that by (simp add: grown_def)
      then have "{a \<in> areas c base k s'. fst a \<notin> held ext s \<union> set ps} = {a \<in> areas c base k s. fst a \<notin> held ext s}" by auto
      then show ?thesis using acc [OF that] by simp
    qed
    moreover have "pbuf_inv c base (held ext s \<union> set ps) (ext(hd ps := 1)) s'" using g by (simp add: grown_def)
    ultimately have "pbuf_state c base s0 (ext(hd ps := 1)) s'" using alloc_lens [OF inv len some(2)] by (intro pbuf_stateI)
    then show ?thesis using some(1) by (intro op_okI [of _ _ _ "Some (hd ps)" s']) simp_all
  qed
qed

lemma free_op:
  assumes st: "pbuf_state c base s0 ext s" and p: "allowed c ext s (Free p)"
  shows "op_ok c base s0 ext s (Free p)"
proof -
  note inv = pbuf_stateD(1) [OF st] and len = pbuf_stateD(2) [OF st] and acc = pbuf_stateD(3) [OF st]
  have p: "0 < ext p" "p \<in> held ext s" using p pbuf_invD(3) [OF inv, of p] by auto
  obtain ps where ps: "lst (nxt s) (Some p) ps" "set ps \<subseteq> held ext s" using pbuf_inv_chain [OF inv p(2)] by blast
  obtain s' where s': "pbuf_free c (Some p) s = Inr (of_nat (length (sole s ps)), s')"
      "pbuf_inv c base (held ext s - set (sole s ps)) (ext(p := ext p - 1)) s'" "freed c base (set (sole s ps)) s s'"
    using pbuf_free_ok [OF inv p(1) ps(1)] by blast
  have "pbuf_state c base s0 (ext(p := ext p - 1)) s'"
    using freed_account [OF s'(3) _ _ acc] ps(2) sole_set [of s ps]
    by (intro pbuf_stateI [OF s'(2) freed_lens [OF s'(3) len]]) auto
  then show ?thesis using s'(1) by (intro op_okI) simp_all
qed

lemma ref_state:
  assumes st: "pbuf_state c base s0 ext s" and p: "p \<in> held ext s" "pb_ref (pm_pbuf s p) < 65535"
  shows "pbuf_state c base s0 (ext(p := ext p + 1)) (pbuf_ref (Some p) s)"
proof -
  have "unat (pb_ref (pm_pbuf s p)) < 65535" using p(2) by (simp add: word_less_nat_alt)
  then have "pbuf_inv c base (held ext s) (ext(p := ext p + 1)) (pbuf_ref (Some p) s)"
    using pbuf_ref_ok [OF pbuf_stateD(1) [OF st] p(1)] by simp
  then show ?thesis
    using pbuf_stateD(3) [OF st]
    by (intro pbuf_stateI [OF _ pbuf_ref_lens [OF pbuf_stateD(2) [OF st]]]) (simp_all add: pbuf_ref_def pbuf_simps)
qed

lemma cat_state:
  assumes st: "pbuf_state c base s0 ext s" and j: "can_join ext s h t"
  obtains s' where "pbuf_cat (Some h) (Some t) s = Inr s'" "pbuf_state c base s0 (ext(t := ext t - 1)) s'"
    "pb_ref (pm_pbuf s' t) = pb_ref (pm_pbuf s t)" "t \<in> held (ext(t := ext t - 1)) s'"
proof -
  note inv = pbuf_stateD(1) [OF st] and len = pbuf_stateD(2) [OF st] and acc = pbuf_stateD(3) [OF st]
  obtain hs ts where h: "packet ext s h hs" and t: "0 < ext t" "lst (nxt s) (Some t) ts" and d: "set hs \<inter> set ts = {}"
    and sum: "tot s h + tot s t < 65536" using j by (auto simp: can_join_def)
  have ch: "lst (nxt s) (Some h) hs" using h by (simp add: packet_def)
  have hL: "h \<in> held ext s" using packet_head(1) [OF inv h] .
  have sub: "set hs \<subseteq> held ext s" using chain_in [OF inv ch hL] .
  have ne: "hs \<noteq> []" using ch by auto
  have tt: "t \<in> set ts" using t(2) by (auto dest: lst_Some)
  have th: "t \<notin> set hs" "last hs \<notin> set ts" using tt d last_in_set [OF ne] by auto
  have "last hs \<in> held ext s" using sub last_in_set [OF ne] by blast
  then have "pb_tot_len (pm_pbuf s (last hs)) = pb_len (pm_pbuf s (last hs))"
    using len lst_last [OF ch ne] by (auto simp: lens_ok_def word_unat_eq_iff)
  note cat = pbuf_cat_ok [OF ch th(1) this]
  have inv': "pbuf_inv c base (held ext s) (ext(t := ext t - 1)) (catted hs t s)" using catted_inv [OF inv hL ch t th(2)] .
  have "int (unat (pb_tot_len (pm_pbuf s h)) + unat (pb_tot_len (pm_pbuf s t))) < int 65536" using sum by (simp add: tot_def)
  then have "unat (pb_tot_len (pm_pbuf s h)) + unat (pb_tot_len (pm_pbuf s t)) < 65536" by (simp only: of_nat_less_iff)
  moreover have "\<forall>q\<in>held ext s. \<forall>x\<in>set hs. nxt s q = Some x \<longrightarrow> q \<in> set hs" using h by (simp add: packet_def)
  moreover have ar: "areas c base k (catted hs t s) = areas c base k s" for k by (simp add: catted_def areas_def split: option.split)
  ultimately have "lens_ok (held ext s) (catted hs t s)" using catted_lens [OF len ch sub _ th(1)] by blast
  then have "pbuf_state c base s0 (ext(t := ext t - 1)) (catted hs t s)"
    using acc ar by (intro pbuf_stateI [OF inv']) simp_all
  moreover have "t \<in> held ext s" using t tt by (auto simp: held_def)
  then have "t \<in> held (ext(t := ext t - 1)) (catted hs t s)" using held_eq [OF inv'] by simp
  ultimately show thesis using that cat by (simp add: catted_def)
qed

lemma dechain_op:
  assumes st: "pbuf_state c base s0 ext s" and p: "allowed c ext s (Dechain p)"
  shows "op_ok c base s0 ext s (Dechain p)"
proof -
  note inv = pbuf_stateD(1) [OF st] and len = pbuf_stateD(2) [OF st] and acc = pbuf_stateD(3) [OF st]
  obtain ps where "packet ext s p ps" using p by auto
  note hd = packet_head [OF inv this]
  show ?thesis
  proof (cases "nxt s p")
    case None
    then have "pb_tot_len (pm_pbuf s p) = pb_len (pm_pbuf s p)" using len hd(1) by (auto simp: lens_ok_def word_unat_eq_iff)
    then show ?thesis using None st by (intro op_okI [of _ _ _ None s]) (simp_all add: pbuf_dechain_def)
  next
    case (Some q)
    have q: "q \<in> held ext s" using nxt_in [OF inv hd(1) Some] .
    obtain qs where qs: "lst (nxt s) (Some q) qs" "set qs \<subseteq> held ext s" using pbuf_inv_chain [OF inv q] by blast
    let ?F = "set (sole s qs)"
    let ?s1 = "pb p (\<lambda>b. b\<lparr>pb_next := None, pb_tot_len := pb_len b\<rparr>) s"
    obtain s' where s': "pbuf_dechain c p s = Inr (if (of_nat (length (sole s qs)) :: u8) > 0 then None else Some q, s')"
        "pbuf_inv c base (held ext s - ?F) ext s'" "lens_ok (held ext s - ?F) s'" "freed c base ?F ?s1 s'"
      using pbuf_dechain_ok [OF inv len hd Some qs(1)] by blast
    have "{a \<in> areas c base k ?s1. fst a \<notin> held ext s} = areas c base k s0" if "class_ok c k" for k using acc that by (simp add: pbuf_simps)
    then have "pbuf_state c base s0 ext s'"
      using freed_account [OF s'(4)] qs(2) sole_set [of s qs] by (intro pbuf_stateI [OF s'(2,3)]) auto
    then show ?thesis using s'(1) by (intro op_okI [of _ _ _ "if (of_nat (length (sole s qs)) :: u8) > 0 then None else Some q" s']) simp_all
  qed
qed

lemma header_op:
  assumes st: "pbuf_state c base s0 ext s" and p: "allowed c ext s (Header p w)"
  shows "op_ok c base s0 ext s (Header p w)"
proof (cases "header_fits c p w s")
  case True
  note inv = pbuf_stateD(1) [OF st] and len = pbuf_stateD(2) [OF st] and acc = pbuf_stateD(3) [OF st]
  obtain ps where "packet ext s p ps" using p by auto
  note hd = packet_head [OF inv this]
  have "uint (pb_tot_len (pm_pbuf s p)) + sint w < 65536" using p by (simp add: tot_def)
  note m = moved_ok [OF inv len hd True this]
  have "pbuf_state c base s0 ext (moved p w s)"
    using acc by (intro pbuf_stateI [OF m(1,2)]) (simp add: moved_def pbuf_simps)
  then show ?thesis using True by (intro op_okI) (simp_all add: pbuf_header_eq)
next
  case False
  then show ?thesis using st by (intro op_okI) (simp_all add: pbuf_header_eq)
qed

lemma realloc_op:
  assumes st: "pbuf_state c base s0 ext s" and p: "allowed c ext s (Realloc p new_len)"
  shows "op_ok c base s0 ext s (Realloc p new_len)"
proof -
  note inv = pbuf_stateD(1) [OF st] and len = pbuf_stateD(2) [OF st] and acc = pbuf_stateD(3) [OF st]
  obtain ps where pk: "packet ext s p ps" using p by auto
  then have ch: "lst (nxt s) (Some p) ps" "\<forall>y\<in>held ext s. \<forall>x\<in>set ps. nxt s y = Some x \<longrightarrow> y \<in> set ps" by (simp_all add: packet_def)
  obtain s' F where s': "pbuf_realloc c p new_len s = Inr s'" "F \<subseteq> held ext s" "pbuf_inv c base (held ext s - F) ext s'" "lens_ok (held ext s - F) s'"
      "\<And>k. class_ok c k \<Longrightarrow> {a \<in> areas c base k s'. fst a \<notin> held ext s - F} = {a \<in> areas c base k s. fst a \<notin> held ext s}"
    using pbuf_realloc_ok [OF inv len packet_head(1) [OF inv pk] ch] by blast
  have "pbuf_state c base s0 ext s'" using s'(5) acc by (intro pbuf_stateI [OF s'(3,4)]) simp
  then show ?thesis using s'(1) by (intro op_okI) simp_all
qed

lemma pbuf_op_ok:
  assumes st: "pbuf_state c base s0 ext s" and a: "allowed c ext s op"
  shows "op_ok c base s0 ext s op"
proof (cases op)
  case (Cat h t)
  then have "can_join ext s h t" using a by simp
  then obtain s' where "pbuf_cat (Some h) (Some t) s = Inr s'" "pbuf_state c base s0 (ext(t := ext t - 1)) s'"
    using cat_state [OF st] by blast
  then show ?thesis using Cat by (intro op_okI) simp_all
next
  case (Chain h t)
  then have j: "can_join ext s h t" "pb_ref (pm_pbuf s t) < 65535" "0 < ext t" using a by (simp_all add: can_join_def)
  obtain s' where s': "pbuf_cat (Some h) (Some t) s = Inr s'" "pbuf_state c base s0 (ext(t := ext t - 1)) s'"
      "pb_ref (pm_pbuf s' t) = pb_ref (pm_pbuf s t)" "t \<in> held (ext(t := ext t - 1)) s'"
    using cat_state [OF st j(1)] by blast
  have "pbuf_state c base s0 ext (pbuf_ref (Some t) s')"
    using ref_state [OF s'(2,4)] s'(3) j(2,3) by simp
  then show ?thesis using s'(1) Chain by (intro op_okI) (simp_all add: pbuf_chain_def)
qed (use a st alloc_op free_op dechain_op header_op realloc_op ref_state in \<open>auto simp: op_ok_def\<close>)

section \<open>Runs\<close>

inductive pbuf_reach :: "pbuf_conf \<Rightarrow> pbuf_mem \<Rightarrow> (int \<Rightarrow> nat) \<Rightarrow> pbuf_mem \<Rightarrow> bool" for c s0 where
  start: "pbuf_reach c s0 (\<lambda>_. 0) s0"
| op: "pbuf_reach c s0 ext s \<Longrightarrow> allowed c ext s op \<Longrightarrow> pbuf_do c op s = Inr (r, s') \<Longrightarrow> pbuf_reach c s0 (refs_after op r ext) s'"

lemma pbuf_start: "mem_wf c base s0 \<Longrightarrow> pbuf_state c base s0 (\<lambda>_. 0) s0"
  by (rule pbuf_stateI [of _ _ "{}"]) (auto simp: pbuf_inv_def lens_ok_def)

lemma pbuf_reach_state:
  assumes "pbuf_reach c s0 ext s" "mem_wf c base s0"
  shows "pbuf_state c base s0 ext s"
  using assms
proof induction
  case start
  then show ?case by (rule pbuf_start)
next
  case (op ext s op r s')
  then show ?case using pbuf_op_ok [of c base s0 ext s op] by (auto simp: op_ok_def)
qed

lemma held_none: "held (\<lambda>_. 0) s = {}"
  by (simp add: held_def)

section \<open>An example configuration\<close>

text \<open>The heap of \<open>conf4\<close>, two pbufs without memory of their own and three pool pbufs of 100 octets.\<close>

definition pbuf_example :: pbuf_conf where
  "pbuf_example = \<lparr>pc_mem = conf4, pc_memp = \<lparr>memp_alignment = 4, memp_sizes = [16, 116], memp_num = [2, 3]\<rparr>,
     MEMP_PBUF = 0, MEMP_PBUF_POOL = 1, PBUF_LINK_HLEN = 14, PBUF_POOL_BUFSIZE = 100, sizeof_pbuf = 16\<rparr>"

definition pbuf_blank :: pbuf where
  "pbuf_blank = \<lparr>pb_next = None, pb_payload = 0, pb_tot_len = 0, pb_len = 0, pb_type = PBUF_RAM, pb_flags = 0, pb_ref = 0\<rparr>"

definition pbuf_boot :: pbuf_mem where
  "pbuf_boot = \<lparr>pm_heap = heap4, pm_memp = memp_init (pc_memp pbuf_example) 8000 memp_blank,
     pm_pbuf = (\<lambda>_. pbuf_blank), pm_byte = (\<lambda>_. 0)\<rparr>"

lemma pbuf_example_simps [simp]:
  "SIZEOF_STRUCT_PBUF pbuf_example = 16" "PBUF_POOL_BUFSIZE_ALIGNED pbuf_example = 100" "pbuf_conf_ok pbuf_example"
  by (simp_all add: pbuf_example_def conf4_def SIZEOF_STRUCT_PBUF_def PBUF_POOL_BUFSIZE_ALIGNED_def ALIGN_SIZE_def LWIP_MEM_ALIGN_SIZE_def
      pbuf_conf_ok_def conf4_simps(5) [unfolded conf4_def] memp_conf_ok_def MEMP_MAX_def PBUF_TRANSPORT_HLEN_def PBUF_IP_HLEN_def)

lemma pbuf_boot_wf: "mem_wf pbuf_example 8000 pbuf_boot"
proof -
  have "memp_conf_ok (pc_memp pbuf_example)" by (rule pbuf_conf_okD) simp
  from memp_init_ok [OF this, of 8000 memp_blank] have "memp_inv (pc_memp pbuf_example) 8000 (pm_memp pbuf_boot)"
    by (auto simp: memp_inv_def pbuf_boot_def memp_base_def pbuf_example_def)
  moreover have "heap_inv (pc_mem pbuf_example) (pm_heap pbuf_boot)"
    using heap4_ok(1) by (auto simp: heap_inv_def pbuf_boot_def pbuf_example_def)
  moreover have "apart pbuf_example 8000 pbuf_boot" by (simp add: apart_def pbuf_boot_def heap4_def pbuf_example_def)
  ultimately show ?thesis by (simp add: mem_wf_def)
qed

text \<open>One pbuf that refers to memory elsewhere.\<close>

lemma one_pbuf_alloc:
  "\<exists>s. pbuf_alloc pbuf_example PBUF_RAW 8 PBUF_REF pbuf_boot = Inr (Some 8016, s) \<and> nxt s 8016 = None"
  by (simp add: pbuf_alloc_def pbuf_alloc_ref_def pool_malloc_def pbuf_boot_def pbuf_example_def memp_init_def MEMP_MAX_def memp_blank_def
      memp_malloc_def pbuf_offset_def pb_def Let_def numeral_2_eq_2 numeral_3_eq_3)

lemma boot_inv: "pbuf_inv pbuf_example 8000 {} (\<lambda>_. 0) pbuf_boot" "lens_ok {} pbuf_boot"
  using pbuf_stateD(1) [OF pbuf_start [OF pbuf_boot_wf]] by (simp_all add: held_none lens_ok_def)

lemma one_pbuf:
  obtains s where "pbuf_alloc pbuf_example PBUF_RAW 8 PBUF_REF pbuf_boot = Inr (Some 8016, s)"
    "pbuf_inv pbuf_example 8000 {8016} ((\<lambda>_. 0)(8016 := 1)) s" "lens_ok {8016} s" "lst (nxt s) (Some 8016) [8016]"
    "pb_ref (pm_pbuf s 8016) = 1" "pb_tot_len (pm_pbuf s 8016) = 8" "pb_type (pm_pbuf s 8016) = PBUF_REF"
proof -
  obtain s where s: "pbuf_alloc pbuf_example PBUF_RAW 8 PBUF_REF pbuf_boot = Inr (Some 8016, s)" "nxt s 8016 = None"
    using one_pbuf_alloc by blast
  obtain ps where ps: "hd ps = 8016" "alloc_done pbuf_example 8000 {} (\<lambda>_. 0) pbuf_boot PBUF_RAW 8 PBUF_REF ps s"
  proof (rule pbuf_alloc_ok [OF boot_inv(1), of PBUF_REF PBUF_RAW 8])
    fix ps s' assume "pbuf_alloc pbuf_example PBUF_RAW 8 PBUF_REF pbuf_boot = Inr (Some (hd ps), s')"
      "alloc_done pbuf_example 8000 {} (\<lambda>_. 0) pbuf_boot PBUF_RAW 8 PBUF_REF ps s'"
    then show thesis using s(1) that [of ps] by simp
  qed (use s(1) in simp_all)
  then have g: "grown pbuf_example 8000 {} (\<lambda>_. 0) pbuf_boot PBUF_REF ps 0 s" by (simp add: alloc_done_def)
  then have "lst (nxt s) (Some 8016) ps" using ps(1) by (simp add: grown_def)
  moreover have "lst (nxt s) (Some 8016) [8016]" using s(2) by simp
  ultimately have "ps = [8016]" by (rule lst_unique)
  then show thesis using that s g ps(2) alloc_lens [OF boot_inv ps(2)] by (simp add: grown_def alloc_done_def)
qed

section \<open>Reference counts after a free\<close>

lemma free_refs:
  assumes inv: "pbuf_inv c base L ext s" and p: "0 < ext p" and ch: "lst (nxt s) (Some p) ps"
    and inv': "pbuf_inv c base (L - set (sole s ps)) (ext(p := ext p - 1)) s'" and fr: "freed c base (set (sole s ps)) s s'"
    and x: "x \<in> L - set (sole s ps)"
  shows "unat (pb_ref (pm_pbuf s' x)) = (if sole s ps \<noteq> ps \<and> x = ps ! length (sole s ps)
    then unat (pb_ref (pm_pbuf s x)) - 1 else unat (pb_ref (pm_pbuf s x)))"
proof -
  let ?F = "set (sole s ps)"
  obtain ys where ps: "ps = sole s ps @ ys" unfolding sole_def by (metis takeWhile_dropWhile_id)
  have nx: "nxt s' y = nxt s y" for y using freedD(1) [OF fr] .
  have chF: "lst (nxt s) (Some p) (sole s ps @ ys)" using ch ps by simp
  have FL: "?F \<subseteq> L"
    using chain_in [OF inv ch] pbuf_invD(3) [OF inv, of p] p sole_set [of s ps] by auto
  define G where "G = {y \<in> ?F. nxt s y = Some x}"
  have "ptrs L s x = ptrs (L - ?F) s' x \<union> G" using FL by (auto simp: ptrs_def nx G_def)
  moreover have "finite (ptrs (L - ?F) s' x)" "finite G" using pbuf_invD(2) [OF inv] by (simp_all add: ptrs_def G_def)
  moreover have "ptrs (L - ?F) s' x \<inter> G = {}" by (auto simp: ptrs_def G_def)
  ultimately have card: "card (ptrs L s x) = card (ptrs (L - ?F) s' x) + card G" by (simp add: card_Un_disjoint)
  have refs: "unat (pb_ref (pm_pbuf s x)) = card (ptrs L s x) + ext x"
    "unat (pb_ref (pm_pbuf s' x)) = card (ptrs (L - ?F) s' x) + (ext(p := ext p - 1)) x"
    using pbuf_invD(5) [OF inv, of x] pbuf_invD(5) [OF inv', of x] x by simp_all
  have G: "G = (if ys \<noteq> [] \<and> sole s ps \<noteq> [] \<and> x = hd ys then {last (sole s ps)} else {})"
  proof (cases "ys \<noteq> [] \<and> sole s ps \<noteq> [] \<and> x = hd ys")
    case True
    then have "nxt s (last (sole s ps)) = Some x" using chF lst_app [of "nxt s" "Some p" "sole s ps" ys] by (cases ys) auto
    then show ?thesis using True lst_leave [OF chF] x by (auto simp: G_def)
  next
    case False
    then have "G = {}" using lst_leave [OF chF] x by (fastforce simp: G_def)
    then show ?thesis using False by simp
  qed
  have hd: "hd ps = p" "ps \<noteq> []" using ch by (cases ps; simp)+
  show ?thesis
  proof (cases "sole s ps = []")
    case True
    then have "ps = ys" using ps by simp
    then show ?thesis using True hd refs card G p by (auto simp: hd_conv_nth)
  next
    case False
    then have "hd (sole s ps) = p" using hd ps by (metis hd_append2)
    then have "x \<noteq> p" using x False by (metis DiffD2 hd_in_set)
    moreover have "ps ! length (sole s ps) = hd ys" "sole s ps \<noteq> ps" if "ys \<noteq> []"
      using ps that by (metis hd_conv_nth nth_append_length_plus add.right_neutral, metis append_self_conv)
    moreover have "sole s ps = ps" if "ys = []" using ps that by simp
    ultimately show ?thesis using False refs card G by auto
  qed
qed

section \<open>Properties\<close>

text \<open>Claim C5. Start from pools and a heap in a well-formed state and let a client allocate, free, reference, join, take apart,
  move and shrink packet buffers, using only pbufs it holds references to. Then no assertion of
  \<open>pbuf.c\<close>, \<open>memp.c\<close> or \<open>mem.c\<close> fails and no loop runs forever; every live pbuf lies in its own area and counts exactly the pointers to
  it; total lengths are right along every chain; and all memory that is not reachable from the client's references is back in its
  pool or in the heap. Once the client holds nothing, everything is back.\<close>

theorem pbuf_trace_safe:
  assumes "mem_wf c base s0" "pbuf_reach c s0 ext s"
  shows "pbuf_inv c base (held ext s) ext s \<and> lens_ok (held ext s) s \<and>
    (\<forall>k. class_ok c k \<longrightarrow> {a \<in> areas c base k s. fst a \<notin> held ext s} = areas c base k s0) \<and>
    (\<forall>op. allowed c ext s op \<longrightarrow> (\<exists>r s'. pbuf_do c op s = Inr (r, s') \<and> pbuf_reach c s0 (refs_after op r ext) s')) \<and>
    (ext = (\<lambda>_. 0) \<longrightarrow> (\<forall>k. class_ok c k \<longrightarrow> areas c base k s = areas c base k s0))"
proof -
  note st = pbuf_reach_state [OF assms(2,1)]
  have "\<exists>r s'. pbuf_do c op s = Inr (r, s') \<and> pbuf_reach c s0 (refs_after op r ext) s'" if "allowed c ext s op" for op
    using pbuf_op_ok [OF st that] pbuf_reach.op [OF assms(2) that] by (auto simp: op_ok_def)
  moreover have "areas c base k s = areas c base k s0" if "ext = (\<lambda>_. 0)" "class_ok c k" for k
    using pbuf_stateD(3) [OF st that(2)] that(1) by (simp add: held_none)
  ultimately show ?thesis using st by (simp add: pbuf_state_def)
qed

theorem pbuf_trace_safe_witness:
  "\<exists>r s. pbuf_do pbuf_example (Alloc PBUF_RAW 150 PBUF_POOL) pbuf_boot = Inr (r, s) \<and>
    (\<exists>r' s'. pbuf_do pbuf_example (Alloc PBUF_IP 20 PBUF_RAM) s = Inr (r', s'))"
proof -
  have a: "allowed pbuf_example (\<lambda>_. 0) pbuf_boot (Alloc PBUF_RAW 150 PBUF_POOL)" by simp
  obtain r s where s: "pbuf_do pbuf_example (Alloc PBUF_RAW 150 PBUF_POOL) pbuf_boot = Inr (r, s)"
      "pbuf_reach pbuf_example pbuf_boot (refs_after (Alloc PBUF_RAW 150 PBUF_POOL) r (\<lambda>_. 0)) s"
    using pbuf_trace_safe [OF pbuf_boot_wf pbuf_reach.start] a by metis
  have "ram_fits pbuf_example PBUF_IP 20"
    by (simp add: ram_fits_def pbuf_offset_def ALIGN_SIZE_def legal_size_def PBUF_IP_HLEN_def)
      (simp add: pbuf_example_def conf4_def LWIP_MEM_ALIGN_SIZE_def)
  then have "allowed pbuf_example ext s (Alloc PBUF_IP 20 PBUF_RAM)" for ext by simp
  then show ?thesis using pbuf_trace_safe [OF pbuf_boot_wf s(2)] s(1) by metis
qed

text \<open>Claim C20. \<open>pbuf_alloc\<close>, asked for a length that the size type of the heap can express, never fails an assertion. Either it
  returns \<open>NULL\<close> and leaves every live pbuf and every area as they were, the partly built chain included, or it returns a
  chain of fresh pbufs of the requested type with one reference each, whose lengths add up to the request, with
  aligned payloads inside their areas and the space for the headers of the layer in front of the first one.\<close>

theorem pbuf_alloc_correct:
  assumes "pbuf_inv c base L ext s" "ty = PBUF_RAM \<longrightarrow> ram_fits c layer nbytes"
  shows "(\<exists>s'. pbuf_alloc c layer nbytes ty s = Inr (None, s') \<and> pbuf_inv c base L ext s' \<and> unchanged c base L s s') \<or>
    (\<exists>p ps s'. pbuf_alloc c layer nbytes ty s = Inr (Some p, s') \<and> lst (nxt s') (Some p) ps \<and> set ps \<inter> L = {} \<and>
      pbuf_inv c base (L \<union> set ps) (ext(p := 1)) s' \<and> (\<forall>x. x \<notin> set ps \<longrightarrow> pm_pbuf s' x = pm_pbuf s x) \<and>
      (\<forall>x\<in>set ps. pb_ref (pm_pbuf s' x) = 1 \<and> pb_type (pm_pbuf s' x) = ty \<and> MEM_ALIGNMENT (pc_mem c) dvd pb_payload (pm_pbuf s' x)) \<and>
      pb_tot_len (pm_pbuf s' p) = nbytes \<and> (\<Sum>x\<leftarrow>ps. unat (pb_len (pm_pbuf s' x))) = unat nbytes \<and>
      (ty \<in> {PBUF_RAM, PBUF_POOL} \<longrightarrow> p + SIZEOF_STRUCT_PBUF c + pbuf_offset c layer \<le> pb_payload (pm_pbuf s' p)))"
  using assms
proof (cases rule: pbuf_alloc_ok)
  case null
  then show ?thesis by blast
next
  case (some ps s')
  then have g: "grown c base L ext s ty ps 0 s'" by (simp add: alloc_done_def)
  have "lens_ok (set ps) s'" using g by (simp add: grown_def lens_ok_def)
  then have "(\<Sum>x\<leftarrow>ps. unat (pb_len (pm_pbuf s' x))) = unat nbytes"
    using lens_sum [of _ s' "hd ps" ps] g some(2) by (simp add: grown_def alloc_done_def)
  then show ?thesis
    using some g by (intro disjI2 exI [of _ "hd ps"] exI [of _ ps] exI [of _ s']) (auto simp: grown_def alloc_done_def)
qed

theorem pbuf_alloc_correct_witness:
  "\<exists>s ps. pbuf_alloc pbuf_example PBUF_RAW 8 PBUF_REF pbuf_boot = Inr (Some 8016, s) \<and> lst (nxt s) (Some 8016) ps \<and>
    pbuf_inv pbuf_example 8000 (set ps) ((\<lambda>_. 0)(8016 := 1)) s \<and> pb_tot_len (pm_pbuf s 8016) = 8 \<and>
    (\<Sum>x\<leftarrow>ps. unat (pb_len (pm_pbuf s x))) = 8"
proof -
  obtain s where "pbuf_alloc pbuf_example PBUF_RAW 8 PBUF_REF pbuf_boot = Inr (Some 8016, s)"
    using one_pbuf_alloc by blast
  then show ?thesis using pbuf_alloc_correct [OF boot_inv(1), of PBUF_REF PBUF_RAW 8] by auto
qed

text \<open>Claim C21. \<open>pbuf_free\<close> on a pbuf to which a reference is held gives back exactly the longest prefix of the chain in
  which every pbuf has no other reference, to the allocator each one came from, and returns its length modulo 256; the pbuf behind the
  prefix, if there is one, loses one reference; nothing else changes.\<close>

theorem pbuf_free_correct:
  assumes "pbuf_inv c base L ext s" "0 < ext p" "lst (nxt s) (Some p) ps"
  shows "\<exists>s'. pbuf_free c (Some p) s = Inr (of_nat (length (sole s ps)), s') \<and>
    pbuf_inv c base (L - set (sole s ps)) (ext(p := ext p - 1)) s' \<and> pm_byte s' = pm_byte s \<and>
    (\<forall>k. class_ok c k \<longrightarrow> areas c base k s' = {a \<in> areas c base k s. fst a \<notin> set (sole s ps)}) \<and>
    (\<forall>x\<in>L - set (sole s ps). (pm_pbuf s' x)\<lparr>pb_ref := 0\<rparr> = (pm_pbuf s x)\<lparr>pb_ref := 0\<rparr> \<and>
       unat (pb_ref (pm_pbuf s' x)) = (if sole s ps \<noteq> ps \<and> x = ps ! length (sole s ps)
         then unat (pb_ref (pm_pbuf s x)) - 1 else unat (pb_ref (pm_pbuf s x))))"
proof -
  obtain s' where s': "pbuf_free c (Some p) s = Inr (of_nat (length (sole s ps)), s')"
      "pbuf_inv c base (L - set (sole s ps)) (ext(p := ext p - 1)) s'" "freed c base (set (sole s ps)) s s'"
    using pbuf_free_ok [OF assms] by blast
  then show ?thesis using free_refs [OF assms s'(2,3)] by (intro exI [of _ s']) (simp add: freed_def)
qed

theorem pbuf_free_correct_witness:
  "\<exists>s s'. pbuf_alloc pbuf_example PBUF_RAW 8 PBUF_REF pbuf_boot = Inr (Some 8016, s) \<and> pbuf_free pbuf_example (Some 8016) s = Inr (1, s') \<and>
    areas pbuf_example 8000 (Some 0) s' = {a \<in> areas pbuf_example 8000 (Some 0) s. fst a \<noteq> 8016}"
proof -
  obtain s where s: "pbuf_alloc pbuf_example PBUF_RAW 8 PBUF_REF pbuf_boot = Inr (Some 8016, s)"
      "pbuf_inv pbuf_example 8000 {8016} ((\<lambda>_. 0)(8016 := 1)) s" "lst (nxt s) (Some 8016) [8016]" "pb_ref (pm_pbuf s 8016) = 1"
    by (rule one_pbuf)
  have so: "sole s [8016] = [8016]" by (simp add: sole_def s(4))
  have k: "class_ok pbuf_example (Some 0)" by (simp add: class_ok_def pbuf_example_def MEMP_MAX_def)
  obtain s' where "pbuf_free pbuf_example (Some 8016) s = Inr (1, s')"
      "\<forall>k. class_ok pbuf_example k \<longrightarrow> areas pbuf_example 8000 k s' = {a \<in> areas pbuf_example 8000 k s. fst a \<notin> set [8016]}"
    using pbuf_free_correct [OF s(2) _ s(3)] unfolding so by auto
  then show ?thesis using s(1) k by auto
qed

text \<open>Claim C27. \<open>pbuf_header\<close> on the first pbuf of a packet succeeds exactly when the octets to strip are there, or there is room between the
  struct and the payload (never, for a pbuf without a payload of its own). Then payload, length and
  total length move by the increment, the payload stays inside the pbuf's area, and the opposite increment restores the state.
  Otherwise the status is 1 and nothing has changed.\<close>

theorem pbuf_header_correct:
  assumes "pbuf_inv c base L ext s" "lens_ok L s" "p \<in> L" "ptrs L s p = {}" "uint (pb_tot_len (pm_pbuf s p)) + sint w < 65536"
  shows "(if header_fits c p w s
     then \<exists>s'. pbuf_header c p w s = (0, s') \<and> pbuf_inv c base L ext s' \<and> lens_ok L s' \<and>
       pb_payload (pm_pbuf s' p) = pb_payload (pm_pbuf s p) - sint w \<and>
       uint (pb_len (pm_pbuf s' p)) = uint (pb_len (pm_pbuf s p)) + sint w \<and>
       uint (pb_tot_len (pm_pbuf s' p)) = uint (pb_tot_len (pm_pbuf s p)) + sint w \<and>
       (pb_type (pm_pbuf s p) \<in> {PBUF_RAM, PBUF_POOL} \<and> w \<noteq> 0x8000 \<longrightarrow> pbuf_header c p (- w) s' = (0, s))
     else pbuf_header c p w s = (1, s))"
proof (cases "header_fits c p w s")
  case True
  note m = moved_ok [OF assms(1-4) True assms(5)]
  have "pbuf_header c p (- w) (moved p w s) = (0, s)" if "pb_type (pm_pbuf s p) \<in> {PBUF_RAM, PBUF_POOL}" "w \<noteq> 0x8000"
  proof -
    have own: "p + SIZEOF_STRUCT_PBUF c \<le> pb_payload (pm_pbuf s p)"
      using pbuf_invD(4) [OF assms(1,3)] that(1) by (auto simp: pbuf_owned_def)
    have "header_fits c p (- w) (moved p w s)"
      unfolding header_fits_def m(3) sint_minus [OF that(2)] using that(1) own by (auto simp: moved_def pbuf_simps)
    then show ?thesis using moved_back [OF that(2)] by (simp add: pbuf_header_eq)
  qed
  then show ?thesis using True m by (simp add: pbuf_header_eq) (simp add: moved_def pbuf_simps)
qed (simp add: pbuf_header_eq)

theorem pbuf_header_correct_witness:
  "\<exists>s. pbuf_alloc pbuf_example PBUF_RAW 8 PBUF_REF pbuf_boot = Inr (Some 8016, s) \<and> pbuf_header pbuf_example 8016 20 s = (1, s)"
proof -
  obtain s where s: "pbuf_alloc pbuf_example PBUF_RAW 8 PBUF_REF pbuf_boot = Inr (Some 8016, s)"
      "pbuf_inv pbuf_example 8000 {8016} ((\<lambda>_. 0)(8016 := 1)) s" "lens_ok {8016} s" "lst (nxt s) (Some 8016) [8016]"
      "pb_tot_len (pm_pbuf s 8016) = 8" "pb_type (pm_pbuf s 8016) = PBUF_REF"
    by (rule one_pbuf)
  have "ptrs {8016} s 8016 = {}" using s(4) by (auto simp: ptrs_def)
  moreover have "\<not> header_fits pbuf_example 8016 20 s" by (simp add: header_fits_def s(6))
  ultimately show ?thesis using pbuf_header_correct [OF s(2,3), of 8016 20] s(1,5) by simp
qed

text \<open>Claim C26. \<open>pbuf_copy_partial\<close> writes to the destination the octets of the whole chain from \<open>offset\<close> on, at most
  \<open>len\<close> of them, and returns how many there were: it is \<open>take len (drop offset bytes)\<close> on the concatenated payloads. Nothing
  else is written.\<close>

theorem pbuf_copy_partial_correct:
  assumes "lst (nxt s) (Some p) ps" "clear_of d (unat len) s ps"
  shows "let bs = take (unat len) (drop (unat offset) (chain_bytes s ps))
    in pbuf_copy_partial (Some p) (Some d) len offset s = Inr (of_nat (length bs), put d bs s)"
  using pbuf_copy_partial_eq [OF assms] by (simp add: Let_def)

definition pbuf_pair :: pbuf_mem where
  "pbuf_pair = pbuf_boot\<lparr>pm_pbuf := (\<lambda>p. if p = 1 then pbuf_blank\<lparr>pb_next := Some 2, pb_payload := 100, pb_len := 2\<rparr>
       else pbuf_blank\<lparr>pb_payload := 200, pb_len := 3\<rparr>), pm_byte := word_of_int\<rparr>"

theorem pbuf_copy_partial_correct_witness:
  "pbuf_copy_partial (Some 1) (Some 300) 3 1 pbuf_pair = Inr (3, put 300 [101, 200, 201] pbuf_pair)"
proof -
  have "lst (nxt pbuf_pair) (Some 1) [1, 2]" "clear_of 300 (unat (3 :: u16)) pbuf_pair [1, 2]"
    by (simp_all add: pbuf_pair_def pbuf_blank_def clear_of_def)
  moreover have "take (unat (3 :: u16)) (drop (unat (1 :: u16)) (chain_bytes pbuf_pair [1, 2])) = [101, 200, 201]"
    by (simp add: chain_bytes_def pbuf_bytes_def pbuf_pair_def upt_rec)
  ultimately show ?thesis using pbuf_copy_partial_correct [of pbuf_pair 1 "[1, 2]" 300 3 1] by simp
qed

text \<open>Claim C36. The size of a \<open>PBUF_RAM\<close> request is computed in \<open>mem_size_t\<close>, which has 16 bits: when struct, headers and data together
  pass its range, the heap is asked only for the few octets of the remainder, and if it has them, \<open>pbuf_alloc\<close> returns a pbuf that claims the full
  length.\<close>

theorem pbuf_alloc_ram_wraps:
  assumes "pbuf_conf_ok c" "pbuf_alloc c layer nbytes PBUF_RAM s = Inr (Some p, s')"
    and "65536 \<le> ALIGN_SIZE c (SIZEOF_STRUCT_PBUF c + pbuf_offset c layer) + ALIGN_SIZE c (uint nbytes)"
  shows "\<exists>n. mem_malloc (pc_mem c) n (pm_heap s) = Inr (pm_heap s', Some p) \<and> 0 \<le> n \<and> n < 200 \<and>
    pb_len (pm_pbuf s' p) = nbytes \<and> 65300 < uint nbytes"
proof -
  let ?off = "pbuf_offset c layer"
  let ?a = "ALIGN_SIZE c (SIZEOF_STRUCT_PBUF c + ?off)" and ?b = "ALIGN_SIZE c (uint nbytes)"
  have cf: "conf_ok (pc_mem c)" using assms(1) by (rule pbuf_conf_okD)
  then have al: "MEM_ALIGNMENT (pc_mem c) \<le> 8" by (auto simp: conf_ok_def)
  have off: "?off \<le> 104" using assms(1)
    by (auto simp: pbuf_offset_def pbuf_conf_ok_def PBUF_TRANSPORT_HLEN_def PBUF_IP_HLEN_def split: pbuf_layer.split)
  have a: "?a < 184" "?b < uint nbytes + 8"
    using align_bounds(2) [OF cf, of "SIZEOF_STRUCT_PBUF c + ?off"] align_bounds(2) [OF cf, of "uint nbytes"] al off pbuf_sizes(3) [OF assms(1)]
    by (simp_all add: ALIGN_SIZE_def)
  define x where "x = ?a + ?b - 65536"
  have x: "x < 200" "0 \<le> x" using a uint_lt2p [of nbytes] assms(3) by (simp_all add: x_def)
  have "?a + ?b = x + 65536" by (simp add: x_def)
  then have m: "mst (?a + ?b) < 200" "0 \<le> mst (?a + ?b)" using x by (simp_all add: mst_def)
  obtain h where h: "mem_malloc (pc_mem c) (mst (?a + ?b)) (pm_heap s) = Inr (h, Some p)" "pm_heap s' = h" "pb_len (pm_pbuf s' p) = nbytes"
    using assms(2) by (auto simp: pbuf_alloc_def pbuf_alloc_ram_def ram_malloc_def Let_def lwip_outcome pb_def split: option.splits)
  then show ?thesis using m a assms(3) by (intro exI [of _ "mst (?a + ?b)"]) simp
qed

theorem pbuf_alloc_ram_wraps_witness:
  "\<exists>s' n. pbuf_alloc pbuf_example PBUF_RAW 65535 PBUF_RAM pbuf_boot = Inr (Some 4104, s') \<and> n < 200 \<and>
    mem_malloc conf4 n heap4 = Inr (pm_heap s', Some 4104) \<and> pb_len (pm_pbuf s' 4104) = 65535"
proof -
  obtain h where h: "mem_malloc conf4 16 heap4 = Inr (h, Some 4104)"
    using heap4_malloc [of 16 16] by (auto simp: LWIP_MEM_ALIGN_SIZE_def mst_def conf4_def)
  have "ALIGN_SIZE pbuf_example (SIZEOF_STRUCT_PBUF pbuf_example + pbuf_offset pbuf_example PBUF_RAW) = 16"
      "ALIGN_SIZE pbuf_example (uint (65535 :: u16)) = 65536"
    by (simp_all add: ALIGN_SIZE_def pbuf_offset_def) (simp_all add: pbuf_example_def conf4_def LWIP_MEM_ALIGN_SIZE_def)
  note sz = this
  have e: "pc_mem pbuf_example = conf4" "pm_heap pbuf_boot = heap4" "mst 65552 = 16" "pbuf_offset pbuf_example PBUF_RAW = 0"
      "LWIP_MEM_ALIGN conf4 4120 = 4120"
    by (simp_all add: pbuf_example_def pbuf_boot_def mst_def pbuf_offset_def LWIP_MEM_ALIGN_def)
  have "\<exists>s'. pbuf_alloc pbuf_example PBUF_RAW 65535 PBUF_RAM pbuf_boot = Inr (Some 4104, s')"
    using h sz e by (simp add: pbuf_alloc_def pbuf_alloc_ram_def ram_malloc_def Let_def)
  then obtain s' where s': "pbuf_alloc pbuf_example PBUF_RAW 65535 PBUF_RAM pbuf_boot = Inr (Some 4104, s')" by blast
  then show ?thesis using pbuf_alloc_ram_wraps [OF pbuf_example_simps(3) s'] sz unfolding e by auto
qed

end
