(* ===== verification/Ppp_Bufs.thy ===== *)
theory Ppp_Bufs
  imports Ppp_Fcs Lwip_Pbuf_Correct
begin

text \<open>
  Pool pbufs that are filled octet by octet, as both directions of \<open>ppp.c\<close> do: allocation of an empty pbuf, storing an
  octet, linking and freeing, under the invariant of the packet buffers.
\<close>

section \<open>An empty pbuf from the pool\<close>

definition raw_pbuf :: "pbuf_conf \<Rightarrow> int \<Rightarrow> pbuf" where
  "raw_pbuf c p = \<lparr>pb_next = None, pb_payload = p + SIZEOF_STRUCT_PBUF c, pb_tot_len = 0, pb_len = 0, pb_type = PBUF_POOL,
     pb_flags = 0, pb_ref = 1\<rparr>"

abbreviation pool :: "pbuf_conf \<Rightarrow> nat option" where "pool c \<equiv> Some (MEMP_PBUF_POOL c)"

definition avail :: "pbuf_conf \<Rightarrow> int \<Rightarrow> pbuf_mem \<Rightarrow> nat" where
  "avail c base s = memp_num (pc_memp c) ! MEMP_PBUF_POOL c - card (areas c base (pool c) s)"

lemma pool_malloc_null:
  assumes wf: "mem_wf c base s" and r: "pool_malloc c (MEMP_PBUF_POOL c) s = Inr (s', None)"
  shows "avail c base s = 0"
proof -
  let ?cf = "pc_memp c"
  have ok: "memp_conf_ok ?cf" "MEMP_PBUF_POOL c < MEMP_MAX ?cf" "memp_inv ?cf base (pm_memp s)"
    using wf pbuf_conf_okD(2) [of c] pbuf_sizes(7) [of c] by (simp_all add: mem_wf_def)
  from ok have "free_elems (pm_memp s) (MEMP_PBUF_POOL c) = {}"
    by (cases rule: memp_malloc_cases) (use r in \<open>auto simp: pool_malloc_def\<close>)
  then show ?thesis using pool_areas_card(3) [OF ok(1,2)] by (simp add: avail_def areas_def)
qed

lemma raw_alloc:
  assumes inv: "pbuf_inv c base L ext s"
  obtains (null) s' where "pbuf_alloc c PBUF_RAW 0 PBUF_POOL s = Inr (None, s')" "mem_kept c base s s'" "avail c base s = 0"
  | (some) p s' where "pbuf_alloc c PBUF_RAW 0 PBUF_POOL s = Inr (Some p, s')" "p \<notin> L" "pbuf_inv c base (insert p L) (ext(p := 1)) s'"
      "pm_pbuf s' = (pm_pbuf s)(p := raw_pbuf c p)" "pm_byte s' = pm_byte s"
      "\<And>k. class_ok c k \<Longrightarrow> p \<notin> fst ` areas c base k s \<and> areas c base k s' = (if k = pool c
         then insert (p, SIZEOF_STRUCT_PBUF c + PBUF_POOL_BUFSIZE_ALIGNED c) (areas c base k s) else areas c base k s)"
proof -
  let ?S = "SIZEOF_STRUCT_PBUF c" and ?B = "PBUF_POOL_BUFSIZE_ALIGNED c"
  have conf: "pbuf_conf_ok c" and cf: "conf_ok (pc_mem c)" using pbuf_invD(1) [OF inv] pbuf_conf_okD(1) by (simp_all add: mem_wf_def)
  note wf = pbuf_invD(1) [OF inv]
  have a: "pbuf_alloc c PBUF_RAW 0 PBUF_POOL s = pbuf_alloc_pool c 0 0 s" by (simp add: pbuf_alloc_def pbuf_offset_def)
  have z: "ALIGN_SIZE c 0 = 0" using align_shift [OF cf, of 0 0] cf by (simp add: ALIGN_SIZE_def LWIP_MEM_ALIGN_def)
  have pos: "0 < ?B" "?B < 65536" using pbuf_sizes(4,5) [OF conf] .
  from wf pbuf_sizes(7) [OF conf] show thesis
  proof (cases rule: pool_malloc_cases)
    case (null s')
    then show thesis using that(1) pool_malloc_null [OF wf] by (simp add: a pbuf_alloc_pool_def)
  next
    case (some s1 p)
    have d: "MEM_ALIGNMENT (pc_mem c) dvd p + ?S" using some(2) pbuf_sizes(1) [OF conf] by (simp add: mem_taken_def)
    have pay: "LWIP_MEM_ALIGN (pc_mem c) (p + (?S + 0)) = p + ?S"
      using align_shift [OF cf d, of 0] z by (simp add: ALIGN_SIZE_def)
    have same: "pm_pbuf s1 = pm_pbuf s" "pm_byte s1 = pm_byte s" using some(2) by (simp_all add: mem_taken_def same_contents_def)
    let ?s = "s1\<lparr>pm_pbuf := (pm_pbuf s)(p := raw_pbuf c p)\<rparr>"
    have raw: "b\<lparr>pb_type := PBUF_POOL, pb_next := None, pb_payload := p + ?S, pb_tot_len := 0, pb_len := 0, pb_ref := 1, pb_flags := 0\<rparr> =
        raw_pbuf c p" for b by (cases b) (simp add: raw_pbuf_def)
    have fin: "pbuf_alloc_tail c q q 0 u = Some (Inr (True, u))" for q u by (subst pbuf_alloc_tail.simps) simp
    have "pbuf_alloc_pool c 0 0 s = Inr (Some p, ?s)"
      using some(1) d pos
      by (simp add: pbuf_alloc_pool_def Let_def pay [simplified] z fin lwip_run_def pb_def raw same)
    moreover have "pbuf_inv c base (insert p L) (ext(p := 1)) ?s"
      using some(2) pos pbuf_sizes(8) [OF conf]
      by (intro pbuf_inv_add [OF inv, where n = "?S + ?B"]) (simp_all add: raw_pbuf_def pbuf_class_def)
    moreover have "areas c base k ?s = areas c base k s1" for k by (simp add: areas_def split: option.split)
    moreover have "p \<notin> fst ` areas c base k s \<and> areas c base k s1 = (if k = pool c
         then insert (p, ?S + ?B) (areas c base k s) else areas c base k s)" if "class_ok c k" for k
      using some(2) that pbuf_sizes(8) [OF conf] by (simp add: mem_taken_def)
    ultimately show thesis using that(2) [of p ?s] taken_fresh [OF inv some(2)] same(2) by (simp add: a)
  qed
qed

section \<open>Pbufs being filled\<close>

text \<open>The memory behind the struct of a pool pbuf.\<close>

definition pool_room :: "pbuf_conf \<Rightarrow> int \<Rightarrow> int set" where
  "pool_room c p = {p + SIZEOF_STRUCT_PBUF c ..< p + SIZEOF_STRUCT_PBUF c + PBUF_POOL_BUFSIZE_ALIGNED c}"

definition fillable :: "pbuf_conf \<Rightarrow> pbuf \<Rightarrow> int \<Rightarrow> bool" where
  "fillable c b p \<longleftrightarrow> pb_ref b = 1 \<and> pb_type b = PBUF_POOL \<and> pb_payload b = p + SIZEOF_STRUCT_PBUF c \<and>
     uint (pb_len b) \<le> PBUF_POOL_BUFSIZE c"

text \<open>
  \<open>ps\<close> are the pbufs taken from the pool since the state \<open>s0\<close>; they hold the octets \<open>bs\<close>.  Everything else
  is as it was.
\<close>

definition bufs :: "pbuf_conf \<Rightarrow> int \<Rightarrow> int set \<Rightarrow> (int \<Rightarrow> nat) \<Rightarrow> pbuf_mem \<Rightarrow> int list \<Rightarrow> u8 list \<Rightarrow> pbuf_mem \<Rightarrow> bool" where
  "bufs c base L refs s0 ps bs s \<longleftrightarrow> distinct ps \<and> set ps \<inter> L = {} \<and> pbuf_inv c base (L \<union> set ps) refs s \<and>
     (\<forall>x\<in>set ps. fillable c (pm_pbuf s x) x) \<and> chain_bytes s ps = bs \<and>
     (\<forall>x. x \<notin> set ps \<longrightarrow> pm_pbuf s x = pm_pbuf s0 x) \<and> (\<forall>a. a \<notin> (\<Union>x\<in>set ps. pool_room c x) \<longrightarrow> pm_byte s a = pm_byte s0 a) \<and>
     (\<forall>k. class_ok c k \<longrightarrow> (\<forall>x\<in>set ps. x \<notin> fst ` areas c base k s0) \<and>
        areas c base k s = areas c base k s0 \<union> (if k = pool c
          then (\<lambda>x. (x, SIZEOF_STRUCT_PBUF c + PBUF_POOL_BUFSIZE_ALIGNED c)) ` set ps else {}))"

lemma bufs_start: "pbuf_inv c base L ext s \<Longrightarrow> bufs c base L ext s [] [] s"
  by (simp add: bufs_def chain_bytes_def)

lemma bufsD:
  assumes "bufs c base L refs s0 ps bs s"
  shows "distinct ps" "set ps \<inter> L = {}" "pbuf_inv c base (L \<union> set ps) refs s" "x \<in> set ps \<Longrightarrow> fillable c (pm_pbuf s x) x"
    "chain_bytes s ps = bs" "class_ok c k \<Longrightarrow> x \<in> set ps \<Longrightarrow> x \<notin> fst ` areas c base k s0"
    "class_ok c k \<Longrightarrow> areas c base k s = areas c base k s0 \<union> (if k = pool c
       then (\<lambda>x. (x, SIZEOF_STRUCT_PBUF c + PBUF_POOL_BUFSIZE_ALIGNED c)) ` set ps else {})"
  using assms by (auto simp: bufs_def)

lemma bufs_conf: "bufs c base L refs s0 ps bs s \<Longrightarrow> pbuf_conf_ok c"
  using pbuf_invD(1) [OF bufsD(3)] by (simp add: mem_wf_def)

lemma same_bytes:
  "(\<And>x. x \<in> set ps \<Longrightarrow> pm_pbuf s' x = pm_pbuf s x) \<Longrightarrow> pm_byte s' = pm_byte s \<Longrightarrow> chain_bytes s' ps = chain_bytes s ps"
  by (simp add: chain_bytes_def pbuf_bytes_def cong: map_cong)

lemma bufs_kept:
  assumes b: "bufs c base L refs s0 ps bs s" and k: "mem_kept c base s s'"
  shows "bufs c base L refs s0 ps bs s'"
proof -
  have "chain_bytes s' ps = chain_bytes s ps" using k by (auto simp: mem_kept_def same_contents_def intro: same_bytes)
  then show ?thesis using b k pbuf_inv_kept [OF bufsD(3) [OF b] k] by (simp add: bufs_def mem_kept_def same_contents_def)
qed

lemma bufsize_bounds:
  assumes "pbuf_conf_ok c"
  shows "40 < PBUF_POOL_BUFSIZE c" "PBUF_POOL_BUFSIZE c \<le> PBUF_POOL_BUFSIZE_ALIGNED c" "PBUF_POOL_BUFSIZE_ALIGNED c < 65536"
proof -
  have cf: "conf_ok (pc_mem c)" using assms by (rule pbuf_conf_okD)
  then have al: "0 < MEM_ALIGNMENT (pc_mem c)" by (auto simp: conf_ok_def)
  let ?h = "PBUF_TRANSPORT_HLEN + PBUF_IP_HLEN + PBUF_LINK_HLEN c"
  have h: "ALIGN_SIZE c ?h < PBUF_POOL_BUFSIZE_ALIGNED c" "40 \<le> ?h"
    using assms by (simp_all add: pbuf_conf_ok_def PBUF_TRANSPORT_HLEN_def PBUF_IP_HLEN_def)
  have "ALIGN_SIZE c x \<le> ALIGN_SIZE c y" if "x \<le> y" for x y
    using that al by (auto simp: ALIGN_SIZE_def align_size [OF cf] intro!: mult_right_mono zdiv_mono1)
  from this [of "PBUF_POOL_BUFSIZE c" ?h] show "40 < PBUF_POOL_BUFSIZE c" using h unfolding PBUF_POOL_BUFSIZE_ALIGNED_def by linarith
  show "PBUF_POOL_BUFSIZE c \<le> PBUF_POOL_BUFSIZE_ALIGNED c"
    using align_bounds(1) [OF cf, of "PBUF_POOL_BUFSIZE c"] by (simp add: PBUF_POOL_BUFSIZE_ALIGNED_def ALIGN_SIZE_def)
  show "PBUF_POOL_BUFSIZE_ALIGNED c < 65536" using assms by (simp add: pbuf_conf_ok_def)
qed

lemma bufs_avail:
  assumes b: "bufs c base L refs s0 ps bs s"
  shows "avail c base s0 = avail c base s + length ps"
proof -
  let ?A = "areas c base (pool c) s0" and ?P = "(\<lambda>x. (x, SIZEOF_STRUCT_PBUF c + PBUF_POOL_BUFSIZE_ALIGNED c)) ` set ps"
  note conf = bufs_conf [OF b]
  have ok: "class_ok c (pool c)" using pbuf_sizes(7) [OF conf] by (simp add: class_ok_def)
  have card: "finite (areas c base (pool c) t)" "card (areas c base (pool c) t) \<le> memp_num (pc_memp c) ! MEMP_PBUF_POOL c" for t
    using pool_areas_card(1,2) [OF pbuf_conf_okD(2) [OF conf] pbuf_sizes(7) [OF conf]] by (simp_all add: areas_def)
  have A: "areas c base (pool c) s = ?A \<union> ?P" "?A \<inter> ?P = {}" using bufsD(6,7) [OF b ok] by force+
  have "card ?P = length ps" using bufsD(1) [OF b] by (simp add: card_image inj_on_def distinct_card)
  then have "card (?A \<union> ?P) = card ?A + length ps" using card(1) [of s0] A(2) by (simp add: card_Un_disjoint)
  then show ?thesis using card(2) [of s] A(1) by (simp add: avail_def)
qed

text \<open>Another pbuf, with a reference held outside.\<close>

lemma bufs_add:
  assumes b: "bufs c base L refs s0 ps bs s"
    and a: "p \<notin> L \<union> set ps" "pbuf_inv c base (insert p (L \<union> set ps)) (refs(p := 1)) s'"
      "pm_pbuf s' = (pm_pbuf s)(p := raw_pbuf c p)" "pm_byte s' = pm_byte s"
      "\<And>k. class_ok c k \<Longrightarrow> p \<notin> fst ` areas c base k s \<and> areas c base k s' = (if k = pool c
         then insert (p, SIZEOF_STRUCT_PBUF c + PBUF_POOL_BUFSIZE_ALIGNED c) (areas c base k s) else areas c base k s)"
  shows "bufs c base L (refs(p := 1)) s0 (ps @ [p]) bs s'"
proof -
  have same: "pbuf_bytes s' x = pbuf_bytes s x" if "x \<in> set ps" for x
    using a(1) that by (auto simp: pbuf_bytes_def a(3,4))
  have "pbuf_bytes s' p = []" by (simp add: pbuf_bytes_def a(3) raw_pbuf_def)
  then have "chain_bytes s' (ps @ [p]) = bs" using bufsD(5) [OF b] same by (simp add: chain_bytes_def cong: map_cong)
  moreover have "fillable c (raw_pbuf c p) p" using bufsize_bounds(1) [OF bufs_conf [OF b]] by (simp add: fillable_def raw_pbuf_def)
  moreover have "L \<union> set (ps @ [p]) = insert p (L \<union> set ps)" by auto
  ultimately show ?thesis using b a(1,2,5) unfolding bufs_def by (auto simp: a(3,4) image_Un)
qed

section \<open>Writing to the last pbuf\<close>

lemma pool_class: "pbuf_conf_ok c \<Longrightarrow> class_ok c (pool c)"
  using pbuf_sizes(7) by (simp add: class_ok_def)

lemma bufs_area:
  assumes b: "bufs c base L refs s0 ps bs s" and x: "x \<in> set ps"
  shows "(x, SIZEOF_STRUCT_PBUF c + PBUF_POOL_BUFSIZE_ALIGNED c) \<in> areas c base (pool c) s"
  using bufsD(7) [OF b pool_class [OF bufs_conf [OF b]]] x by simp

lemma rooms_apart:
  assumes b: "bufs c base L refs s0 ps bs s" and x: "x \<in> set ps" "y \<in> set ps" "x \<noteq> y"
  shows "pool_room c x \<inter> pool_room c y = {}"
proof -
  note conf = bufs_conf [OF b]
  have "x + (SIZEOF_STRUCT_PBUF c + PBUF_POOL_BUFSIZE_ALIGNED c) \<le> y \<or> y + (SIZEOF_STRUCT_PBUF c + PBUF_POOL_BUFSIZE_ALIGNED c) \<le> x"
    using areas_apart [OF pbuf_invD(1) [OF bufsD(3) [OF b]] pool_class [OF conf] pool_class [OF conf]]
      bufs_area [OF b x(1)] bufs_area [OF b x(2)] x(3) by blast
  then show ?thesis using pbuf_sizes(2) [OF conf] by (auto simp: pool_room_def)
qed

lemma fillable_room:
  assumes "pbuf_conf_ok c" "fillable c b x" "i < unat (pb_len b)"
  shows "pb_payload b + int i \<in> pool_room c x"
proof -
  have "int i < uint (pb_len b)" using assms(3) by (metis of_nat_less_iff uint_nat)
  then show ?thesis using assms(2) bufsize_bounds(2) [OF assms(1)] by (auto simp: fillable_def pool_room_def)
qed

lemma bufs_update:
  assumes b: "bufs c base L refs s0 (us @ [t]) bs s" and b': "fillable c b' t" "pb_next b' = nxt s t"
    and f: "\<And>a. a \<notin> pool_room c t \<Longrightarrow> f a = pm_byte s a"
    and s': "s' = s\<lparr>pm_pbuf := (pm_pbuf s)(t := b'), pm_byte := f\<rparr>"
  shows "bufs c base L refs s0 (us @ [t]) (chain_bytes s us @ pbuf_bytes s' t) s'"
proof -
  note conf = bufs_conf [OF b] and inv = bufsD(3) [OF b] and t = bufsD(4) [OF b, of t, simplified]
  have dist: "t \<notin> set us" using bufsD(1) [OF b] by simp
  have mem: "areas c base k s' = areas c base k s" "mem_wf c base s' = mem_wf c base s" for k
    by (simp_all add: s' areas_def mem_wf_def apart_def split: option.split)
  have "pbuf_bytes s' x = pbuf_bytes s x" if x: "x \<in> set us" for x
  proof -
    have "f (pb_payload (pm_pbuf s x) + int i) = pm_byte s (pb_payload (pm_pbuf s x) + int i)" if "i < unat (pb_len (pm_pbuf s x))" for i
      using fillable_room [OF conf _ that, of x] bufsD(4) [OF b, of x] rooms_apart [OF b, of x t] x dist by (intro f) auto
    then show ?thesis using x dist by (auto simp: pbuf_bytes_def s')
  qed
  then have bytes: "chain_bytes s' us = chain_bytes s us" by (simp add: chain_bytes_def cong: map_cong)
  have own: "pbuf_owned c base s' x" if x: "x \<in> L \<union> set (us @ [t])" for x
  proof (cases "x = t")
    case True
    then show ?thesis
      using bufs_area [OF b, of t] b'(1) bufsize_bounds(2) [OF conf] unfolding pbuf_owned_def mem
      by (intro exI [of _ "SIZEOF_STRUCT_PBUF c + PBUF_POOL_BUFSIZE_ALIGNED c"]) (auto simp: s' fillable_def pbuf_class_def)
  next
    case False
    then show ?thesis using pbuf_invD(4) [OF inv x] unfolding pbuf_owned_def mem by (simp add: s')
  qed
  have "nxt s' = nxt s" using b'(2) by (auto simp: s')
  moreover have "pb_ref (pm_pbuf s' x) = pb_ref (pm_pbuf s x)" for x using b'(1) t by (auto simp: s' fillable_def)
  ultimately have "pbuf_inv c base (L \<union> set (us @ [t])) refs s'"
    using pbuf_inv_same [OF inv _ own] pbuf_invD(1) [OF inv] mem(2) by blast
  moreover have "chain_bytes s' (us @ [t]) = chain_bytes s us @ pbuf_bytes s' t" using bytes by (simp add: chain_bytes_def)
  ultimately show ?thesis using b b'(1) f unfolding bufs_def mem by (simp add: s')
qed

text \<open>One more octet.\<close>

lemma store_char_eq:
  "store_char p x s = s\<lparr>pm_pbuf := (pm_pbuf s)(p := (pm_pbuf s p)\<lparr>pb_len := pb_len (pm_pbuf s p) + 1\<rparr>),
     pm_byte := (pm_byte s)(pb_payload (pm_pbuf s p) + uint (pb_len (pm_pbuf s p)) := x)\<rparr>"
  by (simp add: store_char_def pb_def)

lemma stored_octet:
  assumes conf: "pbuf_conf_ok c" and t: "fillable c (pm_pbuf s t) t" and len: "uint (pb_len (pm_pbuf s t)) < PBUF_POOL_BUFSIZE c"
  shows "fillable c ((pm_pbuf s t)\<lparr>pb_len := pb_len (pm_pbuf s t) + 1\<rparr>) t" "pbuf_bytes (store_char t x s) t = pbuf_bytes s t @ [x]"
    "a \<notin> pool_room c t \<Longrightarrow> ((pm_byte s)(pb_payload (pm_pbuf s t) + uint (pb_len (pm_pbuf s t)) := x)) a = pm_byte s a"
    "uint (pb_len (pm_pbuf (store_char t x s) t)) = uint (pb_len (pm_pbuf s t)) + 1"
proof -
  let ?n = "pb_len (pm_pbuf s t)"
  have n: "uint (?n + 1) = uint ?n + 1" using len bufsize_bounds(2,3) [OF conf] by (simp add: uint_plus_if_size word_size)
  then have "int (unat (?n + 1)) = int (Suc (unat ?n))" by (simp flip: uint_nat)
  then have un: "unat (?n + 1) = Suc (unat ?n)" by linarith
  show "fillable c ((pm_pbuf s t)\<lparr>pb_len := ?n + 1\<rparr>) t" using t n len by (simp add: fillable_def)
  have "int i \<noteq> uint ?n" if "i < unat ?n" for i using that by (metis nat_int nat_uint_eq order_less_irrefl)
  then show "pbuf_bytes (store_char t x s) t = pbuf_bytes s t @ [x]" by (simp add: pbuf_bytes_def store_char_eq un upt_Suc_append)
  show "((pm_byte s)(pb_payload (pm_pbuf s t) + uint ?n := x)) a = pm_byte s a" if "a \<notin> pool_room c t"
    using that t len bufsize_bounds(2) [OF conf] by (auto simp: pool_room_def fillable_def)
  show "uint (pb_len (pm_pbuf (store_char t x s) t)) = uint ?n + 1" using n by (simp add: store_char_eq)
qed

lemma bufs_store:
  assumes b: "bufs c base L refs s0 (us @ [t]) bs s" and len: "uint (pb_len (pm_pbuf s t)) < PBUF_POOL_BUFSIZE c"
  shows "bufs c base L refs s0 (us @ [t]) (bs @ [x]) (store_char t x s)"
    "uint (pb_len (pm_pbuf (store_char t x s) t)) = uint (pb_len (pm_pbuf s t)) + 1"
proof -
  note st = stored_octet [OF bufs_conf [OF b] bufsD(4) [OF b, of t, simplified] len]
  have "bufs c base L refs s0 (us @ [t]) (chain_bytes s us @ pbuf_bytes (store_char t x s) t) (store_char t x s)"
    by (rule bufs_update [OF b st(1) _ st(3) store_char_eq]) simp
  moreover have "bs = chain_bytes s us @ pbuf_bytes s t" using bufsD(5) [OF b] by (simp add: chain_bytes_def)
  ultimately show "bufs c base L refs s0 (us @ [t]) (bs @ [x]) (store_char t x s)" using st(2) [of x] by simp
  show "uint (pb_len (pm_pbuf (store_char t x s) t)) = uint (pb_len (pm_pbuf s t)) + 1" by (rule st(4))
qed

section \<open>Linking\<close>

text \<open>The sender sets the pointer of the last pbuf to a new one, and so hands over its reference.\<close>

lemma bufs_link:
  assumes b: "bufs c base L refs s0 (us @ [t, p]) bs s" and t: "nxt s t = None" "nxt s p = None" and r: "refs p = 1"
  shows "bufs c base L (refs(p := 0)) s0 (us @ [t, p]) bs (pb t (\<lambda>b. b\<lparr>pb_next := Some p\<rparr>) s)"
proof -
  let ?s = "pb t (\<lambda>b. b\<lparr>pb_next := Some p\<rparr>) s"
  note inv = bufsD(3) [OF b]
  have dist: "t \<noteq> p" using bufsD(1) [OF b] by simp
  have "pbuf_owned c base ?s x" if "x \<in> L \<union> set (us @ [t, p])" for x
    using pbuf_invD(4) [OF inv that] by (cases "x = t") (simp_all add: pbuf_owned_def pbuf_simps)
  moreover have "nxt ?s = (nxt s)(t := Some p)" by (auto simp: pbuf_simps)
  ultimately have "pbuf_inv c base (L \<union> set (us @ [t, p])) (refs(p := refs p - 1)) ?s"
    using t r dist pbuf_invD(1) [OF inv] by (intro pbuf_inv_link [OF inv, where l = t and ts = "[p]"]) (auto simp: pbuf_simps)
  moreover have "chain_bytes ?s xs = chain_bytes s xs" for xs
  proof -
    have "pbuf_bytes ?s = pbuf_bytes s" by (auto simp: pbuf_bytes_def pbuf_simps)
    then show ?thesis by (simp add: chain_bytes_def)
  qed
  ultimately show ?thesis using b r unfolding bufs_def by (auto simp: pbuf_simps fillable_def)
qed

section \<open>Giving the pbufs back\<close>

text \<open>The memory after a packet has come and gone.\<close>

definition restored :: "pbuf_conf \<Rightarrow> int \<Rightarrow> int set \<Rightarrow> pbuf_mem \<Rightarrow> pbuf_mem \<Rightarrow> bool" where
  "restored c base L s0 s \<longleftrightarrow> (\<forall>x\<in>L. pm_pbuf s x = pm_pbuf s0 x \<and>
       (pb_type (pm_pbuf s0 x) \<in> {PBUF_RAM, PBUF_POOL} \<longrightarrow> pbuf_bytes s x = pbuf_bytes s0 x)) \<and>
     (\<forall>k. class_ok c k \<longrightarrow> areas c base k s = areas c base k s0)"

lemma bufs_others:
  assumes b: "bufs c base L refs s0 ps bs s" and inv: "pbuf_inv c base L ext s0" and x: "x \<in> L" "pb_type (pm_pbuf s0 x) \<in> {PBUF_RAM, PBUF_POOL}"
  shows "pm_pbuf s x = pm_pbuf s0 x" "pbuf_bytes s x = pbuf_bytes s0 x"
proof -
  note conf = bufs_conf [OF b] and wf = pbuf_invD(1) [OF inv]
  have out: "x \<notin> set ps" using bufsD(2) [OF b] x(1) by auto
  show same: "pm_pbuf s x = pm_pbuf s0 x" using b out by (simp add: bufs_def)
  obtain n where n: "(x, n) \<in> areas c base (pbuf_class c (pb_type (pm_pbuf s0 x))) s0" "x + SIZEOF_STRUCT_PBUF c \<le> pb_payload (pm_pbuf s0 x)"
      "pb_payload (pm_pbuf s0 x) + uint (pb_len (pm_pbuf s0 x)) \<le> x + n"
    using pbuf_invD(4) [OF inv x(1)] x(2) by (auto simp: pbuf_owned_def)
  have sub: "(x, n) \<in> areas c base (pbuf_class c (pb_type (pm_pbuf s0 x))) s" using bufsD(7) [OF b pbuf_conf_okD(4) [OF conf]] n(1) by auto
  have "pm_byte s (pb_payload (pm_pbuf s0 x) + int i) = pm_byte s0 (pb_payload (pm_pbuf s0 x) + int i)"
    if i: "i < unat (pb_len (pm_pbuf s0 x))" for i
  proof -
    have "int i < uint (pb_len (pm_pbuf s0 x))" using i by (metis of_nat_less_iff uint_nat)
    then have a: "x \<le> pb_payload (pm_pbuf s0 x) + int i" "pb_payload (pm_pbuf s0 x) + int i < x + n" using n(2,3) pbuf_sizes(2) [OF conf] by simp_all
    have "pb_payload (pm_pbuf s0 x) + int i \<notin> pool_room c y" if y: "y \<in> set ps" for y
    proof -
      have "x + n \<le> y \<or> y + (SIZEOF_STRUCT_PBUF c + PBUF_POOL_BUFSIZE_ALIGNED c) \<le> x"
        using areas_apart [OF pbuf_invD(1) [OF bufsD(3) [OF b]] pbuf_conf_okD(4) [OF conf] pool_class [OF conf] sub bufs_area [OF b y]] y out by blast
      then show ?thesis using a pbuf_sizes(2) [OF conf] by (auto simp: pool_room_def)
    qed
    then show ?thesis using b by (auto simp: bufs_def)
  qed
  then show "pbuf_bytes s x = pbuf_bytes s0 x" by (simp add: pbuf_bytes_def same)
qed

lemma bufs_free:
  assumes b: "bufs c base L refs s0 ps bs s" and inv: "pbuf_inv c base L ext s0"
    and ch: "lst (nxt s) (Some h) ps" and refs: "refs = ext(h := 1)"
  obtains n s' where "pbuf_free c (Some h) s = Inr (n, s')" "pbuf_inv c base L ext s'" "restored c base L s0 s'"
proof -
  have sole: "sole s ps = ps" using bufsD(4) [OF b] by (auto simp: sole_def fillable_def takeWhile_eq_all_conv)
  have h: "h \<in> set ps" using ch by (cases ps) auto
  then have "ext h = 0" using pbuf_invD(3) [OF inv] bufsD(2) [OF b] by auto
  then have e: "refs(h := refs h - 1) = ext" by (simp add: refs fun_upd_idem)
  have LP: "L \<union> set ps - set ps = L" using bufsD(2) [OF b] by auto
  obtain s' where s': "pbuf_free c (Some h) s = Inr (of_nat (length ps), s')" "pbuf_inv c base L ext s'" "freed c base (set ps) s s'"
    using pbuf_free_ok [OF bufsD(3) [OF b] _ ch] unfolding sole LP e by (auto simp: refs)
  have areas: "areas c base k s' = areas c base k s0" if k: "class_ok c k" for k
    using s'(3) k bufsD(6,7) [OF b k] by (force simp: freed_def)
  have "pm_pbuf s' x = pm_pbuf s0 x" if x: "x \<in> L" for x
  proof -
    have old: "pm_pbuf s y = pm_pbuf s0 y" if "y \<in> L" for y using b bufsD(2) [OF b] that by (auto simp: bufs_def)
    then have "ptrs L s' x = ptrs L s0 x" by (auto simp: ptrs_def freedD(1) [OF s'(3)])
    then have "pb_ref (pm_pbuf s' x) = pb_ref (pm_pbuf s x)"
      using pbuf_invD(5) [OF s'(2) x] pbuf_invD(5) [OF inv x] old [OF x] by (simp add: word_unat_eq_iff)
    then have "pm_pbuf s' x = pm_pbuf s x" using s'(3) by (cases "pm_pbuf s' x"; cases "pm_pbuf s x") (auto simp: freed_def dest: spec [of _ x])
    then show ?thesis using old [OF x] by simp
  qed
  moreover have "pbuf_bytes s' x = pbuf_bytes s x" for x using s'(3) freedD(2,3) [OF s'(3)] by (simp add: pbuf_bytes_def freed_def)
  ultimately have "restored c base L s0 s'" using areas bufs_others(2) [OF b inv] by (auto simp: restored_def)
  then show thesis using that s'(1,2) by blast
qed

end
