(* ===== verification/Ppp_Frame_Out.thy ===== *)
theory Ppp_Frame_Out
  imports Ppp_Bufs "HOL-Library.Sublist"
begin

text \<open>
  Output of \<open>ppp.c\<close>: the octets that \<open>pppWrite\<close> and \<open>pppifOutput\<close> put on the line are the frame of RFC 1662,
  written as a whole or not at all, and every pbuf goes back to the pool.
\<close>

section \<open>Frames\<close>

definition esc :: "ext_accm \<Rightarrow> u8 \<Rightarrow> u8 list" where
  "esc accm x = (if ESCAPE_P accm x then [PPP_ESCAPE, x XOR PPP_TRANS] else [x])"

definition stuff :: "ext_accm \<Rightarrow> u8 list \<Rightarrow> u8 list" where
  "stuff accm xs = concat (map (esc accm) xs)"

definition hdlc_frame :: "ext_accm \<Rightarrow> u8 list \<Rightarrow> u8 list" where
  "hdlc_frame accm xs = stuff accm (xs @ fcs_octets (fcs_of xs)) @ [PPP_FLAG]"

lemma stuff_simps [simp]: "stuff accm [] = []" "stuff accm (x # xs) = esc accm x @ stuff accm xs" "stuff accm (xs @ ys) = stuff accm xs @ stuff accm ys"
  by (simp_all add: stuff_def)

lemma stuff_length: "length (stuff accm xs) \<le> 2 * length xs"
  by (induction xs) (auto simp: esc_def)

section \<open>Appending an octet\<close>

definition encoded :: "ext_accm option \<Rightarrow> u8 \<Rightarrow> u8 list" where
  "encoded accm x = (case accm of None \<Rightarrow> [x] | Some a \<Rightarrow> esc a x)"

definition same_dev :: "ppp_dev \<Rightarrow> ppp_dev \<Rightarrow> bool" where
  "same_dev w w' \<longleftrightarrow> dv_pc w' = dv_pc w \<and> dv_sent w' = dv_sent w \<and> dv_mbox w' = dv_mbox w"

text \<open>
  The chain from \<open>h\<close> holds the octets \<open>bs\<close> when its last pbuf is known; otherwise the pool was empty, and all of
  its pbufs together were too small for them.
\<close>

definition sending :: "pbuf_conf \<Rightarrow> int \<Rightarrow> int set \<Rightarrow> (int \<Rightarrow> nat) \<Rightarrow> pbuf_mem \<Rightarrow> int \<Rightarrow> int option \<Rightarrow> u8 list \<Rightarrow> pbuf_mem \<Rightarrow> bool" where
  "sending c base L ext s0 h t bs s \<longleftrightarrow> (\<exists>ps cs. bufs c base L (ext(h := 1)) s0 ps cs s \<and> lst (nxt s) (Some h) ps \<and>
     (\<forall>x\<in>set (butlast ps). PBUF_POOL_BUFSIZE c - 1 \<le> uint (pb_len (pm_pbuf s x))) \<and>
     (case t of Some t \<Rightarrow> t = last ps \<and> cs = bs | None \<Rightarrow> int (avail c base s0) * (PBUF_POOL_BUFSIZE c - 1) \<le> int (length bs)))"

lemma sendingI:
  "bufs c base L (ext(h := 1)) s0 (us @ [t]) bs s \<Longrightarrow> lst (nxt s) (Some h) (us @ [t]) \<Longrightarrow>
    (\<forall>x\<in>set us. PBUF_POOL_BUFSIZE c - 1 \<le> uint (pb_len (pm_pbuf s x))) \<Longrightarrow> sending c base L ext s0 h (Some t) bs s"
  unfolding sending_def by (intro exI [of _ "us @ [t]"] exI [of _ bs]) simp

lemma sendingE:
  assumes "sending c base L ext s0 h (Some t) bs s"
  obtains us where "bufs c base L (ext(h := 1)) s0 (us @ [t]) bs s" "lst (nxt s) (Some h) (us @ [t])"
    "\<forall>x\<in>set us. PBUF_POOL_BUFSIZE c - 1 \<le> uint (pb_len (pm_pbuf s x))" "t \<notin> set us" "nxt s t = None"
proof -
  obtain ps where ps: "bufs c base L (ext(h := 1)) s0 ps bs s" "lst (nxt s) (Some h) ps" "t = last ps"
      "\<forall>x\<in>set (butlast ps). PBUF_POOL_BUFSIZE c - 1 \<le> uint (pb_len (pm_pbuf s x))" using assms by (auto simp: sending_def)
  then have ne: "ps \<noteq> []" by auto
  then have "ps = butlast ps @ [t]" using ps(3) by simp
  moreover have "nxt s t = None" using lst_last [OF ps(2) ne] ps(3) by simp
  moreover have "t \<notin> set (butlast ps)" using calculation(1) bufsD(1) [OF ps(1)] by (metis distinct_append disjoint_insert(1) list.set(2))
  ultimately show thesis using that [of "butlast ps"] ps by simp
qed

lemma sending_store:
  assumes s: "sending c base L ext s0 h (Some t) bs s" and len: "uint (pb_len (pm_pbuf s t)) < PBUF_POOL_BUFSIZE c"
  shows "sending c base L ext s0 h (Some t) (bs @ [x]) (store_char t x s)"
    "uint (pb_len (pm_pbuf (store_char t x s) t)) = uint (pb_len (pm_pbuf s t)) + 1"
proof -
  from s obtain us where us: "bufs c base L (ext(h := 1)) s0 (us @ [t]) bs s" "lst (nxt s) (Some h) (us @ [t])"
    "\<forall>x\<in>set us. PBUF_POOL_BUFSIZE c - 1 \<le> uint (pb_len (pm_pbuf s x))" "t \<notin> set us" by (rule sendingE)
  note st = bufs_store [OF us(1) len, of x]
  have nx: "nxt (store_char t x s) = nxt s" by (auto simp: store_char_eq)
  show "sending c base L ext s0 h (Some t) (bs @ [x]) (store_char t x s)"
  proof (rule sendingI [OF st(1)])
    show "lst (nxt (store_char t x s)) (Some h) (us @ [t])" using us(2) unfolding nx .
    show "\<forall>y\<in>set us. PBUF_POOL_BUFSIZE c - 1 \<le> uint (pb_len (pm_pbuf (store_char t x s) y))" using us(3,4) by (auto simp: store_char_eq)
  qed
  show "uint (pb_len (pm_pbuf (store_char t x s) t)) = uint (pb_len (pm_pbuf s t)) + 1" by (rule st(2))
qed

lemma chain_bytes_least:
  "(\<forall>x\<in>set ps. m \<le> uint (pb_len (pm_pbuf s x))) \<Longrightarrow> int (length ps) * m \<le> int (length (chain_bytes s ps))"
proof (induction ps)
  case (Cons p ps)
  then have "m \<le> int (unat (pb_len (pm_pbuf s p)))" by (simp flip: uint_nat)
  then show ?case using Cons by (simp add: chain_bytes_def algebra_simps)
qed simp

text \<open>A new pbuf when less than two octets are left: the pool has one, or nothing more is written.\<close>

lemma sending_grow:
  assumes s: "sending c base L ext s0 h (Some t) bs s" and len: "PBUF_POOL_BUFSIZE c - uint (pb_len (pm_pbuf s t)) < 2"
  obtains (null) s' where "pbuf_alloc c PBUF_RAW 0 PBUF_POOL s = Inr (None, s')" "sending c base L ext s0 h None bs s'"
  | (some) p s' where "pbuf_alloc c PBUF_RAW 0 PBUF_POOL s = Inr (Some p, s')"
      "sending c base L ext s0 h (Some p) bs (pb t (\<lambda>b. b\<lparr>pb_next := Some p\<rparr>) s')" "pb_len (pm_pbuf (pb t (\<lambda>b. b\<lparr>pb_next := Some p\<rparr>) s') p) = 0"
proof -
  from s obtain us where us: "bufs c base L (ext(h := 1)) s0 (us @ [t]) bs s" "lst (nxt s) (Some h) (us @ [t])"
    "\<forall>x\<in>set us. PBUF_POOL_BUFSIZE c - 1 \<le> uint (pb_len (pm_pbuf s x))" "t \<notin> set us" "nxt s t = None" by (rule sendingE)
  have full: "\<forall>x\<in>set (us @ [t]). PBUF_POOL_BUFSIZE c - 1 \<le> uint (pb_len (pm_pbuf s x))" using us(3) len by auto
  note inv = bufsD(3) [OF us(1)]
  from inv show thesis
  proof (cases rule: raw_alloc)
    case (null s')
    have same: "pm_pbuf s' = pm_pbuf s" using null(2) by (simp add: mem_kept_def same_contents_def)
    have "int (avail c base s0) * (PBUF_POOL_BUFSIZE c - 1) \<le> int (length bs)"
      using chain_bytes_least [OF full] bufs_avail [OF us(1)] null(3) bufsD(5) [OF us(1)] by simp
    then have "sending c base L ext s0 h None bs s'"
      unfolding sending_def using bufs_kept [OF us(1) null(2)] us(2,3) by (intro exI [of _ "us @ [t]"] exI [of _ bs]) (simp add: same)
    then show thesis using that(1) null(1) by blast
  next
    case (some p s')
    have tp: "t \<noteq> p" "p \<notin> set us" "p \<notin> L \<union> set (us @ [t])" using some(2) by auto
    let ?s = "pb t (\<lambda>b. b\<lparr>pb_next := Some p\<rparr>) s'"
    have hp: "h \<noteq> p" using us(2) tp by (cases us) auto
    have pL: "p \<notin> L" using tp by simp
    have b': "bufs c base L ((ext(h := 1))(p := 1)) s0 (us @ [t, p]) bs s'"
      using bufs_add [OF us(1) some(2,3,4,5,6)] by simp
    have nx: "nxt s' = (nxt s)(p := None)" by (auto simp: some(4) raw_pbuf_def)
    have "ext p = 0"
    proof -
      have "(ext(h := 1)) p = 0" using pbuf_invD(3) [OF inv some(2)] .
      then show ?thesis using hp by simp
    qed
    then have "bufs c base L (ext(h := 1)) s0 (us @ [t, p]) bs ?s"
      using bufs_link [OF b'] us(5) tp hp by (simp add: fun_cong [OF nx] fun_upd_twist fun_upd_idem)
    moreover have "lst (nxt ?s) (Some h) (us @ [t, p])"
    proof -
      have "nxt ?s = (nxt s')(t := Some p)" by (auto simp: pbuf_simps)
      then have "nxt ?s = ((nxt s)(p := None))(t := Some p)" unfolding nx .
      moreover have "lst ((nxt s)(p := None)) (Some h) (us @ [t])" using us(2) tp by simp
      ultimately show ?thesis using lst_link [of "(nxt s)(p := None)" "Some h" us t "[p]" p] us(4) tp(1) by simp
    qed
    moreover have "\<forall>x\<in>set (us @ [t]). PBUF_POOL_BUFSIZE c - 1 \<le> uint (pb_len (pm_pbuf ?s x))"
      using full tp by (auto simp: pbuf_simps some(4))
    ultimately have "sending c base L ext s0 h (Some p) bs ?s" using sendingI [of c base L ext h s0 "us @ [t]" p bs ?s] by simp
    moreover have "pb_len (pm_pbuf ?s p) = 0" using tp by (simp add: pbuf_simps some(4) raw_pbuf_def)
    ultimately show thesis using that(2) some(1) by blast
  qed
qed

lemma dev_simps [simp]:
  "dv_mem (LINK_STATS_INC k w) = dv_mem w" "dv_pc (LINK_STATS_INC k w) = dv_pc w" "dv_sent (LINK_STATS_INC k w) = dv_sent w"
  "dv_mbox (LINK_STATS_INC k w) = dv_mbox w" "dv_mem (mem_set f w) = f (dv_mem w)" "dv_pc (mem_set f w) = dv_pc w"
  "dv_sent (mem_set f w) = dv_sent w" "dv_mbox (mem_set f w) = dv_mbox w" "dv_mem (pc_set g w) = dv_mem w"
  "dv_pc (pc_set g w) = g (dv_pc w)" "dv_sent (pc_set g w) = dv_sent w" "dv_mbox (pc_set g w) = dv_mbox w"
  "dv_stats (mem_set f w) = dv_stats w" "dv_stats (pc_set g w) = dv_stats w"
  by (simp_all add: LINK_STATS_INC_def mem_set_def pc_set_def)

definition put_octet :: "ext_accm option \<Rightarrow> u8 \<Rightarrow> int \<Rightarrow> ppp_dev \<Rightarrow> ppp_dev" where
  "put_octet accm x b w = (case accm of
      None \<Rightarrow> mem_set (store_char b x) w
    | Some accm \<Rightarrow> if ESCAPE_P accm x then mem_set (store_char b (x XOR PPP_TRANS)) (mem_set (store_char b PPP_ESCAPE) w)
        else mem_set (store_char b x) w)"

lemma put_octet_ok:
  assumes s: "sending c base L ext s0 h (Some t) bs (dv_mem w)" and len: "uint (pb_len (pm_pbuf (dv_mem w) t)) + 1 < PBUF_POOL_BUFSIZE c"
  shows "sending c base L ext s0 h (Some t) (bs @ encoded accm x) (dv_mem (put_octet accm x t w))" "same_dev w (put_octet accm x t w)"
proof -
  have one: "uint (pb_len (pm_pbuf (dv_mem w) t)) < PBUF_POOL_BUFSIZE c" using len by simp
  have two: "sending c base L ext s0 h (Some t) ((bs @ [y]) @ [z]) (store_char t z (store_char t y (dv_mem w)))" for y z
    using sending_store(1) [OF sending_store(1) [OF s one, of y], of z] sending_store(2) [OF s one, of y] len by simp
  show "sending c base L ext s0 h (Some t) (bs @ encoded accm x) (dv_mem (put_octet accm x t w))"
    using sending_store(1) [OF s one, of x] two by (auto simp: put_octet_def encoded_def esc_def split: option.split)
  show "same_dev w (put_octet accm x t w)" by (auto simp: put_octet_def same_dev_def split: option.split)
qed

lemma sending_None: "sending c base L ext s0 h None bs s \<Longrightarrow> sending c base L ext s0 h None (bs @ cs) s"
  by (fastforce simp: sending_def)

lemma sending_conf: "sending c base L ext s0 h t bs s \<Longrightarrow> pbuf_conf_ok c"
  using bufs_conf by (auto simp: sending_def)

lemma pppAppend_ok:
  assumes s: "sending c base L ext s0 h t bs (dv_mem w)"
  obtains t' w' where "pppAppend c x t accm w = Inr (t', w')" "sending c base L ext s0 h t' (bs @ encoded accm x) (dv_mem w')" "same_dev w w'"
proof (cases t)
  case None
  then show thesis using that [of None w] sending_None s by (simp add: pppAppend_def same_dev_def)
next
  case (Some b)
  note s = s [unfolded Some] and size = bufsize_bounds(1) [OF sending_conf [OF s]]
  let ?len = "pb_len (pm_pbuf (dv_mem w) b)"
  show thesis
  proof (cases "PBUF_POOL_BUFSIZE c - uint ?len < 2")
    case False
    then show thesis
      using that [of "Some b" "put_octet accm x b w"] put_octet_ok [OF s] by (simp add: Some pppAppend_def put_octet_def)
  next
    case True
    from s True show thesis
    proof (cases rule: sending_grow)
      case (null s')
      then show thesis
        using that [of None "LINK_STATS_INC MEMERR (w\<lparr>dv_mem := s'\<rparr>)"] True sending_None
        by (simp add: Some pppAppend_def on_mem_def same_dev_def)
    next
      case (some p s')
      let ?w = "mem_set (pb b (\<lambda>b. b\<lparr>pb_next := Some p\<rparr>)) (w\<lparr>dv_mem := s'\<rparr>)"
      have "sending c base L ext s0 h (Some p) bs (dv_mem ?w)" "uint (pb_len (pm_pbuf (dv_mem ?w) p)) + 1 < PBUF_POOL_BUFSIZE c"
        using some(2,3) size by simp_all
      note p = put_octet_ok [OF this, of accm x]
      have "pppAppend c x t accm w = Inr (Some p, put_octet accm x p ?w)"
        using True some(1) by (simp add: Some pppAppend_def put_octet_def on_mem_def)
      then show thesis using that p by (simp add: same_dev_def)
    qed
  qed
qed

section \<open>A whole frame\<close>

lemma same_dev_trans: "same_dev w w' \<Longrightarrow> same_dev w' w'' \<Longrightarrow> same_dev w w''"
  by (simp add: same_dev_def)

lemma ppp_load_ok:
  assumes "sending c base L ext s0 h t bs (dv_mem w)" "accm = outACCM (dv_pc w)"
  shows "\<exists>t' w'. ppp_load c xs (ucast f) t w = Inr (ucast (foldl crc_octet f xs), t', w') \<and>
    sending c base L ext s0 h t' (bs @ stuff accm xs) (dv_mem w') \<and> same_dev w w'"
  using assms
proof (induction xs arbitrary: f t bs w)
  case Nil
  then show ?case by (simp add: same_dev_def)
next
  case (Cons x xs)
  obtain t1 w1 where a: "pppAppend c x t (Some accm) w = Inr (t1, w1)" "sending c base L ext s0 h t1 (bs @ esc accm x) (dv_mem w1)" "same_dev w w1"
    using pppAppend_ok [OF Cons.prems(1), of x "Some accm"] by (auto simp: encoded_def)
  then have "accm = outACCM (dv_pc w1)" using Cons.prems(2) by (simp add: same_dev_def)
  from Cons.IH [OF a(2) this, of "crc_octet f x"] show ?case
    using a Cons.prems(2) same_dev_trans [OF a(3)] by (auto simp: PPP_FCS_octet)
qed

lemma ppp_trailer_ok:
  assumes "sending c base L ext s0 h t bs (dv_mem w)" "accm = outACCM (dv_pc w)"
  shows "\<exists>t' w'. ppp_trailer c (ucast f) t w = Inr (t', w') \<and>
    sending c base L ext s0 h t' (bs @ stuff accm (fcs_octets f) @ [PPP_FLAG]) (dv_mem w') \<and> same_dev w w'"
proof -
  obtain t1 w1 where 1: "pppAppend c (fcs_octets f ! 0) t (Some accm) w = Inr (t1, w1)"
      "sending c base L ext s0 h t1 (bs @ esc accm (fcs_octets f ! 0)) (dv_mem w1)" "same_dev w w1"
    using pppAppend_ok [OF assms(1), of "fcs_octets f ! 0" "Some accm"] by (auto simp: encoded_def)
  obtain t2 w2 where 2: "pppAppend c (fcs_octets f ! 1) t1 (Some accm) w1 = Inr (t2, w2)"
      "sending c base L ext s0 h t2 ((bs @ esc accm (fcs_octets f ! 0)) @ esc accm (fcs_octets f ! 1)) (dv_mem w2)" "same_dev w1 w2"
    using pppAppend_ok [OF 1(2), of "fcs_octets f ! 1" "Some accm"] by (auto simp: encoded_def)
  obtain t3 w3 where 3: "pppAppend c PPP_FLAG t2 None w2 = Inr (t3, w3)"
      "sending c base L ext s0 h t3 (((bs @ esc accm (fcs_octets f ! 0)) @ esc accm (fcs_octets f ! 1)) @ [PPP_FLAG]) (dv_mem w3)" "same_dev w2 w3"
    using pppAppend_ok [OF 2(2), of PPP_FLAG None] by (auto simp: encoded_def)
  have "accm = outACCM (dv_pc w1)" using 1(3) assms(2) by (simp add: same_dev_def)
  then have "ppp_trailer c (ucast f) t w = Inr (t3, w3)" using 1(1) 2(1) 3(1) assms(2) unfolding ppp_trailer_def fcs_send by simp
  moreover have "fcs_octets f = [fcs_octets f ! 0, fcs_octets f ! 1]" by (simp add: fcs_octets_def)
  then have "stuff accm (fcs_octets f) = esc accm (fcs_octets f ! 0) @ esc accm (fcs_octets f ! 1)" by (metis append_Nil2 stuff_simps(1,2))
  moreover have "same_dev w w3" using 1(3) 2(3) 3(3) same_dev_trans by blast
  ultimately show ?thesis using 3(2) by simp
qed

definition idle_flag :: "u32 \<Rightarrow> u64 \<Rightarrow> u8 list" where
  "idle_flag now last_xmit = (if ucast now - last_xmit \<ge> PPP_MAXIDLEFLAG then [PPP_FLAG] else [])"

lemma ppp_idle_flag_ok:
  assumes "sending c base L ext s0 h (Some h) [] (dv_mem w)"
  shows "\<exists>t' w'. ppp_idle_flag c now h w = Inr (t', w') \<and>
    sending c base L ext s0 h t' (idle_flag (fst now) (lastXMit (dv_pc w))) (dv_mem w') \<and>
    same_dev (pc_set (\<lambda>pc. pc\<lparr>lastXMit := ucast (snd now)\<rparr>) w) w'"
proof -
  obtain t' w' where "pppAppend c PPP_FLAG (Some h) None w = Inr (t', w')" "sending c base L ext s0 h t' [PPP_FLAG] (dv_mem w')" "same_dev w w'"
    using pppAppend_ok [OF assms, of PPP_FLAG None] by (auto simp: encoded_def)
  then show ?thesis using assms by (simp add: ppp_idle_flag_def idle_flag_def same_dev_def)
qed

text \<open>Writing a chain to the line stops at the first write that is cut short.\<close>

lemma nPut_loop_ok:
  assumes "lst (nxt (dv_mem w)) p ps"
  shows "\<exists>w' bs. nPut_loop sio p w = Some w' \<and> dv_mem w' = dv_mem w \<and> dv_mbox w' = dv_mbox w \<and> dv_sent w' = dv_sent w @ bs \<and>
    prefix bs (chain_bytes (dv_mem w) ps) \<and> (\<exists>x. dv_pc w' = (dv_pc w)\<lparr>lastXMit := x\<rparr>) \<and>
    ((\<forall>xs ys. sio xs ys = length ys) \<longrightarrow> bs = chain_bytes (dv_mem w) ps \<and> dv_pc w' = dv_pc w)"
  using assms
proof (induction ps arbitrary: p w)
  case Nil
  then show ?case by (subst nPut_loop.simps) (auto simp: chain_bytes_def intro: exI [of _ "lastXMit (dv_pc w)"])
next
  case (Cons q ps)
  then have p: "p = Some q" and l: "lst (nxt (dv_mem w)) (nxt (dv_mem w) q) ps" by auto
  let ?b = "pm_pbuf (dv_mem w) q" and ?d = "pbuf_bytes (dv_mem w) q"
  have oct: "octets (dv_mem w) (pb_payload ?b) (unat (pb_len ?b)) = ?d" by (simp add: octets_def pbuf_bytes_def)
  let ?n = "sio (dv_sent w) ?d" and ?w = "w\<lparr>dv_sent := dv_sent w @ take (sio (dv_sent w) ?d) ?d\<rparr>"
  show ?case
  proof (cases "?n = unat (pb_len ?b)")
    case False
    then have "nPut_loop sio p w = Some (pc_set (\<lambda>pc. pc\<lparr>lastXMit := 0\<rparr>) (LINK_STATS_INC ERR ?w))"
      by (subst nPut_loop.simps) (simp add: p oct Let_def)
    moreover have "prefix (take ?n ?d) (chain_bytes (dv_mem w) (q # ps))" by (simp add: chain_bytes_def take_is_prefix prefix_prefix)
    moreover have "\<not> (\<forall>xs ys. sio xs ys = length ys)" using False by (metis length_pbuf_bytes)
    ultimately show ?thesis by (auto simp: chain_bytes_def)
  next
    case True
    then have step: "nPut_loop sio p w = nPut_loop sio (nxt (dv_mem w) q) ?w" by (subst nPut_loop.simps) (simp add: p oct Let_def)
    have all: "take ?n ?d = ?d" using True by simp
    obtain w' bs where w': "nPut_loop sio (nxt (dv_mem w) q) ?w = Some w'" "dv_mem w' = dv_mem w" "dv_mbox w' = dv_mbox w"
        "dv_sent w' = dv_sent ?w @ bs" "prefix bs (chain_bytes (dv_mem w) ps)" "\<exists>x. dv_pc w' = (dv_pc w)\<lparr>lastXMit := x\<rparr>"
        "(\<forall>xs ys. sio xs ys = length ys) \<longrightarrow> bs = chain_bytes (dv_mem w) ps \<and> dv_pc w' = dv_pc w"
      using Cons.IH [of ?w "nxt (dv_mem w) q"] l by auto
    then show ?thesis unfolding step using all by (intro exI [of _ w'] exI [of _ "?d @ bs"]) (auto simp: chain_bytes_def)
  qed
qed

text \<open>
  How an attempt to send the octets \<open>bs\<close> ends: the memory is as before, and unless every pbuf of the pool together is too
  small for the octets, they are written, as far as the line accepts them.
\<close>

definition line_kept :: "pbuf_conf \<Rightarrow> int \<Rightarrow> int set \<Rightarrow> (int \<Rightarrow> nat) \<Rightarrow> ppp_dev \<Rightarrow> ppp_dev \<Rightarrow> bool" where
  "line_kept c base L ext w w' \<longleftrightarrow> pbuf_inv c base L ext (dv_mem w') \<and> restored c base L (dv_mem w) (dv_mem w') \<and> dv_mbox w' = dv_mbox w \<and>
     (\<exists>x. dv_pc w' = (dv_pc w)\<lparr>lastXMit := x\<rparr>)"

definition written :: "(u8 list \<Rightarrow> u8 list \<Rightarrow> nat) \<Rightarrow> u8 list \<Rightarrow> ppp_dev \<Rightarrow> ppp_dev \<Rightarrow> bool" where
  "written sio bs w w' \<longleftrightarrow> (\<exists>cs. dv_sent w' = dv_sent w @ cs \<and> prefix cs bs \<and> ((\<forall>xs ys. sio xs ys = length ys) \<longrightarrow> cs = bs))"

definition too_long :: "pbuf_conf \<Rightarrow> int \<Rightarrow> u8 list \<Rightarrow> ppp_dev \<Rightarrow> bool" where
  "too_long c base bs w \<longleftrightarrow> int (avail c base (dv_mem w)) * (PBUF_POOL_BUFSIZE c - 1) \<le> int (length bs)"

lemma sending_free:
  assumes s: "sending c base L ext s0 h t bs (dv_mem w)" and inv: "pbuf_inv c base L ext s0"
  obtains s' where "drop_pbuf c h w = Inr (w\<lparr>dv_mem := s'\<rparr>)" "pbuf_inv c base L ext s'" "restored c base L s0 s'"
proof -
  obtain ps cs where ps: "bufs c base L (ext(h := 1)) s0 ps cs (dv_mem w)" "lst (nxt (dv_mem w)) (Some h) ps" using s by (auto simp: sending_def)
  obtain n s' where "pbuf_free c (Some h) (dv_mem w) = Inr (n, s')" "pbuf_inv c base L ext s'" "restored c base L s0 s'"
    using bufs_free [OF ps(1) inv ps(2) refl] by blast
  then show thesis using that by (simp add: drop_pbuf_def on_mem_def)
qed

lemma sending_end:
  assumes s: "sending c base L ext (dv_mem w0) h t bs (dv_mem w)" and inv: "pbuf_inv c base L ext (dv_mem w0)"
    and d: "\<exists>x. dv_pc w = (dv_pc w0)\<lparr>lastXMit := x\<rparr>" "dv_sent w = dv_sent w0" "dv_mbox w = dv_mbox w0"
  shows "t = None \<Longrightarrow> too_long c base bs w0 \<and> (\<exists>w'. drop_pbuf c h w = Inr w' \<and> line_kept c base L ext w0 w' \<and> dv_sent w' = dv_sent w0)"
    "t = Some u \<Longrightarrow> \<exists>w'. nPut c sio h w = Inr w' \<and> line_kept c base L ext w0 w' \<and> written sio bs w0 w'"
proof -
  obtain s' where s': "drop_pbuf c h w = Inr (w\<lparr>dv_mem := s'\<rparr>)" "pbuf_inv c base L ext s'" "restored c base L (dv_mem w0) s'"
    using sending_free [OF s inv] by blast
  then have "line_kept c base L ext w0 (w\<lparr>dv_mem := s'\<rparr>)" using d by (simp add: line_kept_def)
  moreover assume "t = None"
  then have "too_long c base bs w0" using s by (auto simp: sending_def too_long_def)
  ultimately show "too_long c base bs w0 \<and> (\<exists>w'. drop_pbuf c h w = Inr w' \<and> line_kept c base L ext w0 w' \<and> dv_sent w' = dv_sent w0)"
    using s'(1) d by auto
next
  assume t: "t = Some u"
  obtain us where us: "bufs c base L (ext(h := 1)) (dv_mem w0) (us @ [u]) bs (dv_mem w)" "lst (nxt (dv_mem w)) (Some h) (us @ [u])"
    using s unfolding t by (rule sendingE)
  obtain w1 cs where w1: "nPut_loop sio (Some h) w = Some w1" "dv_mem w1 = dv_mem w" "dv_mbox w1 = dv_mbox w" "dv_sent w1 = dv_sent w @ cs"
      "prefix cs bs" "\<exists>x. dv_pc w1 = (dv_pc w)\<lparr>lastXMit := x\<rparr>" "(\<forall>xs ys. sio xs ys = length ys) \<longrightarrow> cs = bs"
    using nPut_loop_ok [OF us(2), of sio] bufsD(5) [OF us(1)] by auto
  have "sending c base L ext (dv_mem w0) h t bs (dv_mem w1)" using s w1(2) by simp
  then obtain s' where s': "drop_pbuf c h w1 = Inr (w1\<lparr>dv_mem := s'\<rparr>)" "pbuf_inv c base L ext s'" "restored c base L (dv_mem w0) s'"
    using sending_free inv by blast
  have "\<exists>x. dv_pc w1 = (dv_pc w0)\<lparr>lastXMit := x\<rparr>" using w1(6) d(1) by auto
  then have "line_kept c base L ext w0 (LINK_STATS_INC XMIT (w1\<lparr>dv_mem := s'\<rparr>))" using s'(2,3) w1(3) d(3) by (simp add: line_kept_def)
  moreover have "written sio bs w0 (LINK_STATS_INC XMIT (w1\<lparr>dv_mem := s'\<rparr>))" using w1(4,5,7) d(2) by (simp add: written_def)
  ultimately show "\<exists>w'. nPut c sio h w = Inr w' \<and> line_kept c base L ext w0 w' \<and> written sio bs w0 w'"
    using w1(1) s'(1) by (simp add: nPut_def lwip_loop_def)
qed

lemma sending_start:
  assumes inv: "pbuf_inv c base L ext (dv_mem w)"
  obtains (null) s' where "on_mem (pbuf_alloc c PBUF_RAW 0 PBUF_POOL) w = Inr (None, w\<lparr>dv_mem := s'\<rparr>)"
      "line_kept c base L ext w (w\<lparr>dv_mem := s'\<rparr>)" "too_long c base bs w"
  | (some) h s' where "on_mem (pbuf_alloc c PBUF_RAW 0 PBUF_POOL) w = Inr (Some h, w\<lparr>dv_mem := s'\<rparr>)"
      "sending c base L ext (dv_mem w) h (Some h) [] s'"
  using inv
proof (cases rule: raw_alloc)
  case (null s')
  then have "restored c base L (dv_mem w) s'" by (auto simp: restored_def mem_kept_def same_contents_def pbuf_bytes_def)
  moreover have "\<exists>x. dv_pc w = (dv_pc w)\<lparr>lastXMit := x\<rparr>" by (rule exI [of _ "lastXMit (dv_pc w)"]) simp
  ultimately have "line_kept c base L ext w (w\<lparr>dv_mem := s'\<rparr>)" using pbuf_inv_kept [OF inv null(2)] by (simp add: line_kept_def)
  then show thesis using that(1) [of s'] null(1,3) by (simp add: on_mem_def too_long_def)
next
  case (some p s')
  have "bufs c base L (ext(p := 1)) (dv_mem w) [p] [] s'" using bufs_add [OF bufs_start [OF inv], of p s'] some by simp
  moreover have "lst (nxt s') (Some p) [p]" by (simp add: some(4) raw_pbuf_def)
  ultimately have "sending c base L ext (dv_mem w) p (Some p) [] s'" using sendingI [of c base L ext p "dv_mem w" "[]" p] by simp
  then show thesis using that(2) some(1) by (simp add: on_mem_def)
qed

lemma LINK_STATS_kept [simp]:
  "line_kept c base L ext w (LINK_STATS_INC k w') = line_kept c base L ext w w'"
  by (simp add: line_kept_def)

text \<open>The part that \<open>pppWrite\<close> and \<open>pppifOutput\<close> share: the flag, the octets \<open>xs\<close> and the trailer.\<close>

lemma ppp_start_ok:
  assumes s: "sending c base L ext (dv_mem w) h (Some h) [] s'"
  obtains t1 w1 t2 w2 where "ppp_idle_flag c now h (w\<lparr>dv_mem := s'\<rparr>) = Inr (t1, w1)"
    "ppp_load c xs (ucast PPP_INITFCS) t1 w1 = Inr (ucast (fcs_of xs), t2, w2)"
    "sending c base L ext (dv_mem w) h t2 (idle_flag (fst now) (lastXMit (dv_pc w)) @ stuff (outACCM (dv_pc w)) xs) (dv_mem w2)"
    "dv_pc w1 = (dv_pc w)\<lparr>lastXMit := ucast (snd now)\<rparr>" "dv_pc w2 = dv_pc w1" "dv_sent w2 = dv_sent w" "dv_mbox w2 = dv_mbox w"
proof -
  obtain t1 w1 where 1: "ppp_idle_flag c now h (w\<lparr>dv_mem := s'\<rparr>) = Inr (t1, w1)"
      "sending c base L ext (dv_mem w) h t1 (idle_flag (fst now) (lastXMit (dv_pc w))) (dv_mem w1)"
      "same_dev (pc_set (\<lambda>pc. pc\<lparr>lastXMit := ucast (snd now)\<rparr>) (w\<lparr>dv_mem := s'\<rparr>)) w1"
    using ppp_idle_flag_ok [of c base L ext "dv_mem w" h "w\<lparr>dv_mem := s'\<rparr>" now] s by auto
  have "outACCM (dv_pc w) = outACCM (dv_pc w1)" using 1(3) by (simp add: same_dev_def)
  from ppp_load_ok [OF 1(2) this, of xs PPP_INITFCS] obtain t2 w2 where
    2: "ppp_load c xs (ucast PPP_INITFCS) t1 w1 = Inr (ucast (fcs_of xs), t2, w2)"
      "sending c base L ext (dv_mem w) h t2 (idle_flag (fst now) (lastXMit (dv_pc w)) @ stuff (outACCM (dv_pc w)) xs) (dv_mem w2)" "same_dev w1 w2"
    by (auto simp: fcs_of_def)
  show thesis using that [OF 1(1) 2(1,2)] 1(3) 2(3) by (simp add: same_dev_def)
qed

lemma pppWrite_ok:
  assumes inv: "pbuf_inv c base L ext (dv_mem w)"
    and frame: "frame = idle_flag (fst now) (lastXMit (dv_pc w)) @ hdlc_frame (outACCM (dv_pc w)) s"
  shows "\<exists>r w'. pppWrite c sio now s w = Inr (r, w') \<and> line_kept c base L ext w w' \<and>
    (r = PPPERR_NONE \<and> written sio frame w w' \<or> r = PPPERR_ALLOC \<and> too_long c base frame w \<and> dv_sent w' = dv_sent w)"
  using inv
proof (cases rule: sending_start [where bs = frame])
  case (null s')
  then show ?thesis by (simp add: pppWrite_def)
next
  case (some h s')
  obtain t1 w1 t2 w2 where 1: "ppp_idle_flag c now h (w\<lparr>dv_mem := s'\<rparr>) = Inr (t1, w1)"
    "ppp_load c s (ucast PPP_INITFCS) t1 w1 = Inr (ucast (fcs_of s), t2, w2)"
    "sending c base L ext (dv_mem w) h t2 (idle_flag (fst now) (lastXMit (dv_pc w)) @ stuff (outACCM (dv_pc w)) s) (dv_mem w2)"
    "dv_pc w1 = (dv_pc w)\<lparr>lastXMit := ucast (snd now)\<rparr>" "dv_pc w2 = dv_pc w1" "dv_sent w2 = dv_sent w" "dv_mbox w2 = dv_mbox w"
    using ppp_start_ok [OF some(2)] by metis
  have "outACCM (dv_pc w) = outACCM (dv_pc w2)" using 1(4,5) by simp
  from ppp_trailer_ok [OF 1(3) this, of "fcs_of s"] obtain t3 w3 where
    3: "ppp_trailer c (ucast (fcs_of s)) t2 w2 = Inr (t3, w3)" "sending c base L ext (dv_mem w) h t3 frame (dv_mem w3)" "same_dev w2 w3"
    by (auto simp: frame hdlc_frame_def)
  have d: "\<exists>x. dv_pc w3 = (dv_pc w)\<lparr>lastXMit := x\<rparr>" "dv_sent w3 = dv_sent w" "dv_mbox w3 = dv_mbox w"
    using 1(4-7) 3(3) by (auto simp: same_dev_def)
  show ?thesis
  proof (cases t3)
    case None
    then show ?thesis using sending_end(1) [OF 3(2) inv d] some(1) 1(1,2) 3(1) by (auto simp: pppWrite_def)
  next
    case (Some u)
    then show ?thesis using sending_end(2) [OF 3(2) inv d, of u sio] some(1) 1(1,2) 3(1) by (auto simp: pppWrite_def)
  qed
qed

section \<open>Packets of the stack\<close>

definition own_payloads :: "pbuf_mem \<Rightarrow> int list \<Rightarrow> bool" where
  "own_payloads s ps \<longleftrightarrow> (\<forall>x\<in>set ps. pb_type (pm_pbuf s x) \<in> {PBUF_RAM, PBUF_POOL})"

lemma sending_others:
  assumes s: "sending c base L ext s0 h t bs s" and inv: "pbuf_inv c base L ext s0" and x: "x \<in> L" "pb_type (pm_pbuf s0 x) \<in> {PBUF_RAM, PBUF_POOL}"
  shows "pm_pbuf s x = pm_pbuf s0 x" "pbuf_bytes s x = pbuf_bytes s0 x"
  using s bufs_others [OF _ inv x] by (auto simp: sending_def)

lemma ppp_load_chain_ok:
  assumes "sending c base L ext s0 h t bs (dv_mem w)" "accm = outACCM (dv_pc w)" "lst (nxt s0) p ps" "set ps \<subseteq> L" "own_payloads s0 ps"
    and inv: "pbuf_inv c base L ext s0"
  shows "\<exists>t' w'. ppp_load_chain c p (ucast f) t w = Some (Inr (ucast (foldl crc_octet f (chain_bytes s0 ps)), t', w')) \<and>
    sending c base L ext s0 h t' (bs @ stuff accm (chain_bytes s0 ps)) (dv_mem w') \<and> same_dev w w'"
  using assms(1-5)
proof (induction ps arbitrary: p f t bs w)
  case Nil
  then show ?case by (subst ppp_load_chain.simps) (simp add: chain_bytes_def same_dev_def)
next
  case (Cons q ps)
  then have p: "p = Some q" and l: "lst (nxt s0) (nxt s0 q) ps" and q: "q \<in> L" "pb_type (pm_pbuf s0 q) \<in> {PBUF_RAM, PBUF_POOL}"
    by (auto simp: own_payloads_def)
  note same = sending_others [OF Cons.prems(1) inv q]
  have oct: "octets (dv_mem w) (pb_payload (pm_pbuf (dv_mem w) q)) (unat (pb_len (pm_pbuf (dv_mem w) q))) = pbuf_bytes s0 q"
    using same(2) by (simp add: octets_def pbuf_bytes_def)
  from ppp_load_ok [OF Cons.prems(1,2), of "pbuf_bytes s0 q" f] obtain t1 w1 where
    1: "ppp_load c (pbuf_bytes s0 q) (ucast f) t w = Inr (ucast (foldl crc_octet f (pbuf_bytes s0 q)), t1, w1)"
      "sending c base L ext s0 h t1 (bs @ stuff accm (pbuf_bytes s0 q)) (dv_mem w1)" "same_dev w w1" by blast
  have "nxt (dv_mem w1) q = nxt s0 q" using sending_others(1) [OF 1(2) inv q] by simp
  then have step: "ppp_load_chain c p (ucast f) t w = ppp_load_chain c (nxt s0 q) (ucast (foldl crc_octet f (pbuf_bytes s0 q))) t1 w1"
    using 1(1) by (subst ppp_load_chain.simps) (simp add: p oct Let_def)
  have "accm = outACCM (dv_pc w1)" "set ps \<subseteq> L" "own_payloads s0 ps" using Cons.prems 1(3) by (auto simp: same_dev_def own_payloads_def)
  from Cons.IH [OF 1(2) this(1) l this(2,3), of "foldl crc_octet f (pbuf_bytes s0 q)"] show ?case
    using same_dev_trans [OF 1(3)] unfolding step by (auto simp: chain_bytes_def)
qed

text \<open>
  A packet of the stack goes out with the address, control and protocol fields in front.
\<close>

lemma pppifOutput_ok:
  assumes inv: "pbuf_inv c base L ext (dv_mem w)" and p: "p \<in> L" "lst (nxt (dv_mem w)) (Some p) ps" "own_payloads (dv_mem w) ps"
    and op: "0 \<le> pd" "pd < NUM_PPP" "openFlag (dv_pc w)"
    and frame: "frame = idle_flag (fst now) (lastXMit (dv_pc w)) @
      hdlc_frame (outACCM (dv_pc w)) (ppp_header (dv_pc w) PPP_IP @ chain_bytes (dv_mem w) ps)"
  shows "\<exists>r w'. pppifOutput c sio now False pd (Some p) w = Inr (r, w') \<and> line_kept c base L ext w w' \<and>
    (r = ERR_OK \<and> written sio frame w w' \<or> r = ERR_MEM \<and> too_long c base frame w \<and> dv_sent w' = dv_sent w)"
  using inv
proof (cases rule: sending_start [where bs = frame])
  case (null s')
  then show ?thesis using op by (simp add: pppifOutput_def)
next
  case (some h s')
  let ?hd = "ppp_header (dv_pc w) PPP_IP" and ?data = "chain_bytes (dv_mem w) ps"
  obtain t1 w1 t2 w2 where 1: "ppp_idle_flag c now h (w\<lparr>dv_mem := s'\<rparr>) = Inr (t1, w1)"
    "ppp_load c ?hd (ucast PPP_INITFCS) t1 w1 = Inr (ucast (fcs_of ?hd), t2, w2)"
    "sending c base L ext (dv_mem w) h t2 (idle_flag (fst now) (lastXMit (dv_pc w)) @ stuff (outACCM (dv_pc w)) ?hd) (dv_mem w2)"
    "dv_pc w1 = (dv_pc w)\<lparr>lastXMit := ucast (snd now)\<rparr>" "dv_pc w2 = dv_pc w1" "dv_sent w2 = dv_sent w" "dv_mbox w2 = dv_mbox w"
    using ppp_start_ok [OF some(2), of now ?hd] by metis
  have hd: "ppp_header (dv_pc w1) PPP_IP = ?hd" by (simp add: 1(4) ppp_header_def)
  have "outACCM (dv_pc w) = outACCM (dv_pc w2)" using 1(4,5) by simp
  from ppp_load_chain_ok [OF 1(3) this p(2) chain_in [OF inv p(2,1)] p(3) inv, of "fcs_of ?hd"] obtain t3 w3 where
    2: "ppp_load_chain c (Some p) (ucast (fcs_of ?hd)) t2 w2 = Some (Inr (ucast (fcs_of (?hd @ ?data)), t3, w3))"
      "sending c base L ext (dv_mem w) h t3 (idle_flag (fst now) (lastXMit (dv_pc w)) @ stuff (outACCM (dv_pc w)) (?hd @ ?data)) (dv_mem w3)" "same_dev w2 w3"
    by (auto simp: fcs_of_def)
  have "outACCM (dv_pc w) = outACCM (dv_pc w3)" using 1(4,5) 2(3) by (simp add: same_dev_def)
  from ppp_trailer_ok [OF 2(2) this, of "fcs_of (?hd @ ?data)"] obtain t4 w4 where
    3: "ppp_trailer c (ucast (fcs_of (?hd @ ?data))) t3 w3 = Inr (t4, w4)" "sending c base L ext (dv_mem w) h t4 frame (dv_mem w4)" "same_dev w3 w4"
    by (auto simp: frame hdlc_frame_def)
  have d: "\<exists>x. dv_pc w4 = (dv_pc w)\<lparr>lastXMit := x\<rparr>" "dv_sent w4 = dv_sent w" "dv_mbox w4 = dv_mbox w"
    using 1(4-7) 2(3) 3(3) by (auto simp: same_dev_def)
  note run = some(1) 1(1,2) 2(1) 3(1) hd
  show ?thesis
  proof (cases t4)
    case None
    then show ?thesis using sending_end(1) [OF 3(2) inv d] run op by (auto simp: pppifOutput_def lwip_run_def)
  next
    case (Some u)
    then show ?thesis using sending_end(2) [OF 3(2) inv d, of u sio] run op by (auto simp: pppifOutput_def lwip_run_def)
  qed
qed

end
