(* ===== verification/Ppp_Frame_In.thy ===== *)
theory Ppp_Frame_In
  imports Ppp_Frame_Out
begin

text \<open>
  Input of \<open>ppp.c\<close>: octets that were escaped are restored one by one, header fields lead to the data state, data
  octets fill a chain of pool pbufs, and a flag after a good check sequence delivers the chain.
\<close>

section \<open>Escapes\<close>

text \<open>The two ends agree when what the receiver treats as special is escaped, and no escaped octet looks special.\<close>

definition accm_match :: "ext_accm \<Rightarrow> ext_accm \<Rightarrow> bool" where
  "accm_match out_map in_map \<longleftrightarrow> (\<forall>x. ESCAPE_P in_map x \<longrightarrow> ESCAPE_P out_map x) \<and>
     (\<forall>x. ESCAPE_P out_map x \<longrightarrow> \<not> ESCAPE_P in_map (x XOR PPP_TRANS)) \<and> ESCAPE_P in_map PPP_ESCAPE \<and> ESCAPE_P in_map PPP_FLAG"

fun ppp_octets_in :: "pbuf_conf \<Rightarrow> int \<Rightarrow> u8 list \<Rightarrow> ppp_dev \<Rightarrow> ppp_dev lwip" where
  "ppp_octets_in c pd [] w = Inr w"
| "ppp_octets_in c pd (x # xs) w = lwip_bind (ppp_octet c pd x w) (ppp_octets_in c pd xs)"

definition plain :: "ext_accm \<Rightarrow> ppp_dev \<Rightarrow> bool" where
  "plain out_map w \<longleftrightarrow> \<not> inEscaped (dv_pc w) \<and> accm_match out_map (inACCM (dv_pc w))"

lemma pppInProc_app: "pppInProc c post pd (xs @ ys) w = lwip_bind (pppInProc c post pd xs w) (pppInProc c post pd ys)"
  by (induction xs arbitrary: w) (simp_all add: lwip_bind_def split: sum.split)

lemma ppp_octets_in_app: "ppp_octets_in c pd (xs @ ys) w = lwip_bind (ppp_octets_in c pd xs w) (ppp_octets_in c pd ys)"
  by (induction xs arbitrary: w) (simp_all add: lwip_bind_def split: sum.split)

lemma drop_pbuf_pc: "drop_pbuf c p w = Inr w' \<Longrightarrow> dv_pc w' = dv_pc w \<and> dv_mbox w' = dv_mbox w \<and> dv_sent w' = dv_sent w"
  by (auto simp: drop_pbuf_def on_mem_def lwip_bind_def split: sum.splits)

lemma ppp_join_pc: "ppp_join t w = Inr w' \<Longrightarrow> dv_pc w' = dv_pc w"
  by (auto simp: ppp_join_def Let_def in_mem_def lwip_bind_def split: sum.splits if_splits)

lemma pppDrop_pc: "pppDrop c w = Inr w' \<Longrightarrow> inEscaped (dv_pc w') = inEscaped (dv_pc w) \<and> inACCM (dv_pc w') = inACCM (dv_pc w)"
  by (auto simp: pppDrop_def lwip_bind_def split: sum.splits option.splits if_splits dest!: drop_pbuf_pc)

lemma ppp_data_pc: "ppp_data c pd x w = Inr w' \<Longrightarrow> inEscaped (dv_pc w') = inEscaped (dv_pc w) \<and> inACCM (dv_pc w') = inACCM (dv_pc w)"
  by (auto simp: ppp_data_def Let_def lwip_bind_def on_mem_def split: sum.splits option.splits if_splits dest!: pppDrop_pc ppp_join_pc)

lemma ppp_octet_plain:
  assumes "plain a w" "ppp_octet c pd x w = Inr w'"
  shows "plain a w'"
  using assms
  by (auto simp: plain_def ppp_octet_def Let_def lwip_bind_def in_idle_def in_start_def in_address_def in_control_def in_protocol1_def
      split: sum.splits PPPDevStates.splits if_splits dest!: ppp_data_pc)

text \<open>An escaped octet is taken as it was before.\<close>

lemma pppInProc_esc:
  assumes w: "plain a w"
  shows "pppInProc c post pd (esc a x) w = ppp_octet c pd x w"
proof -
  have m: "accm_match a (inACCM (dv_pc w))" and e: "\<not> inEscaped (dv_pc w)" using w by (simp_all add: plain_def)
  have ret: "lwip_bind r (pppInProc c post pd []) = r" for r by (cases r) simp_all
  show ?thesis
  proof (cases "ESCAPE_P a x")
    case False
    then have "\<not> ESCAPE_P (inACCM (dv_pc w)) x" using m by (auto simp: accm_match_def)
    then show ?thesis using False by (simp add: esc_def ppp_char_def ret)
  next
    case True
    let ?w = "pc_set (\<lambda>pc. pc\<lparr>inEscaped := True\<rparr>) w"
    have 1: "ppp_char c post pd PPP_ESCAPE w = Inr ?w" using m by (simp add: ppp_char_def accm_match_def)
    have "\<not> ESCAPE_P (inACCM (dv_pc w)) (x XOR PPP_TRANS)" using m True by (simp add: accm_match_def)
    moreover have undo: "pc_set (\<lambda>pc. pc\<lparr>inEscaped := False\<rparr>) ?w = w" using e by (simp add: pc_set_def)
    ultimately have "ppp_char c post pd (x XOR PPP_TRANS) ?w = ppp_octet c pd x w"
      using e by (simp add: ppp_char_def ppp_octet_def undo xor.assoc)
    then show ?thesis using True 1 by (simp add: esc_def ret)
  qed
qed

lemma pppInProc_stuff:
  assumes "plain a w"
  shows "pppInProc c post pd (stuff a xs) w = ppp_octets_in c pd xs w"
  using assms
proof (induction xs arbitrary: w)
  case (Cons x xs)
  then show ?case
    by (cases "ppp_octet c pd x w") (simp_all add: pppInProc_app pppInProc_esc ppp_octet_plain)
qed simp

section \<open>Header fields\<close>

text \<open>Protocol numbers of RFC 1661: the upper octet is even, the lower one odd; two of them are not compressed together with the address.\<close>

definition protocol_ok :: "u16 \<Rightarrow> bool" where
  "protocol_ok p \<longleftrightarrow> bit p 0 \<and> \<not> bit p 8 \<and> p \<notin> {0x03, 0xff}"

definition after_header :: "u16 \<Rightarrow> u8 list \<Rightarrow> ppp_dev \<Rightarrow> ppp_dev" where
  "after_header p hdr w = pc_set (\<lambda>pc. pc\<lparr>inProtocol := p, inState := PDDATA, inFCS := foldl crc_octet (inFCS pc) hdr\<rparr>) w"

lemma header_octet:
  assumes "\<not> inEscaped (dv_pc w)" "inState (dv_pc w) \<notin> {PDIDLE, PDSTART, PDDATA}"
  shows "ppp_octet c pd x w = Inr (pc_set (\<lambda>pc. pc\<lparr>inFCS := crc_octet (inFCS pc) x\<rparr>) (pc_set (case inState (dv_pc w) of
      PDADDRESS \<Rightarrow> in_address x | PDCONTROL \<Rightarrow> in_control x | PDPROTOCOL1 \<Rightarrow> in_protocol1 x
    | _ \<Rightarrow> (\<lambda>pc. pc\<lparr>inProtocol := inProtocol pc OR ucast x, inState := PDDATA\<rparr>)) w))"
  using assms by (cases "inState (dv_pc w)") (simp_all add: ppp_octet_def fcs_receive)

lemma odd_octet: "x AND (1 :: u8) \<noteq> 0 \<longleftrightarrow> bit x 0"
  by (simp add: and_one_eq bit_0 odd_iff_mod_2_eq_one)

definition lo :: "u16 \<Rightarrow> u8" where "lo p = ucast (p AND 0xff)"
definition hi :: "u16 \<Rightarrow> u8" where "hi p = ucast (drop_bit 8 p AND 0xff)"

lemma protocol_octets:
  shows "bit (lo p) 0 = bit p 0" "bit (hi p) 0 = bit p 8" "push_bit 8 (ucast (hi p)) OR ucast (lo p) = p"
    "p \<le> 0xff \<Longrightarrow> ucast (lo p) = p"
proof -
  show "bit (lo p) 0 = bit p 0" "bit (hi p) 0 = bit p 8" by (auto simp: lo_def hi_def octet_mask bit_simps)
  show "push_bit 8 (ucast (hi p)) OR ucast (lo p) = p"
    by (rule bit_eqI) (auto simp: lo_def hi_def octet_mask bit_simps)
  assume "p \<le> 0xff"
  then have "take_bit 8 p = p" by (simp add: take_bit_eq_mod word_le_nat_alt unat_mod_distrib word_unat_eq_iff)
  then show "ucast (lo p) = p" unfolding lo_def octet_mask by (intro bit_eqI) (auto simp: bit_simps, metis bit_take_bit_iff)
qed

lemma protocol_parsed:
  assumes w: "\<not> inEscaped (dv_pc w)" and p: "protocol_ok p"
    and st: "inState (dv_pc w) = PDPROTOCOL1 \<or> inState (dv_pc w) = PDADDRESS"
  shows "ppp_octets_in c pd [hi p, lo p] w = Inr (after_header p [hi p, lo p] w)"
    "p \<le> 0xff \<Longrightarrow> ppp_octets_in c pd [lo p] w = Inr (after_header p [lo p] w)"
proof -
  note o = protocol_octets [of p]
  have ff: "bit (PPP_ALLSTATIONS) 0" "bit PPP_UI 0" by (simp_all add: ppp_octets)
  have h: "hi p \<noteq> PPP_ALLSTATIONS" "hi p \<noteq> PPP_UI" "hi p AND 1 = 0" "lo p AND 1 \<noteq> 0"
    using ff p o(1,2) odd_octet [of "hi p"] odd_octet [of "lo p"] by (auto simp: protocol_ok_def)
  show "ppp_octets_in c pd [hi p, lo p] w = Inr (after_header p [hi p, lo p] w)"
    using st w h by (auto simp: header_octet in_address_def in_control_def in_protocol1_def after_header_def pc_set_def o(3))
  assume le: "p \<le> 0xff"
  have "lo p \<noteq> PPP_ALLSTATIONS" "lo p \<noteq> PPP_UI" using o(4) [OF le] p by (auto simp: protocol_ok_def ppp_octets)
  then show "ppp_octets_in c pd [lo p] w = Inr (after_header p [lo p] w)"
    using st w h o(4) [OF le] by (auto simp: header_octet in_address_def in_control_def in_protocol1_def after_header_def pc_set_def)
qed

lemma ppp_header_parsed:
  assumes w: "\<not> inEscaped (dv_pc w)" "inState (dv_pc w) = PDADDRESS" and p: "protocol_ok p"
  shows "ppp_octets_in c pd (ppp_header pc p) w = Inr (after_header p (ppp_header pc p) w)"
proof -
  define hs where "hs = (if \<not> pcomp pc \<or> p > 0xff then [hi p] else []) @ [lo p]"
  have hdr: "ppp_header pc p = (if \<not> accomp pc then [PPP_ALLSTATIONS, PPP_UI] else []) @ hs" by (simp add: ppp_header_def hs_def lo_def hi_def)
  have rest: "ppp_octets_in c pd hs u = Inr (after_header p hs u)"
    if "\<not> inEscaped (dv_pc u)" "inState (dv_pc u) = PDPROTOCOL1 \<or> inState (dv_pc u) = PDADDRESS" for u
    using protocol_parsed [OF that(1) p that(2), of c pd] by (auto simp: hs_def not_less simp del: ppp_octets_in.simps)
  show ?thesis
  proof (cases "accomp pc")
    case True
    then show ?thesis using rest [of w] w by (simp add: hdr)
  next
    case False
    let ?u = "pc_set (\<lambda>pc. pc\<lparr>inState := PDPROTOCOL1, inFCS := foldl crc_octet (inFCS pc) [PPP_ALLSTATIONS, PPP_UI]\<rparr>) w"
    have "ppp_octets_in c pd [PPP_ALLSTATIONS, PPP_UI] w = Inr ?u"
      using w by (simp add: header_octet in_address_def in_control_def pc_set_def)
    moreover have "after_header p hs ?u = after_header p ([PPP_ALLSTATIONS, PPP_UI] @ hs) w" by (simp add: after_header_def pc_set_def)
    moreover have "ppp_header pc p = [PPP_ALLSTATIONS, PPP_UI] @ hs" using False by (simp add: hdr)
    ultimately show ?thesis using rest [of ?u] w by (simp only: ppp_octets_in_app) simp
  qed
qed

section \<open>The packet being received\<close>

text \<open>
  The pbufs \<open>us\<close> are full and linked; \<open>t\<close> is being filled and not yet linked to them.  Once it is joined, all of
  them are one packet.
\<close>

definition in_chain :: "pbuf_conf \<Rightarrow> int \<Rightarrow> int set \<Rightarrow> (int \<Rightarrow> nat) \<Rightarrow> pbuf_mem \<Rightarrow> int list \<Rightarrow> int \<Rightarrow> u8 list \<Rightarrow> pbuf_mem \<Rightarrow> bool" where
  "in_chain c base L ext s0 us t bs s \<longleftrightarrow> bufs c base L (ext(hd (us @ [t]) := 1, t := 1)) s0 (us @ [t]) bs s \<and>
     (us \<noteq> [] \<longrightarrow> lst (nxt s) (Some (hd us)) us) \<and> nxt s t = None \<and> lens_ok (set us) s \<and>
     (\<forall>x\<in>set us. uint (pb_len (pm_pbuf s x)) = PBUF_POOL_BUFSIZE c)"

definition joined :: "pbuf_conf \<Rightarrow> int \<Rightarrow> int set \<Rightarrow> (int \<Rightarrow> nat) \<Rightarrow> pbuf_mem \<Rightarrow> int list \<Rightarrow> u8 list \<Rightarrow> pbuf_mem \<Rightarrow> bool" where
  "joined c base L ext s0 ps bs s \<longleftrightarrow> bufs c base L (ext(hd ps := 1)) s0 ps bs s \<and> lst (nxt s) (Some (hd ps)) ps \<and> lens_ok (set ps) s"

text \<open>A change of the last pbuf only.\<close>

lemma in_chain_update:
  assumes i: "in_chain c base L ext s0 us t bs s" and b': "fillable c b' t" "pb_next b' = None"
    and f: "\<And>a. a \<notin> pool_room c t \<Longrightarrow> f a = pm_byte s a" and s': "s' = s\<lparr>pm_pbuf := (pm_pbuf s)(t := b'), pm_byte := f\<rparr>"
  shows "in_chain c base L ext s0 us t (chain_bytes s us @ pbuf_bytes s' t) s'"
proof -
  have b: "bufs c base L (ext(hd (us @ [t]) := 1, t := 1)) s0 (us @ [t]) bs s" and t: "nxt s t = None" using i by (simp_all add: in_chain_def)
  have dist: "t \<notin> set us" using bufsD(1) [OF b] by simp
  have nx: "nxt s' = nxt s" using b'(2) t by (auto simp: s')
  have apart: "nxt s x \<noteq> Some t" if x: "x \<in> set us" for x
  proof -
    have ne: "us \<noteq> []" using x by auto
    then have l: "lst (nxt s) (Some (hd us)) us" using i by (simp add: in_chain_def)
    show ?thesis
    proof (cases "x = last us")
      case True
      then show ?thesis using lst_last [OF l ne] by simp
    next
      case False
      with l x obtain y where "nxt s x = Some y" "y \<in> set us" by (rule lst_inner)
      then show ?thesis using dist by auto
    qed
  qed
  have "bufs c base L (ext(hd (us @ [t]) := 1, t := 1)) s0 (us @ [t]) (chain_bytes s us @ pbuf_bytes s' t) s'"
    using b'(2) t f by (intro bufs_update [OF b b'(1) _ _ s']) simp_all
  moreover have "lens_ok (set us) s'" using i dist apart by (auto simp: in_chain_def lens_ok_def s' split: option.splits)
  ultimately show ?thesis using i dist unfolding in_chain_def nx fun_cong [OF nx] by (auto simp: s')
qed

lemma in_chainD:
  assumes "in_chain c base L ext s0 us t bs s"
  shows "fillable c (pm_pbuf s t) t" "nxt s t = None" "bs = chain_bytes s us @ pbuf_bytes s t" "pbuf_conf_ok c" "t \<notin> set us"
proof -
  have b: "bufs c base L (ext(hd (us @ [t]) := 1, t := 1)) s0 (us @ [t]) bs s" using assms by (simp add: in_chain_def)
  show "fillable c (pm_pbuf s t) t" "nxt s t = None" "bs = chain_bytes s us @ pbuf_bytes s t" "pbuf_conf_ok c" "t \<notin> set us"
    using assms bufsD(1,5) [OF b] bufsD(4) [OF b, of t] bufs_conf [OF b] by (auto simp: in_chain_def chain_bytes_def)
qed

lemma in_chain_store:
  assumes i: "in_chain c base L ext s0 us t bs s" and len: "uint (pb_len (pm_pbuf s t)) < PBUF_POOL_BUFSIZE c"
  shows "in_chain c base L ext s0 us t (bs @ [x]) (store_char t x s)"
proof -
  note d = in_chainD [OF i] and st = stored_octet [OF in_chainD(4,1) [OF i] len]
  have "in_chain c base L ext s0 us t (chain_bytes s us @ pbuf_bytes (store_char t x s) t) (store_char t x s)"
    using d(2) by (intro in_chain_update [OF i st(1) _ st(3) store_char_eq]) simp
  then show ?thesis using d(3) st(2) [of x] by simp
qed

lemma in_chain_length:
  assumes i: "in_chain c base L ext s0 us t bs s"
  shows "int (length bs) = int (length us) * PBUF_POOL_BUFSIZE c + uint (pb_len (pm_pbuf s t))" "avail c base s0 = avail c base s + length us + 1"
proof -
  have b: "bufs c base L (ext(hd (us @ [t]) := 1, t := 1)) s0 (us @ [t]) bs s" using i by (simp add: in_chain_def)
  have full: "\<forall>x\<in>set us. uint (pb_len (pm_pbuf s x)) = PBUF_POOL_BUFSIZE c" using i by (simp add: in_chain_def)
  then have "int (length (chain_bytes s us)) = int (length us) * PBUF_POOL_BUFSIZE c"
    by (induction us) (simp_all add: chain_bytes_def algebra_simps flip: uint_nat)
  then show "int (length bs) = int (length us) * PBUF_POOL_BUFSIZE c + uint (pb_len (pm_pbuf s t))"
    using bufsD(5) [OF b] by (auto simp: chain_bytes_def simp flip: uint_nat)
  show "avail c base s0 = avail c base s + length us + 1" using bufs_avail [OF b] by simp
qed

text \<open>The header is in the first pbuf.\<close>

lemma in_chain_head:
  assumes i: "in_chain c base L ext s0 us t bs s" and len: "8 \<le> length bs"
  shows "8 \<le> uint (pb_len (pm_pbuf s (hd (us @ [t]))))"
proof (cases us)
  case Nil
  then show ?thesis using in_chain_length(1) [OF i] len by simp
next
  case (Cons x xs)
  then have "uint (pb_len (pm_pbuf s x)) = PBUF_POOL_BUFSIZE c" using i by (simp add: in_chain_def)
  then show ?thesis using Cons bufsize_bounds(1) [OF in_chainD(4) [OF i]] by simp
qed

lemma same_struct_bytes:
  "(\<And>x. pb_payload (pm_pbuf s' x) = pb_payload (pm_pbuf s x) \<and> pb_len (pm_pbuf s' x) = pb_len (pm_pbuf s x)) \<Longrightarrow> pm_byte s' = pm_byte s \<Longrightarrow>
    pbuf_bytes s' = pbuf_bytes s"
  by (auto simp: pbuf_bytes_def)

lemma bufs_catted:
  assumes b: "bufs c base L refs s0 (us @ [t]) bs s" and us: "us \<noteq> []" "lst (nxt s) (Some (hd us)) us" and t: "nxt s t = None" "refs t = 1"
  shows "bufs c base L (refs(t := 0)) s0 (us @ [t]) bs (catted us t s)" "lst (nxt (catted us t s)) (Some (hd us)) (us @ [t])"
proof -
  have dist: "t \<notin> set us" "distinct us" using bufsD(1) [OF b] by simp_all
  have hu: "hd us \<in> set us" "last us \<noteq> t" using us(1) dist(1) last_in_set by auto
  have "pbuf_inv c base (L \<union> set (us @ [t])) (refs(t := refs t - 1)) (catted us t s)"
    using catted_inv [OF bufsD(3) [OF b] _ us(2), of t "[t]"] us(1) t dist hu by auto
  moreover have "pbuf_bytes (catted us t s) = pbuf_bytes s" by (rule same_struct_bytes) (simp_all add: catted_def)
  moreover have "areas c base k (catted us t s) = areas c base k s" for k by (simp add: catted_def areas_def split: option.split)
  moreover have "fillable c (pm_pbuf (catted us t s) x) x = fillable c (pm_pbuf s x) x" for x by (simp add: catted_def fillable_def)
  moreover have "pm_pbuf (catted us t s) x = pm_pbuf s x" if "x \<notin> set us" for x using that by (simp add: catted_def)
  moreover have "pm_byte (catted us t s) = pm_byte s" by (simp add: catted_def)
  ultimately show "bufs c base L (refs(t := 0)) s0 (us @ [t]) bs (catted us t s)" using b t(2) by (simp add: bufs_def chain_bytes_def)
  obtain vs l where vl: "us = vs @ [l]" using us(1) by (cases us rule: rev_cases) auto
  then show "lst (nxt (catted us t s)) (Some (hd us)) (us @ [t])"
    using lst_link [of "nxt s" "Some (hd us)" vs l "[t]" t] us dist t unfolding nxt_catted [OF us(1)] by simp
qed

text \<open>The last pbuf gets its total length.\<close>

lemma in_chain_tot:
  assumes i: "in_chain c base L ext s0 us t bs s" and s': "s' = pb t (\<lambda>b. b\<lparr>pb_tot_len := pb_len b\<rparr>) s"
  shows "in_chain c base L ext s0 us t bs s'" "pb_tot_len (pm_pbuf s' t) = pb_len (pm_pbuf s' t)"
proof -
  note d = in_chainD [OF i]
  have eq: "s' = s\<lparr>pm_pbuf := (pm_pbuf s)(t := (pm_pbuf s t)\<lparr>pb_tot_len := pb_len (pm_pbuf s t)\<rparr>), pm_byte := pm_byte s\<rparr>" by (simp add: s' pb_def)
  have "pbuf_bytes s' = pbuf_bytes s" by (rule same_struct_bytes) (simp_all add: s' pbuf_simps)
  then show "in_chain c base L ext s0 us t bs s'" using in_chain_update [OF i _ _ _ eq] d by (simp add: fillable_def)
  show "pb_tot_len (pm_pbuf s' t) = pb_len (pm_pbuf s' t)" by (simp add: s' pbuf_simps)
qed

lemma ppp_join_ok:
  assumes i: "in_chain c base L ext s0 us t bs (dv_mem w)" and inv: "pbuf_inv c base L ext s0" and len: "length bs < 65536"
    and h: "inHead (dv_pc w) = Some (hd (us @ [t]))"
  shows "\<exists>s'. ppp_join t w = Inr (w\<lparr>dv_mem := s'\<rparr>) \<and> joined c base L ext s0 (us @ [t]) bs s' \<and>
    (\<forall>x. pb_len (pm_pbuf s' x) = pb_len (pm_pbuf (dv_mem w) x))"
proof -
  define s1 where "s1 = pb t (\<lambda>b. b\<lparr>pb_tot_len := pb_len b\<rparr>) (dv_mem w)"
  note i1 = in_chain_tot [OF i s1_def]
  have b: "bufs c base L (ext(hd (us @ [t]) := 1, t := 1)) s0 (us @ [t]) bs s1" and t: "nxt s1 t = None" "lens_ok (set us) s1"
    using i1(1) by (simp_all add: in_chain_def)
  have same: "pb_len (pm_pbuf s1 x) = pb_len (pm_pbuf (dv_mem w) x)" for x by (simp add: s1_def pbuf_simps)
  have dist: "t \<notin> set us" using bufsD(1) [OF b] by simp
  have t1: "lens_ok {t} s1" using i1(2) t(1) by (simp add: lens_ok_def)
  have mem: "mem_set (pb t (\<lambda>b. b\<lparr>pb_tot_len := pb_len b\<rparr>)) w = w\<lparr>dv_mem := s1\<rparr>" by (simp add: mem_set_def s1_def)
  show ?thesis
  proof (cases "us = []")
    case True
    then have "ppp_join t w = Inr (w\<lparr>dv_mem := s1\<rparr>)" using h by (simp add: ppp_join_def mem)
    moreover have "joined c base L ext s0 (us @ [t]) bs s1" using True b t t1 by (simp add: joined_def)
    ultimately show ?thesis using same by blast
  next
    case False
    then have us: "lst (nxt s1) (Some (hd us)) us" using i1(1) by (simp add: in_chain_def)
    have hu: "hd us \<in> set us" "last us \<in> set us" "hd us \<noteq> t" using False dist by auto
    have "pb_tot_len (pm_pbuf s1 (last us)) = pb_len (pm_pbuf s1 (last us))"
      using t(2) hu(2) lst_last [OF us False] by (simp add: lens_ok_def word_unat_eq_iff)
    then have cat: "pbuf_cat (Some (hd us)) (Some t) s1 = Inr (catted us t s1)" using pbuf_cat_ok [OF us dist] by simp
    have "ext t = 0" using pbuf_invD(3) [OF inv, of t] bufsD(2) [OF b] by auto
    then have refs: "(ext(hd (us @ [t]) := 1, t := 1))(t := 0) = ext(hd (us @ [t]) := 1)" using hu(3) False by (auto simp: fun_eq_iff)
    have "length (chain_bytes s1 us) = unat (pb_tot_len (pm_pbuf s1 (hd us)))"
      using lens_sum [OF t(2) us subset_refl] by (simp add: chain_bytes_def length_concat o_def)
    then have tot: "unat (pb_tot_len (pm_pbuf s1 (hd us))) + unat (pb_tot_len (pm_pbuf s1 t)) < 65536"
      using len bufsD(5) [OF b] i1(2) by (auto simp: chain_bytes_def)
    have "lens_ok (set us) (catted us t s1)" using catted_lens [OF t(2) us subset_refl _ dist tot] by simp
    moreover have "lens_ok {t} (catted us t s1)" using t1 t(1) dist by (simp add: lens_ok_def catted_def)
    ultimately have "lens_ok (set (us @ [t])) (catted us t s1)" by (auto simp: lens_ok_def)
    then have "joined c base L ext s0 (us @ [t]) bs (catted us t s1)"
      using bufs_catted [OF b False us t(1)] False unfolding joined_def refs by simp
    moreover have "ppp_join t w = Inr (w\<lparr>dv_mem := catted us t s1\<rparr>)" using h hu(3) False cat by (simp add: ppp_join_def mem in_mem_def)
    moreover have "pb_len (pm_pbuf (catted us t s1) x) = pb_len (pm_pbuf (dv_mem w) x)" for x using same by (simp add: catted_def)
    ultimately show ?thesis by blast
  qed
qed

section \<open>Data octets\<close>

lemma in_chain_grow:
  assumes j: "joined c base L ext s0 ps bs s" and full: "\<forall>x\<in>set ps. uint (pb_len (pm_pbuf s x)) = PBUF_POOL_BUFSIZE c"
    and a: "p \<notin> L \<union> set ps" "pbuf_inv c base (insert p (L \<union> set ps)) ((ext(hd ps := 1))(p := 1)) s'"
      "pm_pbuf s' = (pm_pbuf s)(p := raw_pbuf c p)" "pm_byte s' = pm_byte s"
      "\<And>k. class_ok c k \<Longrightarrow> p \<notin> fst ` areas c base k s \<and> areas c base k s' = (if k = pool c
         then insert (p, SIZEOF_STRUCT_PBUF c + PBUF_POOL_BUFSIZE_ALIGNED c) (areas c base k s) else areas c base k s)"
  shows "in_chain c base L ext s0 ps p bs s'"
proof -
  have b: "bufs c base L (ext(hd ps := 1)) s0 ps bs s" and l: "lst (nxt s) (Some (hd ps)) ps" "ps \<noteq> []" using j by (auto simp: joined_def)
  have p: "p \<notin> set ps" using a(1) by simp
  have nx: "nxt s' = (nxt s)(p := None)" by (auto simp: a(3) raw_pbuf_def)
  have "lens_ok (set ps) s'"
    unfolding lens_ok_def
  proof
    fix x assume x: "x \<in> set ps"
    have "nxt s x \<noteq> Some p"
      using nxt_in [OF bufsD(3) [OF b], of x p] x a(1) by auto
    then show "unat (pb_tot_len (pm_pbuf s' x)) = unat (pb_len (pm_pbuf s' x)) + (case nxt s' x of None \<Rightarrow> 0 | Some q \<Rightarrow> unat (pb_tot_len (pm_pbuf s' q)))"
      using j x p by (auto simp: joined_def lens_ok_def a(3) split: option.split)
  qed
  moreover have "bufs c base L ((ext(hd ps := 1))(p := 1)) s0 (ps @ [p]) bs s'" by (rule bufs_add [OF b a])
  moreover have "lst (nxt s') (Some (hd ps)) ps" using l(1) p unfolding nx by simp
  ultimately show ?thesis using full p l(2) by (auto simp: in_chain_def a(3) raw_pbuf_def)
qed

definition pih :: "int \<Rightarrow> u16 \<Rightarrow> u8 list \<Rightarrow> u8 list" where
  "pih pd proto pad = map (pih_octet pd proto) [0..<6] @ pad"

lemma in_chain_open:
  assumes inv: "pbuf_inv c base L ext s" and a: "0 < avail c base s"
  obtains n s' pad where "pbuf_alloc c PBUF_RAW 0 PBUF_POOL s = Inr (Some n, s')" "length pad = 2"
    "in_chain c base L ext s [] n (pih pd proto pad) (store_pih n pd proto s')" "uint (pb_len (pm_pbuf (store_pih n pd proto s') n)) = 8"
  using inv
proof (cases rule: raw_alloc)
  case null
  then show thesis using a by simp
next
  case (some n s')
  have b: "bufs c base L (ext(n := 1)) s ([] @ [n]) [] s'" using bufs_add [OF bufs_start [OF inv], of n s'] some by simp
  note conf = bufs_conf [OF b]
  let ?S = "SIZEOF_STRUCT_PBUF c" and ?s = "store_pih n pd proto s'"
  define f where "f = (\<lambda>a. let i = a - (n + ?S) in if 0 \<le> i \<and> i < 6 then pih_octet pd proto (nat i) else pm_byte s' a)"
  define pad where "pad = [pm_byte s' (n + ?S + 6), pm_byte s' (n + ?S + 7)]"
  have eq: "?s = s'\<lparr>pm_pbuf := (pm_pbuf s')(n := (raw_pbuf c n)\<lparr>pb_len := 8\<rparr>), pm_byte := f\<rparr>"
    by (simp add: store_pih_def pb_def f_def some(4) raw_pbuf_def)
  have "[0..<8] = [0..<6] @ [6, 7 :: nat]" by (simp add: upt_rec)
  then have "pbuf_bytes ?s n = map (\<lambda>i. f (n + ?S + int i)) [0..<6] @ [f (n + ?S + 6), f (n + ?S + 7)]"
    by (simp add: pbuf_bytes_def eq raw_pbuf_def)
  then have "pbuf_bytes ?s n = pih pd proto pad" by (simp add: pih_def pad_def f_def)
  moreover have "f a = pm_byte s' a" if "a \<notin> pool_room c n" for a
    using that bufsize_bounds(1,2) [OF conf] by (auto simp: f_def pool_room_def Let_def)
  then have "bufs c base L (ext(n := 1)) s ([] @ [n]) (chain_bytes s' [] @ pbuf_bytes ?s n) ?s"
    using bufsize_bounds(1) [OF conf] by (intro bufs_update [OF b _ _ _ eq]) (simp_all add: fillable_def raw_pbuf_def some(4))
  ultimately have "in_chain c base L ext s [] n (pih pd proto pad) ?s"
    by (simp add: in_chain_def chain_bytes_def lens_ok_def eq raw_pbuf_def)
  then show thesis using that [of n s' pad] some(1) by (simp add: pad_def eq)
qed

lemma ppp_data_first:
  assumes w: "inHead (dv_pc w) = None" "inTail (dv_pc w) = None" and inv: "pbuf_inv c base L ext (dv_mem w)" and a: "0 < avail c base (dv_mem w)"
  obtains n s' pad where "ppp_data c pd x w = Inr (pc_set (\<lambda>pc. pc\<lparr>inHead := Some n, inTail := Some n\<rparr>) (w\<lparr>dv_mem := s'\<rparr>))" "length pad = 2"
    "in_chain c base L ext (dv_mem w) [] n (pih pd (inProtocol (dv_pc w)) pad @ [x]) s'"
proof -
  obtain n s' pad where n: "pbuf_alloc c PBUF_RAW 0 PBUF_POOL (dv_mem w) = Inr (Some n, s')" "length pad = 2"
    "in_chain c base L ext (dv_mem w) [] n (pih pd (inProtocol (dv_pc w)) pad) (store_pih n pd (inProtocol (dv_pc w)) s')"
    "uint (pb_len (pm_pbuf (store_pih n pd (inProtocol (dv_pc w)) s') n)) = 8"
    using in_chain_open [OF inv a] by blast
  have "40 < PBUF_POOL_BUFSIZE c" using pbuf_invD(1) [OF inv] bufsize_bounds(1) by (simp add: mem_wf_def)
  then have "in_chain c base L ext (dv_mem w) [] n (pih pd (inProtocol (dv_pc w)) pad @ [x]) (store_char n x (store_pih n pd (inProtocol (dv_pc w)) s'))"
    using in_chain_store [OF n(3)] n(4) by simp
  moreover have "ppp_data c pd x w = Inr (pc_set (\<lambda>pc. pc\<lparr>inHead := Some n, inTail := Some n\<rparr>)
      (w\<lparr>dv_mem := store_char n x (store_pih n pd (inProtocol (dv_pc w)) s')\<rparr>))"
    using w n(1) by (simp add: ppp_data_def on_mem_def Let_def mem_set_def pc_set_def)
  ultimately show thesis using that n(2) by blast
qed

lemma ppp_data_next:
  assumes i: "in_chain c base L ext s0 us t bs (dv_mem w)" and inv: "pbuf_inv c base L ext s0"
    and h: "inHead (dv_pc w) = Some (hd (us @ [t]))" "inTail (dv_pc w) = Some t"
    and len: "length bs < 65536" "int (length bs) < int (avail c base s0) * PBUF_POOL_BUFSIZE c"
  obtains us' t' s' where "ppp_data c pd x w = Inr (pc_set (\<lambda>pc. pc\<lparr>inTail := Some t'\<rparr>) (w\<lparr>dv_mem := s'\<rparr>))"
    "in_chain c base L ext s0 us' t' (bs @ [x]) s'" "hd (us' @ [t']) = hd (us @ [t])"
proof (cases "uint (pb_len (pm_pbuf (dv_mem w) t)) = PBUF_POOL_BUFSIZE c")
  case False
  have b: "bufs c base L (ext(hd (us @ [t]) := 1, t := 1)) s0 (us @ [t]) bs (dv_mem w)" using i by (simp add: in_chain_def)
  have "uint (pb_len (pm_pbuf (dv_mem w) t)) < PBUF_POOL_BUFSIZE c" using bufsD(4) [OF b, of t] False by (simp add: fillable_def)
  from in_chain_store [OF i this, of x] show thesis
    using that [of t "store_char t x (dv_mem w)" us] False h by (simp add: ppp_data_def mem_set_def pc_set_def)
next
  case True
  from ppp_join_ok [OF i inv len(1) h(1)] obtain s1 where s1: "ppp_join t w = Inr (w\<lparr>dv_mem := s1\<rparr>)" "joined c base L ext s0 (us @ [t]) bs s1"
    "\<forall>x. pb_len (pm_pbuf s1 x) = pb_len (pm_pbuf (dv_mem w) x)" by blast
  have b: "bufs c base L (ext(hd (us @ [t]) := 1)) s0 (us @ [t]) bs s1" using s1(2) by (simp add: joined_def)
  note conf = bufs_conf [OF b]
  have full: "\<forall>x\<in>set (us @ [t]). uint (pb_len (pm_pbuf s1 x)) = PBUF_POOL_BUFSIZE c" using i True s1(3) by (auto simp: in_chain_def)
  have "int (length bs) = int (length us + 1) * PBUF_POOL_BUFSIZE c" using in_chain_length(1) [OF i] True by (simp add: algebra_simps)
  then have "int (length us + 1) < int (avail c base s0)"
    using len(2) bufsize_bounds(1) [OF conf] by (simp add: mult_less_cancel_right del: of_nat_add)
  then have free: "0 < avail c base s1" using bufs_avail [OF b] by simp
  from bufsD(3) [OF b] show thesis
  proof (cases rule: raw_alloc)
    case null
    then show thesis using free by simp
  next
    case (some p s2)
    have i2: "in_chain c base L ext s0 (us @ [t]) p bs s2" by (rule in_chain_grow [OF s1(2) full some(2-6)])
    moreover have "uint (pb_len (pm_pbuf s2 p)) < PBUF_POOL_BUFSIZE c" using bufsize_bounds(1) [OF conf] by (simp add: some(4) raw_pbuf_def)
    ultimately have "in_chain c base L ext s0 (us @ [t]) p (bs @ [x]) (store_char p x s2)" by (rule in_chain_store)
    moreover have "ppp_data c pd x w = Inr (pc_set (\<lambda>pc. pc\<lparr>inTail := Some p\<rparr>) (w\<lparr>dv_mem := store_char p x s2\<rparr>))"
      using h True s1(1) some(1) by (simp add: ppp_data_def on_mem_def Let_def mem_set_def pc_set_def)
    ultimately show thesis using that [of p "store_char p x s2" "us @ [t]"] by (cases us) simp_all
  qed
qed

definition receiving :: "pbuf_conf \<Rightarrow> int \<Rightarrow> int set \<Rightarrow> (int \<Rightarrow> nat) \<Rightarrow> ppp_dev \<Rightarrow> int \<Rightarrow> u8 list \<Rightarrow> int list \<Rightarrow> int \<Rightarrow> u8 list \<Rightarrow> ppp_dev \<Rightarrow> bool" where
  "receiving c base L ext w0 pd xs us t pad w \<longleftrightarrow> length pad = 2 \<and>
     in_chain c base L ext (dv_mem w0) us t (pih pd (inProtocol (dv_pc w0)) pad @ xs) (dv_mem w) \<and>
     w = pc_set (\<lambda>pc. pc\<lparr>inHead := Some (hd (us @ [t])), inTail := Some t, inFCS := foldl crc_octet (inFCS pc) xs\<rparr>) (w0\<lparr>dv_mem := dv_mem w\<rparr>)"

definition in_data :: "pbuf_conf \<Rightarrow> int \<Rightarrow> int set \<Rightarrow> (int \<Rightarrow> nat) \<Rightarrow> ppp_dev \<Rightarrow> bool" where
  "in_data c base L ext w \<longleftrightarrow> pbuf_inv c base L ext (dv_mem w) \<and> inState (dv_pc w) = PDDATA \<and> \<not> inEscaped (dv_pc w) \<and>
     inHead (dv_pc w) = None \<and> inTail (dv_pc w) = None"

lemma data_octet:
  assumes "inState (dv_pc w) = PDDATA" "\<not> inEscaped (dv_pc w)"
  shows "ppp_octet c pd x w = lwip_bind (ppp_data c pd x w) (\<lambda>w. Inr (pc_set (\<lambda>pc. pc\<lparr>inFCS := crc_octet (inFCS pc) x\<rparr>) w))"
  using assms by (simp add: ppp_octet_def fcs_receive)

lemma pih_length: "length pad = 2 \<Longrightarrow> length (pih pd p pad) = 8"
  by (simp add: pih_def)

lemma ppp_data_octets:
  assumes d: "in_data c base L ext w" and xs: "xs \<noteq> []" "length xs + 8 < 65536" "int (length xs) + 8 \<le> int (avail c base (dv_mem w)) * PBUF_POOL_BUFSIZE c"
  shows "\<exists>us t pad w'. ppp_octets_in c pd xs w = Inr w' \<and> receiving c base L ext w pd xs us t pad w'"
  using xs
proof (induction xs rule: rev_induct)
  case (snoc x xs)
  have w: "inState (dv_pc w) = PDDATA" "\<not> inEscaped (dv_pc w)" "inHead (dv_pc w) = None" "inTail (dv_pc w) = None"
    and inv: "pbuf_inv c base L ext (dv_mem w)" using d by (simp_all add: in_data_def)
  have size: "40 < PBUF_POOL_BUFSIZE c" using pbuf_invD(1) [OF inv] bufsize_bounds(1) by (simp add: mem_wf_def)
  show ?case
  proof (cases "xs = []")
    case True
    have "0 < avail c base (dv_mem w)" using snoc.prems(3) by (cases "avail c base (dv_mem w)") auto
    then obtain n s' pad where n: "ppp_data c pd x w = Inr (pc_set (\<lambda>pc. pc\<lparr>inHead := Some n, inTail := Some n\<rparr>) (w\<lparr>dv_mem := s'\<rparr>))" "length pad = 2"
        "in_chain c base L ext (dv_mem w) [] n (pih pd (inProtocol (dv_pc w)) pad @ [x]) s'"
      using ppp_data_first [OF w(3,4) inv] by blast
    let ?w = "pc_set (\<lambda>pc. pc\<lparr>inFCS := crc_octet (inFCS pc) x\<rparr>) (pc_set (\<lambda>pc. pc\<lparr>inHead := Some n, inTail := Some n\<rparr>) (w\<lparr>dv_mem := s'\<rparr>))"
    have "ppp_octets_in c pd (xs @ [x]) w = Inr ?w" using True n(1) data_octet [OF w(1,2)] by simp
    moreover have "receiving c base L ext w pd (xs @ [x]) [] n pad ?w" using True n(2,3) by (simp add: receiving_def pc_set_def)
    ultimately show ?thesis by blast
  next
    case False
    then obtain us t pad w1 where w1: "ppp_octets_in c pd xs w = Inr w1" "receiving c base L ext w pd xs us t pad w1" using snoc by auto
    let ?bs = "pih pd (inProtocol (dv_pc w)) pad @ xs"
    have i: "in_chain c base L ext (dv_mem w) us t ?bs (dv_mem w1)" and p: "length pad = 2" and eq: "w1 = pc_set (\<lambda>pc. pc\<lparr>inHead := Some (hd (us @ [t])),
        inTail := Some t, inFCS := foldl crc_octet (inFCS pc) xs\<rparr>) (w\<lparr>dv_mem := dv_mem w1\<rparr>)" using w1(2) by (simp_all add: receiving_def)
    have pc: "dv_pc w1 = (dv_pc w)\<lparr>inHead := Some (hd (us @ [t])), inTail := Some t, inFCS := foldl crc_octet (inFCS (dv_pc w)) xs\<rparr>" by (subst eq) simp
    have h: "inHead (dv_pc w1) = Some (hd (us @ [t]))" "inTail (dv_pc w1) = Some t" by (simp_all add: pc)
    have "length ?bs < 65536" "int (length ?bs) < int (avail c base (dv_mem w)) * PBUF_POOL_BUFSIZE c" using snoc.prems p by (simp_all add: pih_length)
    from ppp_data_next [OF i inv h this, of pd x] obtain us' t' s' where n: "ppp_data c pd x w1 = Inr (pc_set (\<lambda>pc. pc\<lparr>inTail := Some t'\<rparr>) (w1\<lparr>dv_mem := s'\<rparr>))"
        "in_chain c base L ext (dv_mem w) us' t' (?bs @ [x]) s'" "hd (us' @ [t']) = hd (us @ [t])" by blast
    let ?w = "pc_set (\<lambda>pc. pc\<lparr>inFCS := crc_octet (inFCS pc) x\<rparr>) (pc_set (\<lambda>pc. pc\<lparr>inTail := Some t'\<rparr>) (w1\<lparr>dv_mem := s'\<rparr>))"
    have "ppp_octets_in c pd (xs @ [x]) w = Inr ?w" using w1(1) n(1) data_octet [of w1] pc w by (simp add: ppp_octets_in_app)
    moreover have "receiving c base L ext w pd (xs @ [x]) us' t' pad ?w"
      using n(2) p unfolding receiving_def by (subst (2) eq) (simp add: pc_set_def pc n(3))
    ultimately show ?thesis by blast
  qed
qed simp

end
