(* ===== verification/Ppp_Deliver.thy ===== *)
theory Ppp_Deliver
  imports Ppp_Frame_In
begin

text \<open>
  The end of a frame in \<open>pppInProc\<close>: the check sequence is trimmed off, over the border of two pbufs if need be, and the packet
  is posted.
\<close>

section \<open>A packet that has arrived\<close>

definition arrived :: "pbuf_conf \<Rightarrow> int \<Rightarrow> int set \<Rightarrow> (int \<Rightarrow> nat) \<Rightarrow> pbuf_mem \<Rightarrow> int list \<Rightarrow> u8 list \<Rightarrow> pbuf_mem \<Rightarrow> bool" where
  "arrived c base L ext s0 ps bs s \<longleftrightarrow> set ps \<inter> L = {} \<and> pbuf_inv c base (L \<union> set ps) (ext(hd ps := 1)) s \<and>
     lst (nxt s) (Some (hd ps)) ps \<and> lens_ok (L \<union> set ps) s \<and> chain_bytes s ps = bs \<and>
     (\<forall>x\<in>L. pm_pbuf s x = pm_pbuf s0 x \<and> (pb_type (pm_pbuf s0 x) \<in> {PBUF_RAM, PBUF_POOL} \<longrightarrow> pbuf_bytes s x = pbuf_bytes s0 x)) \<and>
     (\<forall>k. class_ok c k \<longrightarrow> {a \<in> areas c base k s. fst a \<notin> L \<union> set ps} = {a \<in> areas c base k s0. fst a \<notin> L})"

lemma joined_lens:
  assumes j: "joined c base L ext s0 ps bs s" and inv: "pbuf_inv c base L ext s0" and len: "lens_ok L s0"
  shows "lens_ok (L \<union> set ps) s"
proof -
  have b: "bufs c base L (ext(hd ps := 1)) s0 ps bs s" using j by (simp add: joined_def)
  have same: "pm_pbuf s x = pm_pbuf s0 x" if "x \<in> L" for x using b that by (auto simp: bufs_def)
  have "pm_pbuf s y = pm_pbuf s0 y" if "nxt s0 x = Some y" "x \<in> L" for x y using same nxt_in [OF inv that(2,1)] by simp
  then have "lens_ok L s" using len by (auto simp: lens_ok_def same split: option.splits)
  then show ?thesis using j by (auto simp: joined_def lens_ok_def)
qed

lemma joined_arrived:
  assumes j: "joined c base L ext s0 ps bs s" and inv: "pbuf_inv c base L ext s0" and len: "lens_ok L s0"
  shows "arrived c base L ext s0 ps bs s"
proof -
  have b: "bufs c base L (ext(hd ps := 1)) s0 ps bs s" using j by (simp add: joined_def)
  have "pm_pbuf s x = pm_pbuf s0 x" if "x \<in> L" for x using b that by (auto simp: bufs_def)
  moreover have "{a \<in> areas c base k s. fst a \<notin> L \<union> set ps} = {a \<in> areas c base k s0. fst a \<notin> L}" if "class_ok c k" for k
    using bufsD(6,7) [OF b that] by force
  ultimately show ?thesis
    using j bufsD(2,3,5) [OF b] bufs_others(2) [OF b inv] joined_lens [OF j inv len] by (simp add: arrived_def joined_def)
qed

text \<open>A reference count is determined by the pointers, so new pbufs elsewhere do not change it.\<close>

lemma refs_same:
  assumes inv: "pbuf_inv c base L ext s0" "pbuf_inv c base (L \<union> P) ext' s" and x: "x \<in> L" "ext' x = ext x"
    and nx: "\<forall>y\<in>L. nxt s y = nxt s0 y" "\<forall>y\<in>P. nxt s y \<noteq> Some x"
  shows "pb_ref (pm_pbuf s x) = pb_ref (pm_pbuf s0 x)"
proof -
  have "ptrs (L \<union> P) s x = ptrs L s0 x" using nx by (auto simp: ptrs_def)
  then show ?thesis using pbuf_invD(5) [OF inv(1) x(1)] pbuf_invD(5) [OF inv(2), of x] x by (simp add: word_unat_eq_iff)
qed

section \<open>Trimming\<close>

lemma chain_bytes_length: "length (chain_bytes s ps) = lens_of s ps"
  by (simp add: chain_bytes_def length_concat o_def lens_of_def)

lemma chain_bytes_cut:
  assumes f: "pm_byte s' = pm_byte s" "\<And>x. pb_payload (pm_pbuf s' x) = pb_payload (pm_pbuf s x)"
      "\<And>x. pb_len (pm_pbuf s' x) = (if x = q then rm else pb_len (pm_pbuf s x))"
    and q: "q \<notin> set us" "rm \<le> pb_len (pm_pbuf s q)"
  shows "chain_bytes s' (us @ [q]) = take (lens_of s us + unat rm) (chain_bytes s (us @ q # ys))"
proof -
  have "pbuf_bytes s' x = pbuf_bytes s x" if "x \<in> set us" for x using that q(1) by (auto simp: pbuf_bytes_def f)
  then have "chain_bytes s' us = chain_bytes s us" by (simp add: chain_bytes_def cong: map_cong)
  moreover have "pbuf_bytes s' q = take (unat rm) (pbuf_bytes s q)" using q(2) by (simp add: pbuf_bytes_def f take_map word_le_nat_alt)
  moreover have "unat rm \<le> length (pbuf_bytes s q)" using q(2) by (simp add: word_le_nat_alt)
  ultimately show ?thesis using chain_bytes_length [of s us] by (simp add: chain_bytes_def)
qed

lemma realloc_trims:
  assumes j: "joined c base L ext s0 ps (bs @ [a, b]) s" and inv: "pbuf_inv c base L ext s0" and len: "lens_ok L s0"
  obtains s' ps' where "pbuf_realloc c (hd ps) (pb_tot_len (pm_pbuf s (hd ps)) - 2) s = Inr s'"
    "arrived c base L ext s0 ps' bs s'" "hd ps' = hd ps"
    "\<And>m. m \<le> uint (pb_len (pm_pbuf s (hd ps))) \<Longrightarrow> m \<le> int (length bs) \<Longrightarrow> m \<le> uint (pb_len (pm_pbuf s' (hd ps)))"
proof -
  let ?h = "hd ps"
  have bu: "bufs c base L (ext(?h := 1)) s0 ps (bs @ [a, b]) s" and ch: "lst (nxt s) (Some ?h) ps" using j by (simp_all add: joined_def)
  note disj = bufsD(2) [OF bu] and inv' = bufsD(3) [OF bu]
  have ne: "ps \<noteq> []" using ch by auto
  have hL: "?h \<in> L \<union> set ps" using ne by simp
  have same: "pm_pbuf s x = pm_pbuf s0 x" if "x \<in> L" for x using bu disj that by (auto simp: bufs_def)
  have inL: "nxt s y = Some x \<Longrightarrow> x \<in> L" if "y \<in> L" for x y using same [OF that] nxt_in [OF inv that] by simp
  note lens = joined_lens [OF j inv len]
  have tot: "unat (pb_tot_len (pm_pbuf s ?h)) = length bs + 2"
  proof -
    have "length (chain_bytes s ps) = unat (pb_tot_len (pm_pbuf s ?h))" using lens_sum [OF lens ch] by (simp add: chain_bytes_length lens_of_def)
    then show ?thesis using bufsD(5) [OF bu] by simp
  qed
  define n where "n = pb_tot_len (pm_pbuf s ?h) - 2"
  have n: "unat n = length bs" using tot by (simp add: n_def unat_sub word_le_nat_alt)
  have new: "n < pb_tot_len (pm_pbuf s ?h)" using n tot by (simp add: word_less_nat_alt)
  have priv: "\<forall>y\<in>L \<union> set ps. \<forall>x\<in>set ps. nxt s y = Some x \<longrightarrow> y \<in> set ps" using inL disj by blast
  show thesis
  proof (rule pbuf_realloc_cut [OF inv' lens hL ch priv new])
    fix s' us q ys rm
    assume r: "pbuf_realloc c ?h n s = Inr s'" and ps: "ps = us @ q # ys" and rm: "unat n = lens_of s us + unat rm" "rm \<le> pb_len (pm_pbuf s q)"
      and i: "pbuf_inv c base (L \<union> set ps - set (sole s ys)) (ext(?h := 1)) s'" "lens_ok (L \<union> set ps - set (sole s ys)) s'"
      and ar: "\<And>k. class_ok c k \<Longrightarrow> {a \<in> areas c base k s'. fst a \<notin> L \<union> set ps - set (sole s ys)} = {a \<in> areas c base k s. fst a \<notin> L \<union> set ps}"
      and f: "pm_byte s' = pm_byte s" "nxt s' = (nxt s)(q := None)" "\<And>x. pb_payload (pm_pbuf s' x) = pb_payload (pm_pbuf s x)"
        "\<And>x. pb_len (pm_pbuf s' x) = (if x = q then rm else pb_len (pm_pbuf s x))"
        "\<And>x. x \<in> L \<union> set ps - set ps \<Longrightarrow> (pm_pbuf s' x)\<lparr>pb_ref := 0\<rparr> = (pm_pbuf s x)\<lparr>pb_ref := 0\<rparr>"
    have dist: "distinct (us @ q # ys)" using bufsD(1) [OF bu] ps by simp
    have sole: "sole s ys = ys" using bufsD(4) [OF bu] ps by (auto simp: sole_def fillable_def takeWhile_eq_all_conv)
    have LP: "L \<union> set ps - set (sole s ys) = L \<union> set (us @ [q])" using dist disj unfolding sole ps by auto
    have hd: "hd (us @ [q]) = ?h" unfolding ps by (cases us) simp_all
    have out: "nxt s' y \<noteq> Some x" if "y \<in> set (us @ [q])" "x \<in> L" for x y
    proof
      assume "nxt s' y = Some x"
      then have "nxt s y = Some x" "y \<in> set ps" using that(1) ps by (auto simp: fun_cong [OF f(2)] split: if_splits)
      then show False using that(2) disj lst_leave [of "nxt s" "Some ?h" ps "[]" y x] ch by auto
    qed
    have inv2: "pbuf_inv c base (L \<union> set (us @ [q])) (ext(?h := 1)) s'" using i(1) LP by simp
    have old: "pm_pbuf s' x = pm_pbuf s0 x" if x: "x \<in> L" for x
    proof -
      have xp: "x \<notin> set ps" "q \<notin> L" using x disj ps by auto
      then have "x \<noteq> ?h" using ne hd_in_set by metis
      then have "\<forall>y\<in>L. nxt s' y = nxt s0 y" using same xp(2) by (auto simp: fun_cong [OF f(2)])
      then have "pb_ref (pm_pbuf s' x) = pb_ref (pm_pbuf s0 x)" using out x \<open>x \<noteq> ?h\<close> by (intro refs_same [OF inv inv2]) auto
      moreover have "(pm_pbuf s' x)\<lparr>pb_ref := 0\<rparr> = (pm_pbuf s0 x)\<lparr>pb_ref := 0\<rparr>" using f(5) x xp same by simp
      ultimately show ?thesis by (cases "pm_pbuf s' x"; cases "pm_pbuf s0 x") simp
    qed
    have "pbuf_bytes s' x = pbuf_bytes s x" if "x \<in> L" for x using that disj ps by (auto simp: pbuf_bytes_def f(1,3,4))
    moreover have "chain_bytes s' (us @ [q]) = bs"
      using chain_bytes_cut [OF f(1,3,4) _ rm(2), of us ys] dist bufsD(5) [OF bu] rm(1) n ps by simp
    moreover have "lst (nxt s') (Some ?h) (us @ [q])" unfolding f(2) using lst_cut ch ps by auto
    ultimately have "arrived c base L ext s0 (us @ [q]) bs s'"
      using joined_arrived [OF j inv len] inv2 i(2) ar old disj ps unfolding arrived_def LP hd by auto
    moreover have "m \<le> uint (pb_len (pm_pbuf s' ?h))" if "m \<le> uint (pb_len (pm_pbuf s ?h))" "m \<le> int (length bs)" for m
    proof (cases "?h = q")
      case True
      then have "us = []" using dist unfolding ps by (cases us) auto
      then have "int (unat rm) = int (length bs)" using rm(1) n by (simp add: lens_of_def)
      then show ?thesis using that(2) True by (simp add: f(4))
    qed (use that in \<open>simp add: f(4)\<close>)
    ultimately show thesis using that r hd unfolding n_def by blast
  qed
qed

lemma in_chain_shorten:
  assumes i: "in_chain c base L ext s0 us t (bs @ [a, b]) s" and len: "2 \<le> pb_len (pm_pbuf s t)"
  shows "in_chain c base L ext s0 us t bs (pb t (\<lambda>b. b\<lparr>pb_len := pb_len b - 2\<rparr>) s)" (is "in_chain _ _ _ _ _ _ _ _ ?s")
proof -
  note d = in_chainD [OF i]
  let ?n = "pb_len (pm_pbuf s t)"
  have n: "unat (?n - 2) = unat ?n - 2" using len by (simp add: unat_sub)
  have eq: "?s = s\<lparr>pm_pbuf := (pm_pbuf s)(t := (pm_pbuf s t)\<lparr>pb_len := ?n - 2\<rparr>), pm_byte := pm_byte s\<rparr>" by (simp add: pb_def)
  have "uint (?n - 2) \<le> uint ?n" using len by (simp add: uint_minus_simple_alt [symmetric] word_le_minus_mono_left word_le_def [symmetric] word_sub_le)
  then have f: "fillable c ((pm_pbuf s t)\<lparr>pb_len := ?n - 2\<rparr>) t" using d(1) by (simp add: fillable_def)
  have "pbuf_bytes ?s t = take (length (pbuf_bytes s t) - 2) (pbuf_bytes s t)" by (simp add: pbuf_bytes_def pbuf_simps n take_map)
  moreover have "2 \<le> length (pbuf_bytes s t)" using len by (simp add: word_le_nat_alt)
  then have "take (length (bs @ [a, b]) - 2) (bs @ [a, b]) = chain_bytes s us @ take (length (pbuf_bytes s t) - 2) (pbuf_bytes s t)"
    unfolding d(3) by simp
  ultimately have "chain_bytes s us @ pbuf_bytes ?s t = bs" by simp
  then show ?thesis using in_chain_update [OF i f _ _ eq] d(2) by simp
qed

section \<open>The closing flag\<close>

text \<open>The two ways of trimming lead to the same packet.\<close>

lemma ppp_deliver_ok:
  assumes i: "in_chain c base L ext s0 us t (bs @ [a, b]) (dv_mem w)" and inv: "pbuf_inv c base L ext s0" "lens_ok L s0"
    and h: "inHead (dv_pc w) = Some (hd (us @ [t]))" "inTail (dv_pc w) = Some t"
    and len: "length bs + 2 < 65536" "8 \<le> length bs" and post: "post (dv_mbox w)"
  obtains s' ps where "arrived c base L ext s0 ps bs s'" "8 \<le> uint (pb_len (pm_pbuf s' (hd ps)))" "ppp_deliver c post w =
      Inr (pc_set (\<lambda>pc. pc\<lparr>inHead := None, inTail := None\<rparr>) (w\<lparr>dv_mem := s', dv_mbox := dv_mbox w @ [hd ps]\<rparr>))"
proof (cases "2 \<le> pb_len (pm_pbuf (dv_mem w) t)")
  case True
  let ?w = "mem_set (pb t (\<lambda>b. b\<lparr>pb_len := pb_len b - 2\<rparr>)) w"
  have i': "in_chain c base L ext s0 us t bs (dv_mem ?w)" using in_chain_shorten [OF i True] by simp
  from ppp_join_ok [OF i' inv(1)] obtain s' where s': "ppp_join t ?w = Inr (?w\<lparr>dv_mem := s'\<rparr>)" "joined c base L ext s0 (us @ [t]) bs s'"
      "\<forall>x. pb_len (pm_pbuf s' x) = pb_len (pm_pbuf (dv_mem ?w) x)"
    using h(1) len(1) by auto
  have "ppp_deliver c post w = Inr (pc_set (\<lambda>pc. pc\<lparr>inHead := None, inTail := None\<rparr>) (w\<lparr>dv_mem := s', dv_mbox := dv_mbox w @ [hd (us @ [t])]\<rparr>))"
    using True h s'(1) post by (simp add: ppp_deliver_def pc_set_def mem_set_def)
  moreover have "8 \<le> uint (pb_len (pm_pbuf s' (hd (us @ [t]))))" using in_chain_head [OF i' len(2)] s'(3) by simp
  ultimately show thesis using that joined_arrived [OF s'(2) inv] by blast
next
  case False
  from ppp_join_ok [OF i inv(1) _ h(1)] obtain s1 where s1: "ppp_join t w = Inr (w\<lparr>dv_mem := s1\<rparr>)" "joined c base L ext s0 (us @ [t]) (bs @ [a, b]) s1"
      "\<forall>x. pb_len (pm_pbuf s1 x) = pb_len (pm_pbuf (dv_mem w) x)"
    using len(1) by auto
  obtain s' ps where s': "pbuf_realloc c (hd (us @ [t])) (pb_tot_len (pm_pbuf s1 (hd (us @ [t]))) - 2) s1 = Inr s'"
      "arrived c base L ext s0 ps bs s'" "hd ps = hd (us @ [t])"
      "\<And>m. m \<le> uint (pb_len (pm_pbuf s1 (hd (us @ [t])))) \<Longrightarrow> m \<le> int (length bs) \<Longrightarrow> m \<le> uint (pb_len (pm_pbuf s' (hd (us @ [t]))))"
    using realloc_trims [OF s1(2) inv] by blast
  have "8 \<le> uint (pb_len (pm_pbuf (dv_mem w) (hd (us @ [t]))))" using in_chain_head [OF i] len(2) by simp
  then have "8 \<le> uint (pb_len (pm_pbuf s' (hd ps)))" using s'(3) s'(4) [of 8] s1(3) len(2) by simp
  moreover
  have "ppp_deliver c post w = Inr (pc_set (\<lambda>pc. pc\<lparr>inHead := None, inTail := None\<rparr>) (w\<lparr>dv_mem := s', dv_mbox := dv_mbox w @ [hd ps]\<rparr>))"
    using False h s1(1) s'(1,3) post by (simp add: ppp_deliver_def in_mem_def pc_set_def)
  ultimately show thesis using that s'(2) by blast
qed

section \<open>A whole frame\<close>

text \<open>The receiver between two frames.\<close>

definition ready :: "pbuf_conf \<Rightarrow> int \<Rightarrow> int set \<Rightarrow> (int \<Rightarrow> nat) \<Rightarrow> ext_accm \<Rightarrow> ppp_dev \<Rightarrow> bool" where
  "ready c base L ext a w \<longleftrightarrow> pbuf_inv c base L ext (dv_mem w) \<and> lens_ok L (dv_mem w) \<and> plain a w \<and>
     inState (dv_pc w) = PDADDRESS \<and> inFCS (dv_pc w) = PPP_INITFCS \<and> inHead (dv_pc w) = None \<and> inTail (dv_pc w) = None"

lemma flag_char: "plain a w \<Longrightarrow> pppInProc c post pd [PPP_FLAG] w = ppp_flag c post w"
  by (simp add: ppp_char_def plain_def accm_match_def ppp_octets lwip_bind_def split: sum.split)

lemma flag_ready:
  assumes "ready c base L ext a w"
  shows "pppInProc c post pd [PPP_FLAG] w = Inr w"
  using assms flag_char [of a w] by (simp add: ready_def plain_def ppp_flag_def pc_set_def)

lemma ready_header:
  assumes r: "ready c base L ext a w" and p: "protocol_ok p"
  shows "pppInProc c post pd (stuff a (ppp_header pc p)) w = Inr (after_header p (ppp_header pc p) w)"
    "in_data c base L ext (after_header p (ppp_header pc p) w)" "plain a (after_header p (ppp_header pc p) w)"
proof -
  have w: "plain a w" "\<not> inEscaped (dv_pc w)" "inState (dv_pc w) = PDADDRESS" using r by (simp_all add: ready_def plain_def)
  show "pppInProc c post pd (stuff a (ppp_header pc p)) w = Inr (after_header p (ppp_header pc p) w)"
    using pppInProc_stuff [OF w(1)] ppp_header_parsed [OF w(2,3) p] by simp
  show "in_data c base L ext (after_header p (ppp_header pc p) w)" "plain a (after_header p (ppp_header pc p) w)"
    using r by (simp_all add: ready_def in_data_def after_header_def plain_def)
qed

lemma pppInProc_frame:
  assumes r: "ready c base L ext a w" and p: "protocol_ok p" and post: "post (dv_mbox w)"
    and len: "length data + 10 < 65536" "int (length data) + 10 \<le> int (avail c base (dv_mem w)) * PBUF_POOL_BUFSIZE c"
  obtains s' ps pad where "length pad = 2" "arrived c base L ext (dv_mem w) ps (pih pd p pad @ data) s'"
    "8 \<le> uint (pb_len (pm_pbuf s' (hd ps)))"
    "pppInProc c post pd (hdlc_frame a (ppp_header pc p @ data)) w =
      Inr (pc_set (\<lambda>pc'. pc'\<lparr>inProtocol := p\<rparr>) (w\<lparr>dv_mem := s', dv_mbox := dv_mbox w @ [hd ps]\<rparr>))"
proof -
  let ?hd = "ppp_header pc p" and ?w = "after_header p (ppp_header pc p) w"
  let ?xs = "data @ fcs_octets (fcs_of (?hd @ data))"
  note h = ready_header(1) [OF r p, where pc = pc and post = post and pd = pd] ready_header(2,3) [OF r p, of pc]
  have fcs: "fcs_octets f = [fcs_octets f ! 0, fcs_octets f ! 1]" for f by (simp add: fcs_octets_def)
  have good: "foldl crc_octet (inFCS (dv_pc ?w)) ?xs = PPP_GOODFCS"
  proof -
    have "inFCS (dv_pc ?w) = fcs_of ?hd" using r by (simp add: after_header_def ready_def fcs_of_def)
    then show ?thesis using good_fcs [of "fcs_of (?hd @ data)"] by (simp add: fcs_of_def)
  qed
  have "?xs \<noteq> []" "length ?xs + 8 < 65536" "int (length ?xs) + 8 \<le> int (avail c base (dv_mem ?w)) * PBUF_POOL_BUFSIZE c"
    using len by (simp_all add: fcs_octets_def after_header_def)
  from ppp_data_octets [OF h(2) this, of pd] obtain us t pad w1 where
    w1: "ppp_octets_in c pd ?xs ?w = Inr w1" "receiving c base L ext ?w pd ?xs us t pad w1" by blast
  have rc: "length pad = 2" "in_chain c base L ext (dv_mem w) us t ((pih pd p pad @ data) @ fcs_octets (fcs_of (?hd @ data))) (dv_mem w1)"
    and eq: "w1 = pc_set (\<lambda>pc. pc\<lparr>inHead := Some (hd (us @ [t])), inTail := Some t, inFCS := PPP_GOODFCS\<rparr>) (?w\<lparr>dv_mem := dv_mem w1\<rparr>)"
    using w1(2) good by (simp_all add: receiving_def after_header_def pc_set_def)
  have pc1: "dv_pc w1 = (dv_pc ?w)\<lparr>inHead := Some (hd (us @ [t])), inTail := Some t, inFCS := PPP_GOODFCS\<rparr>" "dv_mbox w1 = dv_mbox w"
    by (subst eq; simp add: after_header_def)+
  have pl: "plain a w1" using h(3) by (simp add: plain_def pc1)
  obtain s' ps where d: "arrived c base L ext (dv_mem w) ps (pih pd p pad @ data) s'" "8 \<le> uint (pb_len (pm_pbuf s' (hd ps)))"
      "ppp_deliver c post w1 = Inr (pc_set (\<lambda>pc. pc\<lparr>inHead := None, inTail := None\<rparr>) (w1\<lparr>dv_mem := s', dv_mbox := dv_mbox w1 @ [hd ps]\<rparr>))"
  proof (rule ppp_deliver_ok [of c base L ext "dv_mem w" us t "pih pd p pad @ data" "fcs_octets (fcs_of (?hd @ data)) ! 0" "fcs_octets (fcs_of (?hd @ data)) ! 1" w1 post])
    show "in_chain c base L ext (dv_mem w) us t ((pih pd p pad @ data) @
        [fcs_octets (fcs_of (?hd @ data)) ! 0, fcs_octets (fcs_of (?hd @ data)) ! 1]) (dv_mem w1)" using rc(2) fcs by metis
  qed (use r len post in \<open>simp_all add: ready_def pc1 pih_length [OF rc(1)]\<close>)
  have "hdlc_frame a (?hd @ data) = stuff a ?hd @ stuff a ?xs @ [PPP_FLAG]" by (simp add: hdlc_frame_def)
  then have "pppInProc c post pd (hdlc_frame a (?hd @ data)) w = pppInProc c post pd [PPP_FLAG] w1"
    using h(1) pppInProc_stuff [OF h(3), of c post pd ?xs] w1(1) by (simp add: pppInProc_app del: pppInProc.simps stuff_simps)
  also have "\<dots> = ppp_flag c post w1" by (rule flag_char [OF pl])
  also have "\<dots> = Inr (pc_set (\<lambda>pc'. pc'\<lparr>inProtocol := p\<rparr>) (w\<lparr>dv_mem := s', dv_mbox := dv_mbox w @ [hd ps]\<rparr>))"
    using d(3) r by (subst (asm) (2) eq) (simp add: ppp_flag_def pc1 after_header_def pc_set_def ready_def plain_def)
  finally show thesis using that rc(1) d(1,2) by blast
qed

end
