(* ===== verification/Ppp_Drop.thy ===== *)
theory Ppp_Drop
  imports Ppp_Deliver
begin

text \<open>
  Frames that are not delivered: a damaged frame is dropped and its pbufs go back to the pool; a frame without data and a
  frame longer than the pool lead to failures of the program.
\<close>

section \<open>Freeing a packet\<close>

lemma lst_pred_unique:
  assumes ch: "lst nx (Some h) ps" and y: "y \<in> set ps" "nx y = Some x" and z: "z \<in> set ps" "nx z = Some x"
  shows "y = z"
proof -
  obtain a b where ab: "ps = a @ y # b" "lst nx (Some y) (y # b)" using lst_suffix [OF ch y(1)] by blast
  obtain a' b' where ab': "ps = a' @ z # b'" "lst nx (Some z) (z # b')" using lst_suffix [OF ch z(1)] by blast
  have "lst nx (Some x) b" "lst nx (Some x) b'" using ab(2) ab'(2) y(2) z(2) by simp_all
  then have "b = b'" by (rule lst_unique)
  then show ?thesis using ab(1) ab'(1) by simp
qed

lemma lst_head_free:
  assumes ch: "lst nx (Some h) ps" and y: "y \<in> set ps"
  shows "nx y \<noteq> Some h"
proof
  assume n: "nx y = Some h"
  obtain a b where ab: "ps = a @ y # b" "lst nx (Some y) (y # b)" using lst_suffix [OF ch y] by blast
  have "lst nx (Some h) b" using ab(2) n by simp
  then have "length b = length ps" using lst_unique [OF ch] by simp
  then show False using arg_cong [OF ab(1), of length] by simp
qed

text \<open>In a packet of its own every pbuf has one reference.\<close>

lemma chain_refs:
  assumes inv0: "pbuf_inv c base L ext s0" and inv: "pbuf_inv c base (L \<union> set ps) (ext(hd ps := 1)) s" and disj: "set ps \<inter> L = {}"
    and ch: "lst (nxt s) (Some (hd ps)) ps" and same: "\<forall>x\<in>L. nxt s x = nxt s0 x" and x: "x \<in> set ps"
  shows "pb_ref (pm_pbuf s x) = 1"
proof -
  have e: "ext x = 0" using pbuf_invD(3) [OF inv0] x disj by auto
  have "nxt s0 y = Some z \<Longrightarrow> z \<in> L" if "y \<in> L" for y z using nxt_in [OF inv0 that] .
  then have pt: "ptrs (L \<union> set ps) s x = {y \<in> set ps. nxt s y = Some x}" using same x disj by (auto simp: ptrs_def)
  have "card {y \<in> set ps. nxt s y = Some x} + (ext(hd ps := 1)) x = 1"
  proof (cases "x = hd ps")
    case True
    then show ?thesis using lst_head_free [OF ch] by simp
  next
    case False
    then obtain q where "q \<in> set ps" "nxt s q = Some x" using lst_pred [OF ch x] by blast
    then have "{y \<in> set ps. nxt s y = Some x} = {q}" using lst_pred_unique [OF ch] by blast
    then show ?thesis using False e by simp
  qed
  then have "unat (pb_ref (pm_pbuf s x)) = 1" using pbuf_invD(5) [OF inv, of x] x pt by simp
  then show ?thesis by (simp add: word_unat_eq_iff)
qed

text \<open>The pbufs of others are as before, and nothing else is allocated that was not.\<close>

definition recovered :: "pbuf_conf \<Rightarrow> int \<Rightarrow> int set \<Rightarrow> pbuf_mem \<Rightarrow> pbuf_mem \<Rightarrow> bool" where
  "recovered c base L s0 s \<longleftrightarrow>
     (\<forall>x\<in>L. pm_pbuf s x = pm_pbuf s0 x \<and> (pb_type (pm_pbuf s0 x) \<in> {PBUF_RAM, PBUF_POOL} \<longrightarrow> pbuf_bytes s x = pbuf_bytes s0 x)) \<and>
     (\<forall>k. class_ok c k \<longrightarrow> {a \<in> areas c base k s. fst a \<notin> L} = {a \<in> areas c base k s0. fst a \<notin> L})"

lemma arrived_free:
  assumes a: "arrived c base L ext s0 ps bs s" and inv: "pbuf_inv c base L ext s0"
  obtains n s' where "pbuf_free c (Some (hd ps)) s = Inr (n, s')" "pbuf_inv c base L ext s'" "recovered c base L s0 s'"
proof -
  have disj: "set ps \<inter> L = {}" and inv': "pbuf_inv c base (L \<union> set ps) (ext(hd ps := 1)) s" and ch: "lst (nxt s) (Some (hd ps)) ps"
    and old: "\<And>x. x \<in> L \<Longrightarrow> pm_pbuf s x = pm_pbuf s0 x" using a by (simp_all add: arrived_def)
  have "pb_ref (pm_pbuf s x) = 1" if "x \<in> set ps" for x using chain_refs [OF inv inv' disj ch _ that] old by simp
  then have sole: "sole s ps = ps" by (simp add: sole_def takeWhile_eq_all_conv)
  have hd: "hd ps \<in> set ps" using ch by (cases ps) auto
  then have "ext (hd ps) = 0" using pbuf_invD(3) [OF inv] disj by auto
  then have e: "(ext(hd ps := 1))(hd ps := (ext(hd ps := 1)) (hd ps) - 1) = ext" by (simp add: fun_upd_idem)
  have LP: "L \<union> set ps - set ps = L" using disj by auto
  have pos: "0 < (ext(hd ps := 1)) (hd ps)" by simp
  from pbuf_free_ok [OF inv' pos ch, unfolded sole LP e] obtain s' where
    s': "pbuf_free c (Some (hd ps)) s = Inr (of_nat (length ps), s')" "pbuf_inv c base L ext s'" "freed c base (set ps) s s'" by blast
  have same: "pm_pbuf s' x = pm_pbuf s0 x" if x: "x \<in> L" for x
  proof -
    have "pb_ref (pm_pbuf s' x) = pb_ref (pm_pbuf s0 x)"
      using refs_same [OF inv, of "{}" ext s' x] s'(2) x old freedD(1) [OF s'(3)] by simp
    moreover have "(pm_pbuf s' x)\<lparr>pb_ref := 0\<rparr> = (pm_pbuf s0 x)\<lparr>pb_ref := 0\<rparr>" using s'(3) old [OF x] by (simp add: freed_def)
    ultimately show ?thesis by (cases "pm_pbuf s' x"; cases "pm_pbuf s0 x") simp
  qed
  have "pbuf_bytes s' x = pbuf_bytes s x" for x using s'(3) freedD(2,3) [OF s'(3)] by (simp add: pbuf_bytes_def freed_def)
  moreover have "{a \<in> areas c base k s'. fst a \<notin> L} = {a \<in> areas c base k s0. fst a \<notin> L}" if "class_ok c k" for k
    using a s'(3) that by (auto simp: arrived_def freed_def)
  ultimately have "recovered c base L s0 s'" using same a by (simp add: recovered_def arrived_def)
  then show thesis using that s'(1,2) by blast
qed

text \<open>Dropping a packet that is being received: the last pbuf is not linked to the others, so both are freed.\<close>

lemma tail_freed:
  assumes i: "in_chain c base L ext s0 us t bs s" and inv: "pbuf_inv c base L ext s0" "lens_ok L s0" and us: "us \<noteq> []"
  obtains s' where "pbuf_free c (Some t) s = Inr (1, s')" "arrived c base L ext s0 us (chain_bytes s us) s'"
proof -
  let ?E = "ext(hd (us @ [t]) := 1, t := 1)"
  have b: "bufs c base L ?E s0 (us @ [t]) bs s" and l: "lst (nxt s) (Some (hd us)) us" and t: "nxt s t = None" and lens: "lens_ok (set us) s"
    using i us by (simp_all add: in_chain_def)
  have dist: "t \<notin> set us" "hd us \<noteq> t" "t \<notin> L" using bufsD(1,2) [OF b] us by auto
  have sole: "sole s [t] = [t]" using bufsD(4) [OF b, of t] by (simp add: sole_def fillable_def)
  have "ext t = 0" using pbuf_invD(3) [OF inv(1) dist(3)] .
  then have E: "?E(t := ?E t - 1) = ext(hd us := 1)" using us dist(2) by (auto simp: fun_eq_iff)
  have LP: "L \<union> set (us @ [t]) - set [t] = L \<union> set us" using dist by auto
  have pos: "0 < ?E t" and lt: "lst (nxt s) (Some t) [t]" using t by simp_all
  from pbuf_free_ok [OF bufsD(3) [OF b] pos lt, unfolded sole LP E] obtain s' where
    s': "pbuf_free c (Some t) s = Inr (1, s')" "pbuf_inv c base (L \<union> set us) (ext(hd us := 1)) s'" "freed c base (set [t]) s s'" by auto
  note fd = freedD [OF s'(3)]
  have nx: "nxt s' = nxt s" by (simp add: fd(1))
  have old: "pm_pbuf s x = pm_pbuf s0 x" if "x \<in> L" for x using b bufsD(2) [OF b] that by (auto simp: bufs_def)
  have same: "pm_pbuf s' x = pm_pbuf s0 x" if x: "x \<in> L" for x
  proof -
    have "nxt s' y \<noteq> Some x" if "y \<in> set us" for y
      using lst_leave [of "nxt s" "Some (hd us)" us "[]" y x] l that x bufsD(2) [OF b] by (auto simp: fd(1))
    moreover have "hd us \<in> set us" using us by simp
    then have "x \<noteq> hd us" using x bufsD(2) [OF b] by auto
    ultimately have "pb_ref (pm_pbuf s' x) = pb_ref (pm_pbuf s0 x)"
      using refs_same [OF inv(1) s'(2) x] old x by (auto simp: fd(1))
    moreover have "(pm_pbuf s' x)\<lparr>pb_ref := 0\<rparr> = (pm_pbuf s0 x)\<lparr>pb_ref := 0\<rparr>" using s'(3) old [OF x] by (simp add: freed_def)
    ultimately show ?thesis by (cases "pm_pbuf s' x"; cases "pm_pbuf s0 x") simp
  qed
  have bytes: "pbuf_bytes s' = pbuf_bytes s" by (rule same_struct_bytes) (use s'(3) in \<open>simp_all add: fd freed_def\<close>)
  have "lens_ok L s'"
  proof -
    have "pm_pbuf s' y = pm_pbuf s0 y" if "nxt s0 x = Some y" "x \<in> L" for x y using same nxt_in [OF inv(1) that(2,1)] by simp
    then show ?thesis using inv(2) by (auto simp: lens_ok_def same split: option.splits)
  qed
  moreover have "lens_ok (set us) s'" using lens by (auto simp: lens_ok_def fd split: option.splits)
  ultimately have "lens_ok (L \<union> set us) s'" by (auto simp: lens_ok_def)
  moreover have "{a \<in> areas c base k s'. fst a \<notin> L \<union> set us} = {a \<in> areas c base k s0. fst a \<notin> L}" if k: "class_ok c k" for k
    using s'(3) bufsD(6,7) [OF b k] k by (force simp: freed_def)
  ultimately have "arrived c base L ext s0 us (chain_bytes s us) s'"
    using s'(2) l bufsD(2) [OF b] same bufs_others(2) [OF b inv(1)] unfolding arrived_def nx by (simp add: chain_bytes_def bytes)
  then show thesis using that s'(1) by blast
qed

lemma pppDrop_ok:
  assumes i: "in_chain c base L ext s0 us t bs (dv_mem w)" and inv: "pbuf_inv c base L ext s0" "lens_ok L s0"
    and h: "inHead (dv_pc w) = Some (hd (us @ [t]))" "inTail (dv_pc w) = Some t"
  obtains s' where "pbuf_inv c base L ext s'" "recovered c base L s0 s'"
    "pppDrop c w = Inr (LINK_STATS_INC DROP (pc_set (\<lambda>pc. pc\<lparr>inHead := None, inTail := None\<rparr>) (w\<lparr>dv_mem := s'\<rparr>)))"
proof (cases "us = []")
  case True
  have b: "bufs c base L (ext(t := 1)) s0 [t] bs (dv_mem w)" and l: "lst (nxt (dv_mem w)) (Some t) [t]" using i True by (simp_all add: in_chain_def)
  obtain n s' where s': "pbuf_free c (Some t) (dv_mem w) = Inr (n, s')" "pbuf_inv c base L ext s'" "restored c base L s0 s'"
    using bufs_free [OF b inv(1) l refl] by blast
  then have "recovered c base L s0 s'" by (simp add: restored_def recovered_def)
  then show thesis using that [of s'] s' h True by (simp add: pppDrop_def drop_pbuf_def on_mem_def)
next
  case False
  have "t \<noteq> hd us" using in_chainD(5) [OF i] False by auto
  obtain s1 where s1: "pbuf_free c (Some t) (dv_mem w) = Inr (1, s1)" "arrived c base L ext s0 us (chain_bytes (dv_mem w) us) s1"
    using tail_freed [OF i inv False] by blast
  obtain n s' where s': "pbuf_free c (Some (hd us)) s1 = Inr (n, s')" "pbuf_inv c base L ext s'" "recovered c base L s0 s'"
    using arrived_free [OF s1(2) inv(1)] by blast
  then show thesis using that [of s'] s1(1) h False \<open>t \<noteq> hd us\<close> by (simp add: pppDrop_def drop_pbuf_def on_mem_def)
qed

section \<open>Damaged frames\<close>

text \<open>
  Whatever octets arrive between two flags, the fields of a header are read first, and then data.  A damaged
  header may be read as one of another length.
\<close>

definition header_read :: "u16 \<Rightarrow> PPPDevStates \<Rightarrow> u8 list \<Rightarrow> ppp_dev \<Rightarrow> ppp_dev" where
  "header_read p x hdr w = pc_set (\<lambda>pc. pc\<lparr>inProtocol := p, inState := x, inFCS := foldl crc_octet (inFCS pc) hdr\<rparr>) w"

lemma header_read_data: "header_read p PDDATA hdr w = after_header p hdr w"
  by (simp add: header_read_def after_header_def)

definition header_next :: "PPPControl \<Rightarrow> PPPControl \<Rightarrow> bool" where
  "header_next q q' \<longleftrightarrow> (\<exists>p s. q' = q\<lparr>inProtocol := p, inState := s\<rparr> \<and> s \<in> {PDCONTROL, PDPROTOCOL1, PDPROTOCOL2, PDDATA})"

lemma header_nextI: "s \<in> {PDCONTROL, PDPROTOCOL1, PDPROTOCOL2, PDDATA} \<Longrightarrow> header_next q (q\<lparr>inProtocol := p, inState := s\<rparr>)"
  unfolding header_next_def by blast

lemma header_nexts:
  "header_next q (q\<lparr>inProtocol := p, inState := PDDATA\<rparr>)" "header_next q (in_protocol1 x q)" "header_next q (in_control x q)" "header_next q (in_address x q)"
proof -
  show "header_next q (q\<lparr>inProtocol := p, inState := PDDATA\<rparr>)" by (rule header_nextI) simp
  have same: "q\<lparr>inState := s\<rparr> = q\<lparr>inProtocol := inProtocol q, inState := s\<rparr>" for s by (cases q) simp
  show p1: "header_next q (in_protocol1 x q)" unfolding in_protocol1_def by (simp add: header_nextI)
  have c: "header_next q (q\<lparr>inState := PDPROTOCOL1\<rparr>)" "header_next q (q\<lparr>inState := PDCONTROL\<rparr>)"
    by (subst same, rule header_nextI, simp)+
  show "header_next q (in_control x q)" "header_next q (in_address x q)"
    using p1 c by (simp_all add: in_control_def in_address_def)
qed

lemma header_step:
  assumes "\<not> inEscaped (dv_pc w)" "inState (dv_pc w) \<in> {PDADDRESS, PDCONTROL, PDPROTOCOL1, PDPROTOCOL2}"
  obtains p s where "ppp_octet c pd x w = Inr (header_read p s [x] w)" "s \<in> {PDCONTROL, PDPROTOCOL1, PDPROTOCOL2, PDDATA}"
proof -
  define pc where "pc = (case inState (dv_pc w) of
      PDADDRESS \<Rightarrow> in_address x | PDCONTROL \<Rightarrow> in_control x | PDPROTOCOL1 \<Rightarrow> in_protocol1 x
    | _ \<Rightarrow> (\<lambda>pc. pc\<lparr>inProtocol := inProtocol pc OR ucast x, inState := PDDATA\<rparr>)) (dv_pc w)"
  have o: "ppp_octet c pd x w = Inr (pc_set (\<lambda>pc. pc\<lparr>inFCS := crc_octet (inFCS pc) x\<rparr>) (pc_set (\<lambda>_. pc) w))"
    using assms header_octet [of w c pd x] by (auto simp: pc_def pc_set_def)
  have "header_next (dv_pc w) pc" using assms(2) unfolding pc_def by (auto simp: header_nexts)
  then obtain p s where ps: "pc = (dv_pc w)\<lparr>inProtocol := p, inState := s\<rparr>" "s \<in> {PDCONTROL, PDPROTOCOL1, PDPROTOCOL2, PDDATA}"
    unfolding header_next_def by blast
  have "ppp_octet c pd x w = Inr (header_read p s [x] w)" using o by (simp add: ps(1) header_read_def pc_set_def)
  then show thesis using that ps(2) by blast
qed

lemma header_any:
  assumes "\<not> inEscaped (dv_pc w)" "inState (dv_pc w) \<in> {PDADDRESS, PDCONTROL, PDPROTOCOL1, PDPROTOCOL2}" "qs \<noteq> []"
  obtains (short) p s where "ppp_octets_in c pd qs w = Inr (header_read p s qs w)" "s \<in> {PDCONTROL, PDPROTOCOL1, PDPROTOCOL2}"
  | (full) p hs ds where "qs = hs @ ds" "hs \<noteq> []" "ppp_octets_in c pd hs w = Inr (after_header p hs w)"
proof -
  have "(\<exists>p s. ppp_octets_in c pd qs w = Inr (header_read p s qs w) \<and> s \<in> {PDCONTROL, PDPROTOCOL1, PDPROTOCOL2}) \<or>
      (\<exists>p hs ds. qs = hs @ ds \<and> hs \<noteq> [] \<and> ppp_octets_in c pd hs w = Inr (after_header p hs w))"
    using assms
  proof (induction qs arbitrary: w)
    case (Cons x qs)
    obtain p s where ps: "ppp_octet c pd x w = Inr (header_read p s [x] w)" "s \<in> {PDCONTROL, PDPROTOCOL1, PDPROTOCOL2, PDDATA}"
      using header_step [OF Cons.prems(1,2)] by blast
    let ?w = "header_read p s [x] w"
    show ?case
    proof (cases "s = PDDATA")
      case True
      then have "ppp_octets_in c pd [x] w = Inr (after_header p [x] w)" using ps(1) by (simp add: header_read_data)
      then show ?thesis by (intro disjI2 exI [of _ p] exI [of _ "[x]"] exI [of _ qs]) simp
    next
      case False
      then have w: "\<not> inEscaped (dv_pc ?w)" "inState (dv_pc ?w) \<in> {PDADDRESS, PDCONTROL, PDPROTOCOL1, PDPROTOCOL2}"
        using ps(2) Cons.prems(1) by (auto simp: header_read_def)
      have twice: "header_read p' s' ys ?w = header_read p' s' (x # ys) w" for p' s' ys by (simp add: header_read_def pc_set_def)
      show ?thesis
      proof (cases "qs = []")
        case True
        then show ?thesis using ps False by (intro disjI1 exI [of _ p] exI [of _ s]) auto
      next
        case qs: False
        from Cons.IH [OF w qs] show ?thesis
        proof (elim disjE exE conjE)
          fix p' s' assume "ppp_octets_in c pd qs ?w = Inr (header_read p' s' qs ?w)" "s' \<in> {PDCONTROL, PDPROTOCOL1, PDPROTOCOL2}"
          then show ?thesis using ps(1) twice by (intro disjI1 exI [of _ p'] exI [of _ s']) simp
        next
          fix p' hs ds assume "qs = hs @ ds" "hs \<noteq> []" "ppp_octets_in c pd hs ?w = Inr (after_header p' hs ?w)"
          then show ?thesis using ps(1) twice [of p' PDDATA hs]
            by (intro disjI2 exI [of _ p'] exI [of _ "x # hs"] exI [of _ ds]) (simp add: header_read_data)
        qed
      qed
    qed
  qed simp
  then show thesis using short full by blast
qed

text \<open>Dropping what has been received so far, when there is no pbuf yet.\<close>

lemma pppDrop_none: "inHead (dv_pc w) = None \<Longrightarrow> pppDrop c w = Inr (LINK_STATS_INC DROP w)"
  by (simp add: pppDrop_def)

lemma recovered_refl: "recovered c base L s s"
  by (simp add: recovered_def)

text \<open>The state behind a closing flag whose frame has been dropped.\<close>

definition frame_end :: "ppp_dev \<Rightarrow> ppp_dev" where
  "frame_end = pc_set (\<lambda>pc. pc\<lparr>inFCS := PPP_INITFCS, inState := PDADDRESS, inEscaped := False\<rparr>)"

lemma bad_end_ready:
  assumes r: "ready c base L ext a w" and s: "pbuf_inv c base L ext s'" "recovered c base L (dv_mem w) s'"
    and pc: "dv_mem w' = s'" "inHead (dv_pc w') = None" "inTail (dv_pc w') = None" "plain a w'"
  shows "ready c base L ext a (frame_end w')"
proof -
  have wf: "pbuf_inv c base L ext (dv_mem w)" "lens_ok L (dv_mem w)" using r by (simp_all add: ready_def)
  have same: "pm_pbuf s' x = pm_pbuf (dv_mem w) x" if "x \<in> L" for x using s(2) that by (simp add: recovered_def)
  have "pm_pbuf s' y = pm_pbuf (dv_mem w) y" if "nxt (dv_mem w) x = Some y" "x \<in> L" for x y using same nxt_in [OF wf(1) that(2,1)] by simp
  then have "lens_ok L s'" using wf(2) by (auto simp: lens_ok_def same split: option.splits)
  then show ?thesis using s(1) pc by (simp add: ready_def plain_def frame_end_def)
qed

text \<open>Any octets with a bad check sequence.\<close>

definition dropped :: "pbuf_conf \<Rightarrow> int \<Rightarrow> int set \<Rightarrow> (int \<Rightarrow> nat) \<Rightarrow> ext_accm \<Rightarrow> ppp_dev \<Rightarrow> ppp_dev \<Rightarrow> bool" where
  "dropped c base L ext a w w' \<longleftrightarrow> ready c base L ext a w' \<and> recovered c base L (dv_mem w) (dv_mem w') \<and>
     dv_mbox w' = dv_mbox w \<and> dv_sent w' = dv_sent w \<and>
     (\<exists>k\<in>{CHKERR, LENERR}. dv_stats w' = (dv_stats w)(k := dv_stats w k + 1, DROP := dv_stats w DROP + 1))"

lemma no_data_dropped:
  assumes r: "ready c base L ext a w" and s: "s \<in> {PDCONTROL, PDPROTOCOL1, PDPROTOCOL2, PDDATA}" "s = PDDATA \<Longrightarrow> fcs_of hs \<noteq> PPP_GOODFCS"
  obtains w' where "plain a (header_read p s hs w)" "ppp_flag c post (header_read p s hs w) = Inr w'" "dropped c base L ext a w w'"
proof -
  let ?w = "header_read p s hs w" and ?k = "if s = PDDATA then CHKERR else LENERR"
  let ?u = "LINK_STATS_INC DROP (LINK_STATS_INC ?k ?w)"
  have pc: "inState (dv_pc ?w) = s" "inFCS (dv_pc ?w) = fcs_of hs" "inHead (dv_pc ?w) = None" "inTail (dv_pc ?w) = None" "dv_mem ?w = dv_mem w"
      "dv_mbox ?w = dv_mbox w" "dv_sent ?w = dv_sent w" "dv_stats ?w = dv_stats w"
    using r by (simp_all add: header_read_def ready_def fcs_of_def)
  have pl: "plain a ?w" using r by (simp add: ready_def plain_def header_read_def)
  have "ppp_flag c post ?w = Inr (frame_end ?u)"
    using s pc by (auto simp: ppp_flag_def pppDrop_none frame_end_def)
  moreover have "ready c base L ext a (frame_end ?u)"
    by (rule bad_end_ready [OF r _ recovered_refl]) (use r pl in \<open>simp_all add: ready_def pc plain_def\<close>)
  moreover have "dv_stats (frame_end ?u) = (dv_stats w)(?k := dv_stats w ?k + 1, DROP := dv_stats w DROP + 1)"
    by (auto simp: LINK_STATS_INC_def pc_set_def pc frame_end_def)
  moreover have "dv_mem (frame_end ?u) = dv_mem w" "dv_mbox (frame_end ?u) = dv_mbox w" "dv_sent (frame_end ?u) = dv_sent w"
    by (simp_all add: frame_end_def pc)
  moreover have "?k \<in> {CHKERR, LENERR}" by simp
  ultimately have "dropped c base L ext a w (frame_end ?u)"
    unfolding dropped_def by (intro conjI bexI [of _ ?k]) (simp_all only: recovered_refl)
  then show thesis using that pl \<open>ppp_flag c post ?w = Inr (frame_end ?u)\<close> by blast
qed

lemma data_dropped:
  assumes r: "ready c base L ext a w" and hs: "ppp_octets_in c pd hs w = Inr (after_header p hs w)"
    and len: "xs \<noteq> []" "length xs + 8 < 65536" "int (length xs) + 8 \<le> int (avail c base (dv_mem w)) * PBUF_POOL_BUFSIZE c"
    and bad: "fcs_of (hs @ xs) \<noteq> PPP_GOODFCS"
  obtains w1 w' where "ppp_octets_in c pd (hs @ xs) w = Inr w1" "plain a w1" "ppp_flag c post w1 = Inr w'" "dropped c base L ext a w w'"
proof -
  let ?w = "after_header p hs w"
  have wf: "pbuf_inv c base L ext (dv_mem w)" "lens_ok L (dv_mem w)" using r by (simp_all add: ready_def)
  have d: "in_data c base L ext ?w" "plain a ?w" using r by (simp_all add: ready_def in_data_def after_header_def plain_def)
  have "int (length xs) + 8 \<le> int (avail c base (dv_mem ?w)) * PBUF_POOL_BUFSIZE c" using len(3) by (simp add: after_header_def)
  from ppp_data_octets [OF d(1) len(1,2) this, of pd] obtain us t pad w1 where
    w1: "ppp_octets_in c pd xs ?w = Inr w1" "receiving c base L ext ?w pd xs us t pad w1" by blast
  have i: "in_chain c base L ext (dv_mem w) us t (pih pd p pad @ xs) (dv_mem w1)"
    and eq: "w1 = pc_set (\<lambda>pc. pc\<lparr>inHead := Some (hd (us @ [t])), inTail := Some t, inFCS := foldl crc_octet (inFCS pc) xs\<rparr>) (?w\<lparr>dv_mem := dv_mem w1\<rparr>)"
    using w1(2) by (simp_all add: receiving_def after_header_def pc_set_def)
  have fcs: "foldl crc_octet (foldl crc_octet (inFCS (dv_pc w)) hs) xs = fcs_of (hs @ xs)" using r by (simp add: ready_def fcs_of_def)
  have pc1: "dv_pc w1 = (dv_pc ?w)\<lparr>inHead := Some (hd (us @ [t])), inTail := Some t, inFCS := fcs_of (hs @ xs)\<rparr>"
      "dv_mbox w1 = dv_mbox w" "dv_sent w1 = dv_sent w" "dv_stats w1 = dv_stats w"
    by (subst eq; simp add: after_header_def fcs)+
  have pl: "plain a w1" using d(2) by (simp add: plain_def pc1)
  let ?u = "LINK_STATS_INC CHKERR w1"
  from pppDrop_ok [of c base L ext "dv_mem w" us t "pih pd p pad @ xs" ?u] obtain s' where
    s': "pbuf_inv c base L ext s'" "recovered c base L (dv_mem w) s'"
      "pppDrop c ?u = Inr (LINK_STATS_INC DROP (pc_set (\<lambda>pc. pc\<lparr>inHead := None, inTail := None\<rparr>) (?u\<lparr>dv_mem := s'\<rparr>)))"
    using i wf by (auto simp: pc1)
  let ?v = "LINK_STATS_INC DROP (pc_set (\<lambda>pc. pc\<lparr>inHead := None, inTail := None\<rparr>) (?u\<lparr>dv_mem := s'\<rparr>))"
  have "ppp_flag c post w1 = Inr (frame_end ?v)" using s'(3) bad by (simp add: ppp_flag_def pc1 after_header_def frame_end_def)
  moreover have "ready c base L ext a (frame_end ?v)"
    by (rule bad_end_ready [OF r s'(1,2)]) (use pl in \<open>simp_all add: plain_def\<close>)
  moreover have "dv_stats (frame_end ?v) = (dv_stats w)(CHKERR := dv_stats w CHKERR + 1, DROP := dv_stats w DROP + 1)"
    by (auto simp: LINK_STATS_INC_def pc_set_def pc1 frame_end_def)
  ultimately have "dropped c base L ext a w (frame_end ?v)" using s'(2) by (simp add: dropped_def pc1 frame_end_def)
  moreover have "ppp_octets_in c pd (hs @ xs) w = Inr w1" using hs w1(1) by (simp add: ppp_octets_in_app)
  ultimately show thesis using that pl \<open>ppp_flag c post w1 = Inr (frame_end ?v)\<close> by blast
qed

lemma bad_fcs_dropped:
  assumes r: "ready c base L ext a w" and qs: "qs \<noteq> []" "fcs_of qs \<noteq> PPP_GOODFCS"
    and len: "length qs + 7 < 65536" "int (length qs) + 7 \<le> int (avail c base (dv_mem w)) * PBUF_POOL_BUFSIZE c"
  obtains w1 w' where "ppp_octets_in c pd qs w = Inr w1" "plain a w1" "ppp_flag c post w1 = Inr w'" "dropped c base L ext a w w'"
proof -
  have "\<not> inEscaped (dv_pc w)" "inState (dv_pc w) \<in> {PDADDRESS, PDCONTROL, PDPROTOCOL1, PDPROTOCOL2}"
    using r by (simp_all add: ready_def plain_def)
  then show thesis
    using qs(1)
  proof (cases rule: header_any [where c = c and pd = pd])
    case (short p s)
    then have "s \<in> {PDCONTROL, PDPROTOCOL1, PDPROTOCOL2, PDDATA}" "s = PDDATA \<Longrightarrow> fcs_of qs \<noteq> PPP_GOODFCS" by auto
    from no_data_dropped [OF r this] show thesis using that short(1) by blast
  next
    case (full p hs ds)
    show thesis
    proof (cases "ds = []")
      case True
      have "ppp_octets_in c pd qs w = Inr (header_read p PDDATA qs w)" using full(1,3) True by (simp add: header_read_data)
      then show thesis using no_data_dropped [OF r, of PDDATA qs] qs(2) that by blast
    next
      case False
      have "1 \<le> length hs" using full(2) by (cases hs) simp_all
      then have "length ds + 8 < 65536" "int (length ds) + 8 \<le> int (avail c base (dv_mem w)) * PBUF_POOL_BUFSIZE c"
        using len full(1) by simp_all
      from data_dropped [OF r full(3) False this] show thesis using qs(2) full(1) that by blast
    qed
  qed
qed

section \<open>Damage on the line\<close>

lemma octets_in_plain:
  "plain a w \<Longrightarrow> ppp_octets_in c pd xs w = Inr w' \<Longrightarrow> plain a w' \<and> inACCM (dv_pc w') = inACCM (dv_pc w)"
proof (induction xs arbitrary: w)
  case (Cons x xs)
  then obtain w1 where w1: "ppp_octet c pd x w = Inr w1" "ppp_octets_in c pd xs w1 = Inr w'" by (cases "ppp_octet c pd x w") auto
  have "inACCM (dv_pc w1) = inACCM (dv_pc w)"
    using w1(1) by (auto simp: ppp_octet_def Let_def lwip_bind_def in_idle_def in_start_def in_address_def in_control_def in_protocol1_def
        split: sum.splits PPPDevStates.splits if_splits dest!: ppp_data_pc)
  then show ?case using Cons.IH [OF ppp_octet_plain [OF Cons.prems(1) w1(1)] w1(2)] by simp
qed simp

text \<open>An octet on the line that does not start an escape stands for one octet of the frame.\<close>

lemma stuff_split:
  assumes "us @ x # vs = stuff a zs" "x \<noteq> PPP_ESCAPE"
  obtains (bare) as bs where "zs = as @ x # bs" "us = stuff a as" "vs = stuff a bs" "\<not> ESCAPE_P a x"
  | (pair) as z bs where "zs = as @ z # bs" "us = stuff a as @ [PPP_ESCAPE]" "x = z XOR PPP_TRANS" "vs = stuff a bs"
proof -
  have "(\<exists>as bs. zs = as @ x # bs \<and> us = stuff a as \<and> vs = stuff a bs \<and> \<not> ESCAPE_P a x) \<or>
      (\<exists>as z bs. zs = as @ z # bs \<and> us = stuff a as @ [PPP_ESCAPE] \<and> x = z XOR PPP_TRANS \<and> vs = stuff a bs)"
    using assms(1)
  proof (induction zs arbitrary: us)
    case (Cons q zs)
    show ?case
    proof (cases "ESCAPE_P a q")
      case False
      show ?thesis
      proof (cases us)
        case Nil
        then show ?thesis using Cons.prems False by (intro disjI1 exI [of _ "[]"] exI [of _ zs]) (simp add: esc_def)
      next
        case (Cons u us')
        then have u: "u = q" "us' @ x # vs = stuff a zs" using Cons.prems False by (simp_all add: esc_def)
        from Cons.IH [OF u(2)] show ?thesis
        proof (elim disjE exE conjE)
          fix as bs assume "zs = as @ x # bs" "us' = stuff a as" "vs = stuff a bs" "\<not> ESCAPE_P a x"
          then show ?thesis using Cons u(1) False by (intro disjI1 exI [of _ "q # as"] exI [of _ bs]) (simp add: esc_def)
        next
          fix as z bs assume "zs = as @ z # bs" "us' = stuff a as @ [PPP_ESCAPE]" "x = z XOR PPP_TRANS" "vs = stuff a bs"
          then show ?thesis using Cons u(1) False by (intro disjI2 exI [of _ "q # as"] exI [of _ z] exI [of _ bs]) (simp add: esc_def)
        qed
      qed
    next
      case True
      then have e: "us @ x # vs = PPP_ESCAPE # (q XOR PPP_TRANS) # stuff a zs" using Cons.prems by (simp add: esc_def)
      obtain us1 where us1: "us = PPP_ESCAPE # us1" "us1 @ x # vs = (q XOR PPP_TRANS) # stuff a zs"
        using e assms(2) by (cases us) auto
      show ?thesis
      proof (cases us1)
        case Nil
        then show ?thesis using us1 by (intro disjI2 exI [of _ "[]"] exI [of _ q] exI [of _ zs]) simp
      next
        case (Cons u us')
        then have u: "u = q XOR PPP_TRANS" "us' @ x # vs = stuff a zs" using us1(2) by simp_all
        from Cons.IH [OF u(2)] show ?thesis
        proof (elim disjE exE conjE)
          fix as bs assume "zs = as @ x # bs" "us' = stuff a as" "vs = stuff a bs" "\<not> ESCAPE_P a x"
          then show ?thesis using Cons u(1) us1(1) True by (intro disjI1 exI [of _ "q # as"] exI [of _ bs]) (simp add: esc_def)
        next
          fix as z bs assume "zs = as @ z # bs" "us' = stuff a as @ [PPP_ESCAPE]" "x = z XOR PPP_TRANS" "vs = stuff a bs"
          then show ?thesis using Cons u(1) us1(1) True by (intro disjI2 exI [of _ "q # as"] exI [of _ z] exI [of _ bs]) (simp add: esc_def)
        qed
      qed
    qed
  qed simp
  then show thesis using bare pair by blast
qed

text \<open>So the changed line is read as a frame with one octet changed.\<close>

lemma changed_char:
  assumes pl: "plain a w" and y: "\<not> ESCAPE_P (inACCM (dv_pc w)) y"
  shows "pppInProc c post pd [y] w = ppp_octet c pd y w"
    "pppInProc c post pd [PPP_ESCAPE, y] w = ppp_octet c pd (y XOR PPP_TRANS) w"
proof -
  have m: "accm_match a (inACCM (dv_pc w))" and e: "\<not> inEscaped (dv_pc w)" using pl by (simp_all add: plain_def)
  have ret: "lwip_bind r (pppInProc c post pd []) = r" for r by (cases r) simp_all
  show "pppInProc c post pd [y] w = ppp_octet c pd y w" using y by (simp add: ppp_char_def ret)
  let ?w = "pc_set (\<lambda>pc. pc\<lparr>inEscaped := True\<rparr>) w"
  have 1: "ppp_char c post pd PPP_ESCAPE w = Inr ?w" using m by (simp add: ppp_char_def accm_match_def)
  have undo: "pc_set (\<lambda>pc. pc\<lparr>inEscaped := False\<rparr>) ?w = w" using e by (simp add: pc_set_def)
  have "ppp_char c post pd y ?w = ppp_octet c pd (y XOR PPP_TRANS) w"
    using y e by (simp add: ppp_char_def ppp_octet_def undo)
  then show "pppInProc c post pd [PPP_ESCAPE, y] w = ppp_octet c pd (y XOR PPP_TRANS) w" using 1 by (simp add: ret)
qed

lemma changed_run:
  assumes pl: "plain a w" and y: "\<not> ESCAPE_P (inACCM (dv_pc w)) y"
    and run: "ppp_octets_in c pd (as @ z # bs) w = Inr w'"
    and z: "us = stuff a as \<and> z = y \<or> us = stuff a as @ [PPP_ESCAPE] \<and> z = y XOR PPP_TRANS"
  shows "pppInProc c post pd (us @ y # stuff a bs) w = Inr w'"
proof -
  obtain w1 where w1: "ppp_octets_in c pd as w = Inr w1" "ppp_octets_in c pd (z # bs) w1 = Inr w'"
    using run by (cases "ppp_octets_in c pd as w") (simp_all add: ppp_octets_in_app)
  note p1 = octets_in_plain [OF pl w1(1)]
  obtain w2 where w2: "ppp_octet c pd z w1 = Inr w2" "ppp_octets_in c pd bs w2 = Inr w'"
    using w1(2) by (cases "ppp_octet c pd z w1") simp_all
  have "\<not> ESCAPE_P (inACCM (dv_pc w1)) y" using p1 y by simp
  note ch = changed_char [OF conjunct1 [OF p1] this, of c post pd]
  have p2: "plain a w2" using ppp_octet_plain [OF conjunct1 [OF p1] w2(1)] .
  have as: "pppInProc c post pd (stuff a as) w = Inr w1" using pppInProc_stuff [OF pl] w1(1) by simp
  have bs: "pppInProc c post pd (stuff a bs) w2 = Inr w'" using pppInProc_stuff [OF p2] w2(2) by simp
  from z show ?thesis
  proof (elim disjE conjE)
    assume "us = stuff a as" "z = y"
    then show ?thesis using pppInProc_app [of c post pd us "[y] @ stuff a bs" w] pppInProc_app [of c post pd "[y]" "stuff a bs" w1] as bs w2(1) ch(1)
      by (simp del: pppInProc.simps)
  next
    assume "us = stuff a as @ [PPP_ESCAPE]" "z = y XOR PPP_TRANS"
    then show ?thesis
      using pppInProc_app [of c post pd "stuff a as" "[PPP_ESCAPE, y] @ stuff a bs" w]
        pppInProc_app [of c post pd "[PPP_ESCAPE, y]" "stuff a bs" w1] as bs w2(1) ch(2) by (simp del: pppInProc.simps)
  qed
qed

lemma changed_fcs:
  assumes "as @ z # bs = xs @ fcs_octets (fcs_of xs)" "z \<noteq> z'"
  shows "fcs_of (as @ z' # bs) \<noteq> PPP_GOODFCS"
proof -
  have "fcs_of (xs @ fcs_octets (fcs_of xs)) = PPP_GOODFCS" using good_fcs [of "fcs_of xs"] by (simp add: fcs_of_def)
  then have "fcs_of (as @ z # bs) = PPP_GOODFCS" using assms(1) by simp
  then show ?thesis using fcs.one_change [OF assms(2), of PPP_INITFCS as bs] by (simp add: fcs_of_def)
qed

lemma damaged_frame:
  assumes r: "ready c base L ext a w" and frame: "hdlc_frame a xs = us @ x # vs @ [PPP_FLAG]"
    and xy: "x \<noteq> PPP_ESCAPE" "y \<noteq> x" "\<not> ESCAPE_P (inACCM (dv_pc w)) y"
    and len: "length xs + 9 < 65536" "int (length xs) + 9 \<le> int (avail c base (dv_mem w)) * PBUF_POOL_BUFSIZE c"
  obtains w' where "pppInProc c post pd (us @ y # vs @ [PPP_FLAG]) w = Inr w'" "dropped c base L ext a w w'"
proof -
  let ?zs = "xs @ fcs_octets (fcs_of xs)"
  have pl: "plain a w" using r by (simp add: ready_def)
  have "us @ x # vs = stuff a ?zs" using frame by (simp add: hdlc_frame_def)
  then obtain as z z' bs where split: "?zs = as @ z # bs" "vs = stuff a bs" "z' \<noteq> z"
      "us = stuff a as \<and> z' = y \<or> us = stuff a as @ [PPP_ESCAPE] \<and> z' = y XOR PPP_TRANS"
    using xy(1)
  proof (cases rule: stuff_split)
    case (bare as bs) then show thesis using that xy(2) by blast
  next
    case (pair as z bs)
    have "y XOR PPP_TRANS \<noteq> z" using pair(3) xy(2) by (metis xor.assoc xor.right_neutral xor_self_eq)
    then show thesis using that pair by blast
  qed
  let ?qs = "as @ z' # bs"
  have "length ?qs = length xs + 2" using arg_cong [OF split(1), of length] by (simp add: fcs_octets_def)
  then have "?qs \<noteq> []" "length ?qs + 7 < 65536" "int (length ?qs) + 7 \<le> int (avail c base (dv_mem w)) * PBUF_POOL_BUFSIZE c"
    using len by simp_all
  moreover have "fcs_of ?qs \<noteq> PPP_GOODFCS" using changed_fcs [of as z bs xs z'] split(1,3) by simp
  ultimately obtain w1 w' where w': "ppp_octets_in c pd ?qs w = Inr w1" "plain a w1" "ppp_flag c post w1 = Inr w'" "dropped c base L ext a w w'"
    using bad_fcs_dropped [OF r] by blast
  have "pppInProc c post pd (us @ y # vs) w = Inr w1" using changed_run [OF pl xy(3) w'(1) split(4)] split(2) by simp
  then have "pppInProc c post pd ((us @ y # vs) @ [PPP_FLAG]) w = Inr w'"
    using pppInProc_app [of c post pd "us @ y # vs" "[PPP_FLAG]" w] flag_char [OF w'(2)] w'(3) by (simp del: pppInProc.simps)
  then show thesis using that w'(4) by simp
qed

section \<open>A frame without data\<close>

text \<open>
  Two zero octets are read as a protocol field, their check sequence is good, and no pbuf has been allocated for them.
\<close>

lemma pppInProc_empty:
  assumes r: "ready c base L ext a w"
  shows "pppInProc c post pd (stuff a [0, 0] @ [PPP_FLAG]) w = Inl NullDeref"
proof -
  have w: "plain a w" "\<not> inEscaped (dv_pc w)" "inState (dv_pc w) = PDADDRESS" "inFCS (dv_pc w) = PPP_INITFCS" "inTail (dv_pc w) = None"
    using r by (simp_all add: ready_def plain_def)
  have "fcs_octets PPP_INITFCS = [0, 0]" by (simp add: fcs_octets_def PPP_INITFCS_def)
  then have fcs: "crc_octet (crc_octet PPP_INITFCS 0) 0 = PPP_GOODFCS" using good_fcs [of PPP_INITFCS] by simp
  let ?w = "pc_set (\<lambda>pc. pc\<lparr>inProtocol := 0, inState := PDDATA, inFCS := PPP_GOODFCS\<rparr>) w"
  have "ppp_octets_in c pd [0, 0] w = Inr ?w"
    using w by (simp add: header_octet in_address_def in_control_def in_protocol1_def ppp_octets pc_set_def fcs)
  then have "pppInProc c post pd (stuff a [0, 0] @ [PPP_FLAG]) w = pppInProc c post pd [PPP_FLAG] ?w"
    using pppInProc_stuff [OF w(1), of c post pd "[0, 0]"] by (simp add: pppInProc_app del: pppInProc.simps stuff_simps ppp_octets_in.simps)
  also have "\<dots> = ppp_flag c post ?w" using w(1) by (intro flag_char [of a]) (simp add: plain_def)
  also have "\<dots> = Inl NullDeref" using w(5) by (simp add: ppp_flag_def ppp_deliver_def)
  finally show ?thesis .
qed

section \<open>A frame longer than the pool\<close>

text \<open>
  When the pool is empty the pbufs so far have just been joined, so that freeing the last one and then the first one frees
  the last one twice.
\<close>

lemma alloc_exhausted:
  assumes inv: "pbuf_inv c base L ext s" and a: "avail c base s = 0"
  obtains s' where "pbuf_alloc c PBUF_RAW 0 PBUF_POOL s = Inr (None, s')" "mem_kept c base s s'"
  using inv
proof (cases rule: raw_alloc)
  case (null s')
  then show thesis using that by blast
next
  case (some p s')
  have "bufs c base L (ext(p := 1)) s ([] @ [p]) [] s'" by (rule bufs_add [OF bufs_start [OF inv]]) (use some in simp_all)
  from bufs_avail [OF this] show thesis using a by simp
qed

lemma free_step:
  assumes wf: "mem_wf c base s" and x: "pb_type (pm_pbuf s x) = PBUF_POOL" "pb_ref (pm_pbuf s x) = 1" "(x, n) \<in> areas c base (pool c) s"
  obtains s' where "pbuf_free_loop c (Some x) k s = pbuf_free_loop c (nxt s x) (k + 1) s'" "mem_wf c base s'"
    "pm_pbuf s' = (pm_pbuf s)(x := (pm_pbuf s x)\<lparr>pb_ref := 0\<rparr>)" "areas c base (pool c) s' = areas c base (pool c) s - {(x, n)}"
proof -
  let ?s = "pb x (\<lambda>b. b\<lparr>pb_ref := pb_ref b - 1\<rparr>) s"
  have conf: "pbuf_conf_ok c" using wf by (simp add: mem_wf_def)
  have "mem_wf c base ?s" "(x, n) \<in> areas c base (pbuf_class c PBUF_POOL) ?s" using wf x(3) by (simp_all add: pbuf_simps pbuf_class_def)
  from pbuf_release_ok [OF this] obtain s' where s': "pbuf_release c PBUF_POOL x ?s = Inr s'" "mem_given c base (pbuf_class c PBUF_POOL) x n ?s s'" by blast
  have "pbuf_free_loop c (Some x) k s = pbuf_free_loop c (nxt s x) (k + 1) s'"
    using s'(1) x by (subst pbuf_free_loop.simps) (simp add: pbuf_simps)
  moreover have "pm_pbuf s' = (pm_pbuf s)(x := (pm_pbuf s x)\<lparr>pb_ref := 0\<rparr>)" "mem_wf c base s'"
    using s'(2) x(2) by (simp_all add: mem_given_def same_contents_def pbuf_simps)
  moreover have "areas c base (pool c) s' = areas c base (pool c) s - {(x, n)}"
    using s'(2) pool_class [OF conf] by (simp add: mem_given_def pbuf_class_def pbuf_simps)
  ultimately show thesis using that by blast
qed

lemma free_dangling:
  assumes "lst (nxt s) (Some h) (us @ [t])" "distinct (us @ [t])" "mem_wf c base s" "pb_ref (pm_pbuf s t) = 0"
    "\<forall>x\<in>set us. pb_type (pm_pbuf s x) = PBUF_POOL \<and> pb_ref (pm_pbuf s x) = 1 \<and> (x, n) \<in> areas c base (pool c) s"
  shows "pbuf_free_loop c (Some h) k s = Some (Inl (AssertFail ''pbuf_free: p->ref > 0''))"
  using assms
proof (induction us arbitrary: h k s)
  case Nil
  then show ?case by (subst pbuf_free_loop.simps) simp
next
  case (Cons x us)
  then have h: "h = x" and l: "lst (nxt s) (nxt s x) (us @ [t])" by auto
  obtain s' where s': "pbuf_free_loop c (Some x) k s = pbuf_free_loop c (nxt s x) (k + 1) s'" "mem_wf c base s'"
    "pm_pbuf s' = (pm_pbuf s)(x := (pm_pbuf s x)\<lparr>pb_ref := 0\<rparr>)" "areas c base (pool c) s' = areas c base (pool c) s - {(x, n)}"
    using free_step [OF Cons.prems(3), of x n k] Cons.prems(5) by auto
  obtain h' where h': "nxt s x = Some h'" using l by (cases us) auto
  have "nxt s' = nxt s" by (auto simp: s'(3))
  then have l': "lst (nxt s') (Some h') (us @ [t])" using l h' by simp
  have d: "distinct (us @ [t])" "pb_ref (pm_pbuf s' t) = 0" using Cons.prems(2,4) by (simp_all add: s'(3))
  have "\<forall>y\<in>set us. pb_type (pm_pbuf s' y) = PBUF_POOL \<and> pb_ref (pm_pbuf s' y) = 1 \<and> (y, n) \<in> areas c base (pool c) s'"
    using Cons.prems(2,5) by (auto simp: s'(3,4))
  from Cons.IH [OF l' d(1) s'(2) d(2) this, of "k + 1"] show ?case using s'(1) h h' by simp
qed

lemma pppDrop_twice:
  assumes j: "joined c base L ext s0 (us @ [t]) bs (dv_mem w)" and us: "us \<noteq> []"
    and h: "inHead (dv_pc w) = Some (hd (us @ [t]))" "inTail (dv_pc w) = Some t"
  shows "pppDrop c w = Inl (AssertFail ''pbuf_free: p->ref > 0'')"
proof -
  let ?s = "dv_mem w" and ?n = "SIZEOF_STRUCT_PBUF c + PBUF_POOL_BUFSIZE_ALIGNED c"
  have b: "bufs c base L (ext(hd (us @ [t]) := 1)) s0 (us @ [t]) bs ?s" and l: "lst (nxt ?s) (Some (hd us)) (us @ [t])"
    using j us by (simp_all add: joined_def)
  have dist: "distinct (us @ [t])" "hd us \<noteq> t" using bufsD(1) [OF b] us by auto
  have t: "nxt ?s t = None" using lst_last [OF l] by simp
  have f: "pb_type (pm_pbuf ?s x) = PBUF_POOL" "pb_ref (pm_pbuf ?s x) = 1" "(x, ?n) \<in> areas c base (pool c) ?s" if "x \<in> set (us @ [t])" for x
    using bufsD(4) [OF b that] bufs_area [OF b that] by (simp_all add: fillable_def)
  obtain s' where s': "pbuf_free_loop c (Some t) 0 ?s = pbuf_free_loop c None (0 + 1) s'" "mem_wf c base s'"
    "pm_pbuf s' = (pm_pbuf ?s)(t := (pm_pbuf ?s t)\<lparr>pb_ref := 0\<rparr>)" "areas c base (pool c) s' = areas c base (pool c) ?s - {(t, ?n)}"
    using free_step [OF pbuf_invD(1) [OF bufsD(3) [OF b]] f [of t], of 0] t by auto
  have "pbuf_free_loop c None (0 + 1) s' = Some (Inr (1, s'))" by (subst pbuf_free_loop.simps) simp
  then have 1: "pbuf_free c (Some t) ?s = Inr (1, s')" using s'(1) by (simp add: pbuf_free_def lwip_run_def)
  have "nxt s' = nxt ?s" by (auto simp: s'(3))
  then have l': "lst (nxt s') (Some (hd us)) (us @ [t])" using l by simp
  have z: "pb_ref (pm_pbuf s' t) = 0" by (simp add: s'(3))
  have "\<forall>x\<in>set us. pb_type (pm_pbuf s' x) = PBUF_POOL \<and> pb_ref (pm_pbuf s' x) = 1 \<and> (x, ?n) \<in> areas c base (pool c) s'"
    using f dist(1) by (auto simp: s'(3,4))
  then have "pbuf_free_loop c (Some (hd us)) 0 s' = Some (Inl (AssertFail ''pbuf_free: p->ref > 0''))"
    by (rule free_dangling [OF l' dist(1) s'(2) z])
  then have "pbuf_free c (Some (hd us)) s' = Inl (AssertFail ''pbuf_free: p->ref > 0'')" by (simp add: pbuf_free_def lwip_run_def)
  then show ?thesis using h us dist(2) 1 by (simp add: pppDrop_def drop_pbuf_def on_mem_def)
qed

text \<open>The octet for which there is no room.\<close>

lemma ppp_data_overflow:
  assumes i: "in_chain c base L ext s0 us t bs (dv_mem w)" and inv: "pbuf_inv c base L ext s0" and us: "us \<noteq> []"
    and h: "inHead (dv_pc w) = Some (hd (us @ [t]))" "inTail (dv_pc w) = Some t"
    and len: "length bs < 65536" "int (length bs) = int (avail c base s0) * PBUF_POOL_BUFSIZE c"
  shows "ppp_data c pd x w = Inl (AssertFail ''pbuf_free: p->ref > 0'')"
proof -
  have size: "0 < PBUF_POOL_BUFSIZE c" using bufsize_bounds(1) [OF in_chainD(4) [OF i]] by simp
  have full: "uint (pb_len (pm_pbuf (dv_mem w) t)) = PBUF_POOL_BUFSIZE c" and none: "avail c base (dv_mem w) = 0"
  proof -
    let ?B = "PBUF_POOL_BUFSIZE c" and ?l = "uint (pb_len (pm_pbuf (dv_mem w) t))" and ?a = "avail c base (dv_mem w)"
    have le: "?l \<le> ?B" using in_chainD(1) [OF i] by (simp add: fillable_def)
    have e: "int (length us) * ?B + ?l = (int ?a + int (length us) + 1) * ?B" using in_chain_length [OF i] len(2) by (simp add: algebra_simps)
    then have "?l = (int ?a + 1) * ?B" by (simp add: algebra_simps)
    then have "(int ?a + 1) * ?B \<le> 1 * ?B" using le by simp
    then have "int ?a + 1 \<le> 1" using size by (simp only: mult_le_cancel_right)
    then show "?a = 0" by simp
    then show "?l = ?B" using \<open>?l = (int ?a + 1) * ?B\<close> by simp
  qed
  from ppp_join_ok [OF i inv len(1) h(1)] obtain s1 where s1: "ppp_join t w = Inr (w\<lparr>dv_mem := s1\<rparr>)" "joined c base L ext s0 (us @ [t]) bs s1" by blast
  have b: "bufs c base L (ext(hd (us @ [t]) := 1)) s0 (us @ [t]) bs s1" using s1(2) by (simp add: joined_def)
  have "avail c base s1 = 0" using none bufs_avail [OF b] in_chain_length(2) [OF i] by simp
  then obtain s2 where s2: "pbuf_alloc c PBUF_RAW 0 PBUF_POOL s1 = Inr (None, s2)" "mem_kept c base s1 s2"
    using alloc_exhausted [OF bufsD(3) [OF b]] by blast
  have same: "pm_pbuf s2 = pm_pbuf s1" using s2(2) by (simp add: mem_kept_def same_contents_def)
  have "lens_ok A s2 = lens_ok A s1" for A unfolding lens_ok_def same ..
  then have "joined c base L ext s0 (us @ [t]) bs s2" using s1(2) bufs_kept [OF b s2(2)] by (simp add: joined_def same)
  then have "pppDrop c (LINK_STATS_INC MEMERR (w\<lparr>dv_mem := s2\<rparr>)) = Inl (AssertFail ''pbuf_free: p->ref > 0'')"
    using h by (intro pppDrop_twice [OF _ us]) simp_all
  then show ?thesis using h full s1(1) s2(1) by (simp add: ppp_data_def on_mem_def)
qed

lemma pppInProc_overflow:
  assumes r: "ready c base L ext a w" and p: "protocol_ok p" and k: "2 \<le> avail c base (dv_mem w)"
    and xs: "int (length xs) + 8 = int (avail c base (dv_mem w)) * PBUF_POOL_BUFSIZE c" "length xs + 8 < 65536"
  shows "pppInProc c post pd (stuff a (ppp_header pc p @ xs @ [x]) @ rest) w = Inl (AssertFail ''pbuf_free: p->ref > 0'')"
proof -
  let ?hd = "ppp_header pc p" and ?w = "after_header p (ppp_header pc p) w"
  note h = ready_header(1) [OF r p, where pc = pc and post = post and pd = pd] ready_header(2,3) [OF r p, of pc]
  have wf: "pbuf_inv c base L ext (dv_mem w)" using r by (simp add: ready_def)
  then have size: "40 < PBUF_POOL_BUFSIZE c" using pbuf_invD(1) bufsize_bounds(1) by (auto simp: mem_wf_def)
  have big: "2 * PBUF_POOL_BUFSIZE c \<le> int (avail c base (dv_mem w)) * PBUF_POOL_BUFSIZE c" using k size by (intro mult_right_mono) simp_all
  have "0 < int (length xs)" using xs(1) big size by linarith
  then have "xs \<noteq> []" by simp
  moreover have "int (length xs) + 8 \<le> int (avail c base (dv_mem ?w)) * PBUF_POOL_BUFSIZE c" using xs(1) by (simp add: after_header_def)
  ultimately obtain us t pad w1 where w1: "ppp_octets_in c pd xs ?w = Inr w1" "receiving c base L ext ?w pd xs us t pad w1"
    using ppp_data_octets [OF h(2) _ xs(2)] by blast
  have i: "length pad = 2" "in_chain c base L ext (dv_mem w) us t (pih pd p pad @ xs) (dv_mem w1)"
    and eq: "w1 = pc_set (\<lambda>pc. pc\<lparr>inHead := Some (hd (us @ [t])), inTail := Some t, inFCS := foldl crc_octet (inFCS pc) xs\<rparr>) (?w\<lparr>dv_mem := dv_mem w1\<rparr>)"
    using w1(2) by (simp_all add: receiving_def after_header_def pc_set_def)
  have pc1: "inState (dv_pc w1) = PDDATA" "\<not> inEscaped (dv_pc w1)" "inHead (dv_pc w1) = Some (hd (us @ [t]))" "inTail (dv_pc w1) = Some t"
    by (subst eq; use h(2) in \<open>simp add: in_data_def\<close>)+
  have "us \<noteq> []"
  proof
    assume "us = []"
    then have "int (length xs) + 8 \<le> PBUF_POOL_BUFSIZE c"
      using in_chain_length(1) [OF i(2)] in_chainD(1) [OF i(2)] pih_length [OF i(1)] by (simp add: fillable_def)
    then show False using xs(1) big size by linarith
  qed
  then have "ppp_data c pd x w1 = Inl (AssertFail ''pbuf_free: p->ref > 0'')"
    using xs pih_length [OF i(1)] by (intro ppp_data_overflow [OF i(2) wf _ pc1(3,4)]) simp_all
  then have "ppp_octets_in c pd (xs @ [x]) ?w = Inl (AssertFail ''pbuf_free: p->ref > 0'')"
    using w1(1) data_octet [OF pc1(1,2)] by (simp add: ppp_octets_in_app)
  then have "pppInProc c post pd (stuff a (xs @ [x])) ?w = Inl (AssertFail ''pbuf_free: p->ref > 0'')"
    using pppInProc_stuff [OF h(3)] by (simp del: stuff_simps)
  moreover have "stuff a (?hd @ xs @ [x]) @ rest = stuff a ?hd @ stuff a (xs @ [x]) @ rest" by simp
  ultimately show ?thesis using h(1) by (simp add: pppInProc_app del: stuff_simps)
qed

end
