(* ===== verification/Ppp_Input.thy ===== *)
theory Ppp_Input
  imports Ppp_Drop
begin

text \<open>
  \<open>pppInput\<close> and the packets that \<open>pppInProc\<close> posts: unit and protocol are read back from the header in front of the
  data, the header is stripped, and the packet goes to the network interface or back to the pool.
\<close>

section \<open>The header in front of the data\<close>

lemma arrived_octet:
  assumes a: "arrived c base L ext s0 ps bs s" and i: "int i < uint (pb_len (pm_pbuf s (hd ps)))"
  shows "pm_byte s (pb_payload (pm_pbuf s (hd ps)) + int i) = bs ! i"
proof -
  have "lst (nxt s) (Some (hd ps)) ps" "chain_bytes s ps = bs" using a by (simp_all add: arrived_def)
  then obtain qs where "bs = pbuf_bytes s (hd ps) @ chain_bytes s qs" by (cases ps) (auto simp: chain_bytes_def)
  moreover have "i < unat (pb_len (pm_pbuf s (hd ps)))" using i by (metis of_nat_less_iff uint_nat)
  ultimately show ?thesis by (simp add: nth_append) (simp add: pbuf_bytes_def)
qed

lemma unit_octets:
  fixes v :: u32
  shows "ucast (ucast v :: u8) OR push_bit 8 (ucast (ucast (drop_bit 8 v) :: u8)) OR push_bit 16 (ucast (ucast (drop_bit 16 v) :: u8)) OR
    push_bit 24 (ucast (ucast (drop_bit 24 v) :: u8)) = v" (is "?l = _")
proof (rule bit_word_eqI)
  fix n
  assume "n < LENGTH(32)"
  then consider "n < 8" | "8 \<le> n" "n < 16" | "16 \<le> n" "n < 24" | "24 \<le> n" "n < 32" by fastforce
  then show "bit ?l n \<longleftrightarrow> bit v n" by cases (auto simp: bit_simps)
qed

lemma pih_read:
  assumes a: "arrived c base L ext s0 ps (pih pd p pad @ data) s" and len: "8 \<le> uint (pb_len (pm_pbuf s (hd ps)))" and pad: "length pad = 2"
  shows "pih_proto s (pb_payload (pm_pbuf s (hd ps))) = p" "pih_unit s (pb_payload (pm_pbuf s (hd ps))) = sint (word_of_int pd :: u32)"
proof -
  let ?a = "pb_payload (pm_pbuf s (hd ps))"
  have "[0..<6] = [0, 1, 2, 3, 4, 5 :: nat]" by (simp add: upt_rec)
  then have bs: "pih pd p pad = map (pih_octet pd p) [0, 1, 2, 3, 4, 5] @ pad" by (simp add: pih_def)
  have o: "pm_byte s ?a = pih_octet pd p 0" "pm_byte s (?a + 1) = pih_octet pd p 1" "pm_byte s (?a + 2) = pih_octet pd p 2"
    "pm_byte s (?a + 3) = pih_octet pd p 3" "pm_byte s (?a + 4) = pih_octet pd p 4" "pm_byte s (?a + 5) = pih_octet pd p 5"
    using len arrived_octet [OF a, of 0] arrived_octet [OF a, of 1] arrived_octet [OF a, of 2] arrived_octet [OF a, of 3]
      arrived_octet [OF a, of 4] arrived_octet [OF a, of 5] by (simp_all add: bs)
  show "pih_proto s ?a = p"
    unfolding pih_proto_def o pih_octet_def by (rule bit_eqI) (auto simp: bit_simps)
  show "pih_unit s ?a = sint (word_of_int pd :: u32)"
    unfolding pih_unit_def o pih_octet_def using unit_octets [of "word_of_int pd"] by simp
qed

lemma arrived_strip:
  assumes a: "arrived c base L ext s0 ps (hdr @ data) s" and hdr: "length hdr = 8" "8 \<le> uint (pb_len (pm_pbuf s (hd ps)))"
    and inv: "pbuf_inv c base L ext s0"
  shows "pbuf_header c (hd ps) (- 8) s = (0, moved (hd ps) (- 8) s)" "arrived c base L ext s0 ps data (moved (hd ps) (- 8) s)"
proof -
  let ?h = "hd ps" and ?L = "L \<union> set ps" and ?s = "moved (hd ps) (- 8) s"
  have disj: "set ps \<inter> L = {}" and inv': "pbuf_inv c base ?L (ext(?h := 1)) s" and ch: "lst (nxt s) (Some ?h) ps" and lens: "lens_ok ?L s"
    and old: "\<And>x. x \<in> L \<Longrightarrow> pm_pbuf s x = pm_pbuf s0 x" using a by (simp_all add: arrived_def)
  have hp: "?h \<in> set ps" using ch by (cases ps) auto
  have "nxt s x \<noteq> Some ?h" if "x \<in> L" for x using nxt_in [OF inv that] old [OF that] hp disj by fastforce
  then have free: "ptrs ?L s ?h = {}" using lst_head_free [OF ch] by (auto simp: ptrs_def)
  have m8: "sint (- 8 :: 16 word) = - 8" by simp
  have "pb_type (pm_pbuf s ?h) \<in> {PBUF_RAM, PBUF_POOL} \<longrightarrow> ?h + SIZEOF_STRUCT_PBUF c \<le> pb_payload (pm_pbuf s ?h)"
    using pbuf_invD(4) [OF inv', of ?h] hp by (auto simp: pbuf_owned_def)
  then have fits: "header_fits c ?h (- 8) s" using hdr(2) by (auto simp: header_fits_def)
  then show "pbuf_header c ?h (- 8) s = (0, ?s)" by (simp add: pbuf_header_eq)
  have "uint (pb_tot_len (pm_pbuf s ?h)) + sint (- 8 :: 16 word) < 65536" using uint_lt2p [of "pb_tot_len (pm_pbuf s ?h)"] by simp
  note m = moved_ok [OF inv' lens _ free fits this]
  have f: "x \<noteq> ?h \<Longrightarrow> pm_pbuf ?s x = pm_pbuf s x" "nxt ?s = nxt s" "pm_byte ?s = pm_byte s" "areas c base k ?s = areas c base k s"
    "pb_payload (pm_pbuf ?s ?h) = pb_payload (pm_pbuf s ?h) + 8" for x k by (auto simp: moved_def pbuf_simps)
  have other: "pbuf_bytes ?s x = pbuf_bytes s x" if "x \<noteq> ?h" for x using f(1) [OF that] by (simp add: pbuf_bytes_def f(3))
  have "chain_bytes ?s ps = drop 8 (chain_bytes s ps)"
  proof -
    obtain qs where ps: "ps = ?h # qs" using hp by (cases ps) auto
    have "?h \<notin> set qs" using lst_distinct [OF ch] ps by (metis distinct.simps(2))
    then have "pbuf_bytes ?s x = pbuf_bytes s x" if "x \<in> set qs" for x using that by (intro other) auto
    then have "chain_bytes ?s qs = chain_bytes s qs" by (simp add: chain_bytes_def cong: map_cong)
    moreover have "pbuf_bytes ?s ?h = drop 8 (pbuf_bytes s ?h)"
    proof (rule nth_equalityI)
      have "int (unat (pb_len (pm_pbuf ?s ?h))) = int (unat (pb_len (pm_pbuf s ?h))) - 8" using m(3) hp by simp
      then have l: "unat (pb_len (pm_pbuf ?s ?h)) = unat (pb_len (pm_pbuf s ?h)) - 8" by linarith
      then show "length (pbuf_bytes ?s ?h) = length (drop 8 (pbuf_bytes s ?h))" by simp
      show "pbuf_bytes ?s ?h ! i = drop 8 (pbuf_bytes s ?h) ! i" if "i < length (pbuf_bytes ?s ?h)" for i
      proof -
        have "8 + i < unat (pb_len (pm_pbuf s ?h))" using that l by simp
        then show ?thesis using that l by (simp add: pbuf_bytes_def f(3,5) add.assoc)
      qed
    qed
    moreover have "8 \<le> pb_len (pm_pbuf s ?h)" using hdr(2) by (simp add: word_le_def)
    then have "8 \<le> length (pbuf_bytes s ?h)" by (simp add: word_le_nat_alt)
    ultimately show ?thesis by (subst (1 2) ps) (simp add: chain_bytes_def)
  qed
  then have "chain_bytes ?s ps = data" using a hdr(1) by (simp add: arrived_def)
  moreover have "pm_pbuf ?s x = pm_pbuf s x" "pbuf_bytes ?s x = pbuf_bytes s x" if "x \<in> L" for x
  proof -
    have "x \<noteq> ?h" using that hp disj by auto
    then show "pm_pbuf ?s x = pm_pbuf s x" "pbuf_bytes ?s x = pbuf_bytes s x" by (rule f(1), rule other)
  qed
  ultimately show "arrived c base L ext s0 ps data ?s" using a m(1,2) hp unfolding arrived_def f(2,4) by simp
qed

section \<open>What \<open>pppInput\<close> does with it\<close>

definition received :: "pbuf_mem \<Rightarrow> ppp_dev \<Rightarrow> ppp_dev" where
  "received s w = LINK_STATS_INC RECV (w\<lparr>dv_mem := s\<rparr>)"

text \<open>A packet of the Internet protocol goes to the network interface as soon as the link is past authentication.\<close>

lemma pppInput_ip:
  assumes a: "arrived c base L ext s0 ps (pih pd PPP_IP pad @ data) (dv_mem w)" and len: "8 \<le> uint (pb_len (pm_pbuf (dv_mem w) (hd ps)))"
    and pad: "length pad = 2" and inv: "pbuf_inv c base L ext s0" and phase: "phase \<in> {PHASE_CALLBACK, PHASE_NETWORK, PHASE_TERMINATE}"
  obtains s' where "pppInput c phase True prots (hd ps) w = Inr (ppp_up (Up_netif (hd ps)) (received s' w))" "arrived c base L ext s0 ps data s'"
proof -
  note h = arrived_strip [OF a pih_length [OF pad] len inv] and r = pih_read [OF a len pad]
  have "pppInput c phase True prots (hd ps) w = Inr (ppp_up (Up_netif (hd ps)) (received (moved (hd ps) (- 8) (dv_mem w)) w))"
    using h(1) r(1) phase by (auto simp: pppInput_def Let_def ppp_discards_def received_def PPP_IP_def PPP_VJC_COMP_def PPP_VJC_UNCOMP_def)
  then show thesis using that h(2) by blast
qed

text \<open>Before that, or with no input function, the packet is dropped and nothing leaks.\<close>

lemma drop_out_ok:
  assumes a: "arrived c base L ext s0 ps bs (dv_mem w)" and inv: "pbuf_inv c base L ext s0"
  obtains s' where "ppp_drop_out c (hd ps) w = Inr ((LINK_STATS_INC DROP w)\<lparr>dv_mem := s'\<rparr>)" "pbuf_inv c base L ext s'" "recovered c base L s0 s'"
proof -
  from arrived_free [OF a inv] obtain n s' where "pbuf_free c (Some (hd ps)) (dv_mem w) = Inr (n, s')" "pbuf_inv c base L ext s'" "recovered c base L s0 s'"
    by blast
  then show thesis using that [of s'] by (simp add: ppp_drop_out_def ppp_out_def drop_pbuf_def on_mem_def LINK_STATS_INC_def)
qed

lemma pppInput_discards:
  assumes a: "arrived c base L ext s0 ps (pih pd p pad @ data) (dv_mem w)" and len: "8 \<le> uint (pb_len (pm_pbuf (dv_mem w) (hd ps)))"
    and pad: "length pad = 2" and inv: "pbuf_inv c base L ext s0"
    and tossed: "ppp_discards phase p \<or> p \<in> {PPP_VJC_COMP, PPP_VJC_UNCOMP} \<or> p = PPP_IP \<and> \<not> netif_input"
  obtains s' where "pppInput c phase netif_input prots (hd ps) w = Inr (LINK_STATS_INC DROP (received s' w))"
    "pbuf_inv c base L ext s'" "recovered c base L s0 s'"
proof -
  note h = arrived_strip [OF a pih_length [OF pad] len inv] and r = pih_read [OF a len pad]
  let ?w = "received (moved (hd ps) (- 8) (dv_mem w)) w"
  have "pppInput c phase netif_input prots (hd ps) w = ppp_drop_out c (hd ps) ?w"
    using h(1) r(1) tossed by (auto simp: pppInput_def Let_def received_def PPP_IP_def PPP_VJC_COMP_def PPP_VJC_UNCOMP_def)
  moreover have "arrived c base L ext s0 ps data (dv_mem ?w)" using h(2) by (simp add: received_def LINK_STATS_INC_def)
  from drop_out_ok [OF this inv] obtain s' where "ppp_drop_out c (hd ps) ?w = Inr ((LINK_STATS_INC DROP ?w)\<lparr>dv_mem := s'\<rparr>)"
      "pbuf_inv c base L ext s'" "recovered c base L s0 s'" by blast
  ultimately show thesis using that [of s'] by (simp add: received_def LINK_STATS_INC_def)
qed

text \<open>A packet in one pbuf for a control protocol: its input function gets the octets, and the pbuf goes back to the pool.\<close>

lemma single_octets:
  assumes "arrived c base L ext s0 [q] data s"
  shows "pb_tot_len (pm_pbuf s q) = pb_len (pm_pbuf s q)" "octets s (pb_payload (pm_pbuf s q)) (unat (pb_len (pm_pbuf s q))) = data"
  using assms by (simp_all add: arrived_def lens_ok_def chain_bytes_def pbuf_bytes_def octets_def word_unat_eq_iff)

lemma pppInput_protocol:
  assumes a: "arrived c base L ext s0 [q] (pih pd p pad @ data) (dv_mem w)" and len: "8 \<le> uint (pb_len (pm_pbuf (dv_mem w) q))"
    and pad: "length pad = 2" and inv: "pbuf_inv c base L ext s0" and p: "(p, True) \<in> set prots" "\<not> ppp_discards phase p"
      "p \<notin> {PPP_IP, PPP_VJC_COMP, PPP_VJC_UNCOMP}" and unit: "0 \<le> pd" "pd < 2 ^ 31"
  obtains s' where "pppInput c phase netif_input prots q w = Inr (ppp_up (Up_protocol p pd data) (received s' w))"
    "pbuf_inv c base L ext s'" "recovered c base L s0 s'"
proof -
  have len': "8 \<le> uint (pb_len (pm_pbuf (dv_mem w) (hd [q])))" using len by simp
  note h = arrived_strip [OF a pih_length [OF pad] len' inv, simplified list.sel] and r = pih_read [OF a len' pad, simplified list.sel]
  let ?w = "received (moved q (- 8) (dv_mem w)) w"
  have pd: "sint (word_of_int pd :: u32) = pd" using unit by (simp add: sint_sbintrunc' signed_take_bit_int_eq_self)
  obtain n s' where s': "pbuf_free c (Some q) (moved q (- 8) (dv_mem w)) = Inr (n, s')" "pbuf_inv c base L ext s'" "recovered c base L s0 s'"
    using arrived_free [OF h(2) inv] by auto
  have "pppInput c phase netif_input prots q w = ppp_out c q (ppp_up (Up_protocol p pd data) ?w)"
    using h(1) r pd p single_octets [OF h(2)]
    by (simp add: pppInput_def Let_def received_def LINK_STATS_INC_def on_mem_def pppSingleBuf_def) (cases w, simp)
  then show thesis using that [of s'] s'
    by (simp add: ppp_out_def drop_pbuf_def on_mem_def ppp_up_def received_def LINK_STATS_INC_def)
qed

end
