(* ===== verification/Ppp_Frame_Correct.thy ===== *)
theory Ppp_Frame_Correct
  imports Ppp_Input
begin

text \<open>
  The properties of the PPP framing, with an example line: two ends with the memory of the example configuration, as
  \<open>pppOverSerialOpen\<close> leaves them, after a first flag.
\<close>

section \<open>An example line\<close>

definition line_pc :: PPPControl where
  "line_pc = (ppp_open \<lparr>openFlag = False, inHead = None, inTail = None, inState = PDIDLE, inEscaped = False, inProtocol = 0, inFCS = 0,
     pc_mtu = 1500, pcomp = False, accomp = False, lastXMit = 0, inACCM = (\<lambda>_. 0), outACCM = (\<lambda>_. 0)\<rparr>)\<lparr>inState := PDADDRESS, inFCS := PPP_INITFCS\<rparr>"

definition line_end :: ppp_dev where
  "line_end = \<lparr>dv_mem = pbuf_boot, dv_pc = line_pc, dv_stats = (\<lambda>_. 0), dv_sent = [], dv_mbox = [], dv_up = []\<rparr>"

abbreviation open_accm :: ext_accm where "open_accm \<equiv> (\<lambda>_. 0)(15 := 0x60)"

text \<open>An octet is escaped if its bit of the map is set.\<close>

lemma ESCAPE_P_bit: "ESCAPE_P a x \<longleftrightarrow> bit (a (unat x div 8)) (unat x mod 8)"
proof -
  have m: "unat (x AND 7) = unat x mod 8"
  proof -
    have "x AND 7 = take_bit 3 x" using take_bit_eq_mask [of 3 x] by (simp add: mask_eq_exp_minus_1 and.commute)
    then show ?thesis by (simp add: take_bit_eq_mod unat_mod)
  qed
  have "pppACCMMask ! k = 2 ^ k" if k: "k < 8" for k
  proof -
    consider "k = 0" | "k = 1" | "k = 2" | "k = 3" | "k = 4" | "k = 5" | "k = 6" | "k = 7" using k by fastforce
    then show ?thesis by cases (simp_all add: pppACCMMask_def)
  qed
  then show ?thesis by (simp add: ESCAPE_P_def m drop_bit_eq_div unat_div and_exp_eq_0_iff_not_bit)
qed

lemma accm_escapes:
  "ESCAPE_P (load_accm m open_accm) x \<longleftrightarrow> unat x < 32 \<and> bit m (unat x) \<or> x = PPP_ESCAPE \<or> x = PPP_FLAG"
proof -
  define n where "n = unat x"
  have x: "x = of_nat n" and n: "n < 256" using unat_lt2p [of x] by (simp_all add: n_def)
  have e: "x = PPP_ESCAPE \<or> x = PPP_FLAG \<longleftrightarrow> n = 125 \<or> n = 126" by (auto simp: n_def ppp_octets word_unat_eq_iff)
  consider "n < 32" | "32 \<le> n" "n div 8 \<noteq> 15" | "n div 8 = 15" by linarith
  then show ?thesis
  proof cases
    case 1
    have "(mask 8 :: u32) = 0xff" by (simp add: mask_eq_exp_minus_1)
    then have "bit (0xff :: u32) k" if "k < 8" for k using bit_mask_iff [of 8 k, where 'a = u32] that by (simp add: possible_bit_word)
    then have "bit (load_accm m open_accm (n div 8)) (n mod 8) \<longleftrightarrow> bit m n" using 1 by (auto simp: load_accm_def bit_simps)
    then show ?thesis using 1 e by (auto simp: ESCAPE_P_bit n_def)
  next
    case 2
    then have "n \<noteq> 125" "n \<noteq> 126" "\<not> n div 8 < 4" by auto
    then show ?thesis using 2 e by (simp add: ESCAPE_P_bit load_accm_def flip: n_def)
  next
    case 3
    then have "n \<in> {120..127}" by auto
    then consider "n = 120" | "n = 121" | "n = 122" | "n = 123" | "n = 124" | "n = 125" | "n = 126" | "n = 127" by fastforce
    then show ?thesis unfolding e ESCAPE_P_bit n_def [symmetric] by cases (simp_all add: load_accm_def)
  qed
qed

text \<open>The maps that \<open>ppp_send_config\<close> and \<open>ppp_recv_config\<close> set after \<open>pppOverSerialOpen\<close> agree when every control character the receiver
  asks for is escaped by the sender.\<close>

lemma config_match:
  assumes "\<forall>n. bit m n \<longrightarrow> bit m' n"
  shows "accm_match (outACCM (ppp_send_config mtu m' pcompression accompression (ppp_open pc))) (inACCM (ppp_recv_config m (ppp_open pc')))"
proof -
  have "\<not> ESCAPE_P (load_accm m open_accm) (x XOR PPP_TRANS)" if "ESCAPE_P (load_accm m' open_accm) x" for x
  proof -
    have b: "bit y k \<longleftrightarrow> odd (unat y div 2 ^ k)" for y :: u8 and k using bit_unsigned_iff [of y k, where 'a = nat] by (simp add: bit_iff_odd)
    from that consider "unat x < 32" | "x = PPP_ESCAPE" | "x = PPP_FLAG" by (auto simp: accm_escapes)
    then show ?thesis
    proof cases
      case 1
      then have "\<not> bit x 5" "\<not> bit x 6" by (simp_all add: b)
      then have "bit (x XOR PPP_TRANS) 5" "\<not> bit (x XOR PPP_TRANS) 6" by (simp_all add: bit_xor_iff ppp_octets)
      then show ?thesis by (auto simp: accm_escapes b ppp_octets)
    qed (simp_all add: accm_escapes ppp_octets)
  qed
  then show ?thesis using assms by (auto simp: accm_match_def ppp_send_config_def ppp_recv_config_def ppp_open_def accm_escapes)
qed

lemma open_accm_load: "load_accm 0 open_accm = open_accm"
  by (auto simp: load_accm_def)

lemma open_escapes: "ESCAPE_P open_accm x \<longleftrightarrow> x = PPP_ESCAPE \<or> x = PPP_FLAG"
  using accm_escapes [of 0 x] by (simp add: open_accm_load)

lemma open_match: "accm_match open_accm open_accm"
  using config_match [of 0 0] open_accm_load by (simp add: ppp_send_config_def ppp_recv_config_def ppp_open_def)

lemma boot_avail: "avail pbuf_example 8000 pbuf_boot = 3"
proof -
  let ?cf = "pc_memp pbuf_example" and ?t = "MEMP_PBUF_POOL pbuf_example"
  have cf: "memp_conf_ok ?cf" by (rule pbuf_conf_okD) simp
  have t: "?t < MEMP_MAX ?cf" using pbuf_sizes(7) [of pbuf_example] by simp
  have base: "memp_base ?cf 8000 = 8000" by (simp add: memp_base_def pbuf_example_def)
  have "free_elems (pm_memp pbuf_boot) ?t = pool_elems ?cf 8000 ?t"
    using free_elems_eq [OF memp_init_ok [OF cf, of 8000 memp_blank] t] base by (simp add: carve_set pool_elems_def pbuf_boot_def)
  then have "areas pbuf_example 8000 (pool pbuf_example) pbuf_boot = {}" by (simp add: areas_def pool_areas_def)
  then show ?thesis by (simp add: avail_def) (simp add: pbuf_example_def)
qed

lemma line_end_ready: "ready pbuf_example 8000 {} (\<lambda>_. 0) open_accm line_end"
  using boot_inv open_match by (simp add: ready_def line_end_def line_pc_def ppp_open_def plain_def)

lemma line_end_simps [simp]:
  "dv_mem line_end = pbuf_boot" "dv_pc line_end = line_pc" "outACCM line_pc = open_accm" "openFlag line_pc" "dv_mbox line_end = []"
  "PBUF_POOL_BUFSIZE pbuf_example = 100"
  by (simp_all add: line_end_def line_pc_def ppp_open_def pbuf_example_def)

section \<open>Packets across the line\<close>

lemma frame_length: "length (hdlc_frame a xs) \<le> 2 * length xs + 5"
  using stuff_length [of a "xs @ fcs_octets (fcs_of xs)"] by (simp add: hdlc_frame_def fcs_octets_def)

lemma header_length: "length (ppp_header pc p) \<le> 4"
  by (simp add: ppp_header_def)

lemma idle_flag_length: "length (idle_flag n l) \<le> 1"
  by (simp add: idle_flag_def)

lemma idle_flag_ignored:
  assumes "ready c base L ext a w"
  shows "pppInProc c post pd (idle_flag n l @ xs) w = pppInProc c post pd xs w"
  using flag_ready [OF assms, of post pd] by (simp add: idle_flag_def pppInProc_app del: pppInProc.simps(2))

lemma arrived_ready:
  assumes "ready c base L ext a w" "arrived c base L ext (dv_mem w) ps bs s'"
  shows "ready c base (L \<union> set ps) (ext(hd ps := 1)) a (pc_set (\<lambda>pc. pc\<lparr>inProtocol := p\<rparr>) (w\<lparr>dv_mem := s', dv_mbox := m\<rparr>))"
  using assms by (simp add: ready_def arrived_def plain_def)

lemma PPP_IP_ok: "protocol_ok PPP_IP"
  by (simp add: protocol_ok_def PPP_IP_def)

text \<open>A packet of two octets, one of which has to be escaped.\<close>

lemma example_packet:
  obtains p s where "pbuf_inv pbuf_example 8000 {p} ((\<lambda>_. 0)(p := 1)) s" "lst (nxt s) (Some p) [p]" "own_payloads s [p]"
    "chain_bytes s [p] = [0x45, 0x7e]" "avail pbuf_example 8000 s = 2"
  using boot_inv(1)
proof (cases rule: raw_alloc)
  case null
  then show thesis using boot_avail by simp
next
  case (some p s1)
  let ?E = "(\<lambda>_. 0 :: nat)(p := 1)"
  have b1: "bufs pbuf_example 8000 {} ?E pbuf_boot ([] @ [p]) [] s1" by (rule bufs_add [OF bufs_start [OF boot_inv(1)]]) (use some in simp_all)
  have n1: "uint (pb_len (pm_pbuf s1 p)) = 0" "nxt s1 p = None" by (simp_all add: some(4) raw_pbuf_def)
  define s where "s = store_char p 0x7e (store_char p 0x45 s1)"
  have "uint (pb_len (pm_pbuf s1 p)) < PBUF_POOL_BUFSIZE pbuf_example" using n1(1) by simp
  note b2 = bufs_store [OF b1 this, where x = "0x45"]
  have "uint (pb_len (pm_pbuf (store_char p 0x45 s1) p)) < PBUF_POOL_BUFSIZE pbuf_example" using b2(2) n1(1) by simp
  from bufs_store(1) [OF b2(1) this, of "0x7e"] have b: "bufs pbuf_example 8000 {} ?E pbuf_boot ([] @ [p]) [0x45, 0x7e] s" by (simp add: s_def)
  have "nxt s p = None" by (simp add: s_def store_char_eq n1(2))
  then show thesis
    using that [of p s] bufsD(3,5) [OF b] bufsD(4) [OF b, of p] bufs_avail [OF b] boot_avail by (simp add: own_payloads_def fillable_def)
qed

text \<open>Claim C7. A packet that \<open>pppifOutput\<close> sends arrives: when the line takes all octets, the escape maps of the two ends agree and the
  receiver's link is past authentication, the octets written to the line make \<open>pppInProc\<close> at the other end post one packet, a chain
  of pool pbufs with the octets of the packet behind the header for unit and protocol, whatever compression of the header fields was
  negotiated, and \<open>pppInput\<close>, called for that packet, passes exactly the octets that were sent to the input function of the network
  interface.  The sender's memory is as before, the receiver's holds one packet more, and the receiver is ready for the next frame.\<close>

theorem ppp_packet_roundtrip:
  assumes snd: "pbuf_inv c base L ext (dv_mem w)" "p \<in> L" "lst (nxt (dv_mem w)) (Some p) ps" "own_payloads (dv_mem w) ps" "openFlag (dv_pc w)"
    and line: "\<forall>xs ys. sio xs ys = length ys" and data: "data = chain_bytes (dv_mem w) ps"
    and fits: "2 * int (length data) + 14 < int (avail c base (dv_mem w)) * (PBUF_POOL_BUFSIZE c - 1)"
    and rcv: "ready c' base' L' ext' (outACCM (dv_pc w)) w'" "post (dv_mbox w')" "phase \<in> {PHASE_CALLBACK, PHASE_NETWORK, PHASE_TERMINATE}"
    and room: "length data + 10 < 65536" "int (length data) + 10 \<le> int (avail c' base' (dv_mem w')) * PBUF_POOL_BUFSIZE c'"
  shows "\<exists>u u' octs ps' pad s'. pppifOutput c sio now False 0 (Some p) w = Inr (ERR_OK, u) \<and> dv_sent u = dv_sent w @ octs \<and>
    line_kept c base L ext w u \<and> pppInProc c' post pd octs w' = Inr u' \<and> dv_mbox u' = dv_mbox w' @ [hd ps'] \<and> length pad = 2 \<and>
    arrived c' base' L' ext' (dv_mem w') ps' (pih pd PPP_IP pad @ data) (dv_mem u') \<and>
    ready c' base' (L' \<union> set ps') (ext'(hd ps' := 1)) (outACCM (dv_pc w)) u' \<and>
    pppInput c' phase True prots (hd ps') u' = Inr (ppp_up (Up_netif (hd ps')) (received s' u')) \<and>
    arrived c' base' L' ext' (dv_mem w') ps' data s'"
proof -
  let ?a = "outACCM (dv_pc w)" and ?xs = "ppp_header (dv_pc w) PPP_IP @ data"
  define frame where "frame = idle_flag (fst now) (lastXMit (dv_pc w)) @ hdlc_frame ?a ?xs"
  have "length frame \<le> 2 * length data + 14"
    using frame_length [of ?a ?xs] header_length [of "dv_pc w" PPP_IP] idle_flag_length [of "fst now" "lastXMit (dv_pc w)"] by (simp add: frame_def)
  then have short: "\<not> too_long c base frame w" using fits by (simp add: too_long_def)
  have pd: "0 \<le> (0 :: int)" "(0 :: int) < NUM_PPP" by (simp_all add: NUM_PPP_def)
  from pppifOutput_ok [OF snd(1-4) pd snd(5), of frame now sio] obtain u where
    u: "pppifOutput c sio now False 0 (Some p) w = Inr (ERR_OK, u)" "line_kept c base L ext w u" "written sio frame w u"
    using short unfolding frame_def data by blast
  from u(3) have sent: "dv_sent u = dv_sent w @ frame" using line by (auto simp: written_def)
  obtain s1 ps' pad where r: "length pad = 2" "arrived c' base' L' ext' (dv_mem w') ps' (pih pd PPP_IP pad @ data) s1"
      "8 \<le> uint (pb_len (pm_pbuf s1 (hd ps')))"
      "pppInProc c' post pd (hdlc_frame ?a ?xs) w' = Inr (pc_set (\<lambda>pc. pc\<lparr>inProtocol := PPP_IP\<rparr>) (w'\<lparr>dv_mem := s1, dv_mbox := dv_mbox w' @ [hd ps']\<rparr>))"
    using pppInProc_frame [where post = post and pd = pd and pc = "dv_pc w", OF rcv(1) PPP_IP_ok rcv(2) room] by blast
  let ?u = "pc_set (\<lambda>pc. pc\<lparr>inProtocol := PPP_IP\<rparr>) (w'\<lparr>dv_mem := s1, dv_mbox := dv_mbox w' @ [hd ps']\<rparr>)"
  have in_ok: "pppInProc c' post pd frame w' = Inr ?u" unfolding frame_def using r(4) idle_flag_ignored [OF rcv(1)] by simp
  have u': "pbuf_inv c' base' L' ext' (dv_mem w')" "arrived c' base' L' ext' (dv_mem w') ps' (pih pd PPP_IP pad @ data) (dv_mem ?u)"
    "8 \<le> uint (pb_len (pm_pbuf (dv_mem ?u) (hd ps')))" using rcv(1) r(2,3) by (simp_all add: ready_def)
  obtain s' where s': "pppInput c' phase True prots (hd ps') ?u = Inr (ppp_up (Up_netif (hd ps')) (received s' ?u))"
      "arrived c' base' L' ext' (dv_mem w') ps' data s'"
    using pppInput_ip [OF u'(2,3) r(1) u'(1) rcv(3), of prots] by blast
  show ?thesis
    using u sent in_ok r(1,2) arrived_ready [OF rcv(1) r(2)] s'
    by (intro exI [of _ u] exI [of _ ?u] exI [of _ frame] exI [of _ ps'] exI [of _ pad] exI [of _ s']) simp
qed

theorem ppp_packet_roundtrip_witness:
  "\<exists>w p u u' octs q qs s'. chain_bytes (dv_mem w) [p] = [0x45, 0x7e] \<and>
    pppifOutput pbuf_example (\<lambda>_. length) (200, 200) False 0 (Some p) w = Inr (ERR_OK, u) \<and> dv_sent u = dv_sent w @ octs \<and>
    pppInProc pbuf_example (\<lambda>_. True) 0 octs line_end = Inr u' \<and> dv_mbox u' = [q] \<and>
    pppInput pbuf_example PHASE_NETWORK True [] q u' = Inr (ppp_up (Up_netif q) (received s' u')) \<and>
    lst (nxt s') (Some q) qs \<and> chain_bytes s' qs = [0x45, 0x7e]"
proof -
  obtain p s where p: "pbuf_inv pbuf_example 8000 {p} ((\<lambda>_. 0)(p := 1)) s" "lst (nxt s) (Some p) [p]" "own_payloads s [p]"
    "chain_bytes s [p] = [0x45, 0x7e]" "avail pbuf_example 8000 s = 2" by (rule example_packet)
  let ?w = "line_end\<lparr>dv_mem := s\<rparr>"
  have "ready pbuf_example 8000 {} (\<lambda>_. 0) (outACCM (dv_pc ?w)) line_end" using line_end_ready by simp
  then obtain u u' octs ps' s' where "pppifOutput pbuf_example (\<lambda>_. length) (200, 200) False 0 (Some p) ?w = Inr (ERR_OK, u)"
      "dv_sent u = dv_sent ?w @ octs" "pppInProc pbuf_example (\<lambda>_. True) 0 octs line_end = Inr u'" "dv_mbox u' = dv_mbox line_end @ [hd ps']"
      "pppInput pbuf_example PHASE_NETWORK True [] (hd ps') u' = Inr (ppp_up (Up_netif (hd ps')) (received s' u'))"
      "arrived pbuf_example 8000 {} (\<lambda>_. 0) (dv_mem line_end) ps' [0x45, 0x7e] s'"
    using ppp_packet_roundtrip [of pbuf_example 8000 "{p}" "(\<lambda>_. 0)(p := 1)" ?w p "[p]" "\<lambda>_. length" "[0x45, 0x7e]"
        pbuf_example 8000 "{}" "\<lambda>_. 0" line_end "\<lambda>_. True" PHASE_NETWORK "(200, 200)" 0 "[]"] p boot_avail by auto
  then show ?thesis
    using p(4) by (intro exI [of _ ?w] exI [of _ p] exI [of _ u] exI [of _ u'] exI [of _ octs] exI [of _ "hd ps'"] exI [of _ ps'] exI [of _ s'])
      (simp add: arrived_def)
qed

section \<open>Frames out\<close>

text \<open>Claim C22. \<open>pppWrite\<close> returns with the frame of RFC 1662 on the line, as far as the line takes it, or, when all free pbufs of the
  pool together are too small for the frame, with \<open>PPPERR_ALLOC\<close> and nothing written.  In both cases every pbuf it took is back in
  the pool, the pbufs of others and their octets are untouched, and of the control block only the time of the last transmission changes.\<close>

theorem pppWrite_frame:
  assumes "pbuf_inv c base L ext (dv_mem w)" "frame = idle_flag (fst now) (lastXMit (dv_pc w)) @ hdlc_frame (outACCM (dv_pc w)) s"
  shows "\<exists>r w'. pppWrite c sio now s w = Inr (r, w') \<and> line_kept c base L ext w w' \<and>
    (r = PPPERR_NONE \<and> written sio frame w w' \<or> r = PPPERR_ALLOC \<and> too_long c base frame w \<and> dv_sent w' = dv_sent w)"
  using assms by (rule pppWrite_ok)

theorem pppWrite_frame_witness:
  "\<exists>w'. pppWrite pbuf_example (\<lambda>_. length) (0, 0) [0xff, 0x03, 0xc0, 0x21, 0x7d] line_end = Inr (PPPERR_NONE, w') \<and>
    dv_sent w' = hdlc_frame open_accm [0xff, 0x03, 0xc0, 0x21, 0x7d]"
proof -
  let ?s = "[0xff, 0x03, 0xc0, 0x21, 0x7d] :: u8 list"
  have f: "idle_flag 0 (lastXMit line_pc) = []" by (simp add: idle_flag_def line_pc_def ppp_open_def PPP_MAXIDLEFLAG_def)
  have "\<not> too_long pbuf_example 8000 (hdlc_frame open_accm ?s) line_end"
    using frame_length [of open_accm ?s] by (simp add: too_long_def boot_avail)
  moreover have "written (\<lambda>_. length) (hdlc_frame open_accm ?s) line_end w' \<longleftrightarrow> dv_sent w' = hdlc_frame open_accm ?s" for w'
    by (auto simp: written_def line_end_def)
  ultimately show ?thesis
    using pppWrite_frame [of pbuf_example 8000 "{}" "\<lambda>_. 0" line_end "hdlc_frame open_accm ?s" "(0, 0)" ?s "\<lambda>_. length"] boot_inv(1)
    by (auto simp: f)
qed

section \<open>The check sequence\<close>

text \<open>Claim C23. The table-driven macro computes, over any octets, the 16 bit cyclic redundancy check of RFC 1662 with the reversed
  polynomial \<open>0x8408\<close>, bit by bit; and the complement of the value, sent low octet first, brings every receiver to the constant
  \<open>PPP_GOODFCS\<close> that \<open>pppInProc\<close> compares with.\<close>

theorem PPP_FCS_crc:
  "foldl PPP_FCS (ucast f) xs = ucast (foldl crc_octet f xs) \<and>
   foldl PPP_FCS (ucast f) (xs @ fcs_octets (foldl crc_octet f xs)) = ucast PPP_GOODFCS"
proof -
  have "foldl PPP_FCS (ucast g) ys = ucast (foldl crc_octet g ys)" for g ys
    by (induction ys arbitrary: g) (simp_all add: PPP_FCS_octet)
  then show ?thesis by (simp add: good_fcs)
qed

section \<open>Frames that do not arrive\<close>

text \<open>Claim C15. A frame of which one octet is changed on the line is never delivered: when \<open>pppInProc\<close> gets a frame of \<open>pppWrite\<close> or
  \<open>pppifOutput\<close> with one octet in front of the closing flag changed, in the header, the data or the check sequence, escaped or not, it
  posts nothing, counts the frame as dropped, with a checksum error or, when no complete header is left, a length error, gives every
  pbuf back, leaves the pbufs of others alone and is ready for the next frame.  Changes that make or undo a framing character are not
  covered, for the check sequence does not detect them: when the escape character is lost, or an octet becomes a character that the
  receiver drops, the frame has another length; when an octet becomes a flag, the octets in front of it count as a frame
  of their own, and are delivered if they happen to end in their own check sequence.\<close>

theorem pppInProc_drops_damaged:
  assumes r: "ready c base L ext a w" and line: "hdlc_frame a xs = us @ x # vs @ [PPP_FLAG]"
    and xy: "x \<noteq> PPP_ESCAPE" "y \<noteq> x" "\<not> ESCAPE_P (inACCM (dv_pc w)) y"
    and room: "length xs + 9 < 65536" "int (length xs) + 9 \<le> int (avail c base (dv_mem w)) * PBUF_POOL_BUFSIZE c"
  shows "\<exists>w'. pppInProc c post pd (us @ y # vs @ [PPP_FLAG]) w = Inr w' \<and>
    dv_mbox w' = dv_mbox w \<and> ready c base L ext a w' \<and> recovered c base L (dv_mem w) (dv_mem w') \<and>
    (\<exists>k\<in>{CHKERR, LENERR}. dv_stats w' = (dv_stats w)(k := dv_stats w k + 1, DROP := dv_stats w DROP + 1))"
  using damaged_frame [OF assms, of post pd] unfolding dropped_def by metis

theorem pppInProc_drops_damaged_witness:
  "\<exists>us vs. hdlc_frame open_accm (ppp_header line_pc PPP_IP @ [0x45]) = us @ 0x45 # vs @ [PPP_FLAG] \<and>
    (\<exists>w'. pppInProc pbuf_example (\<lambda>_. True) 0 (us @ 0x46 # vs @ [PPP_FLAG]) line_end = Inr w' \<and> dv_mbox w' = [] \<and> dv_stats w' DROP = 1)"
proof -
  let ?xs = "ppp_header line_pc PPP_IP @ [0x45]"
  let ?us = "stuff open_accm (ppp_header line_pc PPP_IP)" and ?vs = "stuff open_accm (fcs_octets (fcs_of ?xs))"
  have line: "hdlc_frame open_accm ?xs = ?us @ 0x45 # ?vs @ [PPP_FLAG]"
    by (simp add: hdlc_frame_def esc_def open_escapes ppp_octets)
  have "\<not> ESCAPE_P (inACCM (dv_pc line_end)) 0x46" by (simp add: line_end_def line_pc_def ppp_open_def open_escapes ppp_octets)
  moreover have "length ?xs \<le> 5" using header_length [of line_pc PPP_IP] by simp
  ultimately have "\<exists>w'. pppInProc pbuf_example (\<lambda>_. True) 0 (?us @ 0x46 # ?vs @ [PPP_FLAG]) line_end = Inr w' \<and>
    dv_mbox w' = dv_mbox line_end \<and> ready pbuf_example 8000 {} (\<lambda>_. 0) open_accm w' \<and> recovered pbuf_example 8000 {} (dv_mem line_end) (dv_mem w') \<and>
    (\<exists>k\<in>{CHKERR, LENERR}. dv_stats w' = (dv_stats line_end)(k := dv_stats line_end k + 1, DROP := dv_stats line_end DROP + 1))"
    by (intro pppInProc_drops_damaged [OF line_end_ready line]) (simp_all add: boot_avail ppp_octets)
  then show ?thesis using line by (intro exI [of _ ?us] exI [of _ ?vs]) (auto simp: line_end_def)
qed

text \<open>Claim C35. Two zero octets between two flags end the receiver: they are read as a protocol field, their check sequence is good, and
  \<open>pppInProc\<close> trims the check sequence off a pbuf that was never allocated, through a null pointer, whatever packets are in
  memory.\<close>

theorem pppInProc_null_frame:
  assumes "ready c base L ext a w"
  shows "pppInProc c post pd (stuff a [0, 0] @ [PPP_FLAG]) w = Inl NullDeref"
  using assms by (rule pppInProc_empty)

theorem pppInProc_null_frame_witness: "pppInProc pbuf_example (\<lambda>_. True) 0 [0, 0, PPP_FLAG] line_end = Inl NullDeref"
proof -
  have "stuff open_accm [0, 0] = [0, 0]" by (simp add: esc_def open_escapes ppp_octets)
  then show ?thesis using pppInProc_null_frame [OF line_end_ready, of "\<lambda>_. True" 0] by simp
qed

text \<open>Claim C34. Nothing bounds the length of a frame but the pool.  When a frame fills all free pbufs of the pool, at least two, the
  next octet makes \<open>pppInProc\<close> free the last pbuf twice: it has just been chained to the others when the allocation fails, and
  \<open>pppDrop\<close> frees it on its own and again with the chain, against the assertion of \<open>pbuf_free\<close>.\<close>

theorem pppInProc_long_frame:
  assumes "ready c base L ext a w" "protocol_ok p" "2 \<le> avail c base (dv_mem w)"
    "int (length xs) + 8 = int (avail c base (dv_mem w)) * PBUF_POOL_BUFSIZE c" "length xs + 8 < 65536"
  shows "pppInProc c post pd (stuff a (ppp_header pc p @ xs @ [x]) @ rest) w = Inl (AssertFail ''pbuf_free: p->ref > 0'')"
  using assms by (rule pppInProc_overflow)

theorem pppInProc_long_frame_witness:
  "pppInProc pbuf_example (\<lambda>_. True) 0 (stuff open_accm (ppp_header line_pc PPP_IP @ replicate 292 0 @ [0]) @ [PPP_FLAG]) line_end =
    Inl (AssertFail ''pbuf_free: p->ref > 0'')"
  by (rule pppInProc_long_frame [OF line_end_ready PPP_IP_ok]) (simp_all add: boot_avail)

end
