(* ===== verification/Spec2Isabelle.thy ===== *)
theory Spec2Isabelle
  imports Wideint_Correct Lwip_Chksum_Correct Lwip_Memp Fec_System Fec_Agent_Correct Ppp_Fsm_Correct Ppp_Frame_Correct
begin

text \<open>
  The repository is ns-3.35 with a forward error correction (FEC) module and the network simulation cradle
  (nsc). This library models the parts of it that carry logic of their own and can be stated without
  floating-point numbers, and proves what makes them correct. Paths below are relative to \<open>src/\<close>.

  \<^bold>\<open>The parts and how they interact.\<close>

  \<^item> FEC (\<open>contrib/fec/model\<close>). A sender groups the packets of a round and adds one redundant packet per
    group; a receiver that misses exactly one packet of a group rebuilds it. Sender and receiver of a flow hold
    one and the same agent, whose tables the sender extends at the back and the receiver consumes at the front.
    \<open>FecAgent\<close> works end to end and is driven by \<open>TcpSocketBase\<close>; \<open>FecRouterAgent\<close> works between two routers
    and is driven by \<open>Ipv4L3ProtocolwithFecEncode\<close> and \<open>...Decode\<close>. Both put a \<open>FecTag\<close> on packets.
  \<^item> Wide integers (\<open>src/core/model/cairo-wideint.c\<close>): the arithmetic under the simulation time of ns-3 on hosts
    without a 128-bit type.
  \<^item> lwIP 1.3.0 (\<open>nsc/lwip-1.3.0/src\<close>), a C stack that nsc compiles into simulations. From below: the heap \<open>mem.c\<close>
    and the pools \<open>memp.c\<close> provide memory; \<open>pbuf.c\<close> builds reference counted chains of packet buffers from
    both; \<open>inet.c\<close> and \<open>inet_chksum.c\<close> provide byte order, addresses and checksums; \<open>netif/ppp/fsm.c\<close> is the
    negotiation automaton that LCP and IPCP instantiate; \<open>netif/ppp/ppp.c\<close> frames packets for a
    serial line and hands received packets up.

  \<^bold>\<open>Theories and sources.\<close>

  \<^item> \<open>Prelude\<close>: machine integers as words, facts on words in two halves, results that may be errors. lwIP code
    returns \<open>lwip\<close>, a sum whose left side is a failed assertion, an endless loop or a null dereference; ns-3 code
    returns \<open>ns3\<close> (in \<open>Fec_Tag\<close>), whose left side is an assertion, a division by zero, an access to an empty container, a
    value that was never set or an endless loop.
  \<^item> \<open>Wideint\<close>, \<open>Wideint_Correct\<close>: every function of \<open>cairo-wideint.c\<close>. The C text of the 128-bit half is compiled
    against one of two 64-bit layers, which here is a record of operations. The locale \<open>uint64_impl\<close> is its
    contract, interpreted on both layers; \<open>bit_divider\<close> is the contract of the two bit-at-a-time divisions.
  \<^item> \<open>Lwip_Inet\<close>, \<open>Lwip_Chksum\<close>, \<open>Lwip_Chksum_Correct\<close>: \<open>inet.c\<close> and \<open>inet_chksum.c\<close>. The locale \<open>lwip_chksum\<close> says
    what the packet routines need of an inner routine and is interpreted on all three of them.
  \<^item> \<open>Allocator\<close>: the contract between an allocator and its clients, as a locale, with the safety of request
    sequences proved once. \<open>Lwip_Mem\<close>, \<open>Lwip_Mem_Correct\<close> (the heap, as a map from offsets to block headers) and
    \<open>Lwip_Memp\<close> (the pools, as free lists) interpret it.
  \<^item> \<open>Lwip_Pbuf\<close>: \<open>pbuf.c\<close>, every function, over the two allocators. A struct is a record in a store by address.
    \<open>Lwip_Pbuf_Mem\<close> joins the allocators' contracts; \<open>Lwip_Pbuf_Refs\<close> has the invariant that a reference count is the
    number of pointers to a pbuf and the proofs for \<open>pbuf_free\<close>, \<open>pbuf_ref\<close>, \<open>pbuf_cat\<close>; \<open>Lwip_Pbuf_Alloc\<close>,
    \<open>Lwip_Pbuf_Ops\<close> and \<open>Lwip_Pbuf_Realloc\<close> treat the other operations, \<open>Lwip_Pbuf_Correct\<close> runs of a client.
  \<^item> \<open>Ppp_Fsm\<close>, \<open>Ppp_Fsm_Correct\<close>: \<open>fsm.c\<close>, every function; the callbacks of the instances are arguments that may act
    on the whole state. The abstract specification is the transition table of RFC 1661.
  \<^item> \<open>Ppp_Frame\<close>: the serial half of \<open>ppp.c\<close> (\<open>pppWrite\<close>, \<open>pppifOutput\<close>, \<open>pppInProc\<close>, \<open>pppInput\<close> and what they call), over
    \<open>pbuf.c\<close>. \<open>Ppp_Fcs\<close> has the check sequence, with a locale for its laws interpreted on the table; \<open>Ppp_Bufs\<close> chains of pool
    pbufs under construction; \<open>Ppp_Frame_Out\<close> the reference definition of a frame and the proofs for output;
    \<open>Ppp_Frame_In\<close>, \<open>Ppp_Deliver\<close>, \<open>Ppp_Drop\<close> and \<open>Ppp_Input\<close> those for input; \<open>Ppp_Frame_Correct\<close> both ends of a line.
  \<^item> \<open>Fec_Tag\<close>: \<open>fec-tag.cc\<close> over the tag buffer of ns-3, and packets as a tag, a stack of headers and a size.
    \<open>Sequence_Number\<close>: \<open>sequence-number.h\<close> at 32 bits.
  \<^item> \<open>Fec_Core\<close>: the tables of both agents (round tables, group tables, transit queue) and the loops over them.
    \<open>Fec_Agent\<close> and \<open>Fec_Tcp\<close>: \<open>fec-agent.cc\<close> and the code of \<open>tcp-socket-base.cc\<close> that calls it. \<open>Fec_Router\<close> and
    \<open>Fec_L3\<close>: \<open>fec-router-agent.cc\<close> and the two router drivers. \<open>Fec_Decoder\<close> has the decoding steps the agents
    share as a locale, interpreted on both in \<open>Fec_Agent_Correct\<close> and \<open>Fec_Router_Correct\<close>. \<open>Fec_Views\<close> and
    \<open>Fec_System\<close> put both routers, the link between them and the shared agent into one state machine. The packet that a router
    sends is shared with the interface: \<open>Ipv4Interface_Send\<close> puts the IP and PPP headers on it, at once, while redundant packets
    are sent, or not before the call returns (\<open>handover\<close>), which is left to the queueing discipline.

  Structs and classes are records with the fields of the source, enumerations are datatypes, one definition
  stands for one function or for one loop or switch of it, and names are those of the source, with a prefix where
  HOL or another component has the name already.

  \<^bold>\<open>What the lemmas show.\<close>

  \<^item> FEC: the routers never get stuck, in whatever order packets are sent, lost and delivered in order, as long as no packet is of a
    size that the IP and PPP headers take across the segment size; one that is gets the tables out of step, up to an endless loop
    (\<open>SendRealOut_misaligned\<close>); a redundant packet
    recovers exactly the groups with one loss, with the headers they were sent with, in rounds with few losses; the transit queue sorts
    stably; the window that \<open>RedundancyControl\<close> chooses fits; tags survive a round trip; sequence numbers are
    ordered. What does not hold is proved too: the last group of a round is never recovered, a
    redundant packet of a cleared group and an empty window make loops run forever.
  \<^item> Wide integers: ring operations, shifts and divisions agree with 128-bit words in both builds; the division by
    zero diverges, and the native 96 by 64 bit division is exact for just the divisors whose low 32 bits are zero or above
    \<open>2 ^ 31\<close>.
  \<^item> Allocators: all legal request sequences run without failing assertions. A client that keeps the pointers it is given
    (\<open>run_requests\<close>) holds areas of the sizes it asked for that are separate, aligned and in range; a pool serves a request
    exactly when fewer than its elements are held, and a heap that has everything back serves as much as at first. The
    operations are described branch by branch, shrinking to the exact size included.
  \<^item> Packet buffers: any run of a client that uses what it holds keeps reference counts, lengths and memory accounts,
    and leaks nothing; allocation, freeing, headers and copies are described exactly; a
    \<open>PBUF_RAM\<close> request can wrap the heap's size type.
  \<^item> Checksums: the three inner routines agree with the folded one's complement sum; a packet with its checksum checks
    to 0, and single changed octets are detected.
  \<^item> PPP negotiation: the automaton refines RFC 1661 with three named exceptions; timers are pending while it waits; it opens only
    after a complete handshake; a silent peer does not block it; one packet can strand it.
    These results hold for callbacks that work on their own state only: one that calls the automaton back, as IPCP's callback for
    a finished link does through LCP, is outside of them.
  \<^item> PPP framing: what one end sends the other end's network interface gets, octet by octet, when the escape maps agree, which they do
    as configured (\<open>config_match\<close>); \<open>pppWrite\<close> sends the frame of RFC 1662 or nothing and never leaks a pbuf; the table
    is the cyclic redundancy check; a frame in which one octet other than an escape is changed on the line, to one that is not escaped there, is dropped
    and its pbufs are recovered. A frame without data
    and a frame longer than the pool are shown to break the receiver.

  \<^bold>\<open>Bounds, loops and configuration.\<close>

  C and C++ loops without an evident bound are \<open>partial_function (option)\<close>: not returning is a value, and the
  theorems state that the loops return where they do (the heap searches, the divisions, the loops over pbuf chains) and that
  they do not where they do not. The loops that empty a queue (\<open>free_turns\<close>, \<open>request_turns\<close>,
  \<open>tcp_free_turns\<close>) count down from the length of the queue plus one; one turn removes an element, so this is enough,
  and \<open>free_turns_ok\<close> and \<open>request_turns_ok\<close> prove it. Integers keep their width. lwIP is taken in the default
  configuration of \<open>opt.h\<close>: a 16-bit \<open>mem_size_t\<close>, no operating system below \<open>mem.c\<close>, \<open>memp.c\<close> and \<open>pbuf.c\<close>
  (so critical regions are empty), a little-endian host, alignments 1, 2, 4 and 8. Failing assertions are
  errors of the model although the port's own \<open>LWIP_PLATFORM_ASSERT\<close> never stops the program. Addresses are integers;
  the struct of a pbuf and the octets of payloads are separate stores, since no modelled code reads one as the other.

  \<^bold>\<open>Not modelled.\<close>

  The wireless, mobility, energy and error models, queue disciplines and statistics of ns-3 compute with floating-point
  numbers or random variables. Its event loop, object system, attributes and packet metadata are glue around
  callbacks whose behaviour lies in the scenarios. Of the IPv4 and TCP code only what the FEC module changed is
  modelled. Helpers, tests, examples, bindings, build scripts and the globaliser of nsc configure or generate
  and keep no protocol state. The kernels that nsc embeds (FreeBSD, OpenBSD, Linux) are third-party code compiled as it
  is. The protocols of lwIP above packet buffers, checksums and the PPP link (IP, TCP, UDP, DHCP, DNS, SNMP, ARP and the
  socket interface), and the option handling of LCP and IPCP, are left out, as are memp's optional overflow regions and list check, the increment and stream
  operators of sequence numbers, the printed output of the agents, the rate control factor of \<open>FecAgent\<close>, which is a double, and of
  \<open>ppp.c\<close> the thread of the interface, PPP over Ethernet and header compression (the last two switched off in \<open>opt.h\<close>).
\<close>

end
